(* ===== verification/Prelude.thy ===== *)
theory Prelude
  imports Main "HOL-Library.Word"
begin

text \<open>
  Shared vocabulary of the development: the fixed-width integer types of the
  firmware's C code, byte strings and the parts of the C library the sources use on
  them, wrap-safe time arithmetic, and the generic lemmas on lists and words that the
  component theories share.
\<close>

unbundle bit_operations_syntax

section \<open>Machine types\<close>

type_synonym u8 = "8 word"
type_synonym u16 = "16 word"
type_synonym u32 = "32 word"
type_synonym u64 = "64 word"

text \<open>A C object of type \<open>uint8_t[]\<close> or \<open>char[]\<close> (plain \<open>char\<close> is unsigned on the
  target) is a list of bytes.\<close>

type_synonym bytes = "u8 list"

named_theorems time_simps \<open>wrap-safe comparisons of millisecond stamps\<close>
named_theorems mask_simps \<open>bitwise facts on port masks\<close>

section \<open>Byte strings\<close>

text \<open>A C string literal as its bytes, without the terminating NUL.\<close>

definition ascii :: "string \<Rightarrow> bytes" where
  "ascii s = map of_char s"

lemma length_ascii [simp]: "length (ascii s) = length s"
  by (simp add: ascii_def)

text \<open>\<open>memcpy (out + off, src, length src)\<close> into, and \<open>memcpy (dst, data + off, n)\<close> out of, an
  array. Both are used inside the array only.\<close>

definition poke :: "nat \<Rightarrow> 'a list \<Rightarrow> 'a list \<Rightarrow> 'a list" where
  "poke off src out = take off out @ src @ drop (off + length src) out"

definition peek :: "nat \<Rightarrow> nat \<Rightarrow> 'a list \<Rightarrow> 'a list" where
  "peek off n data = take n (drop off data)"

named_theorems layout_simps \<open>reads of an array after writes into it\<close>

lemma length_poke [layout_simps]:
  "off + length src \<le> length out \<Longrightarrow> length (poke off src out) = length out"
  by (simp add: poke_def)

lemma length_peek [layout_simps]: "off + n \<le> length data \<Longrightarrow> length (peek off n data) = n"
  by (simp add: peek_def)

lemma peek_poke_same [layout_simps]:
  "off + length src \<le> length out \<Longrightarrow> n = length src \<Longrightarrow> peek off n (poke off src out) = src"
  by (simp add: poke_def peek_def)

lemma nth_poke:
  "off + length src \<le> length out \<Longrightarrow> i < length out \<Longrightarrow>
    poke off src out ! i = (if off \<le> i \<and> i < off + length src then src ! (i - off) else out ! i)"
  by (auto simp: poke_def nth_append min_def not_less)

lemma nth_peek: "i < n \<Longrightarrow> off + n \<le> length data \<Longrightarrow> peek off n data ! i = data ! (off + i)"
  by (simp add: peek_def)

lemma peek_poke_before [layout_simps]:
  "off' + n \<le> off \<Longrightarrow> off + length src \<le> length out \<Longrightarrow>
    peek off' n (poke off src out) = peek off' n out"
  by (intro nth_equalityI) (auto simp: nth_peek nth_poke length_peek length_poke)

lemma peek_poke_after [layout_simps]:
  "off + length src \<le> off' \<Longrightarrow> off' + n \<le> length out \<Longrightarrow> off + length src \<le> length out \<Longrightarrow>
    peek off' n (poke off src out) = peek off' n out"
  by (intro nth_equalityI) (auto simp: nth_peek nth_poke length_peek length_poke)

lemma poke_replicate_first: "poke 0 src (replicate k z) = src @ replicate (k - length src) z"
  by (simp add: poke_def)

text \<open>Filling a zeroed array front to back.\<close>

lemma poke_replicate_next:
  "off = length a \<Longrightarrow> poke off src (a @ replicate k z) = (a @ src) @ replicate (k - length src) z"
  by (simp add: poke_def)

lemma peek_append_skip: "length a \<le> off \<Longrightarrow> peek off n (a @ b) = peek (off - length a) n b"
  by (simp add: peek_def)

lemma peek_append_hit: "n = length a \<Longrightarrow> peek 0 n (a @ b) = a"
  by (simp add: peek_def)

lemma peek_Cons_skip: "0 < off \<Longrightarrow> peek off n (x # xs) = peek (off - 1) n xs"
  by (cases off) (simp_all add: peek_def)

text \<open>A \<open>bool\<close> stored in a byte.\<close>

definition byte_of_bool :: "bool \<Rightarrow> u8" where
  "byte_of_bool b = (if b then 1 else 0)"

lemma byte_of_bool_simps [simp]:
  "byte_of_bool b = 0 \<longleftrightarrow> \<not> b" "\<not> 1 < byte_of_bool b"
  by (simp_all add: byte_of_bool_def)

text \<open>Little-endian 32-bit words.\<close>

definition get32 :: "bytes \<Rightarrow> u32" where
  "get32 p = ucast (p ! 0) OR push_bit 8 (ucast (p ! 1)) OR push_bit 16 (ucast (p ! 2))
     OR push_bit 24 (ucast (p ! 3))"

definition put32 :: "u32 \<Rightarrow> bytes" where
  "put32 x = map (\<lambda>i. ucast (drop_bit (8 * i) x)) [0..<4]"

lemma length_put32 [simp]: "length (put32 x) = 4"
  by (simp add: put32_def)

lemma put32_Cons: "put32 x = [ucast x, ucast (drop_bit 8 x), ucast (drop_bit 16 x), ucast (drop_bit 24 x)]"
  by (simp add: put32_def upt_rec)

lemma get32_put32 [simp]: "get32 (put32 x) = x"
proof (rule bit_word_eqI)
  fix n
  assume "n < LENGTH(32)"
  then consider "n < 8" | "8 \<le> n" "n < 16" | "16 \<le> n" "n < 24" | "24 \<le> n" "n < 32"
    by fastforce
  then show "bit (get32 (put32 x)) n = bit x n"
    by cases (auto simp: get32_def put32_Cons bit_simps)
qed

section \<open>Bit fields\<close>

text \<open>Read-modify-write of a register: clear the field mask \<open>m\<close>, insert \<open>v\<close>.\<close>

lemma field_keep [mask_simps]:
  fixes x v m :: "'a::len word"
  assumes "v AND NOT m = 0"
  shows "((x AND NOT m) OR v) AND NOT m = x AND NOT m"
  using assms by (auto simp: bit_eq_iff bit_simps)

lemma field_get [mask_simps]:
  fixes x v m k :: "'a::len word"
  assumes "k AND NOT m = 0"
  shows "((x AND NOT m) OR v) AND k = v AND k"
  using assms by (auto simp: bit_eq_iff bit_simps)

lemma field_get_or:
  fixes x v m k :: "'a::len word"
  assumes "k AND NOT m AND NOT v = 0" and "v AND k = r"
  shows "((x AND NOT m) OR v) AND k = r"
  using assms by (auto simp: bit_eq_iff bit_simps)

lemma field_keep_weaker:
  fixes x v m k :: "'a::len word"
  assumes "v AND NOT k = 0" and "m AND NOT k = 0"
  shows "((x AND NOT m) OR v) AND NOT k = x AND NOT k"
  using assms by (auto simp: bit_eq_iff bit_simps)

lemma xor_cancel_left [simp]:
  fixes a b c :: "'a::len word"
  shows "a XOR b = a XOR c \<longleftrightarrow> b = c"
  by (auto simp: bit_eq_iff bit_xor_iff)

lemma xor_cancel_right [simp]:
  fixes a b c :: "'a::len word"
  shows "b XOR a = c XOR a \<longleftrightarrow> b = c"
  by (auto simp: bit_eq_iff bit_xor_iff)

lemma drop_bit_field:
  fixes x k :: "'a::len word"
  shows "drop_bit n x AND k = drop_bit n (x AND push_bit n k)"
  by (auto simp: bit_eq_iff bit_simps dest: bit_imp_le_length)

section \<open>Wrap-safe elapsed time\<close>

text \<open>The firmware compares 32-bit millisecond stamps by the wrapped difference
  \<open>(uint32_t)(now - then)\<close>. If both stamps are truncations of a real, never wrapping
  clock, the wrapped difference never exceeds the real one, and equals it while less
  than one full wrap has passed.\<close>

abbreviation stamp :: "nat \<Rightarrow> u32" where
  "stamp t \<equiv> word_of_nat t"

lemma unat_stamp_diff:
  assumes "t0 \<le> t"
  shows "unat (stamp t - stamp t0) = (t - t0) mod 2 ^ 32"
proof -
  have "stamp t - stamp t0 = stamp (t - t0)"
    using assms by (simp add: of_nat_diff)
  then show ?thesis
    by (simp add: unat_of_nat)
qed

lemma stamp_diff_le [time_simps]:
  assumes "t0 \<le> t"
  shows "unat (stamp t - stamp t0) \<le> t - t0"
  by (simp add: unat_stamp_diff assms)

lemma stamp_elapsed:
  assumes "d \<le> stamp t - stamp t0" and "t0 \<le> t"
  shows "t0 + unat d \<le> t"
proof -
  have "unat d \<le> unat (stamp t - stamp t0)"
    using assms(1) by (simp add: word_le_nat_alt)
  with stamp_diff_le [OF assms(2)] assms(2) show ?thesis by linarith
qed

lemma stamp_not_yet:
  assumes "t0 \<le> t" and "t < t0 + unat d"
  shows "\<not> d \<le> stamp t - stamp t0"
  using stamp_elapsed [of d t t0] assms by auto

lemma stamp_reached:
  assumes "t0 + unat d \<le> t" and "t - t0 < 2 ^ 32"
  shows "d \<le> stamp t - stamp t0"
  using assms by (simp add: word_le_nat_alt unat_stamp_diff)


section \<open>Runs of deterministic machines and their timed refinement\<close>

text \<open>A component whose operation is called repeatedly is run over a list of events, one
  output per event.\<close>

primrec run :: "('s \<Rightarrow> 'e \<Rightarrow> 'o \<times> 's) \<Rightarrow> 's \<Rightarrow> 'e list \<Rightarrow> 'o list \<times> 's" where
  "run f s [] = ([], s)"
| "run f s (e # es) =
     (case f s e of (a, s1) \<Rightarrow> (case run f s1 es of (as, s2) \<Rightarrow> (a # as, s2)))"

lemma fst_run_Cons:
  "fst (run f s (e # es)) = fst (f s e) # fst (run f (snd (f s e)) es)"
  by (simp split: prod.splits)

lemma snd_run_Cons: "snd (run f s (e # es)) = snd (run f (snd (f s e)) es)"
  by (simp split: prod.splits)

lemma length_run [simp]: "length (fst (run f s es)) = length es"
  by (induction es arbitrary: s) (simp_all add: fst_run_Cons del: run.simps(2))

text \<open>Events carry the real time at which they happen; \<open>adm t e\<close> says that event \<open>e\<close> may
  follow time \<open>t\<close>.\<close>

fun admissible :: "(nat \<Rightarrow> 'e \<Rightarrow> bool) \<Rightarrow> ('e \<Rightarrow> nat) \<Rightarrow> nat \<Rightarrow> 'e list \<Rightarrow> bool" where
  "admissible adm tm t [] = True"
| "admissible adm tm t (e # es) = (adm t e \<and> admissible adm tm (tm e) es)"

text \<open>The contract between a machine that keeps truncated stamps and a reference machine over
  an unbounded clock: related states give equal outputs and related successors.\<close>

locale timed_refinement =
  fixes cstep :: "'c \<Rightarrow> 'e \<Rightarrow> 'o \<times> 'c"
    and astep :: "'a \<Rightarrow> 'e \<Rightarrow> 'o \<times> 'a"
    and tm :: "'e \<Rightarrow> nat"
    and adm :: "nat \<Rightarrow> 'e \<Rightarrow> bool"
    and rel :: "nat \<Rightarrow> 'c \<Rightarrow> 'a \<Rightarrow> bool"
  assumes step_output: "rel t c a \<Longrightarrow> adm t e \<Longrightarrow> fst (cstep c e) = fst (astep a e)"
    and step_rel: "rel t c a \<Longrightarrow> adm t e \<Longrightarrow> rel (tm e) (snd (cstep c e)) (snd (astep a e))"
begin

lemma run_output:
  "rel t c a \<Longrightarrow> admissible adm tm t es \<Longrightarrow> fst (run cstep c es) = fst (run astep a es)"
proof (induction es arbitrary: t c a)
  case Nil
  then show ?case by simp
next
  case (Cons e es)
  then have "rel (tm e) (snd (cstep c e)) (snd (astep a e))"
    by (auto intro: step_rel)
  with Cons show ?case
    unfolding fst_run_Cons by (auto dest: step_output)
qed

lemma run_rel:
  "rel t c a \<Longrightarrow> admissible adm tm t es \<Longrightarrow>
    rel (tm (last (e0 # es))) (snd (run cstep c es)) (snd (run astep a es))"
  if "tm e0 = t"
  using that
proof (induction es arbitrary: t c a e0)
  case Nil
  then show ?case by simp
next
  case (Cons e es)
  have "rel (tm e) (snd (cstep c e)) (snd (astep a e))"
    using Cons.prems by (auto intro: step_rel)
  from Cons.IH [OF this] Cons.prems(2) show ?case
    unfolding snd_run_Cons by simp
qed

end

end
