(* ===== verification/Policy.thy ===== *)
theory Policy
  imports Prelude
begin

text \<open>
  The pure link, DHCP and readiness policies of \<^verbatim>\<open>software/r5/src/policy.c\<close>
  (state in \<^verbatim>\<open>include/policy.h\<close>) and the PHY and GEM register encodings of
  \<^verbatim>\<open>software/r5/src/port_policy.c\<close>.
\<close>

section \<open>State\<close>

record link_policy =
  enabled :: u8
  last_clear_ms :: u32

record link_action =
  act_set :: u8
  act_clear :: u8

record dhcp_policy =
  leased :: bool
  retry_wait :: bool
  failed_ms :: u32

record network_link_policy =
  physical :: bool
  ready :: bool
  up_since_ms :: u32

section \<open>Operations\<close>

definition network_link_ready ::
  "network_link_policy \<Rightarrow> bool \<Rightarrow> u32 \<Rightarrow> u32 \<Rightarrow> bool \<times> network_link_policy" where
  "network_link_ready s up now settle_ms =
     (let s = (if \<not> up \<or> \<not> physical s then s\<lparr>up_since_ms := now, ready := False\<rparr> else s);
          s = s\<lparr>physical := up\<rparr>;
          s = (if up \<and> settle_ms \<le> now - up_since_ms s then s\<lparr>ready := True\<rparr> else s)
      in (ready s, s))"

definition link_update ::
  "link_policy \<Rightarrow> u8 \<Rightarrow> bool \<Rightarrow> u32 \<Rightarrow> link_action \<times> link_policy" where
  "link_update s desired0 busy now =
     (let desired = desired0 AND 0x1f;
          clear = enabled s AND NOT desired;
          s = s\<lparr>enabled := enabled s AND desired\<rparr>;
          s = (if clear \<noteq> 0 then s\<lparr>last_clear_ms := now\<rparr> else s)
      in if \<not> busy \<and> 250 \<le> now - last_clear_ms s
         then let st = desired AND NOT (enabled s)
              in (\<lparr>act_set = st, act_clear = clear\<rparr>, s\<lparr>enabled := enabled s OR st\<rparr>)
         else (\<lparr>act_set = 0, act_clear = clear\<rparr>, s))"

definition dhcp_result :: "dhcp_policy \<Rightarrow> bool \<Rightarrow> u32 \<Rightarrow> dhcp_policy" where
  "dhcp_result s l now = s\<lparr>leased := l, retry_wait := \<not> l, failed_ms := now\<rparr>"

definition dhcp_retry :: "dhcp_policy \<Rightarrow> bool \<Rightarrow> u32 \<Rightarrow> bool \<times> dhcp_policy" where
  "dhcp_retry s link now =
     (if \<not> leased s \<and> retry_wait s \<and> link \<and> 60000 \<le> now - failed_ms s
      then (True, s\<lparr>retry_wait := False\<rparr>)
      else (False, s))"

section \<open>One step of the link policy\<close>

lemma link_update_cleared:
  assumes "link_update s d b now = (a, s')"
  shows "act_clear a = enabled s AND NOT (d AND 0x1f)"
  using assms by (auto simp: link_update_def Let_def split: if_splits)

lemma link_update_enabled:
  assumes "link_update s d b now = (a, s')"
  shows "enabled s' = (enabled s AND NOT (act_clear a)) OR act_set a"
  using assms by (auto simp: link_update_def Let_def bit_eq_iff bit_simps split: if_splits)

lemma link_update_last:
  assumes "link_update s d b now = (a, s')"
  shows "last_clear_ms s' = (if act_clear a \<noteq> 0 then now else last_clear_ms s)"
  using assms by (auto simp: link_update_def Let_def split: if_splits)

lemma link_update_set_guard:
  assumes "link_update s d b now = (a, s')" and "act_set a \<noteq> 0"
  shows "\<not> b \<and> 250 \<le> now - last_clear_ms s'"
  using assms by (auto simp: link_update_def Let_def split: if_splits)


lemma link_update_subset:
  assumes "link_update s d b now = (a, s')"
  shows "enabled s' AND NOT (d AND 0x1f) = 0"
  using assms by (auto simp: link_update_def Let_def bit_eq_iff bit_simps split: if_splits)

lemma link_update_set_is_new:
  assumes "link_update s d b now = (a, s')"
  shows "act_set a AND (enabled s) = 0"
  using assms by (auto simp: link_update_def Let_def bit_eq_iff bit_simps split: if_splits)

lemma link_update_settled:
  assumes "link_update s d b now = (a, s')" and "\<not> b"
    and "250 \<le> now - last_clear_ms s'"
  shows "enabled s' = d AND 0x1f"
  using assms by (auto simp: link_update_def Let_def bit_eq_iff bit_simps split: if_splits)

text \<open>one call of the link policy. The ports cleared are exactly the enabled ones that are no longer
  desired, the ports set were not enabled, the shadow mask is updated by exactly the action
  that is returned and never exceeds the five ports or the desired mask; ports are set only when
  no flush is busy, none is cleared by the same call and the hold-off has elapsed, and then the
  desired mask is reached in full.\<close>

theorem link_update_step:
  "case link_update s d b now of (a, s') \<Rightarrow>
     act_clear a = enabled s AND NOT (d AND 0x1f) \<and>
     act_set a AND enabled s = 0 \<and>
     enabled s' = (enabled s AND NOT (act_clear a)) OR act_set a \<and>
     enabled s' AND NOT (d AND 0x1f) = 0 \<and>
     (act_set a \<noteq> 0 \<longrightarrow> \<not> b \<and> act_clear a = 0 \<and> 250 \<le> now - last_clear_ms s) \<and>
     (\<not> b \<and> act_clear a = 0 \<and> 250 \<le> now - last_clear_ms s \<longrightarrow> enabled s' = d AND 0x1f)"
proof -
  obtain a s' where u: "link_update s d b now = (a, s')" by fastforce
  have "act_clear a = 0 \<and> 250 \<le> now - last_clear_ms s" if "act_set a \<noteq> 0"
    using link_update_set_guard [OF u that] link_update_last [OF u]
    by (auto split: if_splits)
  then show ?thesis
    using u link_update_cleared [OF u] link_update_set_is_new [OF u] link_update_enabled [OF u]
      link_update_subset [OF u] link_update_set_guard [OF u] link_update_settled [OF u]
      link_update_last [OF u]
    by auto
qed

theorem link_update_step_witness:
  "case link_update \<lparr>enabled = 0x03, last_clear_ms = 0xfffffff0\<rparr> 0xe7 False 0x100 of (a, s') \<Rightarrow>
     act_set a \<noteq> 0 \<and> act_clear a = 0 \<and> enabled s' = 0x07"
  using link_update_step [of "\<lparr>enabled = 0x03, last_clear_ms = 0xfffffff0\<rparr>" "0xe7" False "0x100"]
  by (simp add: link_update_def)

section \<open>Runs of the link policy\<close>

text \<open>An event of a run is one poll: the desired mask, the flush-busy flag and the real time in
  milliseconds.\<close>

type_synonym link_event = "u8 \<times> bool \<times> nat"

definition link_step :: "link_policy \<Rightarrow> link_event \<Rightarrow> (nat \<times> link_action) \<times> link_policy" where
  "link_step s e =
     (case e of (d, b, t) \<Rightarrow>
        (case link_update s d b (stamp t) of (a, s') \<Rightarrow> ((t, a), s')))"

abbreviation link_log :: "link_policy \<Rightarrow> link_event list \<Rightarrow> (nat \<times> link_action) list" where
  "link_log s es \<equiv> fst (run link_step s es)"

definition event_time :: "link_event \<Rightarrow> nat" where
  "event_time e = snd (snd e)"

lemma link_step_time [simp]: "fst (fst (link_step s e)) = event_time e"
  by (auto simp: link_step_def event_time_def split: prod.splits)

lemma link_step_stamp:
  "last_clear_ms (snd (link_step s e)) =
     (if act_clear (snd (fst (link_step s e))) \<noteq> 0 then stamp (event_time e) else last_clear_ms s)"
  by (cases e) (auto simp: link_step_def event_time_def split: prod.splits dest: link_update_last)

lemma link_step_guard:
  "act_set (snd (fst (link_step s e))) \<noteq> 0 \<Longrightarrow>
     250 \<le> stamp (event_time e) - last_clear_ms (snd (link_step s e))"
  by (cases e)
    (auto simp: link_step_def event_time_def split: prod.splits dest: link_update_set_guard)

lemma link_step_set_time:
  assumes "act_set (snd (fst (link_step s e))) \<noteq> 0"
    and "last_clear_ms s = stamp t0" and "t0 \<le> event_time e"
  shows "t0 + 250 \<le> event_time e"
proof -
  have "last_clear_ms (snd (link_step s e)) = last_clear_ms s"
    using link_step_guard [OF assms(1)] link_step_stamp [of s e] by (auto split: if_splits)
  with link_step_guard [OF assms(1)] assms(2)
  have "250 \<le> stamp (event_time e) - stamp t0" by simp
  from stamp_elapsed [OF this assms(3)] show ?thesis by simp
qed

lemma link_log_set_after:
  assumes "last_clear_ms s = stamp t0" and "sorted (t0 # map event_time es)"
    and "(t, a) \<in> set (link_log s es)" and "act_set a \<noteq> 0"
  shows "t0 + 250 \<le> t"
  using assms
proof (induction es arbitrary: s t0)
  case Nil
  then show ?case by simp
next
  case (Cons e es)
  let ?s1 = "snd (link_step s e)"
  from Cons.prems(3) consider "(t, a) = fst (link_step s e)" | "(t, a) \<in> set (link_log ?s1 es)"
    unfolding fst_run_Cons by auto
  then show ?case
  proof cases
    case 1
    with Cons.prems link_step_set_time [of s e t0] link_step_time [of s e] show ?thesis
      by (metis fst_conv snd_conv list.simps(9) list.set_intros(1) sorted_simps(2))
  next
    case 2
    let ?c = "act_clear (snd (fst (link_step s e)))"
    let ?t1 = "if ?c \<noteq> 0 then event_time e else t0"
    have "last_clear_ms ?s1 = stamp ?t1"
      using Cons.prems(1) by (simp add: link_step_stamp)
    moreover have "sorted (?t1 # map event_time es)"
      using Cons.prems(2) by auto
    ultimately have "?t1 + 250 \<le> t"
      using Cons.IH 2 Cons.prems(4) by blast
    moreover have "t0 \<le> ?t1"
      using Cons.prems(2) by simp
    ultimately show ?thesis by linarith
  qed
qed

text \<open>C17: hold-off after a link removal. In every run of the link policy over polls in time order,
  whatever the desired masks and the busy flags are and however often the 32-bit millisecond
  counter wraps, a poll that sets ports comes at least 250 ms of real time after every earlier
  poll that cleared ports.\<close>

theorem link_run_holdoff:
  assumes "sorted (map event_time es)" and "i \<le> j" and "j < length es"
    and "act_clear (snd (link_log s es ! i)) \<noteq> 0"
    and "act_set (snd (link_log s es ! j)) \<noteq> 0"
  shows "fst (link_log s es ! i) + 250 \<le> fst (link_log s es ! j)"
  using assms
proof (induction es arbitrary: s i j)
  case Nil
  then show ?case by simp
next
  case (Cons e es)
  let ?s1 = "snd (link_step s e)"
  show ?case
  proof (cases i)
    case 0
    with Cons.prems have clr: "act_clear (snd (fst (link_step s e))) \<noteq> 0"
      unfolding fst_run_Cons by simp
    then have last: "last_clear_ms ?s1 = stamp (event_time e)"
      by (simp add: link_step_stamp)
    have "j \<noteq> 0"
      using Cons.prems(5) link_step_guard [of s e] last unfolding fst_run_Cons by (cases j) auto
    then obtain j' where j: "j = Suc j'" by (cases j) auto
    let ?x = "link_log ?s1 es ! j'"
    have "?x \<in> set (link_log ?s1 es)"
      using Cons.prems(3) j by (simp add: nth_mem)
    then have "event_time e + 250 \<le> fst ?x"
      using link_log_set_after [OF last, of es "fst ?x" "snd ?x"] Cons.prems(1,5) j
      unfolding fst_run_Cons by simp
    with 0 j show ?thesis unfolding fst_run_Cons by simp
  next
    case (Suc i')
    with Cons.prems obtain j' where "j = Suc j'" by (cases j) auto
    with Cons Suc show ?thesis unfolding fst_run_Cons by simp
  qed
qed

theorem link_run_holdoff_witness:
  "fst (link_log \<lparr>enabled = 1, last_clear_ms = 0\<rparr> [(0, False, 1000), (1, False, 1250)] ! 0) + 250
     \<le> fst (link_log \<lparr>enabled = 1, last_clear_ms = 0\<rparr> [(0, False, 1000), (1, False, 1250)] ! 1)"
  by (rule link_run_holdoff)
    (simp_all add: event_time_def link_step_def link_update_def Let_def)


section \<open>DHCP retry over an unbounded clock\<close>

text \<open>Events that reach the DHCP policy: the stack reports a result (\<open>dhcp_result\<close>), the
  service task polls for a retry (\<open>dhcp_retry\<close>), and a change of the interface state resets
  the two flags before the interface is restarted.\<close>

datatype dhcp_event = Dhcp_Result bool nat | Dhcp_Poll bool nat | Dhcp_Link_Event nat

definition dhcp_link_event :: "dhcp_policy \<Rightarrow> dhcp_policy" where
  "dhcp_link_event s = s\<lparr>leased := False, retry_wait := False\<rparr>"

fun dhcp_step :: "dhcp_policy \<Rightarrow> dhcp_event \<Rightarrow> bool \<times> dhcp_policy" where
  "dhcp_step s (Dhcp_Result l t) = (False, dhcp_result s l (stamp t))"
| "dhcp_step s (Dhcp_Poll link t) = dhcp_retry s link (stamp t)"
| "dhcp_step s (Dhcp_Link_Event t) = (False, dhcp_link_event s)"

fun dhcp_time :: "dhcp_event \<Rightarrow> nat" where
  "dhcp_time (Dhcp_Result l t) = t"
| "dhcp_time (Dhcp_Poll link t) = t"
| "dhcp_time (Dhcp_Link_Event t) = t"

text \<open>Reference: the only thing that matters is the time of a failure that has not been
  answered yet by a retry, a new result or an interface restart.\<close>

fun dhcp_ref :: "nat option \<Rightarrow> dhcp_event \<Rightarrow> bool \<times> nat option" where
  "dhcp_ref p (Dhcp_Result l t) = (False, if l then None else Some t)"
| "dhcp_ref p (Dhcp_Poll link t) =
     (case p of None \<Rightarrow> (False, None)
      | Some t0 \<Rightarrow> if link \<and> t0 + 60000 \<le> t then (True, None) else (False, Some t0))"
| "dhcp_ref p (Dhcp_Link_Event t) = (False, None)"

definition dhcp_rel :: "nat \<Rightarrow> nat \<Rightarrow> dhcp_policy \<Rightarrow> nat option \<Rightarrow> bool" where
  "dhcp_rel start t s p =
     (start \<le> t \<and>
      (case p of None \<Rightarrow> leased s \<or> \<not> retry_wait s
       | Some t0 \<Rightarrow> \<not> leased s \<and> retry_wait s \<and> failed_ms s = stamp t0 \<and> start \<le> t0 \<and> t0 \<le> t))"

definition within_wrap :: "('e \<Rightarrow> nat) \<Rightarrow> nat \<Rightarrow> nat \<Rightarrow> 'e \<Rightarrow> bool" where
  "within_wrap tm start t e = (t \<le> tm e \<and> tm e < start + 2 ^ 32)"

lemma stamp_elapsed_iff:
  "t0 \<le> t \<Longrightarrow> t - t0 < 2 ^ 32 \<Longrightarrow> d \<le> stamp t - stamp t0 \<longleftrightarrow> t0 + unat d \<le> t"
  using stamp_elapsed stamp_reached by blast

interpretation dhcp: timed_refinement dhcp_step dhcp_ref dhcp_time
  "within_wrap dhcp_time start" "dhcp_rel start" for start
proof unfold_locales
  fix t s p e
  assume r: "dhcp_rel start t s p" and adm: "within_wrap dhcp_time start t e"
  have iff: "60000 \<le> stamp u - stamp t0 \<longleftrightarrow> t0 + 60000 \<le> u"
    if "start \<le> t0" "t0 \<le> u" "u < start + 2 ^ 32" for u t0
    using that stamp_elapsed_iff [of t0 u 60000] by simp
  show "fst (dhcp_step s e) = fst (dhcp_ref p e)"
    using r adm
    by (cases e)
      (auto simp: dhcp_retry_def dhcp_rel_def within_wrap_def iff split: option.splits)
  show "dhcp_rel start (dhcp_time e) (snd (dhcp_step s e)) (snd (dhcp_ref p e))"
    using r adm
    by (cases e)
      (auto simp: dhcp_retry_def dhcp_result_def dhcp_link_event_def dhcp_rel_def within_wrap_def
        iff split: option.splits)
qed

definition dhcp_init :: dhcp_policy where
  "dhcp_init = \<lparr>leased = False, retry_wait = False, failed_ms = 0\<rparr>"

text \<open>C18: the DHCP retry policy with its 32-bit stamps makes the same decisions as the reference
  machine on an unbounded clock, which retries once, 60 seconds after the last failure, while the
  link is up and there is no lease, for every sequence of lease results, link events and polls
  that spans less than one wrap of the counter.\<close>

theorem dhcp_run_refines:
  assumes "admissible (within_wrap dhcp_time start) dhcp_time start es"
  shows "fst (run dhcp_step dhcp_init es) = fst (run dhcp_ref None es)"
  by (rule dhcp.run_output [OF _ assms]) (simp add: dhcp_rel_def dhcp_init_def)

theorem dhcp_run_refines_witness:
  "fst (run dhcp_step dhcp_init
     [Dhcp_Result False 4294967290, Dhcp_Poll True 4295000000, Dhcp_Poll True 4295027290,
      Dhcp_Poll True 4295027540]) = [False, False, True, False]"
  by (subst dhcp_run_refines [of 4294967290]) (simp_all add: within_wrap_def)

section \<open>Interface readiness over an unbounded clock\<close>

type_synonym ready_event = "bool \<times> nat"

definition ready_step ::
  "u32 \<Rightarrow> network_link_policy \<Rightarrow> ready_event \<Rightarrow> bool \<times> network_link_policy" where
  "ready_step settle s e = network_link_ready s (fst e) (stamp (snd e)) settle"

text \<open>Reference: the interface is ready exactly when the link is up and has been up, at every
  poll, since a poll at least \<open>settle\<close> milliseconds ago. There is no latch.\<close>

definition ready_ref :: "u32 \<Rightarrow> nat option \<Rightarrow> ready_event \<Rightarrow> bool \<times> nat option" where
  "ready_ref settle since e =
     (if \<not> fst e then (False, None)
      else let t0 = (case since of None \<Rightarrow> snd e | Some t0 \<Rightarrow> t0)
           in (t0 + unat settle \<le> snd e, Some t0))"

definition ready_rel ::
  "u32 \<Rightarrow> nat \<Rightarrow> nat \<Rightarrow> network_link_policy \<Rightarrow> nat option \<Rightarrow> bool" where
  "ready_rel settle start t s since =
     (start \<le> t \<and>
      (case since of None \<Rightarrow> \<not> physical s
       | Some t0 \<Rightarrow> physical s \<and> up_since_ms s = stamp t0 \<and> start \<le> t0 \<and> t0 \<le> t \<and>
           (ready s \<longrightarrow> t0 + unat settle \<le> t)))"

lemma settle_iff:
  assumes "start \<le> t0" and "t0 \<le> u" and "u < start + 2 ^ 32"
  shows "settle \<le> stamp u - stamp t0 \<longleftrightarrow> t0 + unat settle \<le> u"
  using assms stamp_elapsed_iff [of t0 u settle] by simp

interpretation readiness: timed_refinement "ready_step settle" "ready_ref settle" snd
  "within_wrap snd start" "ready_rel settle start" for settle start
proof unfold_locales
  fix t s since and e :: ready_event
  assume r: "ready_rel settle start t s since" and adm: "within_wrap snd start t e"
  obtain up u where e: "e = (up, u)" by fastforce
  show "fst (ready_step settle s e) = fst (ready_ref settle since e)"
    using r adm e
    by (auto simp: ready_step_def ready_ref_def network_link_ready_def ready_rel_def
        within_wrap_def settle_iff Let_def unat_gt_0 split: option.splits)
  show "ready_rel settle start (snd e) (snd (ready_step settle s e)) (snd (ready_ref settle since e))"
    using r adm e
    by (auto simp: ready_step_def ready_ref_def network_link_ready_def ready_rel_def
        within_wrap_def settle_iff Let_def unat_gt_0 split: option.splits)
qed

definition readiness_init :: network_link_policy where
  "readiness_init = \<lparr>physical = False, ready = False, up_since_ms = 0\<rparr>"

text \<open>the readiness of an interface computed from 32-bit stamps is the reference readiness on an
  unbounded clock: ready from the first poll at least the settling time after the link came up,
  until the first poll that sees it down.\<close>

theorem ready_run_refines:
  assumes "admissible (within_wrap snd start) snd start es"
  shows "fst (run (ready_step settle) readiness_init es) = fst (run (ready_ref settle) None es)"
  by (rule readiness.run_output [OF _ assms]) (simp add: ready_rel_def readiness_init_def)

theorem ready_run_refines_witness:
  "fst (run (ready_step 1000) readiness_init
     [(True, 4294967000), (True, 4294967250), (True, 4294968000), (False, 4294968250)])
   = [False, False, True, False]"
  by (subst ready_run_refines [of 4294967000]) (simp_all add: within_wrap_def ready_ref_def)

section \<open>PHY and GEM register encodings\<close>

definition ps_phy_speed :: "u16 \<Rightarrow> u32" where
  "ps_phy_speed status =
     (if status AND 0x2c00 \<noteq> 0x2c00 then 0
      else (let k = drop_bit 14 status AND 3
            in if k = 0 then 10 else if k = 1 then 100 else if k = 2 then 1000 else 0))"

definition ps_phy_advertisement :: "u32 \<Rightarrow> u16" where
  "ps_phy_advertisement capabilities =
     1 OR (if capabilities AND 1 \<noteq> 0 then 0x40 else 0)
       OR (if capabilities AND 2 \<noteq> 0 then 0x100 else 0)"

definition ps_gem_config :: "u32 \<Rightarrow> u32 \<Rightarrow> u32" where
  "ps_gem_config old speed =
     (old AND NOT 0x401) OR 2 OR
     (if speed = 1000 then 0x400 else if speed = 100 then 1 else 0)"

definition ps_gem_clock :: "u32 \<Rightarrow> u32 \<Rightarrow> u32" where
  "ps_gem_clock old speed =
     (old AND NOT 0x003f3f00) OR push_bit 8 8 OR
     push_bit 16 (if speed = 1000 then 1 else if speed = 100 then 5 else 50)"


text \<open>The link rate is read as a set bit of the advertised abilities (10FD=1, 100FD=2,
  1000FD=4).\<close>

definition ability :: "u32 \<Rightarrow> u8" where
  "ability speed = (if speed = 1000 then 4 else if speed = 100 then 2 else 1)"

definition gem_divisor :: "u32 \<Rightarrow> u32" where
  "gem_divisor speed = (if speed = 1000 then 1 else if speed = 100 then 5 else 50)"

text \<open>the GEM register encodings change their own fields only. The clock control register keeps
  everything outside the two divisor fields, which become 8 and the divisor of the rate; the
  network configuration keeps everything outside the gigabit, full-duplex and speed bits, which
  become those of the rate.\<close>

theorem gem_clock_fields:
  "ps_gem_clock old speed AND NOT 0x003f3f00 = old AND NOT 0x003f3f00 \<and>
   drop_bit 8 (ps_gem_clock old speed) AND 0x3f = 8 \<and>
   drop_bit 16 (ps_gem_clock old speed) AND 0x3f = gem_divisor speed \<and>
   ps_gem_config old speed AND NOT 0x403 = old AND NOT 0x403 \<and>
   ps_gem_config old speed AND 0x403 =
     (if speed = 1000 then 0x402 else if speed = 100 then 3 else 2)"
proof -
  let ?v = "push_bit 8 8 OR push_bit 16 (gem_divisor speed) :: u32"
  have clk: "ps_gem_clock old speed = (old AND NOT 0x003f3f00) OR ?v"
    by (simp add: ps_gem_clock_def gem_divisor_def or.assoc)
  have cfg: "ps_gem_config old speed =
      (old AND NOT 0x401) OR (2 OR (if speed = 1000 then 0x400 else if speed = 100 then 1 else 0))"
    by (simp add: ps_gem_config_def or.assoc)
  have "ps_gem_clock old speed AND NOT 0x003f3f00 = old AND NOT 0x003f3f00"
    unfolding clk by (rule field_keep) (simp add: gem_divisor_def)
  moreover have "drop_bit 8 (ps_gem_clock old speed) AND 0x3f = 8"
    unfolding clk drop_bit_field by (subst field_get) (simp_all add: gem_divisor_def)
  moreover have "drop_bit 16 (ps_gem_clock old speed) AND 0x3f = gem_divisor speed"
    unfolding clk drop_bit_field by (subst field_get) (simp_all add: gem_divisor_def)
  moreover have "ps_gem_config old speed AND NOT 0x403 = old AND NOT 0x403"
    unfolding cfg by (rule field_keep_weaker) auto
  moreover have "ps_gem_config old speed AND 0x403 =
     (if speed = 1000 then 0x402 else if speed = 100 then 3 else 2)"
    unfolding cfg by (rule field_get_or) auto
  ultimately show ?thesis by blast
qed

end
