(* ===== verification/Text.thy ===== *)
theory Text
  imports Prelude
begin

text \<open>
  The parts of the C library's string and formatted-output functions that the firmware uses:
  NUL-terminated strings, \<open>strchr\<close>, and the conversions \<open>%u\<close> and \<open>%02x\<close>. A C string is the list
  of its bytes before the NUL.
\<close>

section \<open>Strings\<close>

text \<open>The string held in a \<open>char\<close> array.\<close>

definition cstr :: "bytes \<Rightarrow> bytes" where
  "cstr a = takeWhile (\<lambda>b. b \<noteq> 0) a"

text \<open>Cutting a string at the first occurrence of a character: what is before it, and what is
  after it if \<open>strchr\<close> finds one.\<close>

definition cut_at :: "u8 \<Rightarrow> bytes \<Rightarrow> bytes \<times> bytes option" where
  "cut_at ch s = (takeWhile (\<lambda>b. b \<noteq> ch) s,
     case dropWhile (\<lambda>b. b \<noteq> ch) s of [] \<Rightarrow> None | _ # r \<Rightarrow> Some r)"

lemma cut_absent: "ch \<notin> set s \<Longrightarrow> cut_at ch s = (s, None)"
proof -
  assume "ch \<notin> set s"
  then have "\<forall>b \<in> set s. b \<noteq> ch" by auto
  then have "takeWhile (\<lambda>b. b \<noteq> ch) s = s" and d: "dropWhile (\<lambda>b. b \<noteq> ch) s = []"
    by (simp_all add: takeWhile_eq_all_conv dropWhile_eq_Nil_conv)
  then show ?thesis unfolding cut_at_def d by simp
qed

lemma cut_present: "ch \<notin> set s \<Longrightarrow> cut_at ch (s @ ch # r) = (s, Some r)"
proof -
  assume "ch \<notin> set s"
  then have "\<forall>b \<in> set s. b \<noteq> ch" by auto
  then show ?thesis
    by (simp add: cut_at_def takeWhile_append2 dropWhile_append2)
qed

lemma cut_rest_length: "cut_at ch s = (a, Some r) \<Longrightarrow> length r < length s"
proof -
  assume "cut_at ch s = (a, Some r)"
  then obtain x where "dropWhile (\<lambda>b. b \<noteq> ch) s = x # r"
    by (auto simp: cut_at_def split: list.splits)
  moreover have "length (dropWhile (\<lambda>b. b \<noteq> ch) s) \<le> length s"
    by (rule length_dropWhile_le)
  ultimately show ?thesis by simp
qed

section \<open>Decimal numbers\<close>

definition is_digit :: "u8 \<Rightarrow> bool" where
  "is_digit b = (48 \<le> b \<and> b \<le> 57)"

definition digit_value :: "u8 \<Rightarrow> nat" where
  "digit_value b = unat (b - 48)"

definition digit_char :: "nat \<Rightarrow> u8" where
  "digit_char n = 48 + of_nat n"

fun dec :: "nat \<Rightarrow> bytes" where
  "dec n = (if n < 10 then [digit_char n] else dec (n div 10) @ [digit_char (n mod 10)])"

declare dec.simps [simp del]

primrec dec_from :: "nat \<Rightarrow> bytes \<Rightarrow> nat" where
  "dec_from n [] = n"
| "dec_from n (d # ds) = dec_from (n * 10 + digit_value d) ds"

definition dec_value :: "bytes \<Rightarrow> nat" where
  "dec_value ds = dec_from 0 ds"

lemma dec_from_append [simp]: "dec_from n (ds @ es) = dec_from (dec_from n ds) es"
  by (induction ds arbitrary: n) simp_all

lemma dec_from_ge: "n \<le> dec_from n ds"
proof (induction ds arbitrary: n)
  case Nil
  then show ?case by simp
next
  case (Cons d ds)
  have "n \<le> n * 10 + digit_value d" by simp
  also have "\<dots> \<le> dec_from (n * 10 + digit_value d) ds" by (rule Cons)
  finally show ?case by simp
qed

lemma less_10_cases: "n < 10 \<Longrightarrow> n \<in> {0, 1, 2, 3, 4, 5, 6, 7, 8, 9 :: nat}"
  by (simp add: numeral_eq_Suc less_Suc_eq)

lemma digit_char_props [simp]:
  assumes "n < 10"
  shows "is_digit (digit_char n)" and "digit_value (digit_char n) = n"
  using less_10_cases [OF assms] by (auto simp: digit_char_def is_digit_def digit_value_def)

lemma dec_nonempty [simp]: "dec n \<noteq> []"
  by (subst dec.simps) simp

lemma dec_digits: "d \<in> set (dec n) \<Longrightarrow> is_digit d"
proof (induction n rule: dec.induct)
  case (1 n)
  show ?case
    using "1.prems" "1.IH" by (subst (asm) dec.simps) (auto split: if_splits)
qed

lemma dec_value_snoc [simp]: "dec_value (ds @ [d]) = dec_value ds * 10 + digit_value d"
  by (simp add: dec_value_def)

lemma dec_value_dec [simp]: "dec_value (dec n) = n"
proof (induction n rule: dec.induct)
  case (1 n)
  show ?case
  proof (cases "n < 10")
    case True
    then show ?thesis by (subst dec.simps) (simp add: dec_value_def)
  next
    case False
    then show ?thesis using 1 by (subst dec.simps) simp
  qed
qed

lemma length_dec_le: "n < 10 ^ k \<Longrightarrow> 0 < k \<Longrightarrow> length (dec n) \<le> k"
proof (induction k arbitrary: n)
  case 0
  then show ?case by simp
next
  case (Suc k)
  show ?case
  proof (cases "n < 10")
    case True
    then show ?thesis by (subst dec.simps) simp
  next
    case False
    then have "0 < k" using Suc.prems by (cases k) auto
    moreover have "n div 10 < 10 ^ k" using Suc.prems by (simp add: less_mult_imp_div_less mult.commute)
    ultimately have "length (dec (n div 10)) \<le> k" by (intro Suc.IH)
    with False show ?thesis by (subst dec.simps) simp
  qed
qed

section \<open>Two-digit hexadecimal\<close>

definition hex_char :: "nat \<Rightarrow> u8" where
  "hex_char n = (if n < 10 then 48 + of_nat n else 87 + of_nat n)"

definition hex2 :: "u8 \<Rightarrow> bytes" where
  "hex2 b = [hex_char (unat b div 16), hex_char (unat b mod 16)]"

text \<open>The value of a hexadecimal digit, in either case.\<close>

definition hex_digit :: "u8 \<Rightarrow> nat option" where
  "hex_digit c =
     (if 48 \<le> c \<and> c \<le> 57 then Some (unat (c - 48))
      else if 97 \<le> c \<and> c \<le> 102 then Some (unat (c - 97) + 10)
      else if 65 \<le> c \<and> c \<le> 70 then Some (unat (c - 65) + 10)
      else None)"

lemma unat_byte: "unat b < 256" for b :: u8
  using unsigned_less [of b, where ?'a = nat] by simp

lemma byte_nibbles: "unat b div 16 < 16" "unat b mod 16 < 16" for b :: u8
  using unat_byte [of b] by (simp_all add: less_mult_imp_div_less)

lemma hex_chars: "\<forall>n<16. hex_digit (hex_char n) = Some n \<and>
    (is_digit (hex_char n) \<or> 97 \<le> hex_char n \<and> hex_char n \<le> 102)"
  by code_simp

lemma hex_digit_char [simp]: "n < 16 \<Longrightarrow> hex_digit (hex_char n) = Some n"
  using hex_chars by simp

lemma hex_char_alnum: "n < 16 \<Longrightarrow> is_digit (hex_char n) \<or> 97 \<le> hex_char n \<and> hex_char n \<le> 102"
  using hex_chars by simp

end
