(* ===== verification/Config.thy ===== *)
theory Config
  imports Text
begin

text \<open>
  The persistent switch configuration of \<^verbatim>\<open>software/r5/src/config.c\<close> and
  \<^verbatim>\<open>include/config.h\<close>: the record \<open>switch_config\<close>, its factory defaults and validity check,
  the 256-byte record format with its CRC and completion marker, and the two-slot store with
  \<open>config_load\<close> and \<open>config_save\<close> over the three I/O callbacks of \<open>struct config_io\<close>.
\<close>

section \<open>Data\<close>

record switch_config =
  cfg_mac :: "bytes list"
  cfg_username :: bytes
  cfg_password_salt :: bytes
  cfg_password_hash :: bytes
  cfg_password_rounds :: u32
  cfg_admin :: u8
  cfg_advertise :: bytes
  cfg_sfp_speed :: u16
  cfg_dhcp :: bool
  cfg_stp_enabled :: bool
  cfg_stp_version :: u8
  cfg_ip :: bytes
  cfg_netmask :: bytes
  cfg_gateway :: bytes

text \<open>The array sizes of the C type.\<close>

definition cfg_wf :: "switch_config \<Rightarrow> bool" where
  "cfg_wf c =
     (length (cfg_mac c) = 5 \<and> list_all (\<lambda>m. length m = 6) (cfg_mac c) \<and>
      length (cfg_username c) = 32 \<and> length (cfg_password_salt c) = 16 \<and>
      length (cfg_password_hash c) = 32 \<and> length (cfg_advertise c) = 4 \<and>
      length (cfg_ip c) = 4 \<and> length (cfg_netmask c) = 4 \<and> length (cfg_gateway c) = 4)"

record 'm config_io =
  io_read :: "'m \<Rightarrow> nat \<Rightarrow> nat \<Rightarrow> nat \<Rightarrow> bytes option \<times> 'm"
  io_truncate :: "'m \<Rightarrow> nat \<Rightarrow> bool \<times> 'm"
  io_write :: "'m \<Rightarrow> nat \<Rightarrow> nat \<Rightarrow> bytes \<Rightarrow> bool \<times> 'm"

record config_store =
  st_value :: switch_config
  st_sequence :: u32
  st_slot :: int
  st_writable :: bool
  st_saved :: bool

abbreviation CONFIG_PASSWORD_ROUNDS :: u32 where
  "CONFIG_PASSWORD_ROUNDS \<equiv> 100000"

definition config_magic :: bytes where
  "config_magic = ascii ''KR260CFG''"

section \<open>CRC-32\<close>

definition crc_bit :: "u32 \<Rightarrow> u32" where
  "crc_bit v = drop_bit 1 v XOR (0xedb88320 AND (0 - (v AND 1)))"

definition crc_byte :: "u32 \<Rightarrow> u8 \<Rightarrow> u32" where
  "crc_byte v b = (crc_bit ^^ 8) (v XOR ucast b)"

definition crc :: "bytes \<Rightarrow> u32" where
  "crc p = NOT (foldl crc_byte 0xffffffff p)"

section \<open>Defaults and validity\<close>

definition factory_mac :: "bytes list" where
  "factory_mac = map (\<lambda>i. [0x00, 0x0a, 0x35, 0x0f, 0x37, 0x45 + word_of_nat i]) [0..<5]"

definition factory_hash :: bytes where
  "factory_hash =
     [0xbe, 0x04, 0xc1, 0xe4, 0xa0, 0xfe, 0x61, 0x73, 0x03, 0xd2, 0x44, 0x7f, 0x93, 0xbe, 0x2d, 0xc3,
      0x78, 0xf9, 0x3b, 0x62, 0x75, 0xf4, 0x9a, 0x8c, 0xa7, 0x93, 0x61, 0x97, 0xb9, 0xc3, 0x56, 0xca]"

definition config_defaults :: switch_config where
  "config_defaults =
     \<lparr>cfg_mac = factory_mac,
      cfg_username = ascii ''admin'' @ replicate 27 0,
      cfg_password_salt = ascii ''kr260-0a350f3745'',
      cfg_password_hash = factory_hash,
      cfg_password_rounds = CONFIG_PASSWORD_ROUNDS,
      cfg_admin = 31,
      cfg_advertise = [4, 7, 7, 7],
      cfg_sfp_speed = 0,
      cfg_dhcp = True,
      cfg_stp_enabled = False,
      cfg_stp_version = 2,
      cfg_ip = replicate 4 0,
      cfg_netmask = replicate 4 0,
      cfg_gateway = replicate 4 0\<rparr>"

definition ip32 :: "bytes \<Rightarrow> u32" where
  "ip32 p = push_bit 24 (ucast (p ! 0)) OR push_bit 16 (ucast (p ! 1)) OR push_bit 8 (ucast (p ! 2))
     OR ucast (p ! 3)"

definition unicast :: "bytes \<Rightarrow> bool" where
  "unicast p = (p ! 0 \<noteq> 0 \<and> p ! 0 \<noteq> 127 \<and> p ! 0 < 224)"

definition username_char :: "u8 \<Rightarrow> bool" where
  "username_char ch =
     ((of_char CHR ''a'' \<le> ch \<and> ch \<le> of_char CHR ''z'') \<or>
      (of_char CHR ''A'' \<le> ch \<and> ch \<le> of_char CHR ''Z'') \<or>
      (of_char CHR ''0'' \<le> ch \<and> ch \<le> of_char CHR ''9'') \<or>
      ch = of_char CHR ''_'' \<or> ch = of_char CHR ''-'' \<or> ch = of_char CHR ''.'')"

text \<open>The scan over the username array: the length up to the NUL (or the array's end), \<open>None\<close>
  where the loop returns \<open>false\<close>.\<close>

fun username_scan :: "nat \<Rightarrow> bytes \<Rightarrow> nat option" where
  "username_scan len [] = Some len"
| "username_scan len (ch # rest) =
     (if ch = 0 then Some len
      else if username_char ch then username_scan (Suc len) rest
      else None)"

definition username_valid :: "bytes \<Rightarrow> bool" where
  "username_valid u =
     (case username_scan 0 u of None \<Rightarrow> False | Some len \<Rightarrow> len \<noteq> 0 \<and> len \<noteq> length u)"

definition static_ip_valid :: "bytes \<Rightarrow> bytes \<Rightarrow> bytes \<Rightarrow> bool" where
  "static_ip_valid ip4 netmask4 gateway4 =
     (let ip = ip32 ip4; m = ip32 netmask4; gw = ip32 gateway4; host = NOT m
      in \<not> (\<not> unicast ip4 \<or> m = 0 \<or> host < 3 \<or> host AND (host + 1) \<noteq> 0 \<or>
            ip AND host = 0 \<or> ip AND host = host) \<and>
         \<not> (gw \<noteq> 0 \<and> (\<not> unicast gateway4 \<or> gw AND m \<noteq> ip AND m \<or>
            gw AND host = 0 \<or> gw AND host = host \<or> gw = ip)))"

definition config_valid :: "switch_config \<Rightarrow> bool" where
  "config_valid c =
     (if cfg_stp_version c \<noteq> 0 \<and> cfg_stp_version c \<noteq> 2 then False
      else if cfg_mac c \<noteq> cfg_mac config_defaults \<or> 31 < cfg_admin c \<or> cfg_advertise c ! 0 \<noteq> 4 \<or>
              cfg_password_rounds c \<noteq> CONFIG_PASSWORD_ROUNDS then False
      else if \<not> username_valid (cfg_username c) then False
      else if list_ex (\<lambda>i. cfg_advertise c ! i = 0 \<or> 7 < cfg_advertise c ! i) [1..<4] then False
      else if cfg_sfp_speed c \<noteq> 0 \<and> cfg_sfp_speed c \<noteq> 1000 \<and> cfg_sfp_speed c \<noteq> 2500 \<and>
              cfg_sfp_speed c \<noteq> 5000 \<and> cfg_sfp_speed c \<noteq> 10000 then False
      else if \<not> cfg_dhcp c then static_ip_valid (cfg_ip c) (cfg_netmask c) (cfg_gateway c)
      else True)"

section \<open>Record format\<close>

definition config_body :: "switch_config \<Rightarrow> u32 \<Rightarrow> bytes" where
  "config_body c sequence =
     (let out = replicate 256 0;
          out = poke 0 config_magic out;
          out = poke 8 (put32 2) out;
          out = poke 12 (put32 sequence) out;
          out = poke 16 (concat (cfg_mac c)) out;
          out = poke 46 (cfg_username c) out;
          out = poke 78 (cfg_password_salt c) out;
          out = poke 94 (cfg_password_hash c) out;
          out = poke 126 (put32 (cfg_password_rounds c)) out;
          out = poke 130 [cfg_admin c] out;
          out = poke 131 (cfg_advertise c) out;
          out = poke 135 [ucast (cfg_sfp_speed c)] out;
          out = poke 136 [ucast (drop_bit 8 (cfg_sfp_speed c))] out;
          out = poke 137 [byte_of_bool (cfg_dhcp c)] out;
          out = poke 138 (cfg_ip c) out;
          out = poke 142 (cfg_netmask c) out;
          out = poke 146 (cfg_gateway c) out;
          out = poke 150 [byte_of_bool (cfg_stp_enabled c)] out
      in poke 151 [cfg_stp_version c] out)"

definition config_encode :: "switch_config \<Rightarrow> u32 \<Rightarrow> bytes" where
  "config_encode c sequence =
     (let out = config_body c sequence;
          out = poke 248 (put32 (crc (peek 0 248 out))) out
      in poke 252 (ascii ''DONE'') out)"

definition config_fields :: "bytes \<Rightarrow> switch_config" where
  "config_fields data =
     \<lparr>cfg_mac = map (\<lambda>i. peek (16 + 6 * i) 6 data) [0..<5],
      cfg_username = peek 46 32 data,
      cfg_password_salt = peek 78 16 data,
      cfg_password_hash = peek 94 32 data,
      cfg_password_rounds = get32 (peek 126 4 data),
      cfg_admin = data ! 130,
      cfg_advertise = peek 131 4 data,
      cfg_sfp_speed = ucast (data ! 135) OR push_bit 8 (ucast (data ! 136)),
      cfg_dhcp = (data ! 137 \<noteq> 0),
      cfg_stp_enabled = False,
      cfg_stp_version = 0,
      cfg_ip = peek 138 4 data,
      cfg_netmask = peek 142 4 data,
      cfg_gateway = peek 146 4 data\<rparr>"

definition config_decode :: "bytes \<Rightarrow> (switch_config \<times> u32) option" where
  "config_decode data =
     (let version = get32 (peek 8 4 data) in
      if peek 0 8 data \<noteq> config_magic \<or> (version \<noteq> 1 \<and> version \<noteq> 2) \<or>
         peek 252 4 data \<noteq> ascii ''DONE'' \<or> get32 (peek 248 4 data) \<noteq> crc (peek 0 248 data) \<or>
         1 < data ! 137
      then None
      else let v = config_fields data in
        if version = 2 \<and> 1 < data ! 150 then None
        else let v = (if version = 2
                      then v\<lparr>cfg_stp_enabled := (data ! 150 \<noteq> 0), cfg_stp_version := data ! 151\<rparr>
                      else v\<lparr>cfg_stp_version := 2\<rparr>)
             in if \<not> config_valid v then None else Some (v, get32 (peek 12 4 data)))"

section \<open>The two-slot store\<close>

definition blank :: "bytes \<Rightarrow> bool" where
  "blank p = list_all (\<lambda>b. b = 255) p"

definition load_record :: "config_store \<Rightarrow> nat \<Rightarrow> bytes \<Rightarrow> config_store" where
  "load_record s slot record =
     (let s = (case config_decode record of
                 Some (c, sequence) \<Rightarrow>
                   if st_slot s < 0 \<or> 0 < sint (sequence - st_sequence s)
                   then s\<lparr>st_value := c, st_sequence := sequence, st_slot := int slot,
                          st_saved := True\<rparr>
                   else s
               | None \<Rightarrow> s);
          version = get32 (peek 8 4 record)
      in if \<not> blank record \<and>
            (peek 0 8 record \<noteq> config_magic \<or> (version \<noteq> 1 \<and> version \<noteq> 2))
         then s\<lparr>st_writable := False\<rparr> else s)"

definition load_slot ::
  "'m config_io \<Rightarrow> config_store \<times> 'm \<Rightarrow> nat \<Rightarrow> config_store \<times> 'm" where
  "load_slot io sm slot =
     (case sm of (s, m) \<Rightarrow>
        (case io_read io m slot 0 256 of
           (None, m') \<Rightarrow> (s\<lparr>st_writable := False\<rparr>, m')
         | (Some record, m') \<Rightarrow> (load_record s slot record, m')))"

definition empty_store :: config_store where
  "empty_store =
     \<lparr>st_value = config_defaults, st_sequence = 0, st_slot = -1, st_writable = True, st_saved = False\<rparr>"

definition config_load :: "'m config_io \<Rightarrow> 'm \<Rightarrow> bool \<times> config_store \<times> 'm" where
  "config_load io m =
     (case foldl (load_slot io) (empty_store, m) [0, 1] of (s, m') \<Rightarrow> (st_saved s, s, m'))"

definition config_save ::
  "'m config_io \<Rightarrow> config_store \<Rightarrow> switch_config \<Rightarrow> 'm \<Rightarrow> bool \<times> config_store \<times> 'm" where
  "config_save io s value m =
     (if \<not> st_writable s \<or> \<not> config_valid value then (False, s, m)
      else let seq = st_sequence s + 1; record = config_encode value seq in
      if st_saved s \<and> record = config_encode (st_value s) seq then (True, s, m)
      else let slot = (if st_slot s = 0 then 1 else 0) in
      case io_truncate io m slot of (ok1, m1) \<Rightarrow> if \<not> ok1 then (False, s, m1) else
      case io_write io m1 slot 0 (peek 0 252 record) of (ok2, m2) \<Rightarrow> if \<not> ok2 then (False, s, m2) else
      case io_read io m2 slot 0 252 of (v3, m3) \<Rightarrow>
        if v3 \<noteq> Some (peek 0 252 record) then (False, s, m3) else
      case io_write io m3 slot 252 (peek 252 4 record) of (ok4, m4) \<Rightarrow>
        if \<not> ok4 then (False, s, m4) else
      case io_read io m4 slot 0 256 of (v5, m5) \<Rightarrow>
        if v5 \<noteq> Some record then (False, s, m5) else
      (True, s\<lparr>st_value := value, st_sequence := seq, st_slot := int slot, st_saved := True\<rparr>, m5))"

section \<open>Properties of the CRC\<close>

lemma crc_bit_if: "crc_bit v = drop_bit 1 v XOR (if odd v then 0xedb88320 else 0)"
proof -
  have "v AND 1 = (if odd v then 1 else 0)"
    by (simp add: and_one_eq odd_iff_mod_2_eq_one)
  then show ?thesis by (simp add: crc_bit_def)
qed

lemma bit_crc_bit_top: "bit (crc_bit v) 31 \<longleftrightarrow> odd v"
proof -
  have "\<not> bit (drop_bit 1 v) 31"
    using bit_imp_le_length [of v 32] by (auto simp: bit_simps)
  moreover have "bit (0xedb88320 :: u32) 31" by simp
  ultimately show ?thesis by (simp add: crc_bit_if bit_xor_iff)
qed

lemma inj_crc_bit: "inj crc_bit"
proof (rule injI)
  fix v w :: u32
  assume eq: "crc_bit v = crc_bit w"
  then have odd: "odd v = odd w" by (metis bit_crc_bit_top)
  with eq have "drop_bit 1 v = drop_bit 1 w"
    by (auto simp: crc_bit_if split: if_splits)
  then have drop: "bit (drop_bit 1 v) n = bit (drop_bit 1 w) n" for n by simp
  have "bit v n = bit w n" for n
    using odd drop [of "n - 1"] by (cases n) (simp_all add: bit_0 bit_drop_bit_eq)
  then show "v = w" by (simp add: bit_eq_iff)
qed

lemma crc_byte_inj_state: "crc_byte v b = crc_byte w b \<Longrightarrow> v = w"
  unfolding crc_byte_def
  by (drule injD [OF inj_fn [OF inj_crc_bit]]) simp

lemma crc_byte_inj_byte: "crc_byte v a = crc_byte v b \<Longrightarrow> a = b"
proof -
  assume "crc_byte v a = crc_byte v b"
  then have "v XOR ucast a = v XOR ucast b"
    unfolding crc_byte_def by (rule injD [OF inj_fn [OF inj_crc_bit]])
  then have "(ucast a :: u32) = ucast b"
    by simp
  then show "a = b"
    by (simp add: bit_eq_iff bit_simps)
qed

lemma crc_fold_inj_state: "foldl crc_byte v xs = foldl crc_byte w xs \<Longrightarrow> v = w"
  by (induction xs arbitrary: v w) (auto dest: crc_byte_inj_state)

lemma crc_single_byte:
  assumes "i < length p" and "b \<noteq> p ! i"
  shows "crc (p[i := b]) \<noteq> crc p"
proof
  let ?v = "foldl crc_byte 0xffffffff (take i p)"
  assume "crc (p[i := b]) = crc p"
  then have "foldl crc_byte (crc_byte ?v b) (drop (Suc i) p) =
             foldl crc_byte (crc_byte ?v (p ! i)) (drop (Suc i) p)"
    using assms(1) id_take_nth_drop [OF assms(1)]
    by (simp add: crc_def upd_conv_take_nth_drop) (metis foldl_Cons foldl_append)
  then have "crc_byte ?v b = crc_byte ?v (p ! i)"
    by (rule crc_fold_inj_state)
  with assms(2) show False by (auto dest: crc_byte_inj_byte)
qed

section \<open>The record format round trip\<close>

lemma length_config_magic [simp]: "length config_magic = 8"
  by (simp add: config_magic_def)

lemma cfg_wf_concat_mac [simp]: "cfg_wf c \<Longrightarrow> length (concat (cfg_mac c)) = 30"
  by (auto simp: cfg_wf_def eval_nat_numeral length_Suc_conv)

lemma cfg_wf_lengths:
  assumes "cfg_wf c"
  shows "length (cfg_username c) = 32" "length (cfg_password_salt c) = 16"
    "length (cfg_password_hash c) = 32" "length (cfg_advertise c) = 4"
    "length (cfg_ip c) = 4" "length (cfg_netmask c) = 4" "length (cfg_gateway c) = 4"
  using assms by (simp_all add: cfg_wf_def)

lemma config_body_layout:
  assumes "cfg_wf c"
  shows "config_body c q =
    config_magic @ put32 2 @ put32 q @ concat (cfg_mac c) @ cfg_username c @ cfg_password_salt c @
    cfg_password_hash c @ put32 (cfg_password_rounds c) @ [cfg_admin c] @ cfg_advertise c @
    [ucast (cfg_sfp_speed c)] @ [ucast (drop_bit 8 (cfg_sfp_speed c))] @
    [byte_of_bool (cfg_dhcp c)] @ cfg_ip c @ cfg_netmask c @ cfg_gateway c @
    [byte_of_bool (cfg_stp_enabled c)] @ [cfg_stp_version c] @ replicate 104 0"
  unfolding config_body_def Let_def
  by (simp add: poke_replicate_first poke_replicate_next cfg_wf_lengths [OF assms] assms
      del: append_assoc replicate.simps)

lemma length_config_body [simp]: "cfg_wf c \<Longrightarrow> length (config_body c q) = 256"
  by (simp add: config_body_layout cfg_wf_lengths)

lemma length_config_encode [simp]: "cfg_wf c \<Longrightarrow> length (config_encode c q) = 256"
  by (simp add: config_encode_def Let_def length_poke)

lemma config_encode_body:
  assumes "cfg_wf c" and "off + n \<le> 248"
  shows "peek off n (config_encode c q) = peek off n (config_body c q)"
  using assms by (simp add: config_encode_def Let_def layout_simps)

lemma config_encode_crc:
  assumes "cfg_wf c"
  shows "get32 (peek 248 4 (config_encode c q)) = crc (peek 0 248 (config_encode c q))"
  using assms by (simp add: config_encode_def Let_def layout_simps)

lemma config_encode_done:
  assumes "cfg_wf c"
  shows "peek 252 4 (config_encode c q) = ascii ''DONE''"
  using assms by (simp add: config_encode_def Let_def layout_simps)

lemma config_encode_nth:
  assumes "cfg_wf c" and "i < 248"
  shows "config_encode c q ! i = config_body c q ! i"
  using assms by (simp add: config_encode_def Let_def nth_poke length_poke)

lemma split_u16: "(ucast (ucast x :: u8) :: u16) OR push_bit 8 (ucast (ucast (drop_bit 8 x) :: u8)) = x"
proof (rule bit_word_eqI)
  fix n
  assume "n < LENGTH(16)"
  then consider "n < 8" | "8 \<le> n" "n < 16" by fastforce
  then show "bit ((ucast (ucast x :: u8) :: u16) OR push_bit 8 (ucast (ucast (drop_bit 8 x) :: u8))) n
      = bit x n"
    by cases (auto simp: bit_simps)
qed

lemma concat_chunks:
  assumes "length ms = 5" and "list_all (\<lambda>m. length m = 6) ms" and "length pre = 16"
  shows "map (\<lambda>i. peek (16 + 6 * i) 6 (pre @ concat ms @ post)) [0..<5] = ms"
  using assms by (auto simp: eval_nat_numeral length_Suc_conv upt_rec peek_def)

lemma config_fields_body:
  assumes wf: "cfg_wf c"
  shows "config_fields (config_body c q) =
    c\<lparr>cfg_stp_enabled := False, cfg_stp_version := 0\<rparr>"
proof -
  have macs: "map (\<lambda>i. peek (16 + 6 * i) 6 (config_body c q)) [0..<5] = cfg_mac c"
    unfolding config_body_layout [OF wf]
    using concat_chunks [of "cfg_mac c" "config_magic @ put32 2 @ put32 q"] wf
    by (simp add: cfg_wf_def)
  show ?thesis
    unfolding config_fields_def macs
    by (rule switch_config.equality)
      (simp_all add: config_body_layout [OF wf] peek_append_skip peek_Cons_skip peek_append_hit nth_append
        cfg_wf_lengths [OF wf] wf split_u16)
qed

lemma config_body_reads:
  assumes wf: "cfg_wf c"
  shows "peek 0 8 (config_body c q) = config_magic"
    and "peek 8 4 (config_body c q) = put32 2"
    and "peek 12 4 (config_body c q) = put32 q"
    and "config_body c q ! 137 = byte_of_bool (cfg_dhcp c)"
    and "config_body c q ! 150 = byte_of_bool (cfg_stp_enabled c)"
    and "config_body c q ! 151 = cfg_stp_version c"
  by (simp_all add: config_body_layout [OF wf] peek_append_skip peek_Cons_skip peek_append_hit nth_append
        cfg_wf_lengths [OF wf] wf)

lemma config_fields_cong:
  assumes "length data = 256" and "length data' = 256"
    and "\<And>i. i < 152 \<Longrightarrow> data ! i = data' ! i"
  shows "config_fields data = config_fields data'"
proof -
  have pk: "peek off n data = peek off n data'" if "off + n \<le> 152" for off n
    using assms that by (intro nth_equalityI) (auto simp: nth_peek length_peek)
  show ?thesis
    unfolding config_fields_def by (simp add: pk assms(3))
qed

lemma config_fields_encode:
  assumes wf: "cfg_wf c"
  shows "config_fields (config_encode c q) =
    c\<lparr>cfg_stp_enabled := False, cfg_stp_version := 0\<rparr>"
proof -
  have "config_fields (config_encode c q) = config_fields (config_body c q)"
    by (rule config_fields_cong) (simp_all add: wf config_encode_nth)
  with config_fields_body [OF wf] show ?thesis by simp
qed

lemma config_decode_encode_raw:
  assumes wf: "cfg_wf c"
  shows "config_decode (config_encode c q) = (if config_valid c then Some (c, q) else None)"
proof -
  have "c\<lparr>cfg_stp_enabled := False, cfg_stp_version := 0,
      cfg_stp_enabled := (byte_of_bool (cfg_stp_enabled c) \<noteq> (0 :: u8)),
      cfg_stp_version := cfg_stp_version c\<rparr> = c"
    by (rule switch_config.equality) simp_all
  then show ?thesis
    using config_encode_crc [OF wf, of q]
    by (simp add: config_decode_def Let_def config_fields_encode wf config_encode_body
        config_encode_done config_body_reads config_encode_nth)
qed

text \<open>C16: a valid configuration survives its record: decoding the 256-byte encoding of a valid
  configuration under any sequence number gives back exactly that configuration and that
  sequence number.\<close>

theorem config_decode_encode:
  assumes "cfg_wf c" and "config_valid c"
  shows "config_decode (config_encode c q) = Some (c, q)"
  using assms by (simp add: config_decode_encode_raw)

lemma config_defaults_wf [simp]: "cfg_wf config_defaults"
  by (simp add: cfg_wf_def config_defaults_def factory_mac_def factory_hash_def upt_rec)

lemma username_scan_cstr:
  "username_scan n u = Some m \<Longrightarrow> m = n + length (cstr u) \<and> list_all username_char (cstr u)"
  by (induction n u rule: username_scan.induct) (auto simp: cstr_def split: if_splits)

lemma zero_notin_cstr: "0 \<notin> set (cstr u)"
  by (auto simp: cstr_def dest: set_takeWhileD)

lemma username_valid_cstr:
  assumes "username_valid u" and "length u = 32"
  shows "cstr u \<noteq> [] \<and> length (cstr u) < 32 \<and> list_all username_char (cstr u)"
proof -
  obtain m where m: "username_scan 0 u = Some m" "m \<noteq> 0" "m \<noteq> 32"
    using assms by (auto simp: username_valid_def split: option.splits)
  have "length (cstr u) \<le> 32" using assms(2) length_takeWhile_le [of _ u] by (simp add: cstr_def)
  with username_scan_cstr [OF m(1)] m(2,3) show ?thesis by auto
qed

lemma username_scan_zeros: "0 < k \<Longrightarrow> username_scan n (replicate k 0) = Some n"
  by (cases k) simp_all

lemma config_defaults_valid [simp]: "config_valid config_defaults"
  by (simp add: config_valid_def config_defaults_def username_valid_def ascii_def username_char_def
      username_scan_zeros upt_rec)

theorem config_decode_encode_witness:
  "config_decode (config_encode config_defaults 41) = Some (config_defaults, 41)"
  by (rule config_decode_encode) simp_all

lemma config_decode_sound:
  assumes "config_decode data = Some (c, q)"
  shows "config_valid c"
  using assms by (auto simp: config_decode_def Let_def split: if_splits)

lemma config_decode_wf:
  assumes "config_decode data = Some (c, q)" and "length data = 256"
  shows "cfg_wf c"
  using assms
  by (auto simp: config_decode_def Let_def config_fields_def cfg_wf_def length_peek list_all_iff
      split: if_splits)

lemma config_decode_marks:
  assumes "config_decode data = Some (c, q)"
  shows "peek 0 8 data = config_magic" and "peek 252 4 data = ascii ''DONE''"
    and "get32 (peek 248 4 data) = crc (peek 0 248 data)"
    and "get32 (peek 8 4 data) = 1 \<or> get32 (peek 8 4 data) = 2"
  using assms by (auto simp: config_decode_def Let_def split: if_splits)

section \<open>Corrupted records\<close>

lemma peek_update_outside:
  assumes "\<not> (off \<le> i \<and> i < off + n)"
  shows "peek off n (d[i := b]) = peek off n d"
  using assms by (intro nth_equalityI) (auto simp: peek_def nth_list_update)

lemma peek_update_inside:
  assumes "off \<le> i" and "i < off + n" and "off + n \<le> length d"
  shows "peek off n (d[i := b]) = (peek off n d)[i - off := b]"
  using assms by (intro nth_equalityI) (auto simp: peek_def nth_list_update)

lemma put32_get32:
  assumes "length p = 4"
  shows "put32 (get32 p) = p"
proof -
  from assms obtain a b c d where "p = [a, b, c, d]"
    by (auto simp: eval_nat_numeral length_Suc_conv)
  then show ?thesis
    by (simp add: put32_Cons get32_def bit_eq_iff bit_simps) (auto dest: bit_imp_le_length)
qed

lemma get32_inj: "length p = 4 \<Longrightarrow> length p' = 4 \<Longrightarrow> get32 p = get32 p' \<Longrightarrow> p = p'"
  by (metis put32_get32)

text \<open>C8: a record that decodes no longer decodes once any single one of its 256 bytes is changed to
  any other value, wherever the byte is: magic, header, settings, reserved space, CRC or the
  final mark.\<close>

theorem config_decode_corrupted:
  assumes "length data = 256" and "config_decode data = Some (c, q)"
    and "i < 256" and "b \<noteq> data ! i"
  shows "config_decode (data[i := b]) = None"
proof (rule ccontr)
  assume "config_decode (data[i := b]) \<noteq> None"
  then obtain c' q' where dec: "config_decode (data[i := b]) = Some (c', q')" by auto
  note m = config_decode_marks [OF assms(2)] and m' = config_decode_marks [OF dec]
  have unchanged: "b = data ! i"
    if "peek off n (data[i := b]) = peek off n data" "off \<le> i" "i < off + n" "off + n \<le> 256" for off n
    using that assms(1) nth_peek [of "i - off" n off data] nth_peek [of "i - off" n off "data[i := b]"]
    by simp
  consider "i < 248" | "248 \<le> i" "i < 252" | "252 \<le> i" by linarith
  then show False
  proof cases
    case 1
    have "crc (peek 0 248 (data[i := b])) = crc (peek 0 248 data)"
      using m(3) m'(3) 1 by (simp add: peek_update_outside)
    moreover have "peek 0 248 (data[i := b]) = (peek 0 248 data)[i := b]"
      using 1 assms(1) by (simp add: peek_update_inside)
    ultimately show False
      using crc_single_byte [of i "peek 0 248 data" b] 1 assms(1,4)
      by (simp add: length_peek nth_peek)
  next
    case 2
    then have "get32 (peek 248 4 (data[i := b])) = get32 (peek 248 4 data)"
      using m(3) m'(3) by (simp add: peek_update_outside)
    then have "peek 248 4 (data[i := b]) = peek 248 4 data"
      using assms(1) by (intro get32_inj) (simp_all add: length_peek)
    with 2 assms(1,4) show False
      using unchanged [of 248 4] by simp
  next
    case 3
    have "peek 252 4 (data[i := b]) = peek 252 4 data"
      using m(2) m'(2) by simp
    with 3 assms(1,3,4) show False
      using unchanged [of 252 4] by simp
  qed
qed

theorem config_decode_corrupted_witness:
  "config_decode ((config_encode config_defaults 7)[100 := config_encode config_defaults 7 ! 100 + 1])
   = None"
  by (rule config_decode_corrupted) (simp_all add: config_decode_encode_raw)

section \<open>What a valid static address is\<close>

lemma nat_and_Suc_zero: "n AND Suc n = 0 \<Longrightarrow> \<exists>k. n = mask k" for n :: nat
proof (induction n rule: less_induct)
  case (less n)
  show ?case
  proof (cases "even n")
    case True
    then obtain m where n: "n = 2 * m" by blast
    have "n AND Suc n = n"
      unfolding n by (subst and_nat_unfold) simp
    with less.prems show ?thesis by (metis mask_0)
  next
    case False
    then obtain m where n: "n = 2 * m + 1" by (blast elim: oddE)
    have "n AND Suc n = 2 * (m AND Suc m)"
      unfolding n by (subst and_nat_unfold) simp
    with less.prems have "m AND Suc m = 0" by simp
    with less.IH [of m] n obtain k where "m = mask k" by auto
    moreover have "(1 :: nat) \<le> 2 ^ k" by simp
    ultimately have "n = mask (Suc k)"
      unfolding n mask_eq_exp_minus_1 power_Suc by linarith
    then show ?thesis by blast
  qed
qed

lemma word_and_Suc_zero:
  fixes x :: "'a::len word"
  assumes "x AND (x + 1) = 0" and "x \<noteq> - 1"
  shows "\<exists>k<LENGTH('a). x = mask k"
proof -
  have "unat (x + 1) = Suc (unat x)"
    using assms(2) by (metis add.commute unatSuc add.inverse_inverse add_eq_0_iff)
  then have "unat x AND Suc (unat x) = 0"
    using assms(1) by (metis unsigned_and_eq unsigned_0)
  then obtain k where k: "unat x = mask k" using nat_and_Suc_zero by blast
  have x: "x = word_of_nat (unat x)" by simp
  have lt2p: "unat x < 2 ^ LENGTH('a)" by (rule unsigned_less)
  have lt: "k < LENGTH('a)"
  proof (rule ccontr)
    assume "\<not> k < LENGTH('a)"
    then have "(mask LENGTH('a) :: nat) \<le> unat x"
      unfolding k by (simp add: mask_eq_exp_minus_1 power_increasing diff_le_mono)
    then have "unat x = mask LENGTH('a)"
      using lt2p unfolding mask_eq_exp_minus_1 by linarith
    then have "x = mask LENGTH('a)"
      using x by (simp add: of_nat_mask_eq)
    with assms(2) show False by simp
  qed
  then have "x = mask k"
    using x k by (simp add: of_nat_mask_eq)
  with lt show ?thesis by blast
qed

lemma prefix_equal:
  fixes a b :: u32
  assumes "a AND NOT (mask k) = b AND NOT (mask k)"
  shows "drop_bit k a = drop_bit k b"
proof (rule bit_eqI)
  fix n
  have "bit (a AND NOT (mask k)) (k + n) = bit (b AND NOT (mask k)) (k + n)"
    using assms by simp
  then show "bit (drop_bit k a) n = bit (drop_bit k b) n"
    by (auto simp: bit_simps dest: bit_imp_le_length)
qed

text \<open>what an accepted static address is. The netmask is a prefix mask that leaves between 2 and
  31 host bits; the address is unicast and neither the network nor the broadcast address of its
  subnet; a gateway is absent, or a unicast host of the same subnet other than the address itself
  and than the network and broadcast addresses.\<close>

theorem config_valid_static:
  assumes "config_valid c" and "\<not> cfg_dhcp c"
  shows "\<exists>k. 2 \<le> k \<and> k < 32 \<and> NOT (ip32 (cfg_netmask c)) = mask k \<and>
     unicast (cfg_ip c) \<and> take_bit k (ip32 (cfg_ip c)) \<noteq> 0 \<and> take_bit k (ip32 (cfg_ip c)) \<noteq> mask k \<and>
     (ip32 (cfg_gateway c) \<noteq> 0 \<longrightarrow>
       unicast (cfg_gateway c) \<and> drop_bit k (ip32 (cfg_gateway c)) = drop_bit k (ip32 (cfg_ip c)) \<and>
       take_bit k (ip32 (cfg_gateway c)) \<noteq> 0 \<and> take_bit k (ip32 (cfg_gateway c)) \<noteq> mask k \<and>
       ip32 (cfg_gateway c) \<noteq> ip32 (cfg_ip c))"
proof -
  let ?h = "NOT (ip32 (cfg_netmask c))"
  have v: "static_ip_valid (cfg_ip c) (cfg_netmask c) (cfg_gateway c)"
    using assms by (auto simp: config_valid_def split: if_splits)
  then have "?h AND (?h + 1) = 0" and ge: "3 \<le> ?h" and "ip32 (cfg_netmask c) \<noteq> 0"
    by (auto simp: static_ip_valid_def Let_def not_less)
  moreover from this have "?h \<noteq> - 1"
    by (metis bit.double_compl bit.compl_one)
  ultimately obtain k where k: "k < 32" "?h = mask k"
    using word_and_Suc_zero [of ?h] by auto
  have "2 \<le> k"
  proof (rule ccontr)
    assume "\<not> 2 \<le> k"
    then have "k = 0 \<or> k = 1" by auto
    with k ge show False by (auto simp: word_le_nat_alt)
  qed
  moreover have m: "ip32 (cfg_netmask c) = NOT (mask k)"
    using k(2) by (metis bit.double_compl)
  ultimately show ?thesis
    using v k prefix_equal [of "ip32 (cfg_gateway c)" k "ip32 (cfg_ip c)"]
    by (intro exI [of _ k]) (auto simp: static_ip_valid_def Let_def take_bit_eq_mask)
qed

definition example_static :: switch_config where
  "example_static = config_defaults\<lparr>cfg_dhcp := False, cfg_ip := [192, 168, 1, 10],
     cfg_netmask := [255, 255, 255, 0], cfg_gateway := [192, 168, 1, 1]\<rparr>"

lemma example_static_wf [simp]: "cfg_wf example_static"
  using config_defaults_wf by (simp add: cfg_wf_def example_static_def)

lemma example_static_valid [simp]: "config_valid example_static"
  by (simp add: config_valid_def example_static_def config_defaults_def username_valid_def ascii_def
      username_char_def username_scan_zeros static_ip_valid_def ip32_def unicast_def Let_def upt_rec)

theorem config_valid_static_witness:
  "\<exists>k. 2 \<le> k \<and> k < 32 \<and> NOT (ip32 (cfg_netmask example_static)) = mask k \<and>
     take_bit k (ip32 (cfg_ip example_static)) \<noteq> mask k"
  using config_valid_static [OF example_static_valid] by (auto simp: example_static_def)

section \<open>Loading and saving over a card\<close>

text \<open>Which of two decoded slots a load selects: the only valid one, or the one whose sequence
  number is ahead in serial-number arithmetic.\<close>

fun winner ::
  "(switch_config \<times> u32) option \<Rightarrow> (switch_config \<times> u32) option \<Rightarrow> ((switch_config \<times> u32) \<times> int) option"
where
  "winner None None = None"
| "winner (Some d0) None = Some (d0, 0)"
| "winner None (Some d1) = Some (d1, 1)"
| "winner (Some d0) (Some d1) = (if 0 < sint (snd d1 - snd d0) then Some (d1, 1) else Some (d0, 0))"

definition load_records :: "bytes \<Rightarrow> bytes \<Rightarrow> config_store" where
  "load_records r0 r1 = load_record (load_record empty_store 0 r0) 1 r1"

lemma load_records_winner:
  "(case winner (config_decode r0) (config_decode r1) of
      None \<Rightarrow> st_value (load_records r0 r1) = config_defaults \<and> st_sequence (load_records r0 r1) = 0 \<and>
              st_slot (load_records r0 r1) = -1 \<and> \<not> st_saved (load_records r0 r1)
    | Some ((c, q), i) \<Rightarrow> st_value (load_records r0 r1) = c \<and> st_sequence (load_records r0 r1) = q \<and>
              st_slot (load_records r0 r1) = i \<and> st_saved (load_records r0 r1))"
  by (cases "config_decode r0"; cases "config_decode r1")
    (auto simp: load_records_def load_record_def empty_store_def Let_def)

text \<open>A file shorter than the request reads as if padded with \<open>0xff\<close>.\<close>

definition padded :: "nat \<Rightarrow> bytes \<Rightarrow> bytes" where
  "padded n f = take n f @ replicate (n - length f) 255"

lemma length_padded [simp]: "length (padded n f) = n"
  by (simp add: padded_def)

lemma padded_full: "length f = n \<Longrightarrow> padded n f = f"
  by (simp add: padded_def)

lemma config_decode_short:
  assumes "length f \<le> 252"
  shows "config_decode (padded 256 f) = None"
proof -
  have "peek 252 4 (padded 256 f) = replicate 4 255"
    using assms by (simp add: padded_def peek_def)
  moreover have "replicate 4 (255 :: u8) \<noteq> ascii ''DONE''"
    by (auto simp: ascii_def dest!: arg_cong [where f = hd])
  ultimately show ?thesis
    by (simp add: config_decode_def Let_def)
qed

text \<open>The contract of the three callbacks, as documented in \<^verbatim>\<open>include/settings_media.h\<close>:
  \<open>content m slot\<close> is the content of a slot file. Reads never change a file, a truncation or a write
  touches the named slot only, and one that fails may have been partly carried out: the bytes
  before the write's offset are kept, the file does not grow beyond its end, and everything in
  between is arbitrary. A loss of power is the failure of the operation it hits.\<close>

text \<open>Both slots could be read.\<close>

definition slots_readable :: "'m config_io \<Rightarrow> 'm \<Rightarrow> bool" where
  "slots_readable io m = (case io_read io m 0 0 256 of (r0, m0) \<Rightarrow>
     r0 \<noteq> None \<and> fst (io_read io m0 1 0 256) \<noteq> None)"

text \<open>A save goes to the slot that does not hold the winner; what becomes of the winner when that
  slot is lost, and when it holds the next generation.\<close>

definition target :: "((switch_config \<times> u32) \<times> int) option \<Rightarrow> int" where
  "target w = (case w of Some (_, i) \<Rightarrow> if i = 0 then 1 else 0 | None \<Rightarrow> 0)"

definition with_slot :: "int \<Rightarrow> 'a \<Rightarrow> 'a \<times> 'a \<Rightarrow> 'a \<times> 'a" where
  "with_slot i x dd = (if i = 0 then (x, snd dd) else (fst dd, x))"

lemma winner_lost:
  assumes "w = winner d0 d1" and "with_slot (target w) None (d0, d1) = (e0, e1)"
  shows "winner e0 e1 = w"
  using assms
  by (cases d0; cases d1) (auto simp: target_def with_slot_def split: if_splits)

lemma winner_next:
  assumes "w = winner d0 d1"
    and "q = (case w of Some ((c, q), i) \<Rightarrow> q | None \<Rightarrow> 0)"
    and "with_slot (target w) (Some (v, q + 1)) (d0, d1) = (e0, e1)"
  shows "winner e0 e1 = Some ((v, q + 1), target w)"
  using assms
  by (cases d0; cases d1) (auto simp: target_def with_slot_def split: if_splits)

lemma winner_member: "winner d0 d1 = Some (d, i) \<Longrightarrow> d0 = Some d \<or> d1 = Some d"
  by (cases d0; cases d1) (auto split: if_splits)

lemma loaded_sound:
  assumes "s = load_records r0 r1" and "length r0 = 256" and "length r1 = 256"
  shows "config_valid (st_value s) \<and> cfg_wf (st_value s)"
proof (cases "winner (config_decode r0) (config_decode r1)")
  case None
  with load_records_winner [of r0 r1] assms(1) show ?thesis by simp
next
  case (Some w)
  obtain c q i where w: "w = ((c, q), i)" by (metis prod.exhaust)
  then have "st_value s = c"
    using load_records_winner [of r0 r1] Some assms(1) by simp
  moreover have "config_decode r0 = Some (c, q) \<or> config_decode r1 = Some (c, q)"
    using winner_member Some w by blast
  ultimately show ?thesis
    using config_decode_sound config_decode_wf assms(2,3) by blast
qed

lemma config_encode_inj:
  assumes "config_encode v q = config_encode w q" and "cfg_wf v" "cfg_wf w"
    and "config_valid v" "config_valid w"
  shows "v = w"
proof -
  have "config_decode (config_encode x q) = Some (x, q)" if "cfg_wf x" "config_valid x" for x
    using that by (simp add: config_decode_encode_raw)
  with assms show ?thesis by (metis option.inject prod.inject)
qed

lemma split_252:
  assumes "peek 0 252 a = peek 0 252 b" and "peek 252 4 a = peek 252 4 b"
    and "length a = 256" and "length b = 256"
  shows "a = b"
proof -
  have "x = peek 0 252 x @ peek 252 4 x" if "length x = 256" for x :: "'a list"
    using that by (simp add: peek_def)
  with assms show ?thesis by metis
qed

locale slot_media =
  fixes io :: "'m config_io"
    and content :: "'m \<Rightarrow> nat \<Rightarrow> bytes"
  assumes read_keeps: "io_read io m slot off n = (r, m') \<Longrightarrow> content m' = content m"
    and read_data: "io_read io m slot off n = (Some d, m') \<Longrightarrow> d = padded n (drop off (content m slot))"
    and truncate_other: "io_truncate io m slot = (b, m') \<Longrightarrow> slot' \<noteq> slot \<Longrightarrow> content m' slot' = content m slot'"
    and truncate_done: "io_truncate io m slot = (True, m') \<Longrightarrow> content m' slot = []"
    and truncate_failed: "io_truncate io m slot = (False, m') \<Longrightarrow> content m' slot \<in> {content m slot, []}"
    and write_other: "io_write io m slot off d = (b, m') \<Longrightarrow> off = length (content m slot) \<Longrightarrow>
      slot' \<noteq> slot \<Longrightarrow> content m' slot' = content m slot'"
    and write_done: "io_write io m slot off d = (True, m') \<Longrightarrow> off = length (content m slot) \<Longrightarrow>
      content m' slot = content m slot @ d"
    and write_failed: "io_write io m slot off d = (False, m') \<Longrightarrow> off = length (content m slot) \<Longrightarrow>
      take off (content m' slot) = content m slot \<and> length (content m' slot) \<le> off + length d"
begin

lemma load_files:
  assumes "config_load io m = (b, s, m')" and "slots_readable io m"
  shows "s = load_records (padded 256 (content m 0)) (padded 256 (content m 1)) \<and> content m' = content m \<and>
    b = st_saved s"
proof -
  obtain d0 m0 where r0: "io_read io m 0 0 256 = (Some d0, m0)"
    using assms(2) by (auto simp: slots_readable_def split: prod.splits)
  obtain d1 m1 where r1: "io_read io m0 1 0 256 = (Some d1, m1)"
    using assms(2) r0 by (cases "io_read io m0 1 0 256") (auto simp: slots_readable_def)
  have "content m0 = content m" "content m1 = content m"
    using read_keeps [OF r0] read_keeps [OF r1] by auto
  then show ?thesis
    using assms(1) r0 r1 read_data [OF r0] read_data [OF r1]
    by (auto simp: config_load_def load_slot_def load_records_def)
qed

lemma save_steps:
  assumes "io_truncate io m slot = (ok1, m1)"
    and "io_write io m1 slot 0 (peek 0 252 rec) = (ok2, m2)"
    and "io_read io m2 slot 0 252 = (v3, m3)"
    and "io_write io m3 slot 252 (peek 252 4 rec) = (ok4, m4)"
    and "io_read io m4 slot 0 256 = (v5, m5)"
    and "length rec = 256" and "ok1"
  shows "content m1 slot = []"
    and "\<not> ok2 \<Longrightarrow> length (content m2 slot) \<le> 252"
    and "content m3 = content m2"
    and "ok2 \<Longrightarrow> content m2 slot = peek 0 252 rec"
    and "ok2 \<Longrightarrow> \<not> ok4 \<Longrightarrow>
      take 252 (content m4 slot) = peek 0 252 rec \<and> length (content m4 slot) \<le> 256"
    and "ok2 \<Longrightarrow> ok4 \<Longrightarrow> content m4 slot = rec"
    and "content m5 = content m4"
proof -
  have len: "length (peek 0 252 rec) = 252" "length (peek 252 4 rec) = 4"
    using assms(6) by (simp_all add: length_peek)
  show 1: "content m1 slot = []"
    using assms(1,7) truncate_done by simp
  show "length (content m2 slot) \<le> 252" if "\<not> ok2"
    using write_failed [of m1 slot 0 "peek 0 252 rec" m2] assms(2) that 1 len by simp
  show 3: "content m3 = content m2"
    using read_keeps [OF assms(3)] .
  show 4: "content m2 slot = peek 0 252 rec" if "ok2"
    using write_done [of m1 slot 0 "peek 0 252 rec" m2] assms(2) that 1 by simp
  have eq: "content m3 slot = peek 0 252 rec" if "ok2"
    using 3 4 [OF that] by simp
  have at_end: "252 = length (content m3 slot)" if "ok2"
    by (simp add: eq [OF that] len)
  show "take 252 (content m4 slot) = peek 0 252 rec \<and> length (content m4 slot) \<le> 256"
    if "ok2" "\<not> ok4"
    using write_failed [OF _ at_end [OF that(1)], of "peek 252 4 rec" m4] assms(4) that(2)
    by (simp add: eq [OF that(1)] len)
  show "content m4 slot = rec" if "ok2" "ok4"
  proof -
    have "content m4 slot = peek 0 252 rec @ peek 252 4 rec"
      using write_done [OF _ at_end [OF that(1)], of "peek 252 4 rec" m4] assms(4) that(2)
      by (simp add: eq [OF that(1)])
    with assms(6) show ?thesis by (simp add: peek_def)
  qed
  show "content m5 = content m4"
    using read_keeps [OF assms(5)] .
qed

lemma content_after_save:
  assumes save: "config_save io s v m = (b, s', m')" and wf: "cfg_wf v"
  defines "slot \<equiv> (if st_slot s = 0 then 1 else 0 :: nat)"
    and "rec \<equiv> config_encode v (st_sequence s + 1)"
  shows "(content m' = content m \<and>
            (b \<longrightarrow> config_valid v \<and> st_saved s \<and>
               rec = config_encode (st_value s) (st_sequence s + 1))) \<or>
         ((\<forall>i. i \<noteq> slot \<longrightarrow> content m' i = content m i) \<and> config_valid v \<and>
           (\<not> b \<and> content m' slot = content m slot \<or>
            \<not> b \<and> length (content m' slot) \<le> 252 \<or>
            \<not> b \<and> take 252 (content m' slot) = peek 0 252 rec \<and> length (content m' slot) \<le> 256 \<or>
            content m' slot = rec))"
proof (cases "st_writable s \<and> config_valid v \<and>
    \<not> (st_saved s \<and> rec = config_encode (st_value s) (st_sequence s + 1))")
  case False
  then show ?thesis
    using save by (auto simp: config_save_def rec_def Let_def split: if_splits)
next
  case True
  obtain ok1 m1 where o1: "io_truncate io m slot = (ok1, m1)" by fastforce
  obtain ok2 m2 where o2: "io_write io m1 slot 0 (peek 0 252 rec) = (ok2, m2)" by fastforce
  obtain v3 m3 where o3: "io_read io m2 slot 0 252 = (v3, m3)" by fastforce
  obtain ok4 m4 where o4: "io_write io m3 slot 252 (peek 252 4 rec) = (ok4, m4)" by fastforce
  obtain v5 m5 where o5: "io_read io m4 slot 0 256 = (v5, m5)" by fastforce
  have "config_save io s v m =
    (if \<not> ok1 then (False, s, m1) else if \<not> ok2 then (False, s, m2)
     else if v3 \<noteq> Some (peek 0 252 rec) then (False, s, m3) else if \<not> ok4 then (False, s, m4)
     else if v5 \<noteq> Some rec then (False, s, m5)
     else (True, s\<lparr>st_value := v, st_sequence := st_sequence s + 1, st_slot := int slot,
       st_saved := True\<rparr>, m5))"
    unfolding config_save_def Let_def rec_def [symmetric] slot_def [symmetric]
    using True by (auto simp: o1 o2 o3 o4 o5)
  then have save': "(b, m') =
    (if \<not> ok1 then (False, m1) else if \<not> ok2 then (False, m2)
     else if v3 \<noteq> Some (peek 0 252 rec) then (False, m3) else if \<not> ok4 then (False, m4)
     else if v5 \<noteq> Some rec then (False, m5) else (True, m5))"
    using save by (simp split: if_splits)
  note steps = save_steps [OF o1 o2 o3 o4 o5]
  have len: "length rec = 256" using wf by (simp add: rec_def)
  have "length (peek 0 252 rec) \<le> 252" by (simp add: peek_def)
  with save' steps [OF len] truncate_failed [of m slot m1] o1
  have slots: "\<not> b \<and> content m' slot = content m slot \<or> \<not> b \<and> length (content m' slot) \<le> 252 \<or>
        \<not> b \<and> take 252 (content m' slot) = peek 0 252 rec \<and> length (content m' slot) \<le> 256 \<or>
        content m' slot = rec"
    by (auto split: if_splits)
  have other: "content m' i = content m i" if "i \<noteq> slot" for i
  proof -
    have 1: "content m1 i = content m i" using truncate_other [OF o1 that] .
    have 2: "content m2 i = content m i" "content m3 i = content m i" if "ok1"
      using write_other [OF o2 _ \<open>i \<noteq> slot\<close>] steps(1,3) [OF len that] 1 by simp_all
    have "content m3 slot = peek 0 252 rec" if "ok1" "ok2"
      using steps(3,4) [OF len that(1)] that(2) by simp
    then have "252 = length (content m3 slot)" if "ok1" "ok2"
      using that len by (simp add: length_peek)
    then have "content m4 i = content m i" "content m5 i = content m i" if "ok1" "ok2"
      using write_other [OF o4 _ \<open>i \<noteq> slot\<close>] read_keeps [OF o5] 2 that by simp_all
    with 1 2 save' show ?thesis by (auto split: if_splits)
  qed
  from slots True save' other show ?thesis by (auto split: if_splits)
qed

lemma decode_after_save:
  assumes save: "config_save io s v m = (b, s', m')" and wf: "cfg_wf v"
  defines "slot \<equiv> (if st_slot s = 0 then 1 else 0 :: nat)"
    and "dcd \<equiv> \<lambda>m i. config_decode (padded 256 (content m i))"
  shows "((\<forall>i. content m' i = content m i) \<and> (b \<longrightarrow> config_valid v \<and> st_saved s \<and>
             config_encode v (st_sequence s + 1) = config_encode (st_value s) (st_sequence s + 1))) \<or>
         ((\<forall>i. i \<noteq> slot \<longrightarrow> content m' i = content m i) \<and> \<not> b \<and> dcd m' slot = None) \<or>
         ((\<forall>i. i \<noteq> slot \<longrightarrow> content m' i = content m i) \<and>
            dcd m' slot = Some (v, st_sequence s + 1))"
proof -
  let ?rec = "config_encode v (st_sequence s + 1)"
  have full: "config_decode (padded 256 f) = Some (v, st_sequence s + 1)"
    if "f = ?rec" "config_valid v" for f
    using that wf by (simp add: padded_full config_decode_encode_raw)
  have partial: "config_decode (padded 256 f) = None \<or> f = ?rec"
    if "take 252 f = peek 0 252 ?rec" "length f \<le> 256" for f
  proof (cases "config_decode (padded 256 f)")
    case (Some cq)
    then have marker: "peek 252 4 (padded 256 f) = peek 252 4 ?rec"
      using config_decode_marks(2) [of "padded 256 f" "fst cq" "snd cq"] wf
      by (simp add: config_encode_done)
    have front: "peek 0 252 (padded 256 f) = peek 0 252 ?rec"
    proof -
      have "252 \<le> length f"
        using arg_cong [OF that(1), of length] wf by (simp add: length_peek)
      then have "peek 0 252 (padded 256 f) = take 252 f"
        by (simp add: padded_def peek_def min_def)
      with that(1) show ?thesis by (rule trans [rotated])
    qed
    have "padded 256 f = ?rec"
      by (rule split_252 [OF front marker length_padded length_config_encode [OF wf]])
    moreover have "length f = 256"
    proof (rule ccontr)
      assume "length f \<noteq> 256"
      then have "padded 256 f ! 255 = 255"
        using that(2) by (simp add: padded_def nth_append)
      moreover have "?rec ! 255 = ascii ''DONE'' ! 3"
        using wf nth_peek [of 3 4 252 ?rec] by (simp add: config_encode_done)
      ultimately show False using \<open>padded 256 f = ?rec\<close> by (simp add: ascii_def)
    qed
    ultimately show ?thesis by (simp add: padded_full)
  qed simp
  show ?thesis
    using content_after_save [OF save wf, folded slot_def]
  proof (elim disjE conjE, goal_cases)
    case 2
    then show ?case by metis
  qed (auto simp: dcd_def full config_decode_short dest: partial)
qed

lemma atomic_save:
  assumes load: "config_load io m = (b0, s0, m0)" and ok: "slots_readable io m"
    and save: "config_save io s0 v m0 = (b1, s1, m1)" and wf: "cfg_wf v"
    and remount: "content m1' = content m1"
    and reload: "config_load io m1' = (b2, s2, m2)" and ok': "slots_readable io m1'"
  shows "st_value s2 \<in> {st_value s0, v} \<and> (b1 \<longrightarrow> st_value s2 = v \<and> st_saved s2) \<and>
    (st_saved s0 \<longrightarrow> st_saved s2)"
proof -
  let ?d = "\<lambda>m i. config_decode (padded 256 (content m i))"
  let ?w = "winner (?d m 0) (?d m 1)"
  let ?slot = "(if st_slot s0 = 0 then 1 else 0 :: nat)"
  note files = load_files [OF load ok] and files' = load_files [OF reload ok']
  then have s0: "s0 = load_records (padded 256 (content m 0)) (padded 256 (content m 1))"
    and m0: "content m0 = content m"
    and s2: "s2 = load_records (padded 256 (content m1 0)) (padded 256 (content m1 1))"
    using remount by auto
  note w0 = load_records_winner [of "padded 256 (content m 0)" "padded 256 (content m 1)", folded s0]
  note w2 = load_records_winner [of "padded 256 (content m1 0)" "padded 256 (content m1 1)", folded s2]
  have tgt: "target ?w = int ?slot"
    using w0 by (auto simp: target_def split: option.splits prod.splits if_splits)
  have seq: "st_sequence s0 = (case ?w of Some ((c, q), i) \<Rightarrow> q | None \<Rightarrow> 0)"
    using w0 by (auto split: option.splits prod.splits)
  from decode_after_save [OF save wf]
  consider (same) "\<forall>i. content m1 i = content m i"
      "b1 \<Longrightarrow> config_valid v \<and> st_saved s0 \<and>
         config_encode v (st_sequence s0 + 1) = config_encode (st_value s0) (st_sequence s0 + 1)"
    | (lost) "\<forall>i. i \<noteq> ?slot \<longrightarrow> content m1 i = content m i" "\<not> b1" "?d m1 ?slot = None"
    | (next_gen) "\<forall>i. i \<noteq> ?slot \<longrightarrow> content m1 i = content m i"
        "?d m1 ?slot = Some (v, st_sequence s0 + 1)"
    unfolding m0 by fast
  then show ?thesis
  proof cases
    case same
    have "v = st_value s0" if "b1"
      using same(2) [OF that] wf loaded_sound [OF s0]
      by (intro config_encode_inj [of v "st_sequence s0 + 1"]) auto
    with same s0 s2 show ?thesis by auto
  next
    case lost
    have "with_slot (target ?w) None (?d m 0, ?d m 1) = (?d m1 0, ?d m1 1)"
      using lost unfolding tgt by (auto simp: with_slot_def)
    then have "winner (?d m1 0) (?d m1 1) = ?w" by (rule winner_lost [OF refl])
    with w0 w2 lost(2) show ?thesis by (auto split: option.splits prod.splits)
  next
    case next_gen
    have "with_slot (target ?w) (Some (v, st_sequence s0 + 1)) (?d m 0, ?d m 1) = (?d m1 0, ?d m1 1)"
      using next_gen unfolding tgt by (auto simp: with_slot_def)
    then have "winner (?d m1 0) (?d m1 1) = Some ((v, st_sequence s0 + 1), target ?w)"
      by (rule winner_next [OF refl seq])
    with w2 show ?thesis by auto
  qed
qed

end

end
