(* ===== verification/Settings_Media.thy ===== *)
theory Settings_Media
  imports Config
begin

text \<open>
  The removable-media provider \<^verbatim>\<open>software/r5/src/settings_media.c\<close>: mounting, bounds, and the
  three slot callbacks that \<open>config.c\<close> is given. The FAT file system and the USB mass-storage
  driver below it are parameters (the record \<open>fatfs\<close>); what the provider relies on is the locale
  \<open>fat_volume\<close>, and the locale's sublocale shows that the provider then keeps the contract
  \<open>slot_media\<close> of the configuration store.
\<close>

section \<open>The parameters\<close>

datatype fresult = FR_OK | FR_NO_FILE | FR_NO_FILESYSTEM | FR_OTHER

datatype fmode = FA_READ | FA_WRITE | FA_WRITE_CREATE_ALWAYS

record ('v, 'h) fatfs =
  usb_probe :: "'v \<Rightarrow> bool \<times> 'v"
  usb_ready :: "'v \<Rightarrow> bool"
  f_unmount :: "'v \<Rightarrow> 'v"
  f_mount :: "'v \<Rightarrow> fresult \<times> 'v"
  f_open :: "'v \<Rightarrow> string \<Rightarrow> fmode \<Rightarrow> fresult \<times> 'h \<times> 'v"
  f_size :: "'h \<Rightarrow> nat"
  f_lseek :: "'v \<Rightarrow> 'h \<Rightarrow> nat \<Rightarrow> fresult \<times> 'h \<times> 'v"
  f_read :: "'v \<Rightarrow> 'h \<Rightarrow> nat \<Rightarrow> fresult \<times> bytes \<times> 'h \<times> 'v"
  f_write :: "'v \<Rightarrow> 'h \<Rightarrow> bytes \<Rightarrow> fresult \<times> nat \<times> 'h \<times> 'v"
  f_sync :: "'v \<Rightarrow> 'h \<Rightarrow> fresult \<times> 'h \<times> 'v"
  f_close :: "'v \<Rightarrow> 'h \<Rightarrow> fresult \<times> 'v"

section \<open>State and operations\<close>

record 'v media =
  volume :: 'v
  mounted :: bool
  media_status :: string

definition slot_name :: "nat \<Rightarrow> string" where
  "slot_name slot = (if slot = 0 then ''0:/KR260A.CFG'' else ''0:/KR260B.CFG'')"

definition media_failed :: "'v media \<Rightarrow> 'v media" where
  "media_failed m = m\<lparr>mounted := False, media_status := ''card/file I/O error''\<rparr>"

definition settings_media_present :: "('v, 'h) fatfs \<Rightarrow> 'v media \<Rightarrow> bool \<times> 'v media" where
  "settings_media_present fs m =
     (case usb_probe fs (f_unmount fs (volume m)) of
        (False, v) \<Rightarrow>
          (False, m\<lparr>volume := v, mounted := False, media_status := ''card unavailable''\<rparr>)
      | (True, v) \<Rightarrow>
          (case f_mount fs v of (r, v') \<Rightarrow>
             if r \<noteq> FR_OK
             then (False, m\<lparr>volume := v', mounted := False, media_status :=
                    (if r = FR_NO_FILESYSTEM then ''FAT volume required'' else ''card mount failed'')\<rparr>)
             else (True, m\<lparr>volume := v', mounted := True, media_status := ''FAT card mounted''\<rparr>)))"

definition media_bounds :: "('v, 'h) fatfs \<Rightarrow> 'v media \<Rightarrow> nat \<Rightarrow> nat \<Rightarrow> nat \<Rightarrow> bool" where
  "media_bounds fs m slot off sz =
     (mounted m \<and> usb_ready fs (volume m) \<and> slot < 2 \<and> off \<le> 256 \<and> sz \<le> 256 - off)"

text \<open>The body of \<open>settings_media_read\<close> after the size check: seek, read and close.\<close>

definition read_file ::
  "('v, 'h) fatfs \<Rightarrow> 'v \<Rightarrow> 'h \<Rightarrow> nat \<Rightarrow> nat \<Rightarrow> bool \<times> bytes \<times> 'h \<times> 'v" where
  "read_file fs v h off sz =
     (let data = replicate sz 255 in
      if off < f_size fs h then
        let n = (let n = f_size fs h - off in if sz < n then sz else n) in
        case f_lseek fs v h off of (r, h1, v1) \<Rightarrow>
          if r \<noteq> FR_OK then (False, data, h1, v1)
          else case f_read fs v1 h1 n of (r, d, h2, v2) \<Rightarrow>
            (r = FR_OK \<and> length d = n, d @ drop (length d) data, h2, v2)
      else (True, data, h, v))"

definition settings_media_read ::
  "('v, 'h) fatfs \<Rightarrow> 'v media \<Rightarrow> nat \<Rightarrow> nat \<Rightarrow> nat \<Rightarrow> bytes option \<times> 'v media" where
  "settings_media_read fs m slot off sz =
     (if \<not> media_bounds fs m slot off sz then (None, m)
      else case f_open fs (volume m) (slot_name slot) FA_READ of (r, h, v) \<Rightarrow>
        if r = FR_NO_FILE then (Some (replicate sz 255), m\<lparr>volume := v\<rparr>)
        else if r \<noteq> FR_OK then (None, media_failed (m\<lparr>volume := v\<rparr>))
        else if 256 < f_size fs h then
          (case f_close fs v h of (rc, v') \<Rightarrow>
             let m' = m\<lparr>volume := v', media_status := ''oversized configuration file''\<rparr>
             in if rc \<noteq> FR_OK then (None, media_failed m') else (None, m'))
        else case read_file fs v h off sz of (ok, data, h1, v1) \<Rightarrow>
          case f_close fs v1 h1 of (rc, v2) \<Rightarrow>
            if ok \<and> rc = FR_OK then (Some data, m\<lparr>volume := v2\<rparr>)
            else (None, media_failed (m\<lparr>volume := v2\<rparr>)))"

definition settings_media_truncate ::
  "('v, 'h) fatfs \<Rightarrow> 'v media \<Rightarrow> nat \<Rightarrow> bool \<times> 'v media" where
  "settings_media_truncate fs m slot =
     (if \<not> media_bounds fs m slot 0 0 then (False, m)
      else case f_open fs (volume m) (slot_name slot) FA_WRITE_CREATE_ALWAYS of (r, h, v) \<Rightarrow>
        if r \<noteq> FR_OK then (False, media_failed (m\<lparr>volume := v\<rparr>))
        else case f_sync fs v h of (rs, h1, v1) \<Rightarrow>
          case f_close fs v1 h1 of (rc, v2) \<Rightarrow>
            if rs = FR_OK \<and> rc = FR_OK then (True, m\<lparr>volume := v2\<rparr>)
            else (False, media_failed (m\<lparr>volume := v2\<rparr>)))"

text \<open>The conjunction of \<open>settings_media_write\<close>: each call is made only if the ones before it
  succeeded.\<close>

definition write_file ::
  "('v, 'h) fatfs \<Rightarrow> 'v \<Rightarrow> 'h \<Rightarrow> nat \<Rightarrow> bytes \<Rightarrow> bool \<times> 'h \<times> 'v" where
  "write_file fs v h off data =
     (if \<not> f_size fs h \<le> 256 then (False, h, v)
      else case f_lseek fs v h off of (r1, h1, v1) \<Rightarrow>
        if r1 \<noteq> FR_OK then (False, h1, v1)
        else case f_write fs v1 h1 data of (r2, actual, h2, v2) \<Rightarrow>
          if r2 \<noteq> FR_OK \<or> actual \<noteq> length data then (False, h2, v2)
          else case f_sync fs v2 h2 of (r3, h3, v3) \<Rightarrow> (r3 = FR_OK, h3, v3))"

definition settings_media_write ::
  "('v, 'h) fatfs \<Rightarrow> 'v media \<Rightarrow> nat \<Rightarrow> nat \<Rightarrow> bytes \<Rightarrow> bool \<times> 'v media" where
  "settings_media_write fs m slot off data =
     (if \<not> media_bounds fs m slot off (length data) then (False, m)
      else case f_open fs (volume m) (slot_name slot) FA_WRITE of (r, h, v) \<Rightarrow>
        if r \<noteq> FR_OK then (False, media_failed (m\<lparr>volume := v\<rparr>))
        else case write_file fs v h off data of (ok, h1, v1) \<Rightarrow>
          case f_close fs v1 h1 of (rc, v2) \<Rightarrow>
            if ok \<and> rc = FR_OK then (True, m\<lparr>volume := v2\<rparr>)
            else (False, media_failed (m\<lparr>volume := v2\<rparr>)))"

definition settings_media_io :: "('v, 'h) fatfs \<Rightarrow> 'v media config_io" where
  "settings_media_io fs =
     \<lparr>io_read = settings_media_read fs, io_truncate = settings_media_truncate fs,
      io_write = settings_media_write fs\<rparr>"

section \<open>What the provider relies on\<close>

text \<open>\<open>card v name\<close> is the durable content of a file, what a fresh mount would see. \<open>opened v h
  name f p\<close>: the handle \<open>h\<close> is open on \<open>name\<close>, a read through it sees \<open>f\<close>, its position is \<open>p\<close>.
  \<open>writing v h name f p e\<close>: since \<open>name\<close> last was durable with content \<open>f\<close>, \<open>h\<close> has written
  between the offsets \<open>p\<close> and \<open>e\<close> only. \<open>creating v h name old\<close>: \<open>h\<close> comes from creating \<open>name\<close>
  over the content \<open>old\<close>.\<close>

definition torn :: "bytes \<Rightarrow> nat \<Rightarrow> nat \<Rightarrow> bytes option \<Rightarrow> bool" where
  "torn f p e g = (\<exists>x. g = Some x \<and> take p x = take p f \<and> length x \<le> max (length f) e)"

locale fat_volume =
  fixes fs :: "('v, 'h) fatfs"
    and card :: "'v \<Rightarrow> string \<Rightarrow> bytes option"
    and opened :: "'v \<Rightarrow> 'h \<Rightarrow> string \<Rightarrow> bytes \<Rightarrow> nat \<Rightarrow> bool"
    and writing :: "'v \<Rightarrow> 'h \<Rightarrow> string \<Rightarrow> bytes \<Rightarrow> nat \<Rightarrow> nat \<Rightarrow> bool"
    and creating :: "'v \<Rightarrow> 'h \<Rightarrow> string \<Rightarrow> bytes option \<Rightarrow> bool"
  assumes unmount_card: "card (f_unmount fs v) = card v"
    and probe_card: "usb_probe fs v = (ok, v') \<Longrightarrow> card v' = card v"
    and mount_card: "f_mount fs v = (r, v') \<Longrightarrow> card v' = card v"
    and open_existing: "mode \<noteq> FA_WRITE_CREATE_ALWAYS \<Longrightarrow> f_open fs v name mode = (r, h, v') \<Longrightarrow>
      card v' = card v \<and> (r = FR_NO_FILE \<longrightarrow> card v name = None) \<and>
      (r = FR_OK \<longrightarrow> (\<exists>f. card v name = Some f \<and> f_size fs h = length f \<and> opened v' h name f 0))"
    and open_create: "f_open fs v name FA_WRITE_CREATE_ALWAYS = (r, h, v') \<Longrightarrow>
      (\<forall>n. n \<noteq> name \<longrightarrow> card v' n = card v n) \<and> card v' name \<in> {card v name, Some []} \<and>
      (r = FR_OK \<longrightarrow> opened v' h name [] 0 \<and> creating v' h name (card v name))"
    and lseek_handle: "opened v h name f p \<Longrightarrow> off \<le> length f \<Longrightarrow>
      f_lseek fs v h off = (r, h', v') \<Longrightarrow>
      card v' = card v \<and> (\<exists>q. opened v' h' name f q) \<and> (r = FR_OK \<longrightarrow> opened v' h' name f off)"
    and read_handle: "opened v h name f p \<Longrightarrow> f_read fs v h n = (r, d, h', v') \<Longrightarrow>
      card v' = card v \<and> (r = FR_OK \<longrightarrow> d = take n (drop p f)) \<and> (\<exists>q. opened v' h' name f q)"
    and write_handle: "opened v h name f p \<Longrightarrow> card v name = Some f \<Longrightarrow> p \<le> length f \<Longrightarrow>
      f_write fs v h d = (r, k, h', v') \<Longrightarrow>
      (\<forall>n. n \<noteq> name \<longrightarrow> card v' n = card v n) \<and> writing v' h' name f p (p + length d) \<and>
      (r = FR_OK \<longrightarrow> k = length d \<longrightarrow>
        opened v' h' name (take p f @ d @ drop (p + length d) f) (p + length d))"
    and writing_torn: "writing v h name f p e \<Longrightarrow> torn f p e (card v name)"
    and creating_card: "creating v h name old \<Longrightarrow> card v name \<in> {old, Some []}"
    and sync_writing: "writing v h name f p e \<Longrightarrow> f_sync fs v h = (r, h', v') \<Longrightarrow>
      (\<forall>n. n \<noteq> name \<longrightarrow> card v' n = card v n) \<and> writing v' h' name f p e"
    and sync_creating: "creating v h name old \<Longrightarrow> f_sync fs v h = (r, h', v') \<Longrightarrow>
      (\<forall>n. n \<noteq> name \<longrightarrow> card v' n = card v n) \<and> creating v' h' name old"
    and sync_done: "opened v h name f p \<Longrightarrow> f_sync fs v h = (FR_OK, h', v') \<Longrightarrow>
      card v' name = Some f \<and> opened v' h' name f p"
    and close_durable: "opened v h name f p \<Longrightarrow> card v name = Some f \<Longrightarrow>
      f_close fs v h = (r, v') \<Longrightarrow> card v' = card v"
    and close_writing: "writing v h name f p e \<Longrightarrow> f_close fs v h = (r, v') \<Longrightarrow>
      (\<forall>n. n \<noteq> name \<longrightarrow> card v' n = card v n) \<and> torn f p e (card v' name)"
    and close_creating: "creating v h name old \<Longrightarrow> f_close fs v h = (r, v') \<Longrightarrow>
      (\<forall>n. n \<noteq> name \<longrightarrow> card v' n = card v n) \<and> card v' name \<in> {old, Some []}"
begin

text \<open>The slot content the configuration store sees: a missing file is like an empty one.\<close>

definition slot_content :: "'v media \<Rightarrow> nat \<Rightarrow> bytes" where
  "slot_content m slot =
     (if slot < 2 then case card (volume m) (slot_name slot) of None \<Rightarrow> [] | Some f \<Rightarrow> f else [])"

lemma slot_content_eq:
  "card (volume m') = card (volume m) \<Longrightarrow> slot_content m' = slot_content m"
  by (auto simp: slot_content_def)

lemma media_present_card:
  "settings_media_present fs m = (b, m') \<Longrightarrow> card (volume m') = card (volume m)"
  using unmount_card
  by (auto simp: settings_media_present_def dest!: probe_card mount_card
      split: prod.splits bool.splits if_splits)

lemma slot_content_other:
  assumes "\<forall>n. n \<noteq> slot_name slot \<longrightarrow> card (volume m') n = card (volume m) n"
    and "slot' \<noteq> slot" and "slot < 2"
  shows "slot_content m' slot' = slot_content m slot'"
  using assms by (auto simp: slot_content_def slot_name_def split: if_splits)

lemma read_file_spec:
  assumes "read_file fs v h off sz = (ok, data, h', v')"
    and "opened v h name f 0" and "f_size fs h = length f"
  shows "card v' = card v \<and> (\<exists>q. opened v' h' name f q) \<and> (ok \<longrightarrow> data = padded sz (drop off f))"
proof (cases "off < length f")
  case False
  then show ?thesis
    using assms by (auto simp: read_file_def padded_def)
next
  case True
  let ?n = "if sz < length f - off then sz else length f - off"
  obtain r h1 v1 where s: "f_lseek fs v h off = (r, h1, v1)" by (metis prod.exhaust)
  obtain r2 d h2 v2 where rd: "f_read fs v1 h1 ?n = (r2, d, h2, v2)" by (metis prod.exhaust)
  have 1: "card v1 = card v" "\<exists>q. opened v1 h1 name f q"
    "r = FR_OK \<Longrightarrow> opened v1 h1 name f off"
    using lseek_handle [OF assms(2) _ s] True by auto
  show ?thesis
  proof (cases "r = FR_OK")
    case False
    with assms s True 1 show ?thesis by (auto simp: read_file_def Let_def)
  next
    case ok: True
    note 2 = read_handle [OF 1(3) [OF ok] rd]
    have "take ?n (drop off f) @ drop (length (take ?n (drop off f))) (replicate sz 255) =
        padded sz (drop off f)"
      using True by (auto simp: padded_def min_def)
    with assms s rd True ok 1 2 show ?thesis
      by (auto simp: read_file_def Let_def split: if_splits)
  qed
qed

lemma media_read_spec:
  assumes "settings_media_read fs m slot off sz = (r, m')"
  shows "card (volume m') = card (volume m) \<and>
    (\<forall>d. r = Some d \<longrightarrow> slot < 2 \<and> d = padded sz (drop off (slot_content m slot)))"
proof (cases "media_bounds fs m slot off sz")
  case False
  with assms show ?thesis by (simp add: settings_media_read_def)
next
  case b: True
  obtain r0 h v where o: "f_open fs (volume m) (slot_name slot) FA_READ = (r0, h, v)"
    by (metis prod.exhaust)
  note eo = open_existing [OF _ o, simplified]
  have slot: "slot < 2" using b by (simp add: media_bounds_def)
  show ?thesis
  proof (cases "r0 = FR_OK")
    case False
    with assms b o eo slot show ?thesis
      by (auto simp: settings_media_read_def media_failed_def slot_content_def padded_def
          split: if_splits)
  next
    case True
    then obtain f where f: "card (volume m) (slot_name slot) = Some f" "f_size fs h = length f"
      "opened v h (slot_name slot) f 0" and cv: "card v = card (volume m)"
      using eo by auto
    obtain rc v' where c: "f_close fs v h = (rc, v')" by (metis prod.exhaust)
    have cc: "card v' = card v" using close_durable [OF f(3) _ c] f(1) cv by simp
    obtain ok data h1 v1 where rf: "read_file fs v h off sz = (ok, data, h1, v1)"
      by (metis prod.exhaust)
    note rs = read_file_spec [OF rf f(3,2)]
    obtain rc2 v2 where c2: "f_close fs v1 h1 = (rc2, v2)" by (metis prod.exhaust)
    have cc2: "card v2 = card v" using rs close_durable [OF _ _ c2] f(1) cv by auto
    show ?thesis
      using assms b o True c rf c2 cc cc2 cv rs f slot
      by (auto simp: settings_media_read_def media_failed_def slot_content_def Let_def
          split: if_splits)
  qed
qed

lemma media_truncate_spec:
  assumes "settings_media_truncate fs m slot = (b, m')"
  shows "(\<forall>n. n \<noteq> slot_name slot \<longrightarrow> card (volume m') n = card (volume m) n) \<and>
    card (volume m') (slot_name slot) \<in> {card (volume m) (slot_name slot), Some []} \<and>
    (b \<longrightarrow> slot < 2 \<and> card (volume m') (slot_name slot) = Some []) \<and>
    (slot \<ge> 2 \<longrightarrow> m' = m)"
proof (cases "media_bounds fs m slot 0 0")
  case False
  with assms show ?thesis by (simp add: settings_media_truncate_def)
next
  case b: True
  obtain r h v where o: "f_open fs (volume m) (slot_name slot) FA_WRITE_CREATE_ALWAYS = (r, h, v)"
    by (metis prod.exhaust)
  note eo = open_create [OF o]
  obtain rs h1 v1 where s: "f_sync fs v h = (rs, h1, v1)" by (metis prod.exhaust)
  obtain rc v2 where c: "f_close fs v1 h1 = (rc, v2)" by (metis prod.exhaust)
  show ?thesis
  proof (cases "r = FR_OK")
    case False
    with assms b o eo show ?thesis
      by (auto simp: settings_media_truncate_def media_failed_def media_bounds_def)
  next
    case True
    with eo have op: "opened v h (slot_name slot) [] 0"
      and cr: "creating v h (slot_name slot) (card (volume m) (slot_name slot))" by auto
    have durable: "card v2 (slot_name slot) = Some []" if "rs = FR_OK"
      using sync_done [OF op] s that close_durable [OF _ _ c] by auto
    have sc: "\<forall>n. n \<noteq> slot_name slot \<longrightarrow> card v1 n = card v n"
      "creating v1 h1 (slot_name slot) (card (volume m) (slot_name slot))"
      using sync_creating [OF cr s] by auto
    have "volume m' = v2" "slot < 2" "b \<longrightarrow> rs = FR_OK"
      using assms b o s c True
      by (auto simp: settings_media_truncate_def media_failed_def media_bounds_def split: if_splits)
    with eo sc durable close_creating [OF sc(2) c] show ?thesis by auto
  qed
qed

lemma write_file_spec:
  assumes "write_file fs v h off d = (ok, h', v')"
    and "opened v h name f 0" and "card v name = Some f" and "off \<le> length f"
  shows "(\<forall>n. n \<noteq> name \<longrightarrow> card v' n = card v n) \<and>
    (writing v' h' name f off (off + length d) \<or> card v' = card v \<and> \<not> ok \<and> (\<exists>q. opened v' h' name f q)) \<and>
    (ok \<longrightarrow> (\<exists>q. opened v' h' name (take off f @ d @ drop (off + length d) f) q) \<and>
      card v' name = Some (take off f @ d @ drop (off + length d) f))"
proof (cases "f_size fs h \<le> 256")
  case False
  with assms show ?thesis by (auto simp: write_file_def)
next
  case True
  obtain r1 h1 v1 where s: "f_lseek fs v h off = (r1, h1, v1)" by (metis prod.exhaust)
  obtain r2 k h2 v2 where w: "f_write fs v1 h1 d = (r2, k, h2, v2)" by (metis prod.exhaust)
  obtain r3 h3 v3 where y: "f_sync fs v2 h2 = (r3, h3, v3)" by (metis prod.exhaust)
  note 1 = lseek_handle [OF assms(2,4) s]
  show ?thesis
  proof (cases "r1 = FR_OK")
    case False
    with assms True s 1 show ?thesis by (auto simp: write_file_def)
  next
    case ok: True
    with 1 assms(3,4) have op: "opened v1 h1 name f off" and cd: "card v1 name = Some f"
      and cv: "card v1 = card v" by auto
    note 2 = write_handle [OF op cd assms(4) w]
    note 3 = sync_writing [OF _ y, of name f off "off + length d"]
    show ?thesis
      using assms(1) True s ok w y cv 2 3 sync_done [of v2 h2 name _ _ h3 v3]
      by (auto simp: write_file_def split: if_splits)
  qed
qed

lemma media_write_spec:
  assumes "settings_media_write fs m slot off d = (b, m')" and "off = length (slot_content m slot)"
  shows "(\<forall>n. n \<noteq> slot_name slot \<longrightarrow> card (volume m') n = card (volume m) n) \<and>
    (card (volume m') = card (volume m) \<and> \<not> b \<or>
     slot < 2 \<and> torn (slot_content m slot) off (off + length d) (card (volume m') (slot_name slot))) \<and>
    (b \<longrightarrow> slot < 2 \<and> card (volume m') (slot_name slot) = Some (slot_content m slot @ d))"
proof (cases "media_bounds fs m slot off (length d)")
  case False
  with assms show ?thesis by (simp add: settings_media_write_def)
next
  case b: True
  obtain r h v where o: "f_open fs (volume m) (slot_name slot) FA_WRITE = (r, h, v)"
    by (metis prod.exhaust)
  note eo = open_existing [OF _ o, simplified]
  have slot: "slot < 2" using b by (simp add: media_bounds_def)
  show ?thesis
  proof (cases "r = FR_OK")
    case False
    with assms b o eo slot show ?thesis
      by (auto simp: settings_media_write_def media_failed_def)
  next
    case True
    then obtain f where f: "card (volume m) (slot_name slot) = Some f"
      "opened v h (slot_name slot) f 0" and cv: "card v = card (volume m)"
      using eo by auto
    have cont: "slot_content m slot = f" using f(1) slot by (simp add: slot_content_def)
    obtain ok h1 v1 where wf: "write_file fs v h off d = (ok, h1, v1)" by (metis prod.exhaust)
    obtain rc v2 where c: "f_close fs v1 h1 = (rc, v2)" by (metis prod.exhaust)
    note ws = write_file_spec [OF wf f(2)]
    have len: "off = length f" using assms(2) cont by simp
    have wr: "(\<forall>n. n \<noteq> slot_name slot \<longrightarrow> card v1 n = card v n) \<and>
      (writing v1 h1 (slot_name slot) f off (off + length d) \<or>
        card v1 = card v \<and> \<not> ok \<and> (\<exists>q. opened v1 h1 (slot_name slot) f q)) \<and>
      (ok \<longrightarrow> (\<exists>q. opened v1 h1 (slot_name slot) (f @ d) q) \<and> card v1 (slot_name slot) = Some (f @ d))"
      using ws f(1) cv len by simp
    have unch: "card v2 = card v1"
      if "opened v1 h1 (slot_name slot) g q" "card v1 (slot_name slot) = Some g" for g q
      using close_durable [OF that c] .
    have r: "volume m' = v2" "b \<longrightarrow> ok"
      using assms(1) b o True wf c
      by (auto simp: settings_media_write_def media_failed_def split: if_splits)
    from wr consider
        (wrote) "writing v1 h1 (slot_name slot) f off (off + length d)"
      | (kept) "card v1 = card v" "\<not> ok" "\<exists>q. opened v1 h1 (slot_name slot) f q" by blast
    then show ?thesis
    proof cases
      case kept
      then have "card v2 = card v1" using unch f(1) cv by auto
      with kept r cv show ?thesis by auto
    next
      case wrote
      have "card v2 (slot_name slot) = Some (f @ d)" if "ok"
        using that wr unch by metis
      with close_writing [OF wrote c] wr r cv slot cont show ?thesis by auto
    qed
  qed
qed

end

sublocale fat_volume \<subseteq> slots: slot_media "settings_media_io fs" slot_content
proof
  fix m slot off n r m' d b and slot' :: nat
  {
    assume "io_read (settings_media_io fs) m slot off n = (r, m')"
    then have "settings_media_read fs m slot off n = (r, m')" by (simp add: settings_media_io_def)
    from media_read_spec [OF this] show "slot_content m' = slot_content m"
      by (intro slot_content_eq) (rule conjunct1)
  next
    assume "io_read (settings_media_io fs) m slot off n = (Some d, m')"
    then have "settings_media_read fs m slot off n = (Some d, m')" by (simp add: settings_media_io_def)
    from media_read_spec [OF this] show "d = padded n (drop off (slot_content m slot))" by blast
  next
    assume "io_truncate (settings_media_io fs) m slot = (b, m')" and ne: "slot' \<noteq> slot"
    then have "settings_media_truncate fs m slot = (b, m')" by (simp add: settings_media_io_def)
    note t = media_truncate_spec [OF this]
    show "slot_content m' slot' = slot_content m slot'"
    proof (cases "slot < 2")
      case True
      with t ne slot_content_other show ?thesis by blast
    next
      case False
      with t show ?thesis by simp
    qed
  next
    assume "io_truncate (settings_media_io fs) m slot = (True, m')"
    then have "settings_media_truncate fs m slot = (True, m')" by (simp add: settings_media_io_def)
    from media_truncate_spec [OF this] show "slot_content m' slot = []"
      by (simp add: slot_content_def)
  next
    assume "io_truncate (settings_media_io fs) m slot = (False, m')"
    then have "settings_media_truncate fs m slot = (False, m')" by (simp add: settings_media_io_def)
    from media_truncate_spec [OF this] show "slot_content m' slot \<in> {slot_content m slot, []}"
      by (auto simp: slot_content_def)
  next
    assume "io_write (settings_media_io fs) m slot off d = (b, m')"
      and off: "off = length (slot_content m slot)" and ne: "slot' \<noteq> slot"
    then have "settings_media_write fs m slot off d = (b, m')" by (simp add: settings_media_io_def)
    note w = media_write_spec [OF this off]
    then consider "card (volume m') = card (volume m)" | "slot < 2" by blast
    then show "slot_content m' slot' = slot_content m slot'"
    proof cases
      case 1
      from slot_content_eq [OF this] show ?thesis by (rule fun_cong)
    next
      case 2
      with w ne slot_content_other show ?thesis by blast
    qed
  next
    assume "io_write (settings_media_io fs) m slot off d = (True, m')"
      and off: "off = length (slot_content m slot)"
    then have "settings_media_write fs m slot off d = (True, m')" by (simp add: settings_media_io_def)
    from media_write_spec [OF this off] show "slot_content m' slot = slot_content m slot @ d"
      by (simp add: slot_content_def [of m'])
  next
    assume "io_write (settings_media_io fs) m slot off d = (False, m')"
      and off: "off = length (slot_content m slot)"
    then have "settings_media_write fs m slot off d = (False, m')" by (simp add: settings_media_io_def)
    note w = media_write_spec [OF this off]
    then consider "card (volume m') = card (volume m)"
      | "slot < 2" "torn (slot_content m slot) off (off + length d) (card (volume m') (slot_name slot))"
      by blast
    then show "take off (slot_content m' slot) = slot_content m slot \<and>
        length (slot_content m' slot) \<le> off + length d"
    proof cases
      case 1
      from slot_content_eq [OF this] show ?thesis using off by simp
    next
      case 2
      then show ?thesis using off by (auto simp: torn_def slot_content_def [of m'])
    qed
  }
qed

context fat_volume
begin

lemma media_save_atomic:
  assumes "config_load (settings_media_io fs) m = (b0, s0, m0)"
    and "slots_readable (settings_media_io fs) m"
    and "config_save (settings_media_io fs) s0 v m0 = (b1, s1, m1)" and "cfg_wf v"
    and "settings_media_present fs m1 = (b, m1')"
    and "config_load (settings_media_io fs) m1' = (b2, s2, m2)"
    and "slots_readable (settings_media_io fs) m1'"
  shows "st_value s2 \<in> {st_value s0, v} \<and> (b1 \<longrightarrow> st_value s2 = v \<and> st_saved s2) \<and>
    (st_saved s0 \<longrightarrow> st_saved s2)"
  using slots.atomic_save [OF assms(1-4) slot_content_eq [OF media_present_card [OF assms(5)]] assms(6,7)] .

end

section \<open>A volume in memory\<close>

text \<open>A volume with fault injection: every call takes the next entry of a schedule and fails if
  it is \<open>True\<close> (an exhausted schedule stands for a healthy card). Written data reaches the file
  when it is synchronised or closed, and a failing write leaves half of its data behind.\<close>

record ram =
  ram_files :: "(string \<times> bytes) list"
  ram_faults :: "bool list"

record ram_handle =
  rh_name :: string
  rh_data :: bytes
  rh_pos :: nat

definition ram_put :: "string \<Rightarrow> bytes \<Rightarrow> ram \<Rightarrow> ram" where
  "ram_put name f v = v\<lparr>ram_files := (name, f) # ram_files v\<rparr>"

definition ram_tick :: "ram \<Rightarrow> bool \<times> ram" where
  "ram_tick v = (case ram_faults v of [] \<Rightarrow> (True, v) | b # bs \<Rightarrow> (\<not> b, v\<lparr>ram_faults := bs\<rparr>))"

definition ram_open :: "ram \<Rightarrow> string \<Rightarrow> fmode \<Rightarrow> fresult \<times> ram_handle \<times> ram" where
  "ram_open v name mode =
     (case ram_tick v of (ok, v') \<Rightarrow>
        let h = \<lparr>rh_name = name, rh_data = [], rh_pos = 0\<rparr> in
        if \<not> ok then (FR_OTHER, h, v')
        else if mode = FA_WRITE_CREATE_ALWAYS then (FR_OK, h, v')
        else case map_of (ram_files v) name of
          None \<Rightarrow> (FR_NO_FILE, h, v')
        | Some f \<Rightarrow> (FR_OK, h\<lparr>rh_data := f\<rparr>, v'))"

definition ram_lseek :: "ram \<Rightarrow> ram_handle \<Rightarrow> nat \<Rightarrow> fresult \<times> ram_handle \<times> ram" where
  "ram_lseek v h off =
     (case ram_tick v of (ok, v') \<Rightarrow>
        if ok then (FR_OK, h\<lparr>rh_pos := off\<rparr>, v') else (FR_OTHER, h, v'))"

definition ram_read :: "ram \<Rightarrow> ram_handle \<Rightarrow> nat \<Rightarrow> fresult \<times> bytes \<times> ram_handle \<times> ram" where
  "ram_read v h n =
     (case ram_tick v of (ok, v') \<Rightarrow>
        if ok then (FR_OK, peek (rh_pos h) n (rh_data h), h\<lparr>rh_pos := rh_pos h + n\<rparr>, v')
        else (FR_OTHER, [], h, v'))"

definition ram_write :: "ram \<Rightarrow> ram_handle \<Rightarrow> bytes \<Rightarrow> fresult \<times> nat \<times> ram_handle \<times> ram" where
  "ram_write v h d =
     (case ram_tick v of (ok, v') \<Rightarrow>
        if ok then (FR_OK, length d,
          h\<lparr>rh_data := poke (rh_pos h) d (rh_data h), rh_pos := rh_pos h + length d\<rparr>, v')
        else let g = poke (rh_pos h) (take (length d div 2) d) (rh_data h)
          in (FR_OTHER, length d div 2, h\<lparr>rh_data := g\<rparr>, ram_put (rh_name h) g v'))"

definition ram_sync :: "ram \<Rightarrow> ram_handle \<Rightarrow> fresult \<times> ram_handle \<times> ram" where
  "ram_sync v h =
     (case ram_tick v of (ok, v') \<Rightarrow>
        if ok then (FR_OK, h, ram_put (rh_name h) (rh_data h) v') else (FR_OTHER, h, v'))"

definition ram_fs :: "(ram, ram_handle) fatfs" where
  "ram_fs =
     \<lparr>usb_probe = ram_tick, usb_ready = (\<lambda>v. True), f_unmount = (\<lambda>v. v),
      f_mount = (\<lambda>v. case ram_tick v of (ok, v') \<Rightarrow> (if ok then FR_OK else FR_OTHER, v')),
      f_open = ram_open, f_size = (\<lambda>h. length (rh_data h)), f_lseek = ram_lseek, f_read = ram_read,
      f_write = ram_write, f_sync = ram_sync,
      f_close = (\<lambda>v h. case ram_sync v h of (r, h', v') \<Rightarrow> (r, v'))\<rparr>"

definition ram_card :: "ram \<Rightarrow> string \<Rightarrow> bytes option" where
  "ram_card v = map_of (ram_files v)"

definition ram_opened :: "ram \<Rightarrow> ram_handle \<Rightarrow> string \<Rightarrow> bytes \<Rightarrow> nat \<Rightarrow> bool" where
  "ram_opened v h name f p = (rh_name h = name \<and> rh_data h = f \<and> rh_pos h = p)"

definition ram_writing :: "ram \<Rightarrow> ram_handle \<Rightarrow> string \<Rightarrow> bytes \<Rightarrow> nat \<Rightarrow> nat \<Rightarrow> bool" where
  "ram_writing v h name f p e =
     (rh_name h = name \<and> torn f p e (ram_card v name) \<and> torn f p e (Some (rh_data h)))"

definition ram_creating :: "ram \<Rightarrow> ram_handle \<Rightarrow> string \<Rightarrow> bytes option \<Rightarrow> bool" where
  "ram_creating v h name old =
     (rh_name h = name \<and> rh_data h = [] \<and> ram_card v name \<in> {old, Some []})"

lemma ram_tick_card: "ram_tick v = (ok, v') \<Longrightarrow> ram_card v' = ram_card v"
  by (auto simp: ram_tick_def ram_card_def split: list.splits)

lemma ram_put_card [simp]: "ram_card (ram_put name f v) = (ram_card v)(name \<mapsto> f)"
  by (simp add: ram_put_def ram_card_def)

lemma torn_poke:
  "p \<le> length f \<Longrightarrow> length d \<le> k \<Longrightarrow> torn f p (p + k) (Some (poke p d f))"
  by (auto simp: torn_def poke_def)

lemma torn_refl: "torn f p e (Some f)"
  by (simp add: torn_def)

lemmas ram_ops = ram_fs_def ram_open_def ram_lseek_def ram_read_def ram_write_def ram_sync_def
  ram_opened_def ram_writing_def ram_creating_def

interpretation ram: fat_volume ram_fs ram_card ram_opened ram_writing ram_creating
proof
  fix v v' :: ram and h h' :: ram_handle and name f p e r d k old ok off n mode
  {
    show "ram_card (f_unmount ram_fs v) = ram_card v" by (simp add: ram_fs_def)
  next
    assume "usb_probe ram_fs v = (ok, v')"
    then show "ram_card v' = ram_card v" by (auto simp: ram_fs_def ram_tick_card)
  next
    assume "f_mount ram_fs v = (r, v')"
    then show "ram_card v' = ram_card v"
      by (auto simp: ram_fs_def ram_tick_card split: prod.splits if_splits)
  next
    assume "mode \<noteq> FA_WRITE_CREATE_ALWAYS" "f_open ram_fs v name mode = (r, h, v')"
    then show "ram_card v' = ram_card v \<and> (r = FR_NO_FILE \<longrightarrow> ram_card v name = None) \<and>
        (r = FR_OK \<longrightarrow> (\<exists>f. ram_card v name = Some f \<and> f_size ram_fs h = length f \<and> ram_opened v' h name f 0))"
      by (auto simp: ram_ops Let_def dest!: ram_tick_card split: prod.splits if_splits option.splits)
        (auto simp: ram_card_def)
  next
    assume "f_open ram_fs v name FA_WRITE_CREATE_ALWAYS = (r, h, v')"
    then show "(\<forall>n. n \<noteq> name \<longrightarrow> ram_card v' n = ram_card v n) \<and> ram_card v' name \<in> {ram_card v name, Some []} \<and>
        (r = FR_OK \<longrightarrow> ram_opened v' h name [] 0 \<and> ram_creating v' h name (ram_card v name))"
      by (auto simp: ram_ops Let_def dest!: ram_tick_card split: prod.splits if_splits)
  next
    assume "ram_opened v h name f p" "off \<le> length f" "f_lseek ram_fs v h off = (r, h', v')"
    then show "ram_card v' = ram_card v \<and> (\<exists>q. ram_opened v' h' name f q) \<and>
        (r = FR_OK \<longrightarrow> ram_opened v' h' name f off)"
      by (auto simp: ram_ops dest!: ram_tick_card split: prod.splits if_splits)
  next
    assume "ram_opened v h name f p" "f_read ram_fs v h n = (r, d, h', v')"
    then show "ram_card v' = ram_card v \<and> (r = FR_OK \<longrightarrow> d = take n (drop p f)) \<and>
        (\<exists>q. ram_opened v' h' name f q)"
      by (auto simp: ram_ops peek_def dest!: ram_tick_card split: prod.splits if_splits)
  next
    assume "ram_opened v h name f p" "ram_card v name = Some f" "p \<le> length f"
      "f_write ram_fs v h d = (r, k, h', v')"
    then show "(\<forall>n. n \<noteq> name \<longrightarrow> ram_card v' n = ram_card v n) \<and>
        ram_writing v' h' name f p (p + length d) \<and>
        (r = FR_OK \<longrightarrow> k = length d \<longrightarrow>
          ram_opened v' h' name (take p f @ d @ drop (p + length d) f) (p + length d))"
      by (auto simp: ram_ops Let_def torn_poke torn_refl dest!: ram_tick_card
          split: prod.splits if_splits) (simp add: poke_def)
  next
    assume "ram_writing v h name f p e"
    then show "torn f p e (ram_card v name)" by (simp add: ram_writing_def)
  next
    assume "ram_creating v h name old"
    then show "ram_card v name \<in> {old, Some []}" by (simp add: ram_creating_def)
  next
    assume "ram_writing v h name f p e" "f_sync ram_fs v h = (r, h', v')"
    then show "(\<forall>n. n \<noteq> name \<longrightarrow> ram_card v' n = ram_card v n) \<and> ram_writing v' h' name f p e"
      by (auto simp: ram_ops dest!: ram_tick_card split: prod.splits if_splits)
  next
    assume "ram_creating v h name old" "f_sync ram_fs v h = (r, h', v')"
    then show "(\<forall>n. n \<noteq> name \<longrightarrow> ram_card v' n = ram_card v n) \<and> ram_creating v' h' name old"
      by (auto simp: ram_ops dest!: ram_tick_card split: prod.splits if_splits)
  next
    assume "ram_opened v h name f p" "f_sync ram_fs v h = (FR_OK, h', v')"
    then show "ram_card v' name = Some f \<and> ram_opened v' h' name f p"
      by (auto simp: ram_ops dest!: ram_tick_card split: prod.splits if_splits)
  next
    assume "ram_opened v h name f p" "ram_card v name = Some f" "f_close ram_fs v h = (r, v')"
    then show "ram_card v' = ram_card v"
      by (auto simp: ram_ops fun_upd_idem dest!: ram_tick_card split: prod.splits if_splits)
  next
    assume "ram_writing v h name f p e" "f_close ram_fs v h = (r, v')"
    then show "(\<forall>n. n \<noteq> name \<longrightarrow> ram_card v' n = ram_card v n) \<and> torn f p e (ram_card v' name)"
      by (auto simp: ram_ops dest!: ram_tick_card split: prod.splits if_splits)
  next
    assume "ram_creating v h name old" "f_close ram_fs v h = (r, v')"
    then show "(\<forall>n. n \<noteq> name \<longrightarrow> ram_card v' n = ram_card v n) \<and> ram_card v' name \<in> {old, Some []}"
      by (auto simp: ram_ops dest!: ram_tick_card split: prod.splits if_splits)
  }
qed

section \<open>Saving a configuration is atomic\<close>

text \<open>C1: saving settings to the card is atomic. Load the settings, save a new value, and then let
  anything happen that the calls report: a failure of any open, seek, write, synchronisation or
  close, torn data included. After the card is probed and mounted again, a load that can read
  both files gives the old value or the new one; if the save reported success it gives the new
  one; and a card that held saved settings still does.\<close>

theorem settings_save_atomic:
  assumes "fat_volume fs durable opened writing creating"
    and "config_load (settings_media_io fs) m = (b0, s0, m0)"
    and "slots_readable (settings_media_io fs) m"
    and "config_save (settings_media_io fs) s0 v m0 = (b1, s1, m1)" and "cfg_wf v"
    and "settings_media_present fs m1 = (b, m1')"
    and "config_load (settings_media_io fs) m1' = (b2, s2, m2)"
    and "slots_readable (settings_media_io fs) m1'"
  shows "st_value s2 \<in> {st_value s0, v} \<and> (b1 \<longrightarrow> st_value s2 = v \<and> st_saved s2) \<and>
    (st_saved s0 \<longrightarrow> st_saved s2)"
  using fat_volume.media_save_atomic [OF assms] .

text \<open>A run on an empty card: the schedule lets the load, the truncation and the opening of the file
  for writing succeed and tears the first write.\<close>

definition ram_media :: "(string \<times> bytes) list \<Rightarrow> bool list \<Rightarrow> ram media" where
  "ram_media fl bs =
     \<lparr>volume = \<lparr>ram_files = fl, ram_faults = bs\<rparr>, mounted = True, media_status = ''FAT card mounted''\<rparr>"

lemma ram_fs_sel:
  "usb_probe ram_fs = ram_tick" "usb_ready ram_fs v" "f_unmount ram_fs v = v"
  "f_mount ram_fs v = (case ram_tick v of (ok, v') \<Rightarrow> (if ok then FR_OK else FR_OTHER, v'))"
  "f_open ram_fs = ram_open" "f_size ram_fs h = length (rh_data h)" "f_lseek ram_fs = ram_lseek"
  "f_read ram_fs = ram_read" "f_write ram_fs = ram_write" "f_sync ram_fs = ram_sync"
  "f_close ram_fs v h = (case ram_sync v h of (r, h', v') \<Rightarrow> (r, v'))"
  by (simp_all add: ram_fs_def)

lemma ram_tick_simps:
  "ram_tick \<lparr>ram_files = fl, ram_faults = b # bs\<rparr> = (\<not> b, \<lparr>ram_files = fl, ram_faults = bs\<rparr>)"
  "ram_tick \<lparr>ram_files = fl, ram_faults = []\<rparr> = (True, \<lparr>ram_files = fl, ram_faults = []\<rparr>)"
  by (simp_all add: ram_tick_def)

lemmas ram_eval = ram_fs_sel ram_tick_simps ram_open_def ram_lseek_def ram_read_def ram_write_def
  ram_sync_def ram_put_def ram_media_def media_bounds_def slot_name_def

lemma blank_record: "load_record empty_store slot (replicate 256 255) = empty_store"
proof -
  have "config_decode (replicate 256 255) = None"
    using config_decode_short [of "[]"] by (simp add: padded_def)
  moreover have "blank (replicate 256 255)" by (simp add: blank_def list_all_iff)
  ultimately show ?thesis by (simp add: load_record_def)
qed

lemma example_read:
  "settings_media_read ram_fs (ram_media [] (False # bs)) slot 0 256 =
     (if slot < 2 then (Some (replicate 256 255), ram_media [] bs) else (None, ram_media [] (False # bs)))"
  by (simp add: settings_media_read_def ram_eval)

lemma example_load:
  "config_load (settings_media_io ram_fs) (ram_media [] (False # False # bs)) =
     (False, empty_store, ram_media [] bs)"
  by (simp add: config_load_def load_slot_def settings_media_io_def example_read blank_record)
    (simp add: empty_store_def)

abbreviation torn_file :: bytes where
  "torn_file \<equiv> take 126 (peek 0 252 (config_encode example_static 1))"

lemma example_save:
  "config_save (settings_media_io ram_fs) empty_store example_static
     (ram_media [] [False, False, False, False, False, True]) =
   (False, empty_store, media_failed (ram_media
      [(slot_name 0, torn_file), (slot_name 0, torn_file), (slot_name 0, []), (slot_name 0, [])] []))"
  by (simp add: config_save_def settings_media_io_def settings_media_truncate_def
      settings_media_write_def write_file_def media_failed_def ram_eval empty_store_def length_peek
      poke_def Let_def)

lemma example_reload:
  assumes "length f \<le> 256" and "map_of fl (slot_name 1) = None"
  shows "slots_readable (settings_media_io ram_fs) (ram_media ((slot_name 0, f) # fl) [])"
  using assms by (auto simp: slots_readable_def settings_media_io_def settings_media_read_def read_file_def ram_eval Let_def
      peek_def split: option.splits)

theorem settings_save_atomic_witness:
  "\<exists>s2 m2 b2. config_load (settings_media_io ram_fs) (ram_media
      [(slot_name 0, torn_file), (slot_name 0, torn_file), (slot_name 0, []), (slot_name 0, [])] [])
      = (b2, s2, m2) \<and> st_value s2 \<in> {config_defaults, example_static}"
proof -
  let ?fl = "[(slot_name 0, torn_file), (slot_name 0, torn_file), (slot_name 0, []), (slot_name 0, [])]"
  obtain b2 s2 m2 where l: "config_load (settings_media_io ram_fs) (ram_media ?fl []) = (b2, s2, m2)"
    by (metis prod.exhaust)
  have p: "settings_media_present ram_fs (media_failed (ram_media ?fl [])) = (True, ram_media ?fl [])"
    by (simp add: settings_media_present_def media_failed_def ram_eval)
  have r: "slots_readable (settings_media_io ram_fs)
      (ram_media [] [False, False, False, False, False, False, False, True])"
    by (simp add: slots_readable_def settings_media_io_def example_read)
  have r': "slots_readable (settings_media_io ram_fs) (ram_media ?fl [])"
    by (rule example_reload) (simp_all add: slot_name_def)
  have "st_value s2 \<in> {st_value empty_store, example_static}"
    using settings_save_atomic [OF ram.fat_volume_axioms example_load r example_save _ p l r'] by simp
  with l show ?thesis by (auto simp: empty_store_def)
qed

end
