(* ===== verification/Config_Web.thy ===== *)
theory Config_Web
  imports Config
begin

text \<open>
  The configuration form of the web interface, \<^verbatim>\<open>software/r5/src/config_web.c\<close>: the parser of the
  submitted form and the JSON view of the settings, with the dotted-decimal parser
  \<open>config_parse_ipv4\<close> of \<^verbatim>\<open>software/r5/src/config.c\<close>.
\<close>

section \<open>Dotted-decimal addresses\<close>

text \<open>The digit loop: the value and the number of digits so far, and the rest of the string.\<close>

fun ipv4_octet :: "bytes \<Rightarrow> nat \<Rightarrow> nat \<Rightarrow> (nat \<times> nat \<times> bytes) option" where
  "ipv4_octet [] n digits = Some (n, digits, [])"
| "ipv4_octet (c # s) n digits =
     (if is_digit c
      then let n = n * 10 + digit_value c; digits = digits + 1
           in if 3 < digits \<or> 255 < n then None else ipv4_octet s n digits
      else Some (n, digits, c # s))"

text \<open>The octets that remain to be read.\<close>

fun ipv4_octets :: "nat \<Rightarrow> bytes \<Rightarrow> bytes option" where
  "ipv4_octets 0 s = Some []"
| "ipv4_octets (Suc left) s =
     (case ipv4_octet s 0 0 of
        None \<Rightarrow> None
      | Some (n, digits, s) \<Rightarrow>
          if digits = 0 then None
          else if left = 0 then (if s = [] then Some [of_nat n] else None)
          else case s of
            [] \<Rightarrow> None
          | c # s \<Rightarrow> if c \<noteq> 46 then None
              else map_option (Cons (of_nat n)) (ipv4_octets left s))"

definition config_parse_ipv4 :: "bytes \<Rightarrow> bytes option" where
  "config_parse_ipv4 s = ipv4_octets 4 s"

section \<open>The form parser\<close>

fun hex_bytes :: "bytes \<Rightarrow> bytes option" where
  "hex_bytes [] = Some []"
| "hex_bytes [a] = None"
| "hex_bytes (a # b # s) =
     (case (hex_digit a, hex_digit b) of
        (Some x, Some y) \<Rightarrow> map_option (Cons (of_nat (x * 16 + y))) (hex_bytes s)
      | _ \<Rightarrow> None)"

definition hex :: "bytes \<Rightarrow> nat \<Rightarrow> bytes option" where
  "hex s sz = (if length s \<noteq> 2 * sz then None else hex_bytes s)"

definition form_keys :: "bytes list" where
  "form_keys = map ascii [''mask'', ''adv0'', ''adv1'', ''adv2'', ''adv3'', ''sfp'', ''dhcp'', ''ip'', ''netmask'',
     ''gateway'', ''username'', ''salt'', ''hash'', ''stp'', ''stp_version'']"

fun key_index :: "bytes list \<Rightarrow> bytes \<Rightarrow> nat" where
  "key_index [] p = 0"
| "key_index (k # ks) p = (if p = k then 0 else Suc (key_index ks p))"

fun form_decimal_loop :: "bytes \<Rightarrow> nat \<Rightarrow> nat option" where
  "form_decimal_loop [] n = Some n"
| "form_decimal_loop (q # qs) n =
     (if \<not> is_digit q \<or> 10000 < n then None else form_decimal_loop qs (n * 10 + digit_value q))"

definition form_decimal :: "bytes \<Rightarrow> nat option" where
  "form_decimal v = (case v of [] \<Rightarrow> None | q # _ \<Rightarrow> if \<not> is_digit q then None else form_decimal_loop v 0)"

definition form_number :: "nat \<Rightarrow> nat \<Rightarrow> switch_config \<Rightarrow> switch_config option" where
  "form_number k n c =
     (if k = 0 then (if 31 < n then None else Some (c\<lparr>cfg_admin := of_nat n\<rparr>))
      else if k \<le> 4 then (if n = 0 \<or> 7 < n then None
        else Some (c\<lparr>cfg_advertise := (cfg_advertise c)[k - 1 := of_nat n]\<rparr>))
      else if k = 5 then (if 10000 < n then None else Some (c\<lparr>cfg_sfp_speed := of_nat n\<rparr>))
      else (if 1 < n then None else Some (c\<lparr>cfg_dhcp := n \<noteq> 0\<rparr>)))"

definition form_field :: "nat \<Rightarrow> bytes \<Rightarrow> switch_config \<Rightarrow> switch_config option" where
  "form_field k v c =
     (if 13 \<le> k then
        (if k = 13 then
           (if v \<noteq> ascii ''0'' \<and> v \<noteq> ascii ''1'' then None
            else Some (c\<lparr>cfg_stp_enabled := (v ! 0 = 49)\<rparr>))
         else
           (if v \<noteq> ascii ''0'' \<and> v \<noteq> ascii ''2'' then None
            else Some (c\<lparr>cfg_stp_version := v ! 0 - 48\<rparr>)))
      else if k \<le> 6 then
        (case form_decimal v of None \<Rightarrow> None | Some n \<Rightarrow> form_number k n c)
      else if k \<le> 9 then
        (case config_parse_ipv4 v of
           None \<Rightarrow> None
         | Some a \<Rightarrow> Some (if k = 7 then c\<lparr>cfg_ip := a\<rparr> else if k = 8 then c\<lparr>cfg_netmask := a\<rparr>
                           else c\<lparr>cfg_gateway := a\<rparr>))
      else if k = 10 then
        (if 32 \<le> length v then None
         else Some (c\<lparr>cfg_username := poke 0 (v @ [0]) (cfg_username c)\<rparr>))
      else if k = 11 then map_option (\<lambda>b. c\<lparr>cfg_password_salt := b\<rparr>) (hex v 16)
      else map_option (\<lambda>b. c\<lparr>cfg_password_hash := b\<rparr>) (hex v 32))"

text \<open>One \<open>key=value\<close> segment: the key is looked up, a repeated key is refused.\<close>

definition form_segment ::
  "bytes \<Rightarrow> switch_config \<times> nat set \<Rightarrow> (switch_config \<times> nat set) option" where
  "form_segment p cs =
     (case cs of (c, seen) \<Rightarrow>
        case cut_at 61 p of
          (_, None) \<Rightarrow> None
        | (key, Some v) \<Rightarrow>
            let k = key_index form_keys key in
            if k = 15 \<or> k \<in> seen then None
            else map_option (\<lambda>c. (c, insert k seen)) (form_field k v c))"

function form_loop ::
  "bytes \<Rightarrow> switch_config \<times> nat set \<Rightarrow> (switch_config \<times> nat set) option" where
  "form_loop p cs =
     (if p = [] then Some cs
      else case cut_at 38 p of
        (seg, None) \<Rightarrow> form_segment seg cs
      | (seg, Some nxt) \<Rightarrow>
          if nxt = [] then None
          else case form_segment seg cs of None \<Rightarrow> None | Some cs \<Rightarrow> form_loop nxt cs)"
  by pat_completeness auto
termination
  by (relation "measure (length \<circ> fst)") (auto dest: cut_rest_length [OF sym])

declare form_loop.simps [simp del]

text \<open>The result of \<open>config_form\<close>: the configuration and the flags \<open>credentials\<close> and
  \<open>stp_supplied\<close>. The bit set \<open>seen\<close> of the source is a set of key indices.\<close>

definition config_form :: "bytes \<Rightarrow> (switch_config \<times> bool \<times> bool) option" where
  "config_form body =
     (case form_loop body (config_defaults, {}) of
        None \<Rightarrow> None
      | Some (c, seen) \<Rightarrow>
          let base = seen \<inter> {0..<13}; spanning = seen \<inter> {13, 14} in
          if base \<noteq> {0..<10} \<and> base \<noteq> {0..<13} \<or> spanning \<noteq> {} \<and> spanning \<noteq> {13, 14} then None
          else if \<not> config_valid c then None
          else Some (c, base = {0..<13}, spanning \<noteq> {}))"

section \<open>Addresses are exactly the dotted quads\<close>

lemma ipv4_octet_digits:
  assumes "n \<le> 255" and "k \<le> 3"
  shows "ipv4_octet s n k =
    (let ds = takeWhile is_digit s
     in if k + length ds \<le> 3 \<and> dec_from n ds \<le> 255
        then Some (dec_from n ds, k + length ds, dropWhile is_digit s) else None)"
  using assms
proof (induction s n k rule: ipv4_octet.induct)
  case (1 n k)
  then show ?case by simp
next
  case (2 c s n k)
  show ?case
  proof (cases "is_digit c")
    case False
    with 2 show ?thesis by simp
  next
    case True
    let ?n = "n * 10 + digit_value c"
    note bound = dec_from_ge [of ?n "takeWhile is_digit s"]
    show ?thesis
    proof (cases "3 < k + 1 \<or> 255 < ?n")
      case bad: True
      then have "\<not> (k + length (takeWhile is_digit (c # s)) \<le> 3 \<and>
          dec_from n (takeWhile is_digit (c # s)) \<le> 255)"
        using True bound by auto
      moreover have "ipv4_octet (c # s) n k = None" using True bad by simp
      ultimately show ?thesis by (simp only: Let_def if_False)
    next
      case good: False
      with "2.IH" [OF True refl refl] True show ?thesis by (simp add: Let_def)
    qed
  qed
qed

definition octet_text :: "bytes \<Rightarrow> u8 \<Rightarrow> bool" where
  "octet_text ds b = (ds \<noteq> [] \<and> length ds \<le> 3 \<and> list_all is_digit ds \<and> dec_value ds \<le> 255 \<and>
     b = of_nat (dec_value ds))"

lemma takeWhile_digits_append:
  "list_all is_digit ds \<Longrightarrow> (\<forall>c cs. r = c # cs \<longrightarrow> \<not> is_digit c) \<Longrightarrow>
    takeWhile is_digit (ds @ r) = ds \<and> dropWhile is_digit (ds @ r) = r"
  by (cases r) (auto simp: list_all_iff takeWhile_append2 dropWhile_append2)

lemma ipv4_octet_iff:
  "(\<exists>digits. ipv4_octet s 0 0 = Some (n, digits, r) \<and> digits \<noteq> 0) \<longleftrightarrow>
   (\<exists>ds. s = ds @ r \<and> octet_text ds (of_nat n) \<and> n = dec_value ds \<and> (\<forall>c cs. r = c # cs \<longrightarrow> \<not> is_digit c))"
  (is "?L \<longleftrightarrow> ?R")
proof
  assume ?L
  moreover have "\<not> is_digit c" if "dropWhile is_digit s = c # cs" for c cs
    using hd_dropWhile [of is_digit s] that by simp
  ultimately show ?R
    by (intro exI [of _ "takeWhile is_digit s"])
      (auto simp: ipv4_octet_digits Let_def octet_text_def dec_value_def list_all_iff
        dest!: set_takeWhileD split: if_splits)
next
  assume ?R
  then obtain ds where ds: "s = ds @ r" "octet_text ds (of_nat n)" "n = dec_value ds"
    "\<forall>c cs. r = c # cs \<longrightarrow> \<not> is_digit c" by blast
  then have "takeWhile is_digit s = ds" "dropWhile is_digit s = r"
    using takeWhile_digits_append [of ds r] by (auto simp: octet_text_def)
  then show ?L
    using ds by (auto simp: ipv4_octet_digits Let_def octet_text_def dec_value_def)
qed

lemma not_digit_dot [simp]: "\<not> is_digit 46"
  by (simp add: is_digit_def)

lemma ipv4_octets_last:
  "ipv4_octets (Suc 0) s = Some out \<longleftrightarrow> (\<exists>b. octet_text s b \<and> out = [b])"
proof -
  have "ipv4_octets (Suc 0) s = Some out \<longleftrightarrow>
      (\<exists>n. (\<exists>digits. ipv4_octet s 0 0 = Some (n, digits, []) \<and> digits \<noteq> 0) \<and> out = [of_nat n])"
    by (auto split: option.splits if_splits)
  also have "\<dots> \<longleftrightarrow> (\<exists>b. octet_text s b \<and> out = [b])"
    unfolding ipv4_octet_iff by (auto simp: octet_text_def)
  finally show ?thesis .
qed

lemma ipv4_octets_more:
  "ipv4_octets (Suc (Suc k)) s = Some out \<longleftrightarrow>
   (\<exists>ds b r out'. s = ds @ 46 # r \<and> octet_text ds b \<and> ipv4_octets (Suc k) r = Some out' \<and> out = b # out')"
  (is "?L \<longleftrightarrow> ?R")
proof -
  have "?L \<longleftrightarrow> (\<exists>n r out'. (\<exists>digits. ipv4_octet s 0 0 = Some (n, digits, 46 # r) \<and> digits \<noteq> 0) \<and>
      ipv4_octets (Suc k) r = Some out' \<and> out = of_nat n # out')"
    by (auto simp del: ipv4_octets.simps(2) simp: ipv4_octets.simps(2) [of "Suc k"]
        split: option.splits list.splits if_splits)
  also have "\<dots> \<longleftrightarrow> ?R"
    unfolding ipv4_octet_iff by (auto simp: octet_text_def; fastforce)
  finally show ?thesis .
qed

text \<open>the address parser accepts exactly the dotted quads: four groups of one to three decimal
  digits of value at most 255, separated by single dots with nothing before, between or after
  them, and the result is their four values.\<close>

theorem config_parse_ipv4_iff:
  "config_parse_ipv4 s = Some out \<longleftrightarrow>
   (\<exists>d0 d1 d2 d3 b0 b1 b2 b3. s = d0 @ [46] @ d1 @ [46] @ d2 @ [46] @ d3 \<and>
      octet_text d0 b0 \<and> octet_text d1 b1 \<and> octet_text d2 b2 \<and> octet_text d3 b3 \<and>
      out = [b0, b1, b2, b3])"
proof -
  have "(4::nat) = Suc (Suc (Suc (Suc 0)))" by simp
  then show ?thesis
    unfolding config_parse_ipv4_def
    by (simp only: ipv4_octets_more ipv4_octets_last) (fastforce simp: octet_text_def)
qed

section \<open>What an accepted form gives\<close>

lemma length_config_parse_ipv4: "config_parse_ipv4 v = Some a \<Longrightarrow> length a = 4"
proof -
  have "ipv4_octets k s = Some out \<Longrightarrow> length out = k" for k s out
    by (induction k s arbitrary: out rule: ipv4_octets.induct)
      (auto split: option.splits prod.splits if_splits list.splits)
  then show "config_parse_ipv4 v = Some a \<Longrightarrow> length a = 4"
    by (simp add: config_parse_ipv4_def)
qed

lemma length_hex: "hex v n = Some b \<Longrightarrow> length b = n"
proof -
  have "hex_bytes v = Some b \<Longrightarrow> 2 * length b = length v" for b
    by (induction v arbitrary: b rule: hex_bytes.induct) (auto split: option.splits)
  then show "hex v n = Some b \<Longrightarrow> length b = n"
    by (auto simp: hex_def split: if_splits)
qed

text \<open>What the parser keeps: the array sizes, and the factory value of every setting whose key has
  not been seen.\<close>

definition form_inv :: "switch_config \<times> nat set \<Rightarrow> bool" where
  "form_inv cs = (case cs of (c, seen) \<Rightarrow>
     cfg_wf c \<and> cfg_mac c = factory_mac \<and> cfg_password_rounds c = CONFIG_PASSWORD_ROUNDS \<and>
     (10 \<notin> seen \<longrightarrow> cfg_username c = cfg_username config_defaults) \<and>
     (11 \<notin> seen \<longrightarrow> cfg_password_salt c = cfg_password_salt config_defaults) \<and>
     (12 \<notin> seen \<longrightarrow> cfg_password_hash c = factory_hash) \<and>
     (13 \<notin> seen \<longrightarrow> \<not> cfg_stp_enabled c) \<and> (14 \<notin> seen \<longrightarrow> cfg_stp_version c = 2))"

lemma factory_mac_wf [simp]: "length factory_mac = 5" "list_all (\<lambda>m. length m = 6) factory_mac"
  using config_defaults_wf by (simp_all add: cfg_wf_def config_defaults_def)

lemma form_field_inv:
  assumes "form_field k v c = Some c'" and "form_inv (c, seen)" and "k < 15"
  shows "form_inv (c', insert k seen)"
proof -
  consider "k = 14" | "k = 13" | "k = 12" | "k = 11" | "k = 10" | "k \<in> {7, 8, 9}" | "k \<le> 6"
    using assms(3) by fastforce
  then show ?thesis
  proof cases
    case 6
    then obtain a where a: "config_parse_ipv4 v = Some a"
      and c': "c' = (if k = 7 then c\<lparr>cfg_ip := a\<rparr> else if k = 8 then c\<lparr>cfg_netmask := a\<rparr>
        else c\<lparr>cfg_gateway := a\<rparr>)"
      using assms(1) by (cases "config_parse_ipv4 v") (auto simp: form_field_def)
    from 6 length_config_parse_ipv4 [OF a] assms(2) show ?thesis
      unfolding c' by (elim insertE emptyE) (simp_all add: form_inv_def cfg_wf_def)
  next
    case 7
    then obtain n where "form_number k n c = Some c'"
      using assms(1) by (auto simp: form_field_def split: option.splits)
    then have "c' \<in> {c\<lparr>cfg_admin := of_nat n\<rparr>, c\<lparr>cfg_sfp_speed := of_nat n\<rparr>, c\<lparr>cfg_dhcp := n \<noteq> 0\<rparr>,
        c\<lparr>cfg_advertise := (cfg_advertise c)[k - 1 := of_nat n]\<rparr>}"
      by (auto simp: form_number_def split: if_splits)
    then show ?thesis
      using assms(2) 7 by (elim insertE emptyE) (simp_all add: form_inv_def cfg_wf_def)
  next
    case 1
    with assms(1) have "c' = c\<lparr>cfg_stp_version := v ! 0 - 48\<rparr>"
      by (auto simp: form_field_def split: if_splits)
    with 1 show ?thesis using assms(2) by (simp add: form_inv_def cfg_wf_def)
  next
    case 2
    with assms(1) have "c' = c\<lparr>cfg_stp_enabled := (v ! 0 = 49)\<rparr>"
      by (auto simp: form_field_def split: if_splits)
    with 2 show ?thesis using assms(2) by (simp add: form_inv_def cfg_wf_def)
  next
    case 3
    with assms(1) obtain b where "hex v 32 = Some b" "c' = c\<lparr>cfg_password_hash := b\<rparr>"
      by (auto simp: form_field_def)
    with 3 length_hex [OF this(1)] show ?thesis using assms(2) by (simp add: form_inv_def cfg_wf_def)
  next
    case 4
    with assms(1) obtain b where "hex v 16 = Some b" "c' = c\<lparr>cfg_password_salt := b\<rparr>"
      by (auto simp: form_field_def)
    with 4 length_hex [OF this(1)] show ?thesis using assms(2) by (simp add: form_inv_def cfg_wf_def)
  next
    case 5
    with assms(1) have "c' = c\<lparr>cfg_username := poke 0 (v @ [0]) (cfg_username c)\<rparr>" "length v < 32"
      by (auto simp: form_field_def split: if_splits)
    with 5 show ?thesis using assms(2) by (simp add: form_inv_def cfg_wf_def length_poke)
  qed
qed

lemma key_index_le: "key_index ks p \<le> length ks"
  by (induction ks) auto

lemma length_form_keys [simp]: "length form_keys = 15"
  by (simp add: form_keys_def)

lemma form_segment_inv:
  assumes "form_segment p cs = Some cs'" and "form_inv cs"
  shows "form_inv cs'"
proof -
  obtain c seen where cs: "cs = (c, seen)" by fastforce
  from assms(1) obtain key v c' where
    "form_field (key_index form_keys key) v c = Some c'" "key_index form_keys key \<noteq> 15"
    "cs' = (c', insert (key_index form_keys key) seen)"
    by (auto simp: form_segment_def cs Let_def split: prod.splits option.splits if_splits)
  moreover have "key_index form_keys key \<le> 15"
    using key_index_le [of form_keys key] by simp
  ultimately show ?thesis
    using form_field_inv assms(2) cs by auto
qed

lemma form_loop_inv: "form_loop p cs = Some cs' \<Longrightarrow> form_inv cs \<Longrightarrow> form_inv cs'"
proof (induction p cs rule: form_loop.induct)
  case (1 p cs)
  show ?case
    using "1.prems" "1.IH" form_segment_inv
    by (subst (asm) form_loop.simps) (auto split: prod.splits option.splits if_splits)
qed

text \<open>C24: what an accepted form gives. The configuration is valid and has the array sizes of the C
  type, so it can be saved as it is; the MAC addresses are the factory's; without the credentials
  group the user name, salt and hash are the factory's, and without the spanning-tree group that
  is disabled with version 2.\<close>

theorem config_form_sound:
  assumes "config_form body = Some (c, credentials, stp_supplied)"
  shows "config_valid c \<and> cfg_wf c \<and> cfg_mac c = factory_mac \<and>
    (\<not> credentials \<longrightarrow> cfg_username c = cfg_username config_defaults \<and>
       cfg_password_salt c = cfg_password_salt config_defaults \<and> cfg_password_hash c = factory_hash) \<and>
    (\<not> stp_supplied \<longrightarrow> \<not> cfg_stp_enabled c \<and> cfg_stp_version c = 2)"
proof -
  obtain seen where loop: "form_loop body (config_defaults, {}) = Some (c, seen)"
    and valid: "config_valid c"
    and base: "seen \<inter> {0..<13} = {0..<10} \<or> seen \<inter> {0..<13} = {0..<13}"
    and flags: "credentials = (seen \<inter> {0..<13} = {0..<13})" "stp_supplied = (seen \<inter> {13, 14} \<noteq> {})"
    using assms by (auto simp: config_form_def Let_def split: option.splits if_splits)
  have "form_inv (config_defaults, {})"
    using config_defaults_wf by (simp add: form_inv_def config_defaults_def)
  with loop have inv: "form_inv (c, seen)" by (rule form_loop_inv)
  have "10 \<notin> seen \<and> 11 \<notin> seen \<and> 12 \<notin> seen" if "\<not> credentials"
  proof -
    from that base flags have eq: "seen \<inter> {0..<13} = {0..<10}" by auto
    have "x < 10" if "x \<in> seen" "x < 13" for x
    proof -
      from that have "x \<in> seen \<inter> {0..<13}" by simp
      then show ?thesis unfolding eq by simp
    qed
    then show ?thesis by force
  qed
  with inv valid flags show ?thesis by (auto simp: form_inv_def)
qed

section \<open>Every valid configuration can be submitted\<close>

fun form_query :: "(bytes \<times> bytes) list \<Rightarrow> bytes" where
  "form_query [] = []"
| "form_query [(k, v)] = k @ 61 # v"
| "form_query ((k, v) # kvs) = k @ 61 # v @ 38 # form_query kvs"

definition dotted :: "bytes \<Rightarrow> bytes" where
  "dotted a = dec (unat (a ! 0)) @ [46] @ dec (unat (a ! 1)) @ [46] @ dec (unat (a ! 2)) @ [46] @
     dec (unat (a ! 3))"

definition form_values :: "switch_config \<Rightarrow> bytes list" where
  "form_values c =
     [dec (unat (cfg_admin c)), dec (unat (cfg_advertise c ! 0)), dec (unat (cfg_advertise c ! 1)),
      dec (unat (cfg_advertise c ! 2)), dec (unat (cfg_advertise c ! 3)), dec (unat (cfg_sfp_speed c)),
      dec (if cfg_dhcp c then 1 else 0), dotted (cfg_ip c), dotted (cfg_netmask c),
      dotted (cfg_gateway c), cstr (cfg_username c), concat (map hex2 (cfg_password_salt c)),
      concat (map hex2 (cfg_password_hash c)), dec (if cfg_stp_enabled c then 1 else 0),
      dec (unat (cfg_stp_version c))]"

primrec form_fold ::
  "(bytes \<times> bytes) list \<Rightarrow> switch_config \<times> nat set \<Rightarrow> (switch_config \<times> nat set) option" where
  "form_fold [] cs = Some cs"
| "form_fold (kv # kvs) cs =
     (case form_segment (fst kv @ 61 # snd kv) cs of None \<Rightarrow> None | Some cs \<Rightarrow> form_fold kvs cs)"

lemma form_query_nonempty: "form_query kvs = [] \<longleftrightarrow> kvs = []"
  by (cases kvs rule: form_query.cases) auto

lemma form_loop_query:
  assumes "list_all (\<lambda>kv. 38 \<notin> set (fst kv) \<and> 38 \<notin> set (snd kv)) kvs"
  shows "form_loop (form_query kvs) cs = form_fold kvs cs"
  using assms
proof (induction kvs arbitrary: cs rule: form_query.induct)
  case 1
  then show ?case by (simp add: form_loop.simps)
next
  case (2 k v)
  then have "cut_at 38 (k @ 61 # v) = (k @ 61 # v, None)" by (intro cut_absent) auto
  then show ?case by (simp add: form_loop.simps split: option.splits)
next
  case (3 k v kv kvs)
  let ?q = "form_query (kv # kvs)"
  have "38 \<notin> set (k @ 61 # v)" using 3 by simp
  then have "cut_at 38 ((k @ 61 # v) @ 38 # ?q) = (k @ 61 # v, Some ?q)" by (rule cut_present)
  then have "form_loop (form_query ((k, v) # kv # kvs)) cs =
      (case form_segment (k @ 61 # v) cs of None \<Rightarrow> None | Some cs \<Rightarrow> form_loop ?q cs)"
    by (subst form_loop.simps) (simp add: form_query_nonempty)
  with 3 show ?case by (simp split: option.splits)
qed

lemma key_index_nth: "distinct ks \<Longrightarrow> k < length ks \<Longrightarrow> key_index ks (ks ! k) = k"
  by (induction ks arbitrary: k) (auto simp: nth_Cons in_set_conv_nth split: nat.splits)

lemma distinct_form_keys: "distinct form_keys"
  by (simp add: form_keys_def ascii_def)

lemma form_keys_plain: "p \<in> set form_keys \<Longrightarrow> 38 \<notin> set p \<and> 61 \<notin> set p"
  by (auto simp: form_keys_def ascii_def)

lemma form_segment_known:
  assumes "k < 15" and "k \<notin> seen" and "form_field k v c = Some c'"
  shows "form_segment (form_keys ! k @ 61 # v) (c, seen) = Some (c', insert k seen)"
proof -
  have "61 \<notin> set (form_keys ! k)" "key_index form_keys (form_keys ! k) = k"
    using assms(1) form_keys_plain [of "form_keys ! k"] key_index_nth [OF distinct_form_keys] by simp_all
  with assms show ?thesis by (simp add: form_segment_def cut_present)
qed

lemma form_decimal_loop_digits:
  "list_all is_digit ds \<Longrightarrow> dec_from n ds \<le> 10000 \<Longrightarrow> form_decimal_loop ds n = Some (dec_from n ds)"
proof (induction ds arbitrary: n)
  case Nil
  then show ?case by simp
next
  case (Cons d ds)
  have "n \<le> dec_from n (d # ds)" by (rule dec_from_ge)
  with Cons show ?case by simp
qed

lemma form_decimal_dec: "n \<le> 10000 \<Longrightarrow> form_decimal (dec n) = Some n"
proof -
  assume n: "n \<le> 10000"
  have d: "list_all is_digit (dec n)" by (simp add: list_all_iff dec_digits)
  then have "form_decimal_loop (dec n) 0 = Some n"
    using form_decimal_loop_digits [of "dec n" 0] n dec_value_dec [of n] by (simp add: dec_value_def)
  with d show ?thesis
    by (cases "dec n") (simp_all add: form_decimal_def)
qed

lemma octet_text_dec: "octet_text (dec (unat b)) b" for b :: u8
proof -
  have "unat b < 256" by (rule unat_byte)
  then have "length (dec (unat b)) \<le> 3" "unat b \<le> 255" by (auto intro: length_dec_le)
  then show ?thesis by (simp add: octet_text_def list_all_iff dec_digits)
qed

lemma length_4_nth: "length a = 4 \<Longrightarrow> a = [a ! 0, a ! 1, a ! 2, a ! 3]"
  by (intro nth_equalityI) (auto simp: nth_Cons less_Suc_eq numeral_eq_Suc split: nat.splits)

lemma config_parse_dotted: "length a = 4 \<Longrightarrow> config_parse_ipv4 (dotted a) = Some a"
  unfolding config_parse_ipv4_def dotted_def
proof -
  assume a: "length a = 4"
  have s: "ipv4_octets (Suc 0) (dec (unat (a ! 3))) = Some [a ! 3]"
    unfolding ipv4_octets_last using octet_text_dec by blast
  have "ipv4_octets (Suc (Suc k)) (dec (unat b) @ [46] @ r) = Some (b # out)"
    if "ipv4_octets (Suc k) r = Some out" for k b r out
    unfolding ipv4_octets_more using octet_text_dec that by fastforce
  from this [OF this [OF this [OF s]]] length_4_nth [OF a]
  show "ipv4_octets 4 (dec (unat (a ! 0)) @ [46] @ dec (unat (a ! 1)) @ [46] @ dec (unat (a ! 2)) @ [46] @
      dec (unat (a ! 3))) = Some a"
    by (simp add: numeral_eq_Suc)
qed

lemma hex_hex2: "length b = n \<Longrightarrow> hex (concat (map hex2 b)) n = Some b"
proof -
  have "hex_bytes (concat (map hex2 b)) = Some b"
    by (induction b) (simp_all add: hex2_def byte_nibbles)
  moreover have "length (concat (map hex2 b)) = 2 * length b"
    by (induction b) (simp_all add: hex2_def)
  ultimately show "length b = n \<Longrightarrow> hex (concat (map hex2 b)) n = Some b"
    by (simp add: hex_def)
qed

lemma username_scan_chars:
  "list_all username_char v \<Longrightarrow> 0 \<notin> set v \<Longrightarrow> username_scan n (v @ 0 # r) = Some (n + length v)"
  by (induction v arbitrary: n) auto

primrec fields_fold :: "nat \<Rightarrow> bytes list \<Rightarrow> switch_config \<Rightarrow> switch_config option" where
  "fields_fold k [] c = Some c"
| "fields_fold k (v # vs) c =
     (case form_field k v c of None \<Rightarrow> None | Some c \<Rightarrow> fields_fold (k + 1) vs c)"

lemma form_fold_fields:
  assumes "fields_fold k vs c = Some c'" and "k + length vs \<le> 15" and "seen \<subseteq> {..<k}"
  shows "form_fold (zip (drop k form_keys) vs) (c, seen) = Some (c', seen \<union> {k..<k + length vs})"
  using assms
proof (induction vs arbitrary: k c seen)
  case Nil
  then show ?case by simp
next
  case (Cons v vs)
  then obtain c1 where c1: "form_field k v c = Some c1" "fields_fold (Suc k) vs c1 = Some c'"
    by (auto split: option.splits)
  have k: "k < 15" "k \<notin> seen" using Cons.prems by auto
  have "drop k form_keys = form_keys ! k # drop (Suc k) form_keys"
    using k by (simp add: Cons_nth_drop_Suc)
  moreover have "insert k seen \<union> {Suc k..<Suc k + length vs} = seen \<union> {k..<k + length (v # vs)}"
    by auto
  moreover have "insert k seen \<subseteq> {..<Suc k}" using Cons.prems(3) by auto
  ultimately show ?case
    using Cons.IH [OF c1(2), of "insert k seen"] Cons.prems(2) form_segment_known [OF k c1(1)] by simp
qed

text \<open>The user name as the parser stores it: the submitted string with its NUL over the factory
  name.\<close>

definition stored_username :: "bytes \<Rightarrow> bytes" where
  "stored_username u = poke 0 (cstr u @ [0]) (cfg_username config_defaults)"

lemma stored_username_valid:
  assumes "username_valid u" and "length u = 32"
  shows "length (cstr u) < 32" and "username_valid (stored_username u)"
    and "cstr (stored_username u) = cstr u" and "list_all username_char (cstr u)"
proof -
  note user = username_valid_cstr [OF assms]
  then have len: "length (cstr u) \<noteq> 0" and chars: "list_all username_char (cstr u)" by auto
  show lt: "length (cstr u) < 32" and "list_all username_char (cstr u)" using user by auto
  define r where "r = drop (Suc (length (cstr u))) (cfg_username config_defaults)"
  have st: "stored_username u = cstr u @ 0 # r"
    by (simp add: stored_username_def poke_def r_def)
  have "length (cfg_username config_defaults) = 32" by (simp add: config_defaults_def)
  then have "length (stored_username u) = 32" using lt by (simp add: stored_username_def length_poke)
  with st len lt username_scan_chars [OF chars zero_notin_cstr, of 0 r]
  show "username_valid (stored_username u)" by (simp add: username_valid_def)
  have "\<forall>x \<in> set (cstr u). x \<noteq> 0" using zero_notin_cstr by metis
  then show "cstr (stored_username u) = cstr u"
    unfolding st by (subst cstr_def) (simp add: takeWhile_append2)
qed

lemma dec_small: "dec 0 = ascii ''0''" "dec (Suc 0) = ascii ''1''" "dec 2 = ascii ''2''"
  by (simp_all add: dec.simps digit_char_def ascii_def)

text \<open>What each field of a printed form gives.\<close>

lemma form_field_mask: "a \<le> 31 \<Longrightarrow> form_field 0 (dec (unat a)) c = Some (c\<lparr>cfg_admin := a\<rparr>)"
  by (simp add: form_field_def form_number_def form_decimal_dec word_le_nat_alt)

lemma form_field_adv:
  "a \<noteq> 0 \<Longrightarrow> a \<le> 7 \<Longrightarrow> 1 \<le> k \<Longrightarrow> k \<le> 4 \<Longrightarrow>
    form_field k (dec (unat a)) c = Some (c\<lparr>cfg_advertise := (cfg_advertise c)[k - 1 := a]\<rparr>)"
  by (simp add: form_field_def form_number_def form_decimal_dec word_le_nat_alt unat_eq_0)

lemma form_field_sfp: "a \<le> 10000 \<Longrightarrow> form_field 5 (dec (unat a)) c = Some (c\<lparr>cfg_sfp_speed := a\<rparr>)"
  by (simp add: form_field_def form_number_def form_decimal_dec word_le_nat_alt)

lemma form_field_dhcp: "form_field 6 (dec (if b then 1 else 0)) c = Some (c\<lparr>cfg_dhcp := b\<rparr>)"
  by (simp add: form_field_def form_number_def form_decimal_dec)

lemma form_field_ip:
  assumes "length a = 4"
  shows "form_field 7 (dotted a) c = Some (c\<lparr>cfg_ip := a\<rparr>)"
    "form_field 8 (dotted a) c = Some (c\<lparr>cfg_netmask := a\<rparr>)"
    "form_field 9 (dotted a) c = Some (c\<lparr>cfg_gateway := a\<rparr>)"
  using assms by (simp_all add: form_field_def config_parse_dotted)

lemma form_field_stp:
  "form_field 13 (dec (if b then 1 else 0)) c = Some (c\<lparr>cfg_stp_enabled := b\<rparr>)"
  by (cases b) (simp_all add: form_field_def dec_small, simp_all add: ascii_def)

lemma form_field_stp_version:
  "a = 0 \<or> a = 2 \<Longrightarrow> form_field 14 (dec (unat a)) c = Some (c\<lparr>cfg_stp_version := a\<rparr>)"
  by (elim disjE) (simp_all add: form_field_def dec_small, simp_all add: ascii_def)

lemma fields_fold_values:
  assumes "cfg_wf c" and "config_valid c"
  shows "fields_fold 0 (form_values c) config_defaults =
    Some (c\<lparr>cfg_username := stored_username (cfg_username c)\<rparr>)"
proof -
  have wf: "length (cfg_username c) = 32" "length (cfg_password_salt c) = 16"
      "length (cfg_password_hash c) = 32" "length (cfg_ip c) = 4" "length (cfg_netmask c) = 4"
      "length (cfg_gateway c) = 4" "length (cfg_advertise c) = 4"
    using assms(1) by (simp_all add: cfg_wf_def)
  have v: "username_valid (cfg_username c)" "cfg_admin c \<le> 31" "cfg_advertise c ! 0 = 4"
      "cfg_stp_version c = 0 \<or> cfg_stp_version c = 2" "cfg_mac c = cfg_mac config_defaults"
      "cfg_password_rounds c = CONFIG_PASSWORD_ROUNDS" 
    using assms(2) by (auto simp: config_valid_def split: if_splits)
  have sfp: "cfg_sfp_speed c \<le> 10000"
    using assms(2) by (auto simp: config_valid_def split: if_splits)
  have adv: "cfg_advertise c ! i \<noteq> 0" "cfg_advertise c ! i \<le> 7" if "i < 4" for i
    using assms(2) that v(3) by (auto simp: config_valid_def list_ex_iff not_less split: if_splits)
      (cases "i = 0"; simp)+
  note un = stored_username_valid [OF v(1) wf(1)]
  have user: "form_field 10 (cstr (cfg_username c)) d =
      Some (d\<lparr>cfg_username := poke 0 (cstr (cfg_username c) @ [0]) (cfg_username d)\<rparr>)" for d
    using un(1) by (simp add: form_field_def)
  have cred: "form_field 11 (concat (map hex2 (cfg_password_salt c))) d =
        Some (d\<lparr>cfg_password_salt := cfg_password_salt c\<rparr>)"
      "form_field 12 (concat (map hex2 (cfg_password_hash c))) d =
        Some (d\<lparr>cfg_password_hash := cfg_password_hash c\<rparr>)" for d
    using wf by (simp_all add: form_field_def hex_hex2)
  note fields = form_field_mask [OF v(2)] form_field_sfp [OF sfp] form_field_dhcp
    form_field_ip [OF wf(4)] form_field_ip [OF wf(5)] form_field_ip [OF wf(6)] user cred form_field_stp
    form_field_stp_version [OF v(4)] form_field_adv [OF adv]
  have advs: "[cfg_advertise c ! 0, cfg_advertise c ! 1, cfg_advertise c ! 2, cfg_advertise c ! 3] =
      cfg_advertise c"
    using length_4_nth [OF wf(7)] by simp
  show ?thesis
    using advs v(5,6)
    by (simp add: form_values_def fields config_defaults_def stored_username_def
        del: One_nat_def split del: if_split)
      (rule switch_config.equality; simp add: numeral_eq_Suc)
qed

lemma form_values_plain:
  assumes "cfg_wf c" and "config_valid c" and "v \<in> set (form_values c)"
  shows "38 \<notin> set v"
proof -
  have "\<not> is_digit 38" by (simp add: is_digit_def)
  then have d: "38 \<notin> set (dec n)" for n using dec_digits by blast
  then have ip: "38 \<notin> set (dotted a)" for a by (simp add: dotted_def)
  have h: "38 \<notin> set (concat (map hex2 b))" for b
  proof -
    have "hex_char n \<noteq> 38" if "n < 16" for n
      using hex_char_alnum [OF that] \<open>\<not> is_digit 38\<close> by auto
    then have "hex_char (unat x div 16) \<noteq> 38" "hex_char (unat x mod 16) \<noteq> 38" for x :: u8
      using byte_nibbles by blast+
    then show ?thesis by (auto simp: hex2_def dest: sym)
  qed
  have "username_valid (cfg_username c)" "length (cfg_username c) = 32"
    using assms(1,2) by (auto simp: config_valid_def cfg_wf_def split: if_splits)
  from stored_username_valid(4) [OF this]
  have "38 \<notin> set (cstr (cfg_username c))" by (auto simp: list_all_iff username_char_def)
  with d ip h assms(3) show ?thesis by (auto simp: form_values_def simp del: set_concat)
qed

lemma config_form_printed:
  assumes "cfg_wf c" and "config_valid c"
  shows "config_form (form_query (zip form_keys (form_values c))) =
    Some (c\<lparr>cfg_username := stored_username (cfg_username c)\<rparr>, True, True) \<and>
    cstr (stored_username (cfg_username c)) = cstr (cfg_username c)"
proof -
  let ?kvs = "zip form_keys (form_values c)" and ?c = "c\<lparr>cfg_username := stored_username (cfg_username c)\<rparr>"
  have un: "username_valid (cfg_username c)" "length (cfg_username c) = 32"
    using assms by (auto simp: config_valid_def cfg_wf_def split: if_splits)
  have len: "length (form_values c) = 15" by (simp add: form_values_def)
  have "list_all (\<lambda>kv. 38 \<notin> set (fst kv) \<and> 38 \<notin> set (snd kv)) ?kvs"
    using form_keys_plain form_values_plain [OF assms] by (auto simp: list_all_iff dest: set_zip_leftD set_zip_rightD)
  then have "form_loop (form_query ?kvs) (config_defaults, {}) = Some (?c, {0..<15})"
    using form_fold_fields [OF fields_fold_values [OF assms], of "{}"] len by (simp add: form_loop_query)
  moreover have "config_valid ?c"
    using assms(2) stored_username_valid(2) [OF un] by (auto simp: config_valid_def split: if_splits)
  moreover have "{0..<15} \<inter> {0..<13} = {0..<13 :: nat}" "{0..<15} \<inter> {13, 14} = {13, 14 :: nat}" by auto
  ultimately show ?thesis
    using stored_username_valid(3) [OF un] by (simp add: config_form_def Let_def)
qed

theorem config_form_sound_witness:
  "config_valid (example_static\<lparr>cfg_username := stored_username (cfg_username example_static)\<rparr>)"
  using config_form_sound [OF config_form_printed [OF example_static_wf example_static_valid, THEN conjunct1]]
  by simp

text \<open>every valid configuration can be submitted. The form that lists all fifteen keys with the
  settings printed in decimal, dotted-decimal and hexadecimal is accepted, with both groups
  present, and gives back the configuration; only the unused tail of the user-name array differs.\<close>

theorem config_form_complete:
  assumes "cfg_wf c" and "config_valid c"
  shows "config_form (form_query (zip form_keys (form_values c))) =
    Some (c\<lparr>cfg_username := stored_username (cfg_username c)\<rparr>, True, True) \<and>
    cstr (stored_username (cfg_username c)) = cstr (cfg_username c)"
  using config_form_printed [OF assms] .

theorem config_form_complete_witness:
  "config_form (form_query (zip form_keys (form_values example_static))) =
     Some (example_static\<lparr>cfg_username := stored_username (cfg_username example_static)\<rparr>, True, True)"
  using config_form_complete [OF example_static_wf example_static_valid] by simp

section \<open>The JSON view\<close>

definition json_bool :: "bool \<Rightarrow> bytes" where
  "json_bool b = ascii (if b then ''true'' else ''false'')"

definition json_mac :: "bytes \<Rightarrow> bytes" where
  "json_mac m = ascii ''\"'' @ hex2 (m ! 0) @ ascii '':'' @ hex2 (m ! 1) @ ascii '':'' @ hex2 (m ! 2) @
     ascii '':'' @ hex2 (m ! 3) @ ascii '':'' @ hex2 (m ! 4) @ ascii '':'' @ hex2 (m ! 5) @ ascii ''\"''"

text \<open>The loop over the addresses, into an array of 128 bytes.\<close>

definition json_macs :: "bytes list \<Rightarrow> bytes option" where
  "json_macs ms =
     foldl (\<lambda>acc i. case acc of None \<Rightarrow> None | Some macs \<Rightarrow>
        let t = (if i = 0 then [] else ascii '','') @ json_mac (ms ! i)
        in if 128 - length macs \<le> length t then None else Some (macs @ t)) (Some []) [0..<5]"

text \<open>The text that \<open>snprintf\<close> would write without a limit.\<close>

definition json_text :: "bytes \<Rightarrow> switch_config \<Rightarrow> bool \<Rightarrow> bool \<Rightarrow> nat \<Rightarrow> bytes" where
  "json_text macs c saved writable sfp_capabilities =
     ascii ''{\"stp\":'' @ json_bool (cfg_stp_enabled c) @ ascii '',\"stp_version\":'' @ dec (unat (cfg_stp_version c)) @
     ascii '',\"saved\":'' @ json_bool saved @ ascii '',\"writable\":'' @ json_bool writable @
     ascii '',\"macs\":['' @ macs @ ascii ''],\"username\":\"'' @ cstr (cfg_username c) @
     ascii ''\",\"admin\":'' @ dec (unat (cfg_admin c)) @ ascii '',\"advertise\":['' @
     dec (unat (cfg_advertise c ! 0)) @ ascii '','' @ dec (unat (cfg_advertise c ! 1)) @ ascii '','' @
     dec (unat (cfg_advertise c ! 2)) @ ascii '','' @ dec (unat (cfg_advertise c ! 3)) @
     ascii ''],\"sfp\":'' @ dec (unat (cfg_sfp_speed c)) @ ascii '',\"dhcp\":'' @ json_bool (cfg_dhcp c) @
     ascii '',\"ip\":\"'' @ dotted (cfg_ip c) @ ascii ''\",\"netmask\":\"'' @ dotted (cfg_netmask c) @
     ascii ''\",\"gateway\":\"'' @ dotted (cfg_gateway c) @
     ascii ''\",\"requires_restart_for_ip\":true,\"copper_supported\":[4,7,7,7],\"sfp_supported\":[0,'' @
     ascii (if sfp_capabilities = 3 then ''1000,10000'' else if sfp_capabilities = 2 then ''10000''
            else ''1000'') @ ascii '']}''"

text \<open>\<open>None\<close> is the result 0 of the source: the text did not fit.\<close>

definition config_json :: "nat \<Rightarrow> switch_config \<Rightarrow> bool \<Rightarrow> bool \<Rightarrow> nat \<Rightarrow> bytes option" where
  "config_json sz c saved writable sfp_capabilities =
     (case json_macs (cfg_mac c) of
        None \<Rightarrow> None
      | Some macs \<Rightarrow>
          let t = json_text macs c saved writable sfp_capabilities
          in if length t < sz then Some t else None)"

lemma length_json_bool: "length (json_bool b) \<le> 5"
  by (simp add: json_bool_def)

lemma length_dec_u8: "length (dec (unat b)) \<le> 3" for b :: u8
  using octet_text_dec [of b] by (simp add: octet_text_def)

lemma length_dec_u16: "length (dec (unat w)) \<le> 5" for w :: u16
proof -
  have "unat w < 2 ^ 16" using unsigned_less [of w, where ?'a = nat] by simp
  then show ?thesis by (intro length_dec_le) auto
qed

lemma length_dotted: "length (dotted a) \<le> 15"
  using length_dec_u8 [of "a ! 0"] length_dec_u8 [of "a ! 1"] length_dec_u8 [of "a ! 2"]
    length_dec_u8 [of "a ! 3"] by (simp add: dotted_def)

lemma length_json_mac: "length (json_mac m) = 19"
  by (simp add: json_mac_def hex2_def)

lemma json_macs_fit: "\<exists>t. json_macs ms = Some t \<and> length t = 99"
  by (simp add: json_macs_def upt_rec length_json_mac)

text \<open>the JSON view of the settings always fits and keeps the credentials secret: for every
  configuration, whatever the flags, the text fits in 1024 bytes (the server's buffer is larger),
  and it is the same text for every salt and every password verifier.\<close>

theorem config_json_fits_and_hides:
  assumes "cfg_wf c"
  shows "\<exists>t. length t < 1024 \<and> (\<forall>salt hash.
    config_json 1024 (c\<lparr>cfg_password_salt := salt, cfg_password_hash := hash\<rparr>) saved writable caps = Some t)"
proof -
  obtain macs where m: "json_macs (cfg_mac c) = Some macs" "length macs = 99"
    using json_macs_fit by blast
  let ?t = "json_text macs c saved writable caps"
  have "length (cstr (cfg_username c)) \<le> 32"
    using assms length_takeWhile_le [of _ "cfg_username c"] by (simp add: cstr_def cfg_wf_def)
  then have "length ?t < 1024"
    using m(2) length_json_bool [of "cfg_stp_enabled c"] length_json_bool [of saved]
      length_json_bool [of writable] length_json_bool [of "cfg_dhcp c"] length_dec_u8 [of "cfg_stp_version c"]
      length_dec_u8 [of "cfg_admin c"] length_dec_u8 [of "cfg_advertise c ! 0"]
      length_dec_u8 [of "cfg_advertise c ! 1"] length_dec_u8 [of "cfg_advertise c ! 2"]
      length_dec_u8 [of "cfg_advertise c ! 3"] length_dec_u16 [of "cfg_sfp_speed c"]
      length_dotted [of "cfg_ip c"] length_dotted [of "cfg_netmask c"] length_dotted [of "cfg_gateway c"]
    by (simp add: json_text_def)
  moreover have "json_text macs (c\<lparr>cfg_password_salt := salt, cfg_password_hash := hash\<rparr>) saved writable caps
      = ?t" for salt hash
    by (simp add: json_text_def)
  ultimately show ?thesis
    using m(1) by (intro exI [of _ ?t]) (simp add: config_json_def)
qed

theorem config_json_fits_and_hides_witness:
  "\<exists>t. length t < 1024 \<and> (\<forall>salt hash. config_json 1024
     (example_static\<lparr>cfg_password_salt := salt, cfg_password_hash := hash\<rparr>) True True 3 = Some t)"
  by (rule config_json_fits_and_hides) simp

end
