(* ===== verification/Sha256.thy ===== *)
theory Sha256
  imports Prelude
begin

text \<open>
  The streaming SHA-256 implementation \<^verbatim>\<open>third_party/sha256/sha256.c\<close> that the authentication code
  calls, and its agreement with the one-shot definition of FIPS 180: pad the message, split it
  into blocks of 64 bytes and fold the compression function over them.
\<close>

section \<open>The compression function\<close>

definition rotright :: "u32 \<Rightarrow> nat \<Rightarrow> u32" where
  "rotright a b = drop_bit b a OR push_bit (32 - b) a"

definition sha_ch :: "u32 \<Rightarrow> u32 \<Rightarrow> u32 \<Rightarrow> u32" where
  "sha_ch x y z = (x AND y) XOR (NOT x AND z)"

definition sha_maj :: "u32 \<Rightarrow> u32 \<Rightarrow> u32 \<Rightarrow> u32" where
  "sha_maj x y z = (x AND y) XOR (x AND z) XOR (y AND z)"

definition sha_ep0 :: "u32 \<Rightarrow> u32" where
  "sha_ep0 x = rotright x 2 XOR rotright x 13 XOR rotright x 22"

definition sha_ep1 :: "u32 \<Rightarrow> u32" where
  "sha_ep1 x = rotright x 6 XOR rotright x 11 XOR rotright x 25"

definition sha_sig0 :: "u32 \<Rightarrow> u32" where
  "sha_sig0 x = rotright x 7 XOR rotright x 18 XOR drop_bit 3 x"

definition sha_sig1 :: "u32 \<Rightarrow> u32" where
  "sha_sig1 x = rotright x 17 XOR rotright x 19 XOR drop_bit 10 x"

definition sha_k :: "u32 list" where
  "sha_k = concat
     [[0x428a2f98, 0x71374491, 0xb5c0fbcf, 0xe9b5dba5, 0x3956c25b, 0x59f111f1, 0x923f82a4, 0xab1c5ed5],
      [0xd807aa98, 0x12835b01, 0x243185be, 0x550c7dc3, 0x72be5d74, 0x80deb1fe, 0x9bdc06a7, 0xc19bf174],
      [0xe49b69c1, 0xefbe4786, 0x0fc19dc6, 0x240ca1cc, 0x2de92c6f, 0x4a7484aa, 0x5cb0a9dc, 0x76f988da],
      [0x983e5152, 0xa831c66d, 0xb00327c8, 0xbf597fc7, 0xc6e00bf3, 0xd5a79147, 0x06ca6351, 0x14292967],
      [0x27b70a85, 0x2e1b2138, 0x4d2c6dfc, 0x53380d13, 0x650a7354, 0x766a0abb, 0x81c2c92e, 0x92722c85],
      [0xa2bfe8a1, 0xa81a664b, 0xc24b8b70, 0xc76c51a3, 0xd192e819, 0xd6990624, 0xf40e3585, 0x106aa070],
      [0x19a4c116, 0x1e376c08, 0x2748774c, 0x34b0bcb5, 0x391c0cb3, 0x4ed8aa4a, 0x5b9cca4f, 0x682e6ff3],
      [0x748f82ee, 0x78a5636f, 0x84c87814, 0x8cc70208, 0x90befffa, 0xa4506ceb, 0xbef9a3f7, 0xc67178f2]]"

text \<open>The message schedule: sixteen big-endian words, then the recurrence.\<close>

definition sha_word :: "bytes \<Rightarrow> nat \<Rightarrow> u32" where
  "sha_word data j = push_bit 24 (ucast (data ! j)) OR push_bit 16 (ucast (data ! (j + 1))) OR
     push_bit 8 (ucast (data ! (j + 2))) OR ucast (data ! (j + 3))"

definition sha_schedule :: "bytes \<Rightarrow> u32 list" where
  "sha_schedule data =
     foldl (\<lambda>m i. m @ [sha_sig1 (m ! (i - 2)) + m ! (i - 7) + sha_sig0 (m ! (i - 15)) + m ! (i - 16)])
       (map (\<lambda>i. sha_word data (4 * i)) [0..<16]) [16..<64]"

type_synonym sha_vars = "u32 \<times> u32 \<times> u32 \<times> u32 \<times> u32 \<times> u32 \<times> u32 \<times> u32"

fun sha_round :: "u32 list \<Rightarrow> sha_vars \<Rightarrow> nat \<Rightarrow> sha_vars" where
  "sha_round m (a, b, c, d, e, f, g, h) i =
     (let t1 = h + sha_ep1 e + sha_ch e f g + sha_k ! i + m ! i;
          t2 = sha_ep0 a + sha_maj a b c
      in (t1 + t2, a, b, c, d + t1, e, f, g))"

definition sha256_transform :: "u32 list \<Rightarrow> bytes \<Rightarrow> u32 list" where
  "sha256_transform st data =
     (case foldl (sha_round (sha_schedule data))
        (st ! 0, st ! 1, st ! 2, st ! 3, st ! 4, st ! 5, st ! 6, st ! 7) [0..<64] of
        (a, b, c, d, e, f, g, h) \<Rightarrow>
          [st ! 0 + a, st ! 1 + b, st ! 2 + c, st ! 3 + d, st ! 4 + e, st ! 5 + f, st ! 6 + g, st ! 7 + h])"

section \<open>The streaming interface\<close>

record sha256_ctx =
  ctx_data :: bytes
  ctx_datalen :: u32
  ctx_bitlen :: u64
  ctx_state :: "u32 list"

definition sha_h0 :: "u32 list" where
  "sha_h0 =
     [0x6a09e667, 0xbb67ae85, 0x3c6ef372, 0xa54ff53a, 0x510e527f, 0x9b05688c, 0x1f83d9ab, 0x5be0cd19]"

definition sha256_init :: "sha256_ctx \<Rightarrow> sha256_ctx" where
  "sha256_init ctx = ctx\<lparr>ctx_datalen := 0, ctx_bitlen := 0, ctx_state := sha_h0\<rparr>"

definition sha_byte :: "sha256_ctx \<Rightarrow> u8 \<Rightarrow> sha256_ctx" where
  "sha_byte ctx b =
     (let ctx = ctx\<lparr>ctx_data := (ctx_data ctx)[unat (ctx_datalen ctx) := b],
                    ctx_datalen := ctx_datalen ctx + 1\<rparr>
      in if ctx_datalen ctx = 64
         then ctx\<lparr>ctx_state := sha256_transform (ctx_state ctx) (ctx_data ctx),
                  ctx_bitlen := ctx_bitlen ctx + 512, ctx_datalen := 0\<rparr>
         else ctx)"

definition sha256_update :: "sha256_ctx \<Rightarrow> bytes \<Rightarrow> sha256_ctx" where
  "sha256_update ctx data = foldl sha_byte ctx data"

text \<open>The padding: \<open>0x80\<close> and zeros up to \<open>limit\<close>, after the bytes in use.\<close>

definition sha_pad :: "nat \<Rightarrow> nat \<Rightarrow> bytes \<Rightarrow> bytes" where
  "sha_pad limit i data = poke i (0x80 # replicate (limit - (i + 1)) 0) data"

definition sha_output :: "u32 list \<Rightarrow> bytes" where
  "sha_output st = concat (map (\<lambda>w. map (\<lambda>i. ucast (drop_bit (24 - i * 8) w)) [0..<4]) (take 8 st))"

definition put64_be :: "u64 \<Rightarrow> bytes" where
  "put64_be x = map (\<lambda>i. ucast (drop_bit (56 - 8 * i) x)) [0..<8]"

definition sha256_final :: "sha256_ctx \<Rightarrow> bytes" where
  "sha256_final ctx =
     (let i = unat (ctx_datalen ctx);
          ctx = (if ctx_datalen ctx < 56
                 then ctx\<lparr>ctx_data := sha_pad 56 i (ctx_data ctx)\<rparr>
                 else let d = sha_pad 64 i (ctx_data ctx)
                      in ctx\<lparr>ctx_state := sha256_transform (ctx_state ctx) d,
                             ctx_data := poke 0 (replicate 56 0) d\<rparr>);
          bitlen = ctx_bitlen ctx + ucast (ctx_datalen ctx * 8);
          d = poke 56 (put64_be bitlen) (ctx_data ctx)
      in sha_output (sha256_transform (ctx_state ctx) d))"

section \<open>The standard\<close>

fun sha_blocks :: "bytes \<Rightarrow> bytes list" where
  "sha_blocks m = (if length m < 64 then [] else take 64 m # sha_blocks (drop 64 m))"

declare sha_blocks.simps [simp del]

definition sha_padded :: "bytes \<Rightarrow> bytes" where
  "sha_padded m = m @ 0x80 # replicate ((119 - length m mod 64) mod 64) 0 @ put64_be (word_of_nat (8 * length m))"

definition sha256_spec :: "bytes \<Rightarrow> bytes" where
  "sha256_spec m = sha_output (foldl sha256_transform sha_h0 (sha_blocks (sha_padded m)))"

section \<open>Streaming computes the standard\<close>

text \<open>The state after a prefix \<open>m\<close> of the message: the full blocks have been compressed, the rest is
  in the buffer.\<close>

definition sha_tail :: "bytes \<Rightarrow> bytes" where
  "sha_tail m = drop (64 * (length m div 64)) m"

definition sha_inv :: "sha256_ctx \<Rightarrow> bytes \<Rightarrow> bool" where
  "sha_inv ctx m = (length (ctx_data ctx) = 64 \<and> ctx_datalen ctx = word_of_nat (length m mod 64) \<and>
     take (length m mod 64) (ctx_data ctx) = sha_tail m \<and>
     ctx_bitlen ctx = word_of_nat (512 * (length m div 64)) \<and>
     ctx_state ctx = foldl sha256_transform sha_h0 (sha_blocks m))"

lemma length_sha_tail: "length (sha_tail m) = length m mod 64"
  by (simp add: sha_tail_def minus_mult_div_eq_mod)

lemma sha_blocks_append:
  "length b = 64 \<Longrightarrow> length m mod 64 = 0 \<Longrightarrow> sha_blocks (m @ b @ r) = sha_blocks m @ b # sha_blocks r"
proof (induction m rule: sha_blocks.induct)
  case (1 m)
  show ?case
  proof (cases "length m < 64")
    case True
    then have "m = []" using "1.prems"(2) by simp
    then show ?thesis
      using "1.prems"(1) sha_blocks.simps [of "b @ r"] sha_blocks.simps [of "[]"] by simp
  next
    case False
    moreover have "length (drop 64 m) mod 64 = 0"
      using False "1.prems"(2) by (simp add: le_mod_geq)
    ultimately show ?thesis
      using 1 sha_blocks.simps [of "m @ b @ r"] sha_blocks.simps [of m] by simp
  qed
qed

lemma sha_blocks_short: "length r < 64 \<Longrightarrow> length m mod 64 = 0 \<Longrightarrow> sha_blocks (m @ r) = sha_blocks m"
proof (induction m rule: sha_blocks.induct)
  case (1 m)
  show ?case
  proof (cases "length m < 64")
    case True
    then have "m = []" using "1.prems"(2) by simp
    then show ?thesis
      using "1.prems"(1) sha_blocks.simps [of r] sha_blocks.simps [of "[]"] by simp
  next
    case False
    moreover have "length (drop 64 m) mod 64 = 0"
      using False "1.prems"(2) by (simp add: le_mod_geq)
    ultimately show ?thesis
      using 1 sha_blocks.simps [of "m @ r"] sha_blocks.simps [of m] by simp
  qed
qed

text \<open>The full blocks and the rest of a message.\<close>

lemma sha_split: obtains h where "m = h @ sha_tail m" "length h = 64 * (length m div 64)"
proof
  show "m = take (64 * (length m div 64)) m @ sha_tail m" by (simp add: sha_tail_def)
  show "length (take (64 * (length m div 64)) m) = 64 * (length m div 64)" by simp
qed

lemma sha_byte_inv:
  assumes "sha_inv ctx m"
  shows "sha_inv (sha_byte ctx b) (m @ [b])"
proof -
  let ?k = "length m mod 64" and ?d = "(ctx_data ctx)[length m mod 64 := b]"
  have inv: "length (ctx_data ctx) = 64" "ctx_datalen ctx = word_of_nat ?k"
      "take ?k (ctx_data ctx) = sha_tail m" "ctx_bitlen ctx = word_of_nat (512 * (length m div 64))"
      "ctx_state ctx = foldl sha256_transform sha_h0 (sha_blocks m)"
    using assms by (simp_all add: sha_inv_def)
  obtain h where h: "m = h @ sha_tail m" "length h = 64 * (length m div 64)" by (rule sha_split)
  have k: "?k < 64" by simp
  have un: "unat (ctx_datalen ctx) = ?k" unfolding inv(2) by (simp add: unat_of_nat take_bit_eq_mod)
  have next_len: "ctx_datalen ctx + 1 = word_of_nat (?k + 1)" unfolding inv(2) by simp
  have full: "word_of_nat (?k + 1) = (64 :: u32) \<longleftrightarrow> ?k = 63"
  proof -
    have "word_of_nat (?k + 1) = (64 :: u32) \<longleftrightarrow> unat (word_of_nat (?k + 1) :: u32) = unat (64 :: u32)"
      by (simp only: word_unat_eq_iff)
    also have "unat (word_of_nat (?k + 1) :: u32) = ?k + 1"
      using k by (simp only: unat_of_nat) simp
    also have "?k + 1 = unat (64 :: u32) \<longleftrightarrow> ?k = 63" by simp
    finally show ?thesis .
  qed
  have buf: "take (?k + 1) ?d = sha_tail m @ [b]"
    using inv(1,3) k by (simp add: take_Suc_conv_app_nth)
  show ?thesis
  proof (cases "?k = 63")
    case True
    have len: "length (m @ [b]) mod 64 = 0" "length (m @ [b]) div 64 = length m div 64 + 1"
      using True by (simp_all add: mod_Suc div_Suc)
    have d: "?d = sha_tail m @ [b]" using buf True inv(1) by simp
    have "sha_blocks (m @ [b]) = sha_blocks (h @ (sha_tail m @ [b]) @ [])" by (subst h(1)) simp
    also have "\<dots> = sha_blocks h @ (sha_tail m @ [b]) # sha_blocks []"
      using h(2) True by (intro sha_blocks_append) (simp_all add: length_sha_tail)
    also have "\<dots> = sha_blocks m @ [sha_tail m @ [b]]"
      using sha_blocks_short [of "sha_tail m" h] h(2)
      by (simp add: length_sha_tail sha_blocks.simps [of "[]"] flip: h(1))
    finally have "sha_blocks (m @ [b]) = sha_blocks m @ [sha_tail m @ [b]]" .
    moreover have "sha_tail (m @ [b]) = []" using len(1) length_sha_tail [of "m @ [b]"] by simp
    ultimately show ?thesis
      using inv un next_len full True len d by (simp add: sha_inv_def sha_byte_def Let_def length_sha_tail)
  next
    case False
    have len: "length (m @ [b]) mod 64 = ?k + 1" "length (m @ [b]) div 64 = length m div 64"
      using False by (simp_all add: mod_Suc div_Suc)
    have "sha_tail (m @ [b]) = sha_tail m @ [b]" using len by (simp add: sha_tail_def)
    moreover have "sha_blocks (m @ [b]) = sha_blocks m"
    proof -
      have "sha_blocks (m @ [b]) = sha_blocks (h @ (sha_tail m @ [b]))" by (subst h(1)) simp
      also have "\<dots> = sha_blocks h"
        using h(2) False k by (intro sha_blocks_short) (simp_all add: length_sha_tail)
      also have "\<dots> = sha_blocks (h @ sha_tail m)"
        using h(2) by (intro sha_blocks_short [symmetric]) (simp_all add: length_sha_tail)
      finally show ?thesis by (simp flip: h(1))
    qed
    ultimately show ?thesis
      using inv un next_len full False len buf by (simp add: sha_inv_def sha_byte_def Let_def)
  qed
qed

lemma sha_update_inv: "sha_inv ctx m \<Longrightarrow> sha_inv (sha256_update ctx d) (m @ d)"
proof (induction d arbitrary: ctx m)
  case Nil
  then show ?case by (simp add: sha256_update_def)
next
  case (Cons b d)
  from Cons.IH [OF sha_byte_inv [OF Cons.prems, of b]] show ?case
    by (simp add: sha256_update_def)
qed

lemma sha_init_inv: "length (ctx_data ctx) = 64 \<Longrightarrow> sha_inv (sha256_init ctx) []"
  by (simp add: sha_inv_def sha256_init_def sha_tail_def sha_blocks.simps [of "[]"])

lemma length_put64_be [simp]: "length (put64_be x) = 8"
  by (simp add: put64_be_def)

lemma sha_bitlen:
  assumes "sha_inv ctx m"
  shows "ctx_bitlen ctx + ucast (ctx_datalen ctx * 8) = word_of_nat (8 * length m)"
proof -
  let ?k = "length m mod 64"
  have "unat (word_of_nat (?k * 8) :: u32) = ?k * 8"
    using mod_less_divisor [of 64 "length m"] by (simp only: unat_of_nat) (simp add: take_bit_eq_mod)
  then have "ucast (word_of_nat (?k * 8) :: u32) = (word_of_nat (?k * 8) :: u64)"
    using of_nat_unat [of "word_of_nat (?k * 8) :: u32", where ?'a = "64 word"] by simp
  moreover have "ctx_datalen ctx * 8 = word_of_nat (?k * 8)"
    using assms by (simp add: sha_inv_def)
  ultimately have "ctx_bitlen ctx + ucast (ctx_datalen ctx * 8) =
      word_of_nat (512 * (length m div 64) + ?k * 8)"
    using assms by (simp add: sha_inv_def)
  also have "512 * (length m div 64) + ?k * 8 = 8 * length m"
    using div_mult_mod_eq [of "length m" 64] by linarith
  finally show ?thesis .
qed

lemma sha_pad_buffer:
  assumes "length d = 64" and "take k d = r" and "k < limit" and "limit \<le> 64"
  shows "take limit (sha_pad limit k d) = r @ 0x80 # replicate (limit - (k + 1)) 0" and
    "length (sha_pad limit k d) = 64"
proof -
  have "length r = k" using assms by (simp flip: assms(2))
  then have "sha_pad limit k d = (r @ 0x80 # replicate (limit - (k + 1)) 0) @ drop limit d"
    and "length (r @ 0x80 # replicate (limit - (k + 1)) (0 :: u8)) = limit"
    using assms by (simp_all add: sha_pad_def poke_def)
  with assms show "take limit (sha_pad limit k d) = r @ 0x80 # replicate (limit - (k + 1)) 0"
    "length (sha_pad limit k d) = 64"
    by (simp_all del: append_assoc append.simps)
qed

lemma sha_final_spec:
  assumes "sha_inv ctx m"
  shows "sha256_final ctx = sha256_spec m"
proof -
  let ?k = "length m mod 64" and ?r = "sha_tail m" and ?be = "put64_be (word_of_nat (8 * length m))"
  obtain h where h: "m = h @ ?r" "length h = 64 * (length m div 64)" by (rule sha_split)
  have inv: "length (ctx_data ctx) = 64" "ctx_datalen ctx = word_of_nat ?k"
      "take ?k (ctx_data ctx) = ?r" "ctx_state ctx = foldl sha256_transform sha_h0 (sha_blocks m)"
    using assms by (simp_all add: sha_inv_def)
  have k: "?k < 64" by simp
  have un: "unat (ctx_datalen ctx) = ?k" unfolding inv(2) by (simp add: unat_of_nat take_bit_eq_mod)
  have small: "ctx_datalen ctx < 56 \<longleftrightarrow> ?k < 56" by (simp add: word_less_nat_alt un)
  have hm: "sha_blocks h = sha_blocks m"
  proof -
    have "sha_blocks (h @ ?r) = sha_blocks h"
      using h(2) by (intro sha_blocks_short) (simp_all add: length_sha_tail)
    then show ?thesis by (simp flip: h(1))
  qed
  note bl = sha_bitlen [OF assms]
  have h64: "length h mod 64 = 0" using h(2) by simp
  show ?thesis
  proof (cases "?k < 56")
    case True
    define b where "b = ?r @ 0x80 # replicate (55 - ?k) 0 @ ?be"
    have "length b = 64" using True by (simp add: b_def length_sha_tail)
    have "119 - ?k = 64 + (55 - ?k)" using True by linarith
    then have "(119 - ?k) mod 64 = (55 - ?k) mod 64" by (metis mod_add_self1)
    then have "(119 - ?k) mod 64 = 55 - ?k" using mod_less [of "55 - ?k" 64] by linarith
    then have "sha_padded m = h @ b @ []"
      unfolding sha_padded_def b_def by (subst (1) h(1)) simp
    then have "sha_blocks (sha_padded m) = sha_blocks m @ [b]"
      using sha_blocks_append [OF \<open>length b = 64\<close> h64, of "[]"] hm by (simp add: sha_blocks.simps [of "[]"])
    moreover have "poke 56 ?be (sha_pad 56 ?k (ctx_data ctx)) = b"
      using sha_pad_buffer [OF inv(1,3) True] by (simp add: poke_def b_def)
    ultimately show ?thesis
      using True small un bl inv(4) by (simp add: sha256_final_def sha256_spec_def Let_def)
  next
    case False
    define b1 where "b1 = ?r @ 0x80 # replicate (63 - ?k) 0"
    define b2 where "b2 = replicate 56 0 @ ?be"
    have len: "length b1 = 64" "length b2 = 64" using False by (simp_all add: b1_def b2_def length_sha_tail)
    have "(119 - ?k) mod 64 = (63 - ?k) + 56" using False k by simp
    then have "replicate ((119 - ?k) mod 64) 0 = replicate (63 - ?k) 0 @ replicate 56 (0 :: u8)"
      by (simp only: replicate_add)
    then have "sha_padded m = h @ b1 @ b2"
      unfolding sha_padded_def b1_def b2_def by (subst (1) h(1)) simp
    then have "sha_blocks (sha_padded m) = sha_blocks m @ [b1, b2]"
      using sha_blocks_append [OF len(1) h64, of b2] sha_blocks_append [OF len(2), of "[]" "[]"] hm
      by (simp add: sha_blocks.simps [of "[]"])
    moreover have pad: "sha_pad 64 ?k (ctx_data ctx) = b1"
      using sha_pad_buffer [OF inv(1,3), of 64] by (simp add: b1_def)
    moreover have "poke 56 ?be (poke 0 (replicate 56 0) b1) = b2"
      using len(1) by (simp add: poke_def b2_def)
    ultimately show ?thesis
      using False small un bl inv(4) by (simp add: sha256_final_def sha256_spec_def Let_def)
  qed
qed

text \<open>C21: hashing a message in pieces gives the SHA-256 of FIPS 180: whatever the context holds
  before it is initialised, absorbing any two pieces and finishing gives the digest of their
  concatenation, padded and compressed block by block as the standard says.\<close>

theorem sha256_streaming:
  assumes "length (ctx_data ctx) = 64"
  shows "sha256_final (sha256_update (sha256_update (sha256_init ctx) a) b) = sha256_spec (a @ b)"
  using sha_final_spec [OF sha_update_inv [OF sha_update_inv [OF sha_init_inv [OF assms]], of a b]]
  by simp

theorem sha256_streaming_witness:
  "sha256_final (sha256_update (sha256_update (sha256_init
     \<lparr>ctx_data = replicate 64 0xaa, ctx_datalen = 7, ctx_bitlen = 9, ctx_state = []\<rparr>) [0x61]) [0x62, 0x63])
   = sha256_spec [0x61, 0x62, 0x63]"
  using sha256_streaming [of "\<lparr>ctx_data = replicate 64 0xaa, ctx_datalen = 7, ctx_bitlen = 9, ctx_state = []\<rparr>"
      "[0x61]" "[0x62, 0x63]"] by simp

end
