(* ===== verification/Auth.thy ===== *)
theory Auth
  imports Config Sha256
begin

text \<open>
  HTTP Basic authentication, \<^verbatim>\<open>software/r5/src/auth.c\<close>: PBKDF2-HMAC-SHA256 key derivation, the strict
  base64 decoder and the verification of a header against the stored verifier. Wiping the
  buffers before returning has no effect on the results and is not represented.
\<close>

section \<open>Key derivation\<close>

definition hmac :: "sha256_ctx \<Rightarrow> sha256_ctx \<Rightarrow> bytes \<Rightarrow> bytes" where
  "hmac inner outer data =
     (let digest = sha256_final (sha256_update inner data)
      in sha256_final (sha256_update outer digest))"

definition fresh_ctx :: sha256_ctx where
  "fresh_ctx = \<lparr>ctx_data = replicate 64 0, ctx_datalen = 0, ctx_bitlen = 0, ctx_state = replicate 8 0\<rparr>"

definition xor_bytes :: "bytes \<Rightarrow> bytes \<Rightarrow> bytes" where
  "xor_bytes a b = map2 (XOR) a b"

text \<open>The loop that accumulates the remaining rounds into the hash.\<close>

primrec derive_rounds :: "nat \<Rightarrow> sha256_ctx \<Rightarrow> sha256_ctx \<Rightarrow> bytes \<Rightarrow> bytes \<Rightarrow> bytes" where
  "derive_rounds 0 inner outer u hash = hash"
| "derive_rounds (Suc n) inner outer u hash =
     (let u = hmac inner outer u in derive_rounds n inner outer u (xor_bytes hash u))"

definition auth_derive :: "bytes \<Rightarrow> bytes \<Rightarrow> u32 \<Rightarrow> bytes" where
  "auth_derive password salt rounds =
     (let key = (if 64 < length password
                 then poke 0 (sha256_final (sha256_update (sha256_init fresh_ctx) password)) (replicate 64 0)
                 else poke 0 password (replicate 64 0));
          inner = sha256_update (sha256_init fresh_ctx) (map (\<lambda>b. b XOR 0x36) key);
          outer = sha256_update (sha256_init fresh_ctx) (map (\<lambda>b. b XOR 0x5c) key);
          first = salt @ [0, 0, 0, 1];
          u = hmac inner outer first
      in derive_rounds (unat rounds - 1) inner outer u u)"

section \<open>Base64\<close>

definition digit :: "u8 \<Rightarrow> u8 option" where
  "digit c =
     (if 65 \<le> c \<and> c \<le> 90 then Some (c - 65)
      else if 97 \<le> c \<and> c \<le> 122 then Some (c - 97 + 26)
      else if 48 \<le> c \<and> c \<le> 57 then Some (c - 48 + 52)
      else if c = 43 then Some 62
      else if c = 47 then Some 63
      else None)"

text \<open>The loop body and the loop: groups of four characters; padding only in the last group, with
  zero bits under it. The character 61 is the padding sign.\<close>

fun decode_groups :: "bytes \<Rightarrow> bytes option" where
  "decode_groups (i0 # i1 # i2 # i3 # rest) =
     (let a = digit i0; b = digit i1; c = digit i2; d = digit i3; p2 = (i2 = 61); p3 = (i3 = 61) in
      if a = None \<or> b = None \<or> \<not> p2 \<and> c = None \<or> \<not> p3 \<and> d = None \<or> p2 \<and> \<not> p3 \<or>
         (p2 \<or> p3) \<and> rest \<noteq> [] then None
      else if p2 \<and> the b AND 15 \<noteq> 0 \<or> \<not> p2 \<and> p3 \<and> the c AND 3 \<noteq> 0 then None
      else map_option (\<lambda>out.
        (push_bit 2 (the a) OR drop_bit 4 (the b)) #
        (if \<not> p2 then [push_bit 4 (the b) OR drop_bit 2 (the c)] else []) @
        (if \<not> p3 then [push_bit 6 (the c) OR the d] else []) @ out) (decode_groups rest))"
| "decode_groups s = Some []"

definition decode :: "bytes \<Rightarrow> bytes option" where
  "decode s = (if s = [] \<or> length s mod 4 \<noteq> 0 \<or> 216 < length s then None else decode_groups s)"

section \<open>Verification\<close>

definition auth_verify :: "switch_config \<Rightarrow> bytes \<Rightarrow> bool" where
  "auth_verify cfg header =
     (if take 6 header \<noteq> ascii ''Basic '' \<or> cfg_password_rounds cfg \<noteq> CONFIG_PASSWORD_ROUNDS then False
      else case decode (drop 6 header) of
        None \<Rightarrow> False
      | Some decoded \<Rightarrow>
          if 0 \<in> set decoded then False
          else case cut_at 58 decoded of
            (_, None) \<Rightarrow> False
          | (user, Some pass) \<Rightarrow>
              if user = [] \<or> 32 \<le> length user \<or> pass = [] \<or> 128 < length pass \<or>
                 length (cstr (cfg_username cfg)) \<noteq> length user \<or> take (length user) (cfg_username cfg) \<noteq> user
              then False
              else xor_bytes (auth_derive pass (cfg_password_salt cfg) (cfg_password_rounds cfg))
                     (cfg_password_hash cfg) = replicate 32 0)"

section \<open>The derivation is PBKDF2\<close>

text \<open>RFC 2104 and RFC 8018, with the standard's SHA-256 as the hash.\<close>

definition hmac_key :: "bytes \<Rightarrow> bytes" where
  "hmac_key k = (let k = (if 64 < length k then sha256_spec k else k) in k @ replicate (64 - length k) 0)"

definition hmac_spec :: "bytes \<Rightarrow> bytes \<Rightarrow> bytes" where
  "hmac_spec k m =
     sha256_spec (map (\<lambda>b. b XOR 0x5c) (hmac_key k) @ sha256_spec (map (\<lambda>b. b XOR 0x36) (hmac_key k) @ m))"

definition pbkdf2_u :: "bytes \<Rightarrow> bytes \<Rightarrow> nat \<Rightarrow> bytes" where
  "pbkdf2_u password salt i = (hmac_spec password ^^ i) (hmac_spec password (salt @ [0, 0, 0, 1]))"

definition pbkdf2 :: "bytes \<Rightarrow> bytes \<Rightarrow> nat \<Rightarrow> bytes" where
  "pbkdf2 password salt rounds =
     foldl xor_bytes (pbkdf2_u password salt 0) (map (pbkdf2_u password salt) [1..<rounds])"

lemma length_sha_transform: "length (sha256_transform st d) = 8"
  by (simp add: sha256_transform_def split: prod.splits)

lemma length_sha_output: "8 \<le> length st \<Longrightarrow> length (sha_output st) = 32"
proof -
  have "length (concat (map (\<lambda>w. map (f w) [0..<4]) ws)) = 4 * length ws" for f :: "u32 \<Rightarrow> nat \<Rightarrow> u8" and ws
    by (induction ws) simp_all
  then show "8 \<le> length st \<Longrightarrow> length (sha_output st) = 32"
    by (simp add: sha_output_def)
qed

lemma length_sha_spec [simp]: "length (sha256_spec m) = 32"
proof -
  have "length (foldl sha256_transform sha_h0 bs) = 8" for bs
    by (induction bs rule: rev_induct) (simp_all add: sha_h0_def length_sha_transform)
  then show ?thesis by (simp add: sha256_spec_def length_sha_output)
qed

lemma sha_inv_fresh: "sha_inv (sha256_update (sha256_init fresh_ctx) m) m"
  using sha_update_inv [OF sha_init_inv, of fresh_ctx m] by (simp add: fresh_ctx_def)

lemma hmac_spec_eq:
  assumes "sha_inv inner (map (\<lambda>b. b XOR 0x36) (hmac_key k))"
    and "sha_inv outer (map (\<lambda>b. b XOR 0x5c) (hmac_key k))"
  shows "hmac inner outer = hmac_spec k"
  using sha_final_spec [OF sha_update_inv [OF assms(1)]] sha_final_spec [OF sha_update_inv [OF assms(2)]]
  by (simp add: hmac_def hmac_spec_def fun_eq_iff Let_def)

lemma derive_rounds_foldl:
  "hmac inner outer = f \<Longrightarrow>
    derive_rounds n inner outer u h = foldl xor_bytes h (map (\<lambda>i. (f ^^ i) u) [1..<Suc n])"
proof (induction n arbitrary: u h)
  case 0
  then show ?case by simp
next
  case (Suc n)
  have "map (\<lambda>i. (f ^^ i) u) [1..<Suc (Suc n)] = f u # map (\<lambda>i. (f ^^ i) (f u)) [1..<Suc n]"
  proof -
    have "[1..<Suc (Suc n)] = 1 # map Suc [1..<Suc n]"
      by (subst upt_conv_Cons) (simp_all add: map_Suc_upt)
    then show ?thesis by (simp add: funpow_swap1)
  qed
  with Suc.IH [OF Suc.prems] Suc.prems show ?case by (simp add: Let_def)
qed

lemma derive_is_pbkdf2:
  assumes "0 < rounds"
  shows "auth_derive password salt rounds = pbkdf2 password salt (unat rounds)"
proof -
  let ?key = "if 64 < length password
    then poke 0 (sha256_final (sha256_update (sha256_init fresh_ctx) password)) (replicate 64 0)
    else poke 0 password (replicate 64 0)"
  have key: "?key = hmac_key password"
    by (simp add: hmac_key_def poke_def sha_final_spec [OF sha_inv_fresh])
  have "Suc (unat rounds - 1) = unat rounds"
    using assms by (simp add: word_less_nat_alt)
  then show ?thesis
    using derive_rounds_foldl [OF hmac_spec_eq [OF sha_inv_fresh sha_inv_fresh], of "unat rounds - 1" password]
    by (simp add: auth_derive_def Let_def key pbkdf2_def pbkdf2_u_def [abs_def]
        hmac_spec_eq [OF sha_inv_fresh sha_inv_fresh] del: upt_Suc)
qed

text \<open>C20: the key derivation is PBKDF2 with HMAC-SHA-256 and one output block, for every password of
  any length, every salt and every positive number of rounds.\<close>

theorem auth_derive_pbkdf2:
  assumes "0 < rounds"
  shows "auth_derive password salt rounds = pbkdf2 password salt (unat rounds)"
  using assms by (rule derive_is_pbkdf2)

theorem auth_derive_pbkdf2_witness:
  "auth_derive (ascii ''secret'') (ascii ''kr260-0a350f3745'') 3 =
     pbkdf2 (ascii ''secret'') (ascii ''kr260-0a350f3745'') 3"
  using auth_derive_pbkdf2 [of 3 "ascii ''secret''" "ascii ''kr260-0a350f3745''"] by simp

section \<open>The decoder accepts exactly canonical base64\<close>

definition b64_char :: "u8 \<Rightarrow> u8" where
  "b64_char n = (if n < 26 then 65 + n else if n < 52 then 97 + (n - 26)
     else if n < 62 then 48 + (n - 52) else if n = 62 then 43 else 47)"

fun base64 :: "bytes \<Rightarrow> bytes" where
  "base64 [] = []"
| "base64 [x] = [b64_char (drop_bit 2 x), b64_char (push_bit 4 (x AND 3)), 61, 61]"
| "base64 [x, y] = [b64_char (drop_bit 2 x), b64_char (push_bit 4 (x AND 3) OR drop_bit 4 y),
     b64_char (push_bit 2 (y AND 15)), 61]"
| "base64 (x # y # z # r) = [b64_char (drop_bit 2 x), b64_char (push_bit 4 (x AND 3) OR drop_bit 4 y),
     b64_char (push_bit 2 (y AND 15) OR drop_bit 6 z), b64_char (z AND 63)] @ base64 r"

lemma b64_char_table: "\<forall>k<64. digit (b64_char (word_of_nat k)) = Some (word_of_nat k) \<and>
    b64_char (word_of_nat k) \<noteq> 61 \<and> \<not> bit (word_of_nat k :: u8) 6 \<and> \<not> bit (word_of_nat k :: u8) 7"
  by code_simp

lemma digit_range:
  fixes c lo hi :: u8
  assumes "lo \<le> c" and "c \<le> hi" and "unat hi - unat lo + base < 64"
    and "\<And>k. k \<le> unat hi - unat lo \<Longrightarrow> b64_char (word_of_nat (k + base)) = lo + word_of_nat k"
  shows "\<exists>k<64. c = b64_char (word_of_nat k)"
proof (intro exI conjI)
  have "unat (c - lo) = unat c - unat lo" using assms(1) by (rule unat_sub)
  then have le: "unat (c - lo) \<le> unat hi - unat lo" using assms(2) by (simp add: word_le_nat_alt)
  with assms(3) show "unat (c - lo) + base < 64" by linarith
  show "c = b64_char (word_of_nat (unat (c - lo) + base))" using assms(4) [OF le] by simp
qed

lemma b64_ranges:
  "\<forall>k<26. b64_char (word_of_nat k) = 65 + word_of_nat k"
  "\<forall>k<26. b64_char (word_of_nat (k + 26)) = 97 + word_of_nat k"
  "\<forall>k<10. b64_char (word_of_nat (k + 52)) = 48 + word_of_nat k"
  by code_simp+

lemma digit_Some_ex:
  assumes "digit c = Some n"
  shows "\<exists>k<64. c = b64_char (word_of_nat k)"
proof -
  consider "65 \<le> c" "c \<le> 90" | "97 \<le> c" "c \<le> 122" | "48 \<le> c" "c \<le> 57" | "c = 43" | "c = 47"
    using assms by (auto simp: digit_def split: if_splits)
  then show ?thesis
  proof cases
    case 1
    then show ?thesis using b64_ranges(1) by (intro digit_range [of 65 c 90 0]) auto
  next
    case 2
    then show ?thesis using b64_ranges(2) by (intro digit_range [of 97 c 122 26]) auto
  next
    case 3
    then show ?thesis using b64_ranges(3) by (intro digit_range [of 48 c 57 52]) auto
  next
    case 4
    then show ?thesis by (intro exI [of _ 62]) (simp add: b64_char_def)
  next
    case 5
    then show ?thesis by (intro exI [of _ 63]) (simp add: b64_char_def)
  qed
qed

lemma digit_Some:
  assumes "digit c = Some n"
  shows "c = b64_char n" and "\<not> bit n 6" and "\<not> bit n 7"
proof -
  obtain k where k: "k < 64" "c = b64_char (word_of_nat k)" using digit_Some_ex [OF assms] by blast
  with b64_char_table [rule_format, OF k(1)] assms
  show "c = b64_char n" "\<not> bit n 6" "\<not> bit n 7" by auto
qed

lemma byte_eqI:
  fixes x y :: u8
  assumes "bit x 0 = bit y 0" "bit x 1 = bit y 1" "bit x 2 = bit y 2" "bit x 3 = bit y 3"
    "bit x 4 = bit y 4" "bit x 5 = bit y 5" "bit x 6 = bit y 6" "bit x 7 = bit y 7"
  shows "x = y"
proof (rule bit_word_eqI)
  fix n
  assume "n < LENGTH(8)"
  then have "n \<in> {0, 1, 2, 3, 4, 5, 6, 7}" by auto
  with assms show "bit x n = bit y n" by auto
qed

lemma digit_b64_char:
  assumes "\<not> bit n 6" and "\<not> bit n 7"
  shows "digit (b64_char n) = Some n" and "b64_char n \<noteq> 61"
proof -
  have "n = n AND 63" using assms by (intro byte_eqI) (simp_all add: bit_simps)
  then have "n \<le> 63" by (metis word_and_le1)
  then have "unat n < 64" by (simp add: word_le_nat_alt)
  then obtain k where k: "k < 64" "n = word_of_nat k" by (intro that [of "unat n"]) auto
  with b64_char_table [rule_format, OF k(1)]
  show "digit (b64_char n) = Some n" "b64_char n \<noteq> 61" by auto
qed

lemma byte_high: "8 \<le> n \<Longrightarrow> \<not> bit b n" for b :: u8
  using bit_imp_le_length [of b n] by auto

definition sextet :: "u8 \<Rightarrow> bool" where
  "sextet n = (\<not> bit n 6 \<and> \<not> bit n 7)"

lemma sextets [simp]:
  "sextet (drop_bit 2 x)" "sextet (push_bit 4 (x AND 3))" "sextet (push_bit 4 (x AND 3) OR drop_bit 4 y)"
  "sextet (push_bit 2 (y AND 15))" "sextet (push_bit 2 (y AND 15) OR drop_bit 6 z)" "sextet (z AND 63)"
  by (simp_all add: sextet_def bit_simps byte_high)

lemma sextet_digit: "sextet n \<Longrightarrow> digit (b64_char n) = Some n" "sextet n \<Longrightarrow> b64_char n \<noteq> 61"
  by (simp_all add: sextet_def digit_b64_char)

lemma digit_sextet: "digit c = Some n \<Longrightarrow> c = b64_char n \<and> sextet n"
  using digit_Some by (simp add: sextet_def)

text \<open>Three bytes as four sextets, and back.\<close>

lemma bytes_of_sextets:
  "push_bit 2 (drop_bit 2 x) OR drop_bit 4 (push_bit 4 (x AND 3) OR drop_bit 4 y) = x"
  "push_bit 2 (drop_bit 2 x) OR drop_bit 4 (push_bit 4 (x AND 3)) = x"
  "push_bit 4 (push_bit 4 (x AND 3) OR drop_bit 4 y) OR drop_bit 2 (push_bit 2 (y AND 15) OR drop_bit 6 z) = y"
  "push_bit 4 (push_bit 4 (x AND 3) OR drop_bit 4 y) OR drop_bit 2 (push_bit 2 (y AND 15)) = y"
  "push_bit 6 (push_bit 2 (y AND 15) OR drop_bit 6 z) OR (z AND 63) = z"
  for x y z :: u8
  by (intro byte_eqI; simp add: bit_simps byte_high)+

lemma sextets_of_bytes:
  assumes "sextet a" and "sextet b" and "sextet c" and "sextet d"
  shows "drop_bit 2 (push_bit 2 a OR drop_bit 4 b) = a"
    and "push_bit 4 ((push_bit 2 a OR drop_bit 4 b) AND 3) OR drop_bit 4 (push_bit 4 b OR drop_bit 2 c) = b"
    and "push_bit 2 ((push_bit 4 b OR drop_bit 2 c) AND 15) OR drop_bit 6 (push_bit 6 c OR d) = c"
    and "(push_bit 6 c OR d) AND 63 = d"
  using assms unfolding sextet_def by (intro byte_eqI; simp add: bit_simps byte_high)+

lemma padded_sextets:
  assumes "sextet a" and "sextet b" and "sextet c"
  shows "b AND 15 = 0 \<Longrightarrow> push_bit 4 ((push_bit 2 a OR drop_bit 4 b) AND 3) = b"
    and "c AND 3 = 0 \<Longrightarrow> push_bit 2 ((push_bit 4 b OR drop_bit 2 c) AND 15) = c"
proof -
  show "push_bit 4 ((push_bit 2 a OR drop_bit 4 b) AND 3) = b" if "b AND 15 = 0"
  proof -
    have z: "\<not> bit (b AND 15) k" for k unfolding that by simp
    have "\<not> bit b 0" "\<not> bit b 1" "\<not> bit b 2" "\<not> bit b 3"
      using z [of 0] z [of 1] z [of 2] z [of 3] by (simp_all add: bit_and_iff)
    with assms show ?thesis unfolding sextet_def by (intro byte_eqI) (simp_all add: bit_simps byte_high)
  qed
  show "push_bit 2 ((push_bit 4 b OR drop_bit 2 c) AND 15) = c" if "c AND 3 = 0"
  proof -
    have z: "\<not> bit (c AND 3) k" for k unfolding that by simp
    have "\<not> bit c 0" "\<not> bit c 1" using z [of 0] z [of 1] by (simp_all add: bit_and_iff)
    with assms show ?thesis unfolding sextet_def by (intro byte_eqI) (simp_all add: bit_simps byte_high)
  qed
qed

lemma decode_full:
  assumes "sextet a" and "sextet b" and "sextet c" and "sextet d"
  shows "decode_groups (b64_char a # b64_char b # b64_char c # b64_char d # r) =
    map_option (\<lambda>out. (push_bit 2 a OR drop_bit 4 b) # (push_bit 4 b OR drop_bit 2 c) # (push_bit 6 c OR d) # out)
      (decode_groups r)"
  using assms by (simp add: sextet_digit Let_def)

lemma decode_pad1:
  assumes "sextet a" and "sextet b" and "sextet c" and "c AND 3 = 0"
  shows "decode_groups [b64_char a, b64_char b, b64_char c, 61] =
    Some [push_bit 2 a OR drop_bit 4 b, push_bit 4 b OR drop_bit 2 c]"
  using assms by (simp add: sextet_digit Let_def)

lemma decode_pad2:
  assumes "sextet a" and "sextet b" and "b AND 15 = 0"
  shows "decode_groups [b64_char a, b64_char b, 61, 61] = Some [push_bit 2 a OR drop_bit 4 b]"
  using assms by (simp add: sextet_digit Let_def)

lemma decode_base64_groups: "decode_groups (base64 x) = Some x"
proof (induction x rule: base64.induct)
  case (2 x)
  have "push_bit 4 (x AND 3) AND 15 = 0" by (intro byte_eqI) (simp_all add: bit_simps)
  from decode_pad2 [OF sextets(1) sextets(2) this, of x] show ?case
    unfolding base64.simps bytes_of_sextets .
next
  case (3 x y)
  have "push_bit 2 (y AND 15) AND 3 = 0" by (intro byte_eqI) (simp_all add: bit_simps)
  from decode_pad1 [OF sextets(1) sextets(3) sextets(4) this, of x x y] show ?case
    unfolding base64.simps bytes_of_sextets .
next
  case (4 x y z r)
  from decode_full [OF sextets(1) sextets(3) sextets(5) sextets(6), of x x y y z z "base64 r"] 4 show ?case
    unfolding base64.simps append.simps bytes_of_sextets by (simp only: option.map)
qed simp

lemma base64_decode_groups:
  "decode_groups s = Some x \<Longrightarrow> length s mod 4 = 0 \<Longrightarrow> base64 x = s"
proof (induction s arbitrary: x rule: decode_groups.induct)
  case (1 i0 i1 i2 i3 rest)
  have none: "digit 61 = None" by (simp add: digit_def)
  from "1.prems"(1) obtain a b out where ab: "digit i0 = Some a" "digit i1 = Some b"
    and out: "decode_groups rest = Some out"
    by (auto simp: Let_def split: if_splits)
  have r: "base64 out = rest"
    using "1.IH" [OF refl refl refl refl refl refl _ _ out] "1.prems" by (auto simp: Let_def split: if_splits)
  note sab = digit_sextet [OF ab(1)] digit_sextet [OF ab(2)]
  consider (two) "i2 = 61" "i3 = 61" "rest = []" "b AND 15 = 0"
    | (one) c where "i2 \<noteq> 61" "i3 = 61" "rest = []" "digit i2 = Some c" "c AND 3 = 0"
    | (full) c d where "i2 \<noteq> 61" "i3 \<noteq> 61" "digit i2 = Some c" "digit i3 = Some d"
    using "1.prems"(1) ab none by (auto simp: Let_def split: if_splits)
  then show ?case
  proof cases
    case two
    with "1.prems"(1) ab out have "x = [push_bit 2 a OR drop_bit 4 b]" by (simp add: Let_def)
    with two sab sextets_of_bytes(1) [of a b a a] padded_sextets(1) [of a b a] show ?thesis by simp
  next
    case one
    note sc = digit_sextet [OF one(4)]
    with one "1.prems"(1) ab out
    have "x = [push_bit 2 a OR drop_bit 4 b, push_bit 4 b OR drop_bit 2 c]" by (simp add: Let_def)
    with one sab sc sextets_of_bytes(1,2) [of a b c a] padded_sextets(2) [of a b c] show ?thesis by simp
  next
    case full
    note scd = digit_sextet [OF full(3)] digit_sextet [OF full(4)]
    with full "1.prems"(1) ab out
    have "x = [push_bit 2 a OR drop_bit 4 b, push_bit 4 b OR drop_bit 2 c, push_bit 6 c OR d] @ out"
      by (simp add: Let_def)
    with full sab scd r sextets_of_bytes [of a b c d] show ?thesis by simp
  qed
qed auto

lemma base64_length: "length (base64 x) mod 4 = 0" "base64 x = [] \<longleftrightarrow> x = []"
  by (induction x rule: base64.induct) auto

lemma base64_length_bytes: "4 * length x \<le> 3 * length (base64 x)"
  by (induction x rule: base64.induct) auto

lemma decode_eq: "decode s = Some x \<longleftrightarrow> s = base64 x \<and> x \<noteq> [] \<and> length s \<le> 216"
proof
  assume "decode s = Some x"
  then have "s \<noteq> []" "length s mod 4 = 0" "length s \<le> 216" and g: "decode_groups s = Some x"
    by (auto simp: decode_def split: if_splits)
  with base64_decode_groups [OF g] base64_length(2) [of x] show "s = base64 x \<and> x \<noteq> [] \<and> length s \<le> 216"
    by blast
next
  assume "s = base64 x \<and> x \<noteq> [] \<and> length s \<le> 216"
  with base64_length [of x] decode_base64_groups [of x] show "decode s = Some x"
    unfolding decode_def by fastforce
qed

text \<open>the base64 decoder accepts exactly the canonical encodings of one to 162 bytes: it returns
  \<open>x\<close> for \<open>s\<close> if and only if \<open>s\<close> is the padded RFC 4648 encoding of \<open>x\<close>, nonempty and of at most 216
  characters; then \<open>x\<close> fits the 162-byte buffer of the caller. A decoded string has no other
  accepted spelling.\<close>

theorem decode_canonical:
  "(decode s = Some x \<longleftrightarrow> s = base64 x \<and> x \<noteq> [] \<and> length s \<le> 216) \<and>
   (decode s = Some x \<longrightarrow> length x \<le> 162)"
proof -
  have "length x \<le> 162" if "length (base64 x) \<le> 216"
    using that base64_length_bytes [of x] by linarith
  then show ?thesis using decode_eq [of s x] by blast
qed

theorem decode_canonical_witness:
  "decode (ascii ''YWRtaW46a3I='') = Some (ascii ''admin:kr'') \<and> length (ascii ''admin:kr'') \<le> 162"
proof -
  have "ascii ''YWRtaW46a3I='' = base64 (ascii ''admin:kr'')"
    by (simp add: ascii_def b64_char_def)
  then show ?thesis
    using decode_canonical [of "ascii ''YWRtaW46a3I=''" "ascii ''admin:kr''"] by (simp add: ascii_def)
qed

section \<open>Who is let in\<close>

lemma xor_bytes_zero: "length a = n \<Longrightarrow> length b = n \<Longrightarrow> xor_bytes a b = replicate n 0 \<longleftrightarrow> a = b"
proof (induction n arbitrary: a b)
  case 0
  then show ?case by (simp add: xor_bytes_def)
next
  case (Suc n)
  then obtain x a' y b' where "a = x # a'" "b = y # b'" by (metis length_Suc_conv)
  moreover have "x XOR y = 0 \<longleftrightarrow> x = y" using xor_cancel_right [of x y y] by simp
  ultimately show ?case using Suc by (simp add: xor_bytes_def)
qed

lemma cut_Some_iff: "cut_at ch s = (a, Some r) \<longleftrightarrow> s = a @ ch # r \<and> ch \<notin> set a"
proof
  assume "cut_at ch s = (a, Some r)"
  then have a: "a = takeWhile (\<lambda>b. b \<noteq> ch) s"
    and "(case dropWhile (\<lambda>b. b \<noteq> ch) s of [] \<Rightarrow> None | _ # r \<Rightarrow> Some r) = Some r"
    by (auto simp: cut_at_def)
  then obtain x where d: "dropWhile (\<lambda>b. b \<noteq> ch) s = x # r" by (auto split: list.splits)
  with hd_dropWhile [of "\<lambda>b. b \<noteq> ch" s] have "x = ch" by simp
  with a d takeWhile_dropWhile_id [of "\<lambda>b. b \<noteq> ch" s] show "s = a @ ch # r \<and> ch \<notin> set a"
    by (auto dest: set_takeWhileD)
qed (auto simp: cut_present)

lemma length_pbkdf2: "length (pbkdf2 p s n) = 32"
proof -
  have "length (foldl xor_bytes u us) = 32" if "length u = 32" "\<forall>x \<in> set us. length x = 32" for u us
    using that by (induction us arbitrary: u) (auto simp: xor_bytes_def)
  moreover have "length (pbkdf2_u p s i) = 32" for i
    by (cases i) (simp_all add: pbkdf2_u_def hmac_spec_def)
  ultimately show ?thesis by (simp add: pbkdf2_def)
qed

text \<open>C19: who is let in. For a valid configuration, a header is accepted if and only if it is the word
  \<open>Basic\<close> and a space followed by the canonical base64 encoding, of at most 216 characters, of the
  configured user name, a colon and a password of 1 to 128 bytes without NUL, whose
  PBKDF2-HMAC-SHA-256 with the configured salt and 100000 rounds is the stored verifier.\<close>

theorem auth_verify_iff:
  assumes "cfg_wf cfg" and "config_valid cfg"
  shows "auth_verify cfg header \<longleftrightarrow>
    (\<exists>pass. header = ascii ''Basic '' @ base64 (cstr (cfg_username cfg) @ [58] @ pass) \<and>
       length header \<le> 222 \<and> pass \<noteq> [] \<and> length pass \<le> 128 \<and> 0 \<notin> set pass \<and>
       pbkdf2 pass (cfg_password_salt cfg) 100000 = cfg_password_hash cfg)"
proof -
  let ?u = "cstr (cfg_username cfg)"
  have rounds: "cfg_password_rounds cfg = CONFIG_PASSWORD_ROUNDS" and uv: "username_valid (cfg_username cfg)"
    using assms(2) by (auto simp: config_valid_def split: if_splits)
  have ul: "length (cfg_username cfg) = 32" and hl: "length (cfg_password_hash cfg) = 32"
    using assms(1) by (simp_all add: cfg_wf_def)
  note user = username_valid_cstr [OF uv ul]
  have pre: "take (length ?u) (cfg_username cfg) = ?u" by (simp add: cstr_def takeWhile_eq_take [symmetric])
  have plain: "58 \<notin> set ?u" "0 \<notin> set ?u"
    using user zero_notin_cstr by (auto simp: list_all_iff username_char_def)
  have key: "xor_bytes (auth_derive p s CONFIG_PASSWORD_ROUNDS) (cfg_password_hash cfg) = replicate 32 0 \<longleftrightarrow>
      pbkdf2 p s 100000 = cfg_password_hash cfg" for p s
    using derive_is_pbkdf2 [of CONFIG_PASSWORD_ROUNDS p s] by (simp add: xor_bytes_zero length_pbkdf2 hl)
  have same: "length ?u = length v \<and> take (length v) (cfg_username cfg) = v \<longleftrightarrow> v = ?u" for v
    using pre by metis
  let ?ok = "\<lambda>p. p \<noteq> [] \<and> length p \<le> 128 \<and> pbkdf2 p (cfg_password_salt cfg) 100000 = cfg_password_hash cfg"
  have verify: "auth_verify cfg header \<longleftrightarrow> take 6 header = ascii ''Basic '' \<and>
      (\<exists>p. decode (drop 6 header) = Some (?u @ 58 # p) \<and> 0 \<notin> set p \<and> ?ok p)"
  proof (cases "decode (drop 6 header)")
    case None
    then show ?thesis by (simp add: auth_verify_def)
  next
    case (Some d)
    show ?thesis
    proof (cases "cut_at 58 d")
      case (Pair v r)
      show ?thesis
      proof (cases r)
        case None
        have "d \<noteq> ?u @ 58 # p" for p using cut_present [OF plain(1), of p] Pair None by auto
        with Some Pair None show ?thesis by (simp add: auth_verify_def)
      next
        case p: (Some p)
        then have d: "d = v @ 58 # p" "58 \<notin> set v" using Pair by (auto simp: cut_Some_iff)
        have "d = ?u @ 58 # q \<longleftrightarrow> v = ?u \<and> p = q" for q
          using d plain(1) cut_Some_iff [of 58 d] Pair p by (metis option.inject prod.inject)
        then have "(\<exists>q. d = ?u @ 58 # q \<and> 0 \<notin> set q \<and> ?ok q) \<longleftrightarrow> v = ?u \<and> 0 \<notin> set p \<and> ?ok p"
          by metis
        moreover have "auth_verify cfg header \<longleftrightarrow> take 6 header = ascii ''Basic '' \<and> 0 \<notin> set d \<and> v = ?u \<and>
            v \<noteq> [] \<and> length v < 32 \<and> ?ok p"
          using same [of v] by (auto simp: auth_verify_def Some Pair p rounds key not_le not_less)
        ultimately show ?thesis using Some d user plain by auto
      qed
    qed
  qed
  have head: "take 6 header = ascii ''Basic '' \<and> drop 6 header = t \<longleftrightarrow> header = ascii ''Basic '' @ t" for t
  proof
    assume "take 6 header = ascii ''Basic '' \<and> drop 6 header = t"
    then show "header = ascii ''Basic '' @ t" by (metis append_take_drop_id)
  qed simp
  have len: "length (drop 6 header) \<le> 216 \<longleftrightarrow> length header \<le> 222" by auto
  have "auth_verify cfg header \<longleftrightarrow> (\<exists>p. (take 6 header = ascii ''Basic '' \<and>
      drop 6 header = base64 (?u @ 58 # p)) \<and> length header \<le> 222 \<and> 0 \<notin> set p \<and> ?ok p)"
    unfolding verify decode_eq len by blast
  then show ?thesis unfolding head by (simp add: conj_ac)
qed

lemma config_valid_hash: "config_valid (c\<lparr>cfg_password_hash := h\<rparr>) = config_valid c"
  by (simp add: config_valid_def)

theorem auth_verify_iff_witness:
  "auth_verify (config_defaults\<lparr>cfg_password_hash :=
      pbkdf2 (ascii ''kr'') (cfg_password_salt config_defaults) 100000\<rparr>) (ascii ''Basic YWRtaW46a3I='')"
proof -
  define h where "h = pbkdf2 (ascii ''kr'') (cfg_password_salt config_defaults) 100000"
  let ?c = "config_defaults\<lparr>cfg_password_hash := h\<rparr>"
  have "length h = 32" unfolding h_def by (rule length_pbkdf2)
  then have wf: "cfg_wf ?c" using config_defaults_wf unfolding cfg_wf_def by simp
  have valid: "config_valid ?c"
    using config_defaults_valid by (simp only: config_valid_hash)
  have hdr: "ascii ''Basic YWRtaW46a3I='' =
      ascii ''Basic '' @ base64 (cstr (cfg_username ?c) @ [58] @ ascii ''kr'')"
    by (simp add: ascii_def b64_char_def config_defaults_def cstr_def)
  have "pbkdf2 (ascii ''kr'') (cfg_password_salt ?c) 100000 = cfg_password_hash ?c"
    by (simp add: h_def)
  moreover have "ascii ''kr'' \<noteq> []" "length (ascii ''kr'') \<le> 128" "0 \<notin> set (ascii ''kr'')"
    "length (ascii ''Basic YWRtaW46a3I='') \<le> 222"
    by (simp_all add: ascii_def)
  ultimately have "auth_verify ?c (ascii ''Basic YWRtaW46a3I='')"
    using hdr auth_verify_iff [OF wf valid, of "ascii ''Basic YWRtaW46a3I=''"] by blast
  then show ?thesis unfolding h_def .
qed

end
