(* ===== verification/Ip_Discovery.thy ===== *)
theory Ip_Discovery
  imports Prelude
begin

text \<open>
  The passive ARP observer \<^verbatim>\<open>software/r5/src/ip_discovery.c\<close>: a table of 128 entries that maps
  addresses seen in ARP traffic to the station that announced them, with expiry after ten
  minutes, at most four addresses per station and eviction of the oldest entry.
\<close>

section \<open>State and operations\<close>

record arp_entry =
  ent_mac :: bytes
  ent_ip :: bytes
  ent_seen :: u64
  ent_valid :: bool

abbreviation IP_DISCOVERY_CAPACITY :: nat where
  "IP_DISCOVERY_CAPACITY \<equiv> 128"

abbreviation IP_DISCOVERY_PER_MAC :: nat where
  "IP_DISCOVERY_PER_MAC \<equiv> 4"

abbreviation IP_DISCOVERY_TTL_MS :: u64 where
  "IP_DISCOVERY_TTL_MS \<equiv> 600000"

definition milliseconds :: "u32 \<Rightarrow> u64 \<Rightarrow> u64" where
  "milliseconds hz timestamp = (if hz \<noteq> 0 then timestamp * 1000 div ucast hz else 0)"

text \<open>The header checks, on a frame with its length.\<close>

definition arp_valid :: "bytes \<Rightarrow> bool" where
  "arp_valid f = (\<not> (length f < 42 \<or> f ! 12 \<noteq> 8 \<or> f ! 13 \<noteq> 6 \<or> f ! 14 \<noteq> 0 \<or> f ! 15 \<noteq> 1 \<or>
     f ! 16 \<noteq> 8 \<or> f ! 17 \<noteq> 0 \<or> f ! 18 \<noteq> 6 \<or> f ! 19 \<noteq> 4 \<or> f ! 20 \<noteq> 0 \<or>
     (f ! 21 \<noteq> 1 \<and> f ! 21 \<noteq> 2) \<or> f ! 22 AND 1 \<noteq> 0 \<or>
     peek 22 6 f = replicate 6 0 \<or> peek 6 6 f \<noteq> peek 22 6 f \<or>
     f ! 28 = 0 \<or> f ! 28 = 127 \<or> 224 \<le> f ! 28))"

record scan =
  sc_entries :: "arp_entry list"
  sc_slot :: nat
  sc_same :: nat
  sc_oldest :: nat

definition expire :: "u64 \<Rightarrow> arp_entry \<Rightarrow> arp_entry" where
  "expire now e = (if ent_valid e \<and> IP_DISCOVERY_TTL_MS \<le> now - ent_seen e then e\<lparr>ent_valid := False\<rparr> else e)"

text \<open>One iteration of the first loop.\<close>

definition scan_step :: "u64 \<Rightarrow> bytes \<Rightarrow> scan \<Rightarrow> nat \<Rightarrow> scan" where
  "scan_step now mac s i =
     (let es = (sc_entries s)[i := expire now (sc_entries s ! i)];
          e = es ! i; sl = es ! sc_slot s;
          slot = (if \<not> ent_valid e \<or> ent_valid sl \<and> ent_seen e < ent_seen sl then i else sc_slot s);
          hit = (ent_valid e \<and> ent_mac e = mac);
          oldest = (if hit \<and> (sc_same s = 0 \<or> ent_seen e < ent_seen (es ! sc_oldest s)) then i else sc_oldest s)
      in \<lparr>sc_entries = es, sc_slot = slot, sc_same = (if hit then sc_same s + 1 else sc_same s),
          sc_oldest = oldest\<rparr>)"

definition scan_table :: "u64 \<Rightarrow> bytes \<Rightarrow> arp_entry list \<Rightarrow> scan" where
  "scan_table now mac es =
     foldl (scan_step now mac) \<lparr>sc_entries = es, sc_slot = 0, sc_same = 0, sc_oldest = 0\<rparr>
       [0..<IP_DISCOVERY_CAPACITY]"

text \<open>The second loop stops at the first valid entry with the address.\<close>

definition find_ip :: "bytes \<Rightarrow> arp_entry list \<Rightarrow> nat option" where
  "find_ip ip es = find (\<lambda>i. ent_valid (es ! i) \<and> ent_ip (es ! i) = ip) [0..<IP_DISCOVERY_CAPACITY]"

definition ip_discovery_observe :: "u64 \<Rightarrow> bytes \<Rightarrow> arp_entry list \<Rightarrow> arp_entry list" where
  "ip_discovery_observe now f es =
     (if \<not> arp_valid f then es
      else let mac = peek 22 6 f; ip = peek 28 4 f; s = scan_table now mac es;
             slot = (if IP_DISCOVERY_PER_MAC \<le> sc_same s then sc_oldest s else sc_slot s);
             (es, slot) = (case find_ip ip (sc_entries s) of
                None \<Rightarrow> (sc_entries s, slot)
              | Some i \<Rightarrow>
                  (if IP_DISCOVERY_PER_MAC \<le> sc_same s \<and> ent_mac (sc_entries s ! i) \<noteq> mac
                   then (sc_entries s)[sc_oldest s := (sc_entries s ! sc_oldest s)\<lparr>ent_valid := False\<rparr>]
                   else sc_entries s, i))
           in es[slot := \<lparr>ent_mac = mac, ent_ip = ip, ent_seen = now, ent_valid = True\<rparr>])"

record ip_observation =
  obs_ip :: bytes
  obs_age_ms :: u32

definition lookup_step :: "u64 \<Rightarrow> bytes \<Rightarrow> ip_observation list \<Rightarrow> arp_entry \<Rightarrow> ip_observation list" where
  "lookup_step now mac out e =
     (if \<not> length out < IP_DISCOVERY_PER_MAC then out
      else let age = now - ent_seen e
           in if ent_valid e \<and> age < IP_DISCOVERY_TTL_MS \<and> ent_mac e = mac
              then out @ [\<lparr>obs_ip = ent_ip e, obs_age_ms = ucast age\<rparr>] else out)"

definition ip_discovery_lookup :: "u64 \<Rightarrow> bytes \<Rightarrow> arp_entry list \<Rightarrow> ip_observation list" where
  "ip_discovery_lookup now mac es = foldl (lookup_step now mac) [] es"

section \<open>The table invariant\<close>

definition held :: "bytes \<Rightarrow> arp_entry \<Rightarrow> bool" where
  "held mac e = (ent_valid e \<and> ent_mac e = mac)"

definition table_inv :: "arp_entry list \<Rightarrow> bool" where
  "table_inv es = (length es = IP_DISCOVERY_CAPACITY \<and>
     (\<forall>i < length es. \<forall>j < length es. ent_valid (es ! i) \<longrightarrow> ent_valid (es ! j) \<longrightarrow>
        ent_ip (es ! i) = ent_ip (es ! j) \<longrightarrow> i = j) \<and>
     (\<forall>mac. length (filter (held mac) es) \<le> IP_DISCOVERY_PER_MAC))"

lemma length_filter_update:
  assumes "i < length xs"
  shows "length (filter P (xs[i := x])) + (if P (xs ! i) then 1 else 0) =
    length (filter P xs) + (if P x then 1 else 0)"
  using assms
proof (induction xs arbitrary: i)
  case Nil
  then show ?case by simp
next
  case (Cons y xs)
  then show ?case by (cases i) (auto split: if_splits)
qed

lemma expire_simps [simp]:
  "ent_mac (expire now e) = ent_mac e" "ent_ip (expire now e) = ent_ip e"
  "ent_seen (expire now e) = ent_seen e"
  "ent_valid (expire now e) \<longleftrightarrow> ent_valid e \<and> now - ent_seen e < IP_DISCOVERY_TTL_MS"
  by (auto simp: expire_def not_le)

text \<open>The scan after \<open>k\<close> iterations.\<close>

definition scan_inv :: "u64 \<Rightarrow> bytes \<Rightarrow> arp_entry list \<Rightarrow> nat \<Rightarrow> scan \<Rightarrow> bool" where
  "scan_inv now mac es k s =
     (sc_entries s = map (expire now) (take k es) @ drop k es \<and>
      (k = 0 \<longrightarrow> sc_slot s = 0) \<and> (0 < k \<longrightarrow> sc_slot s < k) \<and>
      sc_same s = length (filter (held mac) (map (expire now) (take k es))) \<and>
      (0 < sc_same s \<longrightarrow> sc_oldest s < k \<and> held mac (expire now (es ! sc_oldest s))))"

lemma scan_inv_step:
  assumes "scan_inv now mac es k s" and "k < length es"
  shows "scan_inv now mac es (Suc k) (scan_step now mac s k)"
proof -
  let ?E = "map (expire now) (take (Suc k) es) @ drop (Suc k) es"
  have ent: "sc_entries s = map (expire now) (take k es) @ drop k es" using assms by (simp add: scan_inv_def)
  have "(map (expire now) (take k es) @ drop k es)[k := expire now (es ! k)] = ?E"
    using assms(2) by (simp add: list_update_append take_Suc_conv_app_nth Cons_nth_drop_Suc [symmetric])
  moreover have "sc_entries s ! k = es ! k" using ent assms(2) by (simp add: nth_append)
  ultimately have E: "(sc_entries s)[k := expire now (sc_entries s ! k)] = ?E" using ent by simp
  have Ek: "?E ! k = expire now (es ! k)" using assms(2) by (simp add: nth_append)
  have "take (Suc k) es = take k es @ [es ! k]" using assms(2) by (simp add: take_Suc_conv_app_nth)
  then show ?thesis
    using assms unfolding scan_inv_def scan_step_def Let_def E Ek
    by (auto simp: held_def less_Suc_eq)
qed

lemma scan_table_inv:
  assumes "length es = IP_DISCOVERY_CAPACITY"
  shows "scan_inv now mac es IP_DISCOVERY_CAPACITY (scan_table now mac es)"
proof -
  have "k \<le> length es \<Longrightarrow> scan_inv now mac es k (foldl (scan_step now mac)
      \<lparr>sc_entries = es, sc_slot = 0, sc_same = 0, sc_oldest = 0\<rparr> [0..<k])" for k
  proof (induction k)
    case 0
    then show ?case by (simp add: scan_inv_def)
  next
    case (Suc k)
    then show ?case by (simp add: scan_inv_step)
  qed
  from this [of IP_DISCOVERY_CAPACITY] assms show ?thesis by (simp add: scan_table_def)
qed

section \<open>Observing keeps the invariant and records the sender\<close>

lemma expired_inv:
  assumes "table_inv es"
  shows "table_inv (map (expire now) es)"
proof -
  have "length (filter (held mac) (map (expire now) es)) \<le> length (filter (held mac) es)" for mac
    by (induction es) (auto simp: held_def)
  then have "length (filter (held mac) (map (expire now) es)) \<le> IP_DISCOVERY_PER_MAC" for mac
    using assms unfolding table_inv_def by (meson le_trans)
  with assms show ?thesis unfolding table_inv_def by simp
qed

text \<open>Replacing one entry by an announcement keeps the invariant if no other valid entry has the
  address and the station holds at most three other ones.\<close>

lemma table_inv_replace:
  assumes inv: "table_inv es" and slot: "slot < length es"
    and fresh: "\<And>i. i < length es \<Longrightarrow> i \<noteq> slot \<Longrightarrow> ent_valid (es ! i) \<Longrightarrow> ent_ip (es ! i) \<noteq> ip"
    and room: "length (filter (held mac) es) < IP_DISCOVERY_PER_MAC \<or> held mac (es ! slot)"
  shows "table_inv (es[slot := \<lparr>ent_mac = mac, ent_ip = ip, ent_seen = now, ent_valid = True\<rparr>])"
    (is "table_inv (es[slot := ?e])")
proof -
  have "length (filter (held m) (es[slot := ?e])) \<le> IP_DISCOVERY_PER_MAC" for m
    using length_filter_update [OF slot, of "held m" ?e] inv room
    by (cases "m = mac") (auto simp: table_inv_def held_def split: if_splits dest: spec [of _ m])
  moreover have "i = j" if "i < length es" "j < length es" "ent_valid (es[slot := ?e] ! i)"
    "ent_valid (es[slot := ?e] ! j)" "ent_ip (es[slot := ?e] ! i) = ent_ip (es[slot := ?e] ! j)" for i j
    using that inv slot fresh [of i] fresh [of j]
    by (cases "i = slot"; cases "j = slot") (auto simp: table_inv_def)
  ultimately show ?thesis using inv unfolding table_inv_def by simp
qed

lemma table_inv_invalidate:
  assumes "table_inv es" and "i < length es"
  shows "table_inv (es[i := (es ! i)\<lparr>ent_valid := False\<rparr>])"
proof -
  let ?e = "(es ! i)\<lparr>ent_valid := False\<rparr>"
  have "length (filter (held m) (es[i := ?e])) \<le> length (filter (held m) es)" for m
    using length_filter_update [OF assms(2), of "held m" ?e] by (simp add: held_def split: if_splits)
  moreover have "ent_valid (es[i := ?e] ! k) \<longrightarrow> ent_valid (es ! k)" "ent_ip (es[i := ?e] ! k) = ent_ip (es ! k)" for k
    using assms(2) by (cases "k = i"; simp)+
  moreover from calculation have "length (filter (held m) (es[i := ?e])) \<le> IP_DISCOVERY_PER_MAC" for m
    using assms(1) unfolding table_inv_def by (meson le_trans)
  ultimately show ?thesis
    using assms(1) unfolding table_inv_def by simp
qed

lemma find_ip_Some:
  assumes "find_ip ip es = Some i" and "length es = IP_DISCOVERY_CAPACITY"
  shows "i < length es" and "ent_valid (es ! i)" and "ent_ip (es ! i) = ip"
  using assms unfolding find_ip_def by (auto simp: find_Some_iff)

lemma find_ip_None:
  assumes "find_ip ip es = None" and "i < IP_DISCOVERY_CAPACITY" and "ent_valid (es ! i)"
  shows "ent_ip (es ! i) \<noteq> ip"
  using assms unfolding find_ip_def by (auto simp: find_None_iff)

text \<open>What an observation writes: some slot of the expired table, in which at most one other entry
  has been invalidated.\<close>

lemma observe_shape:
  assumes inv: "table_inv es" and f: "arp_valid f"
  defines "mac \<equiv> peek 22 6 f" and "ip \<equiv> peek 28 4 f"
  obtains es' slot where
    "ip_discovery_observe now f es = es'[slot := \<lparr>ent_mac = mac, ent_ip = ip, ent_seen = now, ent_valid = True\<rparr>]"
    "table_inv es'" "slot < length es'" "length es' = IP_DISCOVERY_CAPACITY"
    "es' = map (expire now) es \<or>
      (\<exists>j < length es. es' = (map (expire now) es)[j := (expire now (es ! j))\<lparr>ent_valid := False\<rparr>])"
    "\<And>i. i < length es' \<Longrightarrow> i \<noteq> slot \<Longrightarrow> ent_valid (es' ! i) \<Longrightarrow> ent_ip (es' ! i) \<noteq> ip"
    "length (filter (held mac) es') < IP_DISCOVERY_PER_MAC \<or> held mac (es' ! slot)"
proof -
  let ?s = "scan_table now mac es" and ?E = "map (expire now) es"
  let ?new = "\<lparr>ent_mac = mac, ent_ip = ip, ent_seen = now, ent_valid = True\<rparr>"
  have len: "length es = IP_DISCOVERY_CAPACITY" using inv by (simp add: table_inv_def)
  have sc: "sc_entries ?s = ?E" "sc_slot ?s < IP_DISCOVERY_CAPACITY"
      "sc_same ?s = length (filter (held mac) ?E)"
    using scan_table_inv [OF len, of now mac] len by (simp_all add: scan_inv_def)
  have sc_old: "sc_oldest ?s < IP_DISCOVERY_CAPACITY \<and> held mac (?E ! sc_oldest ?s)" if "0 < sc_same ?s"
  proof -
    have "sc_oldest ?s < IP_DISCOVERY_CAPACITY \<and> held mac (expire now (es ! sc_oldest ?s))"
      using scan_table_inv [OF len, of now mac] that unfolding scan_inv_def by blast
    with len show ?thesis by simp
  qed
  have invE: "table_inv ?E" using inv by (rule expired_inv)
  then have count: "length (filter (held mac) ?E) \<le> IP_DISCOVERY_PER_MAC" by (auto simp: table_inv_def)
  show thesis
  proof (cases "find_ip ip ?E")
    case None
    let ?slot = "if IP_DISCOVERY_PER_MAC \<le> sc_same ?s then sc_oldest ?s else sc_slot ?s"
    show thesis
    proof (rule that [of ?E ?slot])
      show "ip_discovery_observe now f es = ?E[?slot := ?new]"
        using f None sc(1) by (simp add: ip_discovery_observe_def Let_def mac_def ip_def)
      show "?slot < length ?E" using sc(2) sc_old len by auto
      show "\<And>i. i < length ?E \<Longrightarrow> i \<noteq> ?slot \<Longrightarrow> ent_valid (?E ! i) \<Longrightarrow> ent_ip (?E ! i) \<noteq> ip"
        using find_ip_None [OF None] len by simp
      show "length (filter (held mac) ?E) < IP_DISCOVERY_PER_MAC \<or> held mac (?E ! ?slot)"
      proof (cases "IP_DISCOVERY_PER_MAC \<le> sc_same ?s")
        case True
        then have "0 < sc_same ?s" by linarith
        with True sc_old show ?thesis by simp
      next
        case False
        with sc(3) show ?thesis by simp
      qed
    qed (use invE len in auto)
  next
    case (Some i)
    note fi = find_ip_Some [OF Some, unfolded length_map, OF len]
    have other: "ent_ip (?E ! k) \<noteq> ip" if "k < length ?E" "k \<noteq> i" "ent_valid (?E ! k)" for k
      using invE that fi unfolding table_inv_def by auto
    show thesis
    proof (cases "IP_DISCOVERY_PER_MAC \<le> sc_same ?s \<and> ent_mac (?E ! i) \<noteq> mac")
      case True
      let ?j = "sc_oldest ?s" and ?E' = "?E[sc_oldest ?s := (?E ! sc_oldest ?s)\<lparr>ent_valid := False\<rparr>]"
      have j: "?j < length ?E" "held mac (?E ! ?j)" using sc_old True len by auto
      have ij: "?j \<noteq> i" using j(2) True by (auto simp: held_def)
      show thesis
      proof (rule that [of ?E' i])
        show "ip_discovery_observe now f es = ?E'[i := ?new]"
          using f Some sc(1) True by (simp add: ip_discovery_observe_def Let_def mac_def ip_def)
        show "table_inv ?E'" using invE j(1) by (rule table_inv_invalidate)
        show "?E' = ?E \<or> (\<exists>j < length es. ?E' = ?E[j := (expire now (es ! j))\<lparr>ent_valid := False\<rparr>])"
          using j(1) by auto
        show "ent_ip (?E' ! k) \<noteq> ip" if "k < length ?E'" "k \<noteq> i" "ent_valid (?E' ! k)" for k
        proof (cases "k = ?j")
          case True
          with that(3) j(1) show ?thesis by simp
        next
          case False
          then have "?E' ! k = ?E ! k" by simp
          with other [of k] that show ?thesis by simp
        qed
        show "length (filter (held mac) ?E') < IP_DISCOVERY_PER_MAC \<or> held mac (?E' ! i)"
          using length_filter_update [OF j(1), of "held mac" "(?E ! ?j)\<lparr>ent_valid := False\<rparr>"] j(2) count
          by (simp add: held_def)
      qed (use fi(1) len in auto)
    next
      case False
      show thesis
      proof (rule that [of ?E i])
        show "ip_discovery_observe now f es = ?E[i := ?new]"
          using f Some sc(1) False by (auto simp: ip_discovery_observe_def Let_def mac_def ip_def)
        show "length (filter (held mac) ?E) < IP_DISCOVERY_PER_MAC \<or> held mac (?E ! i)"
          using False sc(3) fi(2) by (auto simp: held_def)
      qed (use invE fi(1) len other in auto)
    qed
  qed
qed

lemma observe_inv: "table_inv es \<Longrightarrow> table_inv (ip_discovery_observe now f es)"
proof (cases "arp_valid f")
  case True
  assume "table_inv es"
  then obtain es' slot where
    "ip_discovery_observe now f es = es'[slot := \<lparr>ent_mac = peek 22 6 f, ent_ip = peek 28 4 f,
       ent_seen = now, ent_valid = True\<rparr>]"
    "table_inv es'" "slot < length es'"
    "\<And>i. i < length es' \<Longrightarrow> i \<noteq> slot \<Longrightarrow> ent_valid (es' ! i) \<Longrightarrow> ent_ip (es' ! i) \<noteq> peek 28 4 f"
    "length (filter (held (peek 22 6 f)) es') < IP_DISCOVERY_PER_MAC \<or> held (peek 22 6 f) (es' ! slot)"
    using True by (rule observe_shape) blast
  then show ?thesis by (simp add: table_inv_replace)
qed (simp add: ip_discovery_observe_def)

definition empty_entries :: "arp_entry list" where
  "empty_entries = replicate IP_DISCOVERY_CAPACITY
     \<lparr>ent_mac = replicate 6 0, ent_ip = replicate 4 0, ent_seen = 0, ent_valid = False\<rparr>"

lemma empty_entries_inv: "table_inv empty_entries"
  by (simp add: table_inv_def empty_entries_def held_def)

text \<open>C25: whatever frames are observed, at whatever times the clock reports, the table keeps its 128
  entries, no two valid entries have the same address and no station holds more than four.\<close>

theorem ip_table_invariant:
  "table_inv (foldl (\<lambda>es (now, f). ip_discovery_observe now f es) empty_entries events)"
proof (induction events rule: rev_induct)
  case Nil
  then show ?case by (simp add: empty_entries_inv)
next
  case (snoc e events)
  then show ?case by (cases e) (simp add: observe_inv)
qed

section \<open>The table as a map\<close>

text \<open>The association the table stands for: the address, its station and the time it was seen.\<close>

definition assoc :: "arp_entry list \<Rightarrow> (bytes \<times> bytes \<times> u64) set" where
  "assoc es = {(ent_ip e, ent_mac e, ent_seen e) | e. e \<in> set es \<and> ent_valid e}"

definition live :: "u64 \<Rightarrow> (bytes \<times> bytes \<times> u64) set \<Rightarrow> (bytes \<times> bytes \<times> u64) set" where
  "live now m = {(ip, mac, seen) \<in> m. now - seen < IP_DISCOVERY_TTL_MS}"

lemma assoc_expired: "assoc (map (expire now) es) = live now (assoc es)"
proof (rule set_eqI)
  fix x
  have "x \<in> assoc (map (expire now) es) \<longleftrightarrow> (\<exists>e \<in> set es. ent_valid (expire now e) \<and>
      x = (ent_ip (expire now e), ent_mac (expire now e), ent_seen (expire now e)))"
    unfolding assoc_def by force
  also have "\<dots> \<longleftrightarrow> x \<in> live now (assoc es)"
    unfolding assoc_def live_def by auto
  finally show "x \<in> assoc (map (expire now) es) \<longleftrightarrow> x \<in> live now (assoc es)" .
qed

lemma assoc_nth:
  "assoc es = {(ent_ip (es ! i), ent_mac (es ! i), ent_seen (es ! i)) | i. i < length es \<and> ent_valid (es ! i)}"
  by (auto simp: assoc_def in_set_conv_nth)

text \<open>The associations of a table after one entry is replaced.\<close>

lemma assoc_update:
  assumes "slot < length es" and "ent_valid e"
  shows "assoc (es[slot := e]) = insert (ent_ip e, ent_mac e, ent_seen e)
    {(ent_ip (es ! i), ent_mac (es ! i), ent_seen (es ! i)) | i. i < length es \<and> i \<noteq> slot \<and> ent_valid (es ! i)}"
    (is "?L = insert ?e ?R")
proof -
  have "?L = {(ent_ip (es[slot := e] ! i), ent_mac (es[slot := e] ! i), ent_seen (es[slot := e] ! i)) | i.
      i < length es \<and> ent_valid (es[slot := e] ! i)}" unfolding assoc_nth by simp
  also have "\<dots> = insert ?e ?R"
    using assms by (auto simp: nth_list_update split: if_splits)
  finally show ?thesis .
qed

lemma assoc_minus_one:
  "assoc es - {(ent_ip (es ! s), ent_mac (es ! s), ent_seen (es ! s))} \<subseteq>
    {(ent_ip (es ! i), ent_mac (es ! i), ent_seen (es ! i)) | i. i < length es \<and> i \<noteq> s \<and> ent_valid (es ! i)}"
  unfolding assoc_nth by auto

lemma assoc_invalidate:
  assumes "j < length es"
  shows "assoc (es[j := (es ! j)\<lparr>ent_valid := False\<rparr>]) \<subseteq> assoc es"
    and "assoc es - {(ent_ip (es ! j), ent_mac (es ! j), ent_seen (es ! j))} \<subseteq>
      assoc (es[j := (es ! j)\<lparr>ent_valid := False\<rparr>])"
  using assms unfolding assoc_nth by (auto simp: nth_list_update split: if_splits)

text \<open>C26: what one frame does to the table. A frame that fails a header check changes nothing. A
  valid announcement leaves its address bound to its sender at the current time and to nothing
  else; every other association in the table afterwards was there before and had not expired, and
  at most two unexpired ones have been displaced.\<close>

theorem ip_discovery_observe_spec:
  assumes "table_inv es"
  shows "if arp_valid f
    then (\<forall>mac seen. (peek 28 4 f, mac, seen) \<in> assoc (ip_discovery_observe now f es) \<longleftrightarrow>
            mac = peek 22 6 f \<and> seen = now) \<and>
         (\<forall>a \<in> assoc (ip_discovery_observe now f es). fst a \<noteq> peek 28 4 f \<longrightarrow> a \<in> live now (assoc es)) \<and>
         (\<exists>a b. live now (assoc es) - {a, b} \<subseteq> assoc (ip_discovery_observe now f es))
    else ip_discovery_observe now f es = es"
proof (cases "arp_valid f")
  case False
  then show ?thesis by (simp add: ip_discovery_observe_def)
next
  case True
  let ?mac = "peek 22 6 f" and ?ip = "peek 28 4 f"
  obtain es' slot where sh:
    "ip_discovery_observe now f es = es'[slot := \<lparr>ent_mac = ?mac, ent_ip = ?ip, ent_seen = now, ent_valid = True\<rparr>]"
    "table_inv es'" "slot < length es'" "length es' = IP_DISCOVERY_CAPACITY"
    "es' = map (expire now) es \<or>
      (\<exists>j < length es. es' = (map (expire now) es)[j := (expire now (es ! j))\<lparr>ent_valid := False\<rparr>])"
    "\<And>i. i < length es' \<Longrightarrow> i \<noteq> slot \<Longrightarrow> ent_valid (es' ! i) \<Longrightarrow> ent_ip (es' ! i) \<noteq> ?ip"
    using assms True by (rule observe_shape) blast
  let ?rest = "{(ent_ip (es' ! i), ent_mac (es' ! i), ent_seen (es' ! i)) | i. i < length es' \<and> i \<noteq> slot \<and> ent_valid (es' ! i)}"
  have new: "assoc (ip_discovery_observe now f es) = insert (?ip, ?mac, now) ?rest"
    unfolding sh(1) by (subst assoc_update [OF sh(3)]) simp_all
  have fresh: "(?ip, m, t) \<notin> ?rest" for m t using sh(6) by (smt (verit) mem_Collect_eq prod.inject)
  have sub: "?rest \<subseteq> assoc es'" unfolding assoc_nth by auto
  from sh(5) have "assoc es' \<subseteq> live now (assoc es) \<and> (\<exists>a. live now (assoc es) - {a} \<subseteq> assoc es')"
  proof
    assume "es' = map (expire now) es"
    then show ?thesis by (auto simp: assoc_expired)
  next
    assume "\<exists>j < length es. es' = (map (expire now) es)[j := (expire now (es ! j))\<lparr>ent_valid := False\<rparr>]"
    then obtain j where j: "j < length (map (expire now) es)"
      "es' = (map (expire now) es)[j := (map (expire now) es ! j)\<lparr>ent_valid := False\<rparr>]" by auto
    show ?thesis
      using assoc_invalidate [OF j(1)] unfolding j(2) assoc_expired by blast
  qed
  then have old: "assoc es' \<subseteq> live now (assoc es)" and kept: "\<exists>a. live now (assoc es) - {a} \<subseteq> assoc es'"
    by blast+
  obtain a b where "live now (assoc es) - {a} \<subseteq> assoc es'" "assoc es' - {b} \<subseteq> ?rest"
    using kept assoc_minus_one [of es' slot] by blast
  then have "live now (assoc es) - {a, b} \<subseteq> insert (?ip, ?mac, now) ?rest" by blast
  then have disp: "\<exists>a b. live now (assoc es) - {a, b} \<subseteq> insert (?ip, ?mac, now) ?rest" by blast
  have "\<forall>mac seen. (?ip, mac, seen) \<in> insert (?ip, ?mac, now) ?rest \<longleftrightarrow> mac = ?mac \<and> seen = now"
    using fresh by blast
  moreover have "\<forall>a \<in> insert (?ip, ?mac, now) ?rest. fst a \<noteq> ?ip \<longrightarrow> a \<in> live now (assoc es)"
    using sub old by force
  ultimately show ?thesis using True disp unfolding new by simp
qed

theorem ip_discovery_observe_spec_witness:
  "\<exists>f. arp_valid f \<and> (\<forall>mac seen. (peek 28 4 f, mac, seen) \<in> assoc (ip_discovery_observe 7 f empty_entries) \<longleftrightarrow>
     mac = [2, 0, 0, 0, 0, 1] \<and> seen = 7)"
proof -
  let ?f = "[255, 255, 255, 255, 255, 255, 2, 0, 0, 0, 0, 1, 8, 6, 0, 1, 8, 0, 6, 4, 0, 1, 2, 0, 0, 0, 0, 1,
    10, 0, 1, 140, 0, 0, 0, 0, 0, 0, 0, 0, 0, 0] :: bytes"
  have "replicate 6 (0 :: u8) = [0, 0, 0, 0, 0, 0]" by (simp add: numeral_eq_Suc)
  then have "arp_valid ?f" "peek 22 6 ?f = [2, 0, 0, 0, 0, 1]"
    by (simp_all add: arp_valid_def peek_def)
  with ip_discovery_observe_spec [OF empty_entries_inv, of ?f 7] show ?thesis
    by (intro exI [of _ ?f]) presburger
qed

section \<open>Lookups\<close>

definition answers :: "u64 \<Rightarrow> bytes \<Rightarrow> arp_entry \<Rightarrow> bool" where
  "answers now mac e = (held mac e \<and> now - ent_seen e < IP_DISCOVERY_TTL_MS)"

definition observation :: "u64 \<Rightarrow> arp_entry \<Rightarrow> ip_observation" where
  "observation now e = \<lparr>obs_ip = ent_ip e, obs_age_ms = ucast (now - ent_seen e)\<rparr>"

lemma lookup_step_eq:
  "length out < IP_DISCOVERY_PER_MAC \<Longrightarrow>
    lookup_step now mac out e = (if answers now mac e then out @ [observation now e] else out)"
  by (auto simp: lookup_step_def Let_def answers_def held_def observation_def)

lemma lookup_take:
  "length out \<le> IP_DISCOVERY_PER_MAC \<Longrightarrow> foldl (lookup_step now mac) out es =
    take IP_DISCOVERY_PER_MAC (out @ map (observation now) (filter (answers now mac) es))"
proof (induction es arbitrary: out)
  case Nil
  then show ?case by simp
next
  case (Cons e es)
  show ?case
  proof (cases "length out < IP_DISCOVERY_PER_MAC")
    case True
    with Cons.IH [of out] Cons.IH [of "out @ [observation now e]"] show ?thesis
      by (simp add: lookup_step_eq)
  next
    case False
    with Cons.prems have "length out = IP_DISCOVERY_PER_MAC" by simp
    with Cons.IH [of out] False show ?thesis by (simp add: lookup_step_def)
  qed
qed

text \<open>a lookup tells the whole truth. On a table that keeps the invariant it returns, in table
  order, exactly the unexpired addresses of the station with their ages in milliseconds, which fit
  32 bits; there are at most four, so the bound of the result array loses none, and no address
  occurs twice.\<close>

theorem ip_discovery_lookup_exact:
  assumes "table_inv es"
  shows "ip_discovery_lookup now mac es = map (observation now) (filter (answers now mac) es) \<and>
    length (ip_discovery_lookup now mac es) \<le> IP_DISCOVERY_PER_MAC \<and>
    distinct (map obs_ip (ip_discovery_lookup now mac es)) \<and>
    (\<forall>e \<in> set es. answers now mac e \<longrightarrow> unat (obs_age_ms (observation now e)) = unat (now - ent_seen e))"
proof -
  have "length (filter (answers now mac) es) \<le> length (filter (held mac) es)"
    by (induction es) (auto simp: answers_def)
  also have "\<dots> \<le> IP_DISCOVERY_PER_MAC" using assms unfolding table_inv_def by blast
  finally have four: "length (filter (answers now mac) es) \<le> IP_DISCOVERY_PER_MAC" .
  then have eq: "ip_discovery_lookup now mac es = map (observation now) (filter (answers now mac) es)"
    unfolding ip_discovery_lookup_def by (simp add: lookup_take)
  have "distinct (map ent_ip (filter (answers now mac) es))"
  proof -
    have "distinct (map ent_ip (filter P xs))"
      if "\<forall>i < length xs. \<forall>j < length xs. P (xs ! i) \<longrightarrow> P (xs ! j) \<longrightarrow> ent_ip (xs ! i) = ent_ip (xs ! j) \<longrightarrow> i = j"
      for P and xs :: "arp_entry list"
      using that
    proof (induction xs)
      case Nil
      then show ?case by simp
    next
      case (Cons x xs)
      have "\<forall>i < length xs. \<forall>j < length xs. P (xs ! i) \<longrightarrow> P (xs ! j) \<longrightarrow> ent_ip (xs ! i) = ent_ip (xs ! j) \<longrightarrow> i = j"
        using Cons.prems by (metis Suc_inject Suc_mono length_Cons nth_Cons_Suc)
      moreover have "ent_ip x \<noteq> ent_ip y" if "P x" "y \<in> set xs" "P y" for y
        using that Cons.prems [rule_format, of 0] by (fastforce simp: in_set_conv_nth)
      ultimately show ?case using Cons.IH by auto
    qed
    then show ?thesis using assms unfolding table_inv_def answers_def held_def by simp
  qed
  moreover have "unat (obs_age_ms (observation now e)) = unat (now - ent_seen e)" if "answers now mac e" for e
  proof -
    have "unat (now - ent_seen e) < 600000" using that by (simp add: answers_def word_less_nat_alt)
    then show ?thesis by (simp add: observation_def unsigned_ucast_eq take_bit_nat_eq_self)
  qed
  ultimately show ?thesis using eq four by (simp add: comp_def observation_def)
qed

theorem ip_discovery_lookup_exact_witness:
  "ip_discovery_lookup 9 [2, 0, 0, 0, 0, 1] (empty_entries[3 :=
     \<lparr>ent_mac = [2, 0, 0, 0, 0, 1], ent_ip = [10, 0, 1, 140], ent_seen = 4, ent_valid = True\<rparr>]) =
   [\<lparr>obs_ip = [10, 0, 1, 140], obs_age_ms = 5\<rparr>]"
proof -
  let ?z = "\<lparr>ent_mac = replicate 6 0, ent_ip = replicate 4 0, ent_seen = 0, ent_valid = False\<rparr>"
  let ?e = "\<lparr>ent_mac = [2, 0, 0, 0, 0, 1], ent_ip = [10, 0, 1, 140], ent_seen = 4, ent_valid = True\<rparr>"
  let ?t = "empty_entries[3 := ?e]"
  have inv: "table_inv ?t"
    by (rule table_inv_replace [OF empty_entries_inv]) (auto simp: empty_entries_def held_def)
  have "replicate 128 ?z = replicate 3 ?z @ ?z # replicate 124 ?z"
    by (simp flip: replicate_Suc replicate_add)
  then have t: "?t = replicate 3 ?z @ ?e # replicate 124 ?z"
    by (simp add: empty_entries_def list_update_append)
  have "filter (answers 9 [2, 0, 0, 0, 0, 1]) ?t = [?e]"
    unfolding t by (simp add: answers_def held_def)
  then show ?thesis
    using ip_discovery_lookup_exact [OF inv, of 9 "[2, 0, 0, 0, 0, 1]"] by (simp add: observation_def)
qed

end
