(* ===== verification/Usb_Memory.thy ===== *)
theory Usb_Memory
  imports Prelude
begin

text \<open>
  The DMA memory allocator of the USB driver, \<^verbatim>\<open>software/r5/src/usb_memory.c\<close>: first fit with
  alignment, splitting and coalescing over one non-cached region of 1 MiB.

  Addresses and sizes are natural numbers. The region lies in low DDR, and every sum the code
  forms stays below the end of the region plus two MiB, far from the 32-bit limit, so no
  wrap-around can happen; alignments are powers of two, for which masking the low bits off and
  rounding down to a multiple agree. A block header is 12 bytes (size, next pointer, flag) and a
  pointer 4 bytes on the target. The headers are the list of blocks and the \<open>next\<close> pointers its order; that they can be
  kept outside the memory that callers write is a theorem: the bytes of the headers, of the block pointers and of the live
  allocations never overlap.
\<close>

section \<open>State\<close>

record block =
  blk_addr :: nat
  blk_size :: nat
  blk_used :: bool

text \<open>\<open>ar_blocks\<close> is the list that starts at \<open>head\<close> (empty while \<open>head\<close> is null), \<open>ar_back\<close> the block
  pointers stored in front of the allocated addresses.\<close>

record arena =
  ar_blocks :: "block list"
  ar_back :: "nat \<rightharpoonup> nat"

abbreviation USB_NOCACHE_SIZE :: nat where
  "USB_NOCACHE_SIZE \<equiv> 0x100000"

section \<open>Operations\<close>

definition round_up :: "nat \<Rightarrow> nat \<Rightarrow> nat" where
  "round_up align x = (x + align - 1) div align * align"

fun alloc_loop :: "nat \<Rightarrow> nat \<Rightarrow> block list \<Rightarrow> (nat \<times> nat \<times> block list) option" where
  "alloc_loop align sz [] = None"
| "alloc_loop align sz (b # bs) =
     (let p = round_up align (blk_addr b + 12 + 4);
          need = round_up 4 (p - blk_addr b + sz)
      in if blk_used b \<or> blk_size b < need
         then map_option (\<lambda>(p, a, bs). (p, a, b # bs)) (alloc_loop align sz bs)
         else if 12 + 64 \<le> blk_size b - need
         then Some (p, blk_addr b, b\<lparr>blk_size := need, blk_used := True\<rparr> #
                \<lparr>blk_addr = blk_addr b + need, blk_size = blk_size b - need, blk_used = False\<rparr> # bs)
         else Some (p, blk_addr b, b\<lparr>blk_used := True\<rparr> # bs))"

definition usb_memalign :: "nat \<Rightarrow> nat \<Rightarrow> nat \<Rightarrow> arena \<Rightarrow> nat option \<times> arena" where
  "usb_memalign start align sz m =
     (if sz = 0 \<or> align = 0 \<or> 0x100000 < align \<or> align AND (align - 1) \<noteq> 0 \<or> 0x100000 < sz then (None, m)
      else let align = (if align < 4 then 4 else align);
             m = (if ar_blocks m = []
                  then m\<lparr>ar_blocks := [\<lparr>blk_addr = start, blk_size = USB_NOCACHE_SIZE, blk_used = False\<rparr>]\<rparr>
                  else m)
           in case alloc_loop align sz (ar_blocks m) of
                None \<Rightarrow> (None, m)
              | Some (p, a, bs) \<Rightarrow> (Some p, m\<lparr>ar_blocks := bs, ar_back := (ar_back m)(p \<mapsto> a)\<rparr>))"

definition usb_malloc :: "nat \<Rightarrow> nat \<Rightarrow> arena \<Rightarrow> nat option \<times> arena" where
  "usb_malloc start sz m = usb_memalign start 8 sz m"

text \<open>The result of \<open>usb_calloc\<close> is the address and the cleared content.\<close>

definition usb_calloc :: "nat \<Rightarrow> nat \<Rightarrow> nat \<Rightarrow> arena \<Rightarrow> (nat \<times> bytes) option \<times> arena" where
  "usb_calloc start count sz m =
     (if sz \<noteq> 0 \<and> (2 ^ 32 - 1) div sz < count then (None, m)
      else case usb_malloc start (count * sz) m of
        (None, m) \<Rightarrow> (None, m)
      | (Some p, m) \<Rightarrow> (Some (p, replicate (count * sz) 0), m))"

function coalesce :: "block list \<Rightarrow> block list" where
  "coalesce [] = []"
| "coalesce [b] = [b]"
| "coalesce (b # c # bs) =
     (if \<not> blk_used b \<and> \<not> blk_used c then coalesce (b\<lparr>blk_size := blk_size b + blk_size c\<rparr> # bs)
      else b # coalesce (c # bs))"
  by pat_completeness auto
termination by (relation "measure length") auto

text \<open>Freeing the null pointer does nothing; freeing an address that was never returned is
  undefined in the source and \<open>None\<close> here.\<close>

definition usb_free :: "nat option \<Rightarrow> arena \<Rightarrow> arena option" where
  "usb_free q m =
     (case q of
        None \<Rightarrow> Some m
      | Some p \<Rightarrow>
          case ar_back m p of
            None \<Rightarrow> None
          | Some a \<Rightarrow> Some (m\<lparr>ar_blocks := coalesce
              (map (\<lambda>b. if blk_addr b = a then b\<lparr>blk_used := False\<rparr> else b) (ar_blocks m))\<rparr>))"

definition usb_dma_coherent :: "nat \<Rightarrow> nat \<Rightarrow> bool" where
  "usb_dma_coherent start p = (start \<le> p \<and> p < start + USB_NOCACHE_SIZE)"

section \<open>The block list tiles the region\<close>

fun tiled :: "nat \<Rightarrow> nat \<Rightarrow> block list \<Rightarrow> bool" where
  "tiled a e [] = (a = e)"
| "tiled a e (b # bs) = (blk_addr b = a \<and> 12 \<le> blk_size b \<and> 4 dvd blk_size b \<and> tiled (a + blk_size b) e bs)"

fun separated :: "block list \<Rightarrow> bool" where
  "separated (b # c # bs) = ((blk_used b \<or> blk_used c) \<and> separated (c # bs))"
| "separated bs = True"

lemma round_up_ge: "0 < align \<Longrightarrow> x \<le> round_up align x"
proof -
  assume "0 < align"
  then have "x + align - 1 = (x + align - 1) div align * align + (x + align - 1) mod align"
    "(x + align - 1) mod align < align" by simp_all
  then show ?thesis unfolding round_up_def by linarith
qed

lemma round_up_dvd: "align dvd round_up align x"
  by (simp add: round_up_def)

lemma tiled_append: "tiled a e (xs @ ys) \<longleftrightarrow> (\<exists>m. tiled a m xs \<and> tiled m e ys)"
  by (induction xs arbitrary: a) auto

lemma tiled_le: "tiled a e bs \<Longrightarrow> a \<le> e"
  by (induction bs arbitrary: a) force+

lemma tiled_range: "tiled a e bs \<Longrightarrow> b \<in> set bs \<Longrightarrow> a \<le> blk_addr b \<and> blk_addr b + blk_size b \<le> e"
proof (induction bs arbitrary: a)
  case (Cons c bs)
  then show ?case
  proof (cases "b = c")
    case True
    with Cons.prems show ?thesis by (auto dest: tiled_le)
  next
    case False
    with Cons.IH [of "a + blk_size c"] Cons.prems show ?thesis by auto
  qed
qed simp

text \<open>Two different blocks do not overlap, and their addresses differ.\<close>

lemma tiled_disjoint:
  "tiled a e bs \<Longrightarrow> b \<in> set bs \<Longrightarrow> c \<in> set bs \<Longrightarrow> b \<noteq> c \<Longrightarrow>
    blk_addr b + blk_size b \<le> blk_addr c \<or> blk_addr c + blk_size c \<le> blk_addr b"
  by (induction bs arbitrary: a) (auto dest: tiled_range)

lemma tiled_positive: "tiled a e bs \<Longrightarrow> b \<in> set bs \<Longrightarrow> 12 \<le> blk_size b"
  by (induction bs arbitrary: a) auto

lemma tiled_inj:
  "tiled a e bs \<Longrightarrow> b \<in> set bs \<Longrightarrow> c \<in> set bs \<Longrightarrow> blk_addr b = blk_addr c \<Longrightarrow> b = c"
  using tiled_disjoint [of a e bs b c] tiled_positive [of a e bs] by fastforce

lemma separated_append:
  "separated (xs @ ys) \<longleftrightarrow> separated xs \<and> separated ys \<and>
    (xs \<noteq> [] \<and> ys \<noteq> [] \<longrightarrow> blk_used (last xs) \<or> blk_used (hd ys))"
  by (induction xs rule: separated.induct) (cases ys; auto)+

section \<open>Allocation\<close>

text \<open>What a successful search does: a free block that is large enough is split or taken whole.\<close>

definition taken :: "nat \<Rightarrow> block \<Rightarrow> block list \<Rightarrow> bool" where
  "taken need b new = (new = [b\<lparr>blk_used := True\<rparr>] \<or>
     76 \<le> blk_size b - need \<and> new = [b\<lparr>blk_size := need, blk_used := True\<rparr>,
       \<lparr>blk_addr = blk_addr b + need, blk_size = blk_size b - need, blk_used = False\<rparr>])"

lemma alloc_loop_Some:
  assumes "alloc_loop align sz bs = Some (p, a, bs')"
  obtains xs b ys new where "bs = xs @ b # ys" "bs' = xs @ new @ ys" "\<not> blk_used b" "blk_addr b = a"
    "p = round_up align (blk_addr b + 16)" "round_up 4 (p - a + sz) \<le> blk_size b"
    "taken (round_up 4 (p - a + sz)) b new"
  using assms
proof (induction bs arbitrary: bs' thesis)
  case Nil
  then show ?case by simp
next
  case (Cons c bs)
  let ?p = "round_up align (blk_addr c + 12 + 4)" and ?need = "\<lambda>p. round_up 4 (p - blk_addr c + sz)"
  show ?case
  proof (cases "blk_used c \<or> blk_size c < ?need ?p")
    case True
    then obtain bs1 where rest: "alloc_loop align sz bs = Some (p, a, bs1)" "bs' = c # bs1"
      using Cons.prems(2) by (auto simp: Let_def)
    show ?thesis
      by (rule Cons.IH [OF _ rest(1)]) (metis Cons.prems(1) append_Cons rest(2))
  next
    case False
    have p: "p = ?p" and a: "a = blk_addr c"
      using False Cons.prems(2) by (auto simp: Let_def split: if_splits)
    have "\<exists>new. bs' = new @ bs \<and> taken (?need p) c new"
      using False Cons.prems(2) unfolding taken_def p by (auto simp: Let_def split: if_splits)
    then obtain new where "bs' = new @ bs" "taken (?need p) c new" by blast
    then show ?thesis
      using False p a by (intro Cons.prems(1) [of "[]" c bs new]) (simp_all add: add.commute)
  qed
qed

lemma alloc_loop_None:
  "alloc_loop align sz bs = None \<Longrightarrow> b \<in> set bs \<Longrightarrow> blk_used b \<or>
    blk_size b < round_up 4 (round_up align (blk_addr b + 16) - blk_addr b + sz)"
  by (induction bs) (auto simp: Let_def add.commute add.left_commute split: if_splits)

lemma coalesce_tiled: "tiled a e bs \<Longrightarrow> tiled a e (coalesce bs)"
  by (induction bs arbitrary: a rule: coalesce.induct) (auto simp: add.assoc)

lemma coalesce_used: "filter blk_used (coalesce bs) = filter blk_used bs"
  by (induction bs rule: coalesce.induct) auto

lemma coalesce_hd: "bs \<noteq> [] \<Longrightarrow> coalesce bs \<noteq> [] \<and> (blk_used (hd (coalesce bs)) \<longleftrightarrow> blk_used (hd bs))"
  by (induction bs rule: coalesce.induct) auto

lemma coalesce_separated: "separated (coalesce bs)"
proof (induction bs rule: coalesce.induct)
  case (3 b c bs)
  show ?case
  proof (cases "\<not> blk_used b \<and> \<not> blk_used c")
    case True
    with 3 show ?thesis by simp
  next
    case False
    then have "separated (coalesce (c # bs))" using 3 by simp
    with False coalesce_hd [of "c # bs"] show ?thesis
      by (cases "coalesce (c # bs)") auto
  qed
qed auto

lemma takenE:
  assumes "taken need b new" and "need \<le> blk_size b" and "\<not> blk_used b"
  obtains b' t where "new = b' # t" "blk_used b'" "blk_addr b' = blk_addr b" "need \<le> blk_size b'"
    "\<forall>c \<in> set t. \<not> blk_used c" "length t \<le> 1"
  using assms unfolding taken_def by auto

lemma taken_tiled:
  assumes "taken need b new" and "tiled m e (b # ys)" and "12 \<le> need" and "4 dvd need" and "need \<le> blk_size b"
  shows "tiled m e (new @ ys)"
  using assms unfolding taken_def by (auto intro: dvd_diff_nat)

lemma taken_separated:
  assumes "taken need b new" and "separated (xs @ b # ys)" and "\<not> blk_used b"
  shows "separated (xs @ new @ ys)"
  using assms unfolding taken_def separated_append by (cases ys) (auto simp: separated_append)

section \<open>Reachable arenas\<close>

text \<open>The arenas that callers can reach, with the allocations that are live: each is an address and
  the size that was asked for. Only live addresses are freed.\<close>

inductive usb_reach :: "nat \<Rightarrow> arena \<Rightarrow> (nat \<times> nat) list \<Rightarrow> bool" for start where
  reset: "usb_reach start \<lparr>ar_blocks = [], ar_back = Map.empty\<rparr> []"
| alloc: "usb_reach start m live \<Longrightarrow> usb_memalign start align sz m = (Some p, m') \<Longrightarrow>
    usb_reach start m' ((p, sz) # live)"
| refused: "usb_reach start m live \<Longrightarrow> usb_memalign start align sz m = (None, m') \<Longrightarrow> usb_reach start m' live"
| release: "usb_reach start m live \<Longrightarrow> (p, sz) \<in> set live \<Longrightarrow> usb_free (Some p) m = Some m' \<Longrightarrow>
    usb_reach start m' (filter (\<lambda>x. fst x \<noteq> p) live)"

definition holds :: "arena \<Rightarrow> block \<Rightarrow> nat \<times> nat \<Rightarrow> bool" where
  "holds m b x = (blk_used b \<and> ar_back m (fst x) = Some (blk_addr b) \<and> blk_addr b + 16 \<le> fst x \<and>
     fst x + snd x \<le> blk_addr b + blk_size b \<and> 0 < snd x)"

definition owners_inv :: "arena \<Rightarrow> (nat \<times> nat) list \<Rightarrow> bool" where
  "owners_inv m live = ((\<forall>x \<in> set live. \<exists>b \<in> set (ar_blocks m). holds m b x) \<and>
     (\<forall>b \<in> set (ar_blocks m). blk_used b \<longrightarrow> (\<exists>x \<in> set live. ar_back m (fst x) = Some (blk_addr b))) \<and>
     (\<forall>x \<in> set live. \<forall>y \<in> set live. ar_back m (fst x) = ar_back m (fst y) \<longrightarrow> x = y) \<and>
     distinct (map fst live))"

definition arena_inv :: "nat \<Rightarrow> arena \<Rightarrow> (nat \<times> nat) list \<Rightarrow> bool" where
  "arena_inv start m live =
     ((ar_blocks m = [] \<or> tiled start (start + USB_NOCACHE_SIZE) (ar_blocks m)) \<and> separated (ar_blocks m) \<and>
      owners_inv m live)"

text \<open>An allocation is the search on the initialised block list.\<close>

definition ready_blocks :: "nat \<Rightarrow> arena \<Rightarrow> block list" where
  "ready_blocks start m = (if ar_blocks m = []
     then [\<lparr>blk_addr = start, blk_size = USB_NOCACHE_SIZE, blk_used = False\<rparr>] else ar_blocks m)"

lemma memalign_Some:
  assumes "usb_memalign start align sz m = (Some p, m')"
  obtains a bs where "alloc_loop (max 4 align) sz (ready_blocks start m) = Some (p, a, bs)"
    "m' = m\<lparr>ar_blocks := bs, ar_back := (ar_back m)(p \<mapsto> a)\<rparr>" "0 < sz" "align AND (align - 1) = 0" "0 < align"
proof -
  have al: "(if align < 4 then 4 else align) = max 4 align" by (simp add: max_def)
  show thesis
    using assms that unfolding usb_memalign_def ready_blocks_def al Let_def
    by (auto split: if_splits option.splits)
qed

lemma memalign_None:
  assumes "usb_memalign start align sz m = (None, m')"
  shows "m' = m \<or> m' = m\<lparr>ar_blocks := ready_blocks start m\<rparr>"
  using assms unfolding usb_memalign_def ready_blocks_def Let_def
  by (auto split: if_splits option.splits)

lemma ready_inv:
  assumes "arena_inv start m live"
  shows "tiled start (start + USB_NOCACHE_SIZE) (ready_blocks start m)" and "separated (ready_blocks start m)"
    and "owners_inv (m\<lparr>ar_blocks := ready_blocks start m\<rparr>) live"
  using assms by (auto simp: arena_inv_def ready_blocks_def owners_inv_def holds_def)

lemma alloc_inv:
  assumes inv: "arena_inv start m live" and al: "usb_memalign start align sz m = (Some p, m')"
  shows "arena_inv start m' ((p, sz) # live)"
proof -
  let ?bs = "ready_blocks start m"
  from al obtain a bs where loop: "alloc_loop (max 4 align) sz ?bs = Some (p, a, bs)"
    and m': "m' = m\<lparr>ar_blocks := bs, ar_back := (ar_back m)(p \<mapsto> a)\<rparr>" and sz: "0 < sz"
    by (rule memalign_Some)
  let ?need = "round_up 4 (p - a + sz)"
  from loop obtain xs b ys new where sh: "?bs = xs @ b # ys" "bs = xs @ new @ ys" "\<not> blk_used b"
      "blk_addr b = a" "p = round_up (max 4 align) (blk_addr b + 16)" "?need \<le> blk_size b" "taken ?need b new"
    by (rule alloc_loop_Some)
  from sh(7,6,3) obtain b' t where new: "new = b' # t" "blk_used b'" "blk_addr b' = blk_addr b"
      "?need \<le> blk_size b'" "\<forall>c \<in> set t. \<not> blk_used c" by (rule takenE)
  have p: "a + 16 \<le> p" using round_up_ge [of "max 4 align" "blk_addr b + 16"] sh(4,5) by simp
  have need: "p - a + sz \<le> ?need" "4 dvd ?need" by (rule round_up_ge) (simp, rule round_up_dvd)
  note til = ready_inv(1) [OF inv] and sep = ready_inv(2) [OF inv] and own = ready_inv(3) [OF inv]
  have tiled: "tiled start (start + USB_NOCACHE_SIZE) bs"
  proof -
    obtain k where k: "tiled start k xs" "tiled k (start + USB_NOCACHE_SIZE) (b # ys)"
      using til unfolding sh(1) tiled_append by blast
    have "12 \<le> ?need" using need(1) p by linarith
    with taken_tiled [OF sh(7) k(2) _ need(2) sh(6)] k(1) show ?thesis unfolding sh(2) tiled_append by blast
  qed
  have sep': "separated bs"
    using taken_separated [OF sh(7)] sep sh(3) unfolding sh(1,2) by simp
  have used: "c \<in> set bs \<and> blk_used c \<longleftrightarrow> c = b' \<or> c \<in> set ?bs \<and> blk_used c" for c
    using sh(1-3) new by auto
  have fresh: "q \<noteq> p" if "(q, tz) \<in> set live" for q tz
  proof
    assume "q = p"
    with that own obtain c where c: "c \<in> set ?bs" "holds (m\<lparr>ar_blocks := ?bs\<rparr>) c (p, tz)"
      unfolding owners_inv_def by auto
    have "c \<noteq> b" using c(2) sh(3) by (auto simp: holds_def)
    with tiled_disjoint [OF til c(1), of b] sh(1,4,6) c(2) need(1) p sz show False
      by (auto simp: holds_def)
  qed
  have bk: "ar_back m' (fst x) = ar_back m (fst x)" if "x \<in> set live" for x
    using fresh [of "fst x" "snd x"] that by (simp add: m')
  have other: "ar_back m (fst x) \<noteq> Some a" if x: "x \<in> set live" for x
  proof
    assume "ar_back m (fst x) = Some a"
    with x own obtain c where "c \<in> set ?bs" "blk_used c" "blk_addr c = a"
      unfolding owners_inv_def holds_def by fastforce
    with tiled_inj [OF til, of c b] sh(1,3,4) show False by auto
  qed
  have "owners_inv m' ((p, sz) # live)"
  proof -
    have "holds m' b' (p, sz)" using new p need(1) sz sh(4) by (auto simp: holds_def m')
    moreover have "b' \<in> set bs" unfolding sh(2) new by simp
    moreover have "\<exists>c \<in> set bs. holds m' c x" if "x \<in> set live" for x
      using own that used bk [OF that] unfolding owners_inv_def holds_def by fastforce
    moreover have "\<exists>x \<in> set ((p, sz) # live). ar_back m' (fst x) = Some (blk_addr c)"
      if "c \<in> set bs" "blk_used c" for c
    proof (cases "c = b'")
      case True
      then show ?thesis using new sh(4) by (simp add: m')
    next
      case False
      with that used have "c \<in> set ?bs" by blast
      with that(2) own obtain x where "x \<in> set live" "ar_back m (fst x) = Some (blk_addr c)"
        unfolding owners_inv_def by auto
      with bk show ?thesis by auto
    qed
    moreover have "ar_back m' p = Some a" by (simp add: m')
    moreover have "distinct (map fst ((p, sz) # live))"
      using own fresh unfolding owners_inv_def by fastforce
    ultimately show ?thesis
      using own bk other unfolding owners_inv_def by (simp add: m') metis
  qed
  with tiled sep' show ?thesis by (simp add: arena_inv_def m')
qed

lemma free_inv:
  assumes inv: "arena_inv start m live" and x: "(p, sz) \<in> set live" and fr: "usb_free (Some p) m = Some m'"
  shows "arena_inv start m' (filter (\<lambda>x. fst x \<noteq> p) live)"
proof -
  let ?live = "filter (\<lambda>x. fst x \<noteq> p) live"
  have own: "owners_inv m live" using inv by (simp add: arena_inv_def)
  from own x obtain b where b: "b \<in> set (ar_blocks m)" "holds m b (p, sz)" unfolding owners_inv_def by auto
  have til: "tiled start (start + USB_NOCACHE_SIZE) (ar_blocks m)"
    using inv b(1) by (auto simp: arena_inv_def)
  have bk: "ar_back m p = Some (blk_addr b)" using b(2) by (simp add: holds_def)
  let ?f = "\<lambda>c. if blk_addr c = blk_addr b then c\<lparr>blk_used := False\<rparr> else c"
  have m': "m' = m\<lparr>ar_blocks := coalesce (map ?f (ar_blocks m))\<rparr>"
    using fr bk by (simp add: usb_free_def)
  have "tiled a e (map ?f bs)" if "tiled a e bs" for a e bs
    using that by (induction bs arbitrary: a) auto
  then have tiled: "tiled start (start + USB_NOCACHE_SIZE) (ar_blocks m')"
    using til by (simp add: m' coalesce_tiled)
  have "set (filter blk_used (ar_blocks m')) = set (filter blk_used (map ?f (ar_blocks m)))"
    by (simp add: m' coalesce_used)
  also have "\<dots> = {c \<in> set (ar_blocks m). blk_used c \<and> blk_addr c \<noteq> blk_addr b}" by auto
  finally have used: "c \<in> set (ar_blocks m') \<and> blk_used c \<longleftrightarrow>
      c \<in> set (ar_blocks m) \<and> blk_used c \<and> blk_addr c \<noteq> blk_addr b" for c by auto
  have inj: "y = z" if "y \<in> set live" "z \<in> set live" "ar_back m (fst y) = ar_back m (fst z)" for y z
    using own that unfolding owners_inv_def by blast
  have neq: "ar_back m (fst y) \<noteq> Some (blk_addr b)" if "y \<in> set ?live" for y
    using inj [of y "(p, sz)"] that x bk by auto
  have "owners_inv m' ?live"
    unfolding owners_inv_def
  proof (intro conjI ballI impI)
    fix y
    assume y: "y \<in> set ?live"
    then obtain c where c: "c \<in> set (ar_blocks m)" "holds m c y" using own unfolding owners_inv_def by auto
    with neq [OF y] have "blk_addr c \<noteq> blk_addr b" by (auto simp: holds_def)
    with c used [of c] show "\<exists>c \<in> set (ar_blocks m'). holds m' c y" by (auto simp: holds_def m')
  next
    fix c
    assume "c \<in> set (ar_blocks m')" "blk_used c"
    with used [of c] have c: "c \<in> set (ar_blocks m)" "blk_used c" "blk_addr c \<noteq> blk_addr b" by auto
    then obtain y where "y \<in> set live" "ar_back m (fst y) = Some (blk_addr c)"
      using own unfolding owners_inv_def by auto
    with c(3) bk show "\<exists>y \<in> set ?live. ar_back m' (fst y) = Some (blk_addr c)"
      by (intro bexI [of _ y]) (auto simp: m')
  next
    fix y z
    assume "y \<in> set ?live" "z \<in> set ?live" "ar_back m' (fst y) = ar_back m' (fst z)"
    then show "y = z" using own unfolding owners_inv_def by (simp add: m')
  next
    show "distinct (map fst ?live)" using own unfolding owners_inv_def by (simp add: distinct_map_filter)
  qed
  with tiled show ?thesis by (simp add: arena_inv_def m' coalesce_separated)
qed

lemma usb_reach_inv: "usb_reach start m live \<Longrightarrow> arena_inv start m live"
proof (induction rule: usb_reach.induct)
  case reset
  then show ?case by (simp add: arena_inv_def owners_inv_def)
next
  case (refused m live align sz m')
  then show ?case
    using memalign_None [OF refused.hyps(2)] ready_inv [OF refused.IH] by (auto simp: arena_inv_def)
qed (simp_all add: alloc_inv free_inv)

section \<open>No two uses of a byte\<close>

text \<open>The address ranges in use: the header of every block, free ones included, the block pointer in front of every live
  allocation, and the live allocations themselves.\<close>

definition headers :: "arena \<Rightarrow> (nat \<times> nat) list" where
  "headers m = map (\<lambda>b. (blk_addr b, 12)) (ar_blocks m)"

definition back_pointers :: "(nat \<times> nat) list \<Rightarrow> (nat \<times> nat) list" where
  "back_pointers live = map (\<lambda>x. (fst x - 4, 4)) live"

definition clear_of :: "nat \<times> nat \<Rightarrow> nat \<times> nat \<Rightarrow> bool" where
  "clear_of x y \<longleftrightarrow> fst x + snd x \<le> fst y \<or> fst y + snd y \<le> fst x"

lemma headers_clear: "tiled a e bs \<Longrightarrow> sorted_wrt clear_of (map (\<lambda>b. (blk_addr b, 12)) bs)"
proof (induction bs arbitrary: a)
  case (Cons b bs)
  have "clear_of (blk_addr b, 12) (blk_addr c, 12)" if "c \<in> set bs" for c
    using Cons.prems tiled_range [of "a + blk_size b" e bs c] that by (auto simp: clear_of_def)
  then show ?case using Cons by auto
qed simp

lemma sorted_wrt_distinct:
  "distinct xs \<Longrightarrow> (\<And>x y. x \<in> set xs \<Longrightarrow> y \<in> set xs \<Longrightarrow> x \<noteq> y \<Longrightarrow> P x y) \<Longrightarrow> sorted_wrt P xs"
proof (induction xs)
  case (Cons x xs)
  then have "P x y" if "y \<in> set xs" for y using that by auto
  then show ?case using Cons by simp
qed simp

text \<open>The part of its block that an allocation and its block pointer occupy, against the header of any block and against another allocation.\<close>

lemma holds_clear:
  assumes "tiled start e (ar_blocks m)" and "b \<in> set (ar_blocks m)" "holds m b x" and "c \<in> set (ar_blocks m)"
  shows "clear_of (blk_addr c, 12) (fst x - 4, 4)" "clear_of (blk_addr c, 12) x" "start + 16 \<le> fst x" "fst x + snd x \<le> e"
    and "holds m c y \<Longrightarrow> b \<noteq> c \<Longrightarrow> clear_of (fst x - 4, 4 + snd x) (fst y - 4, 4 + snd y)"
proof -
  have sz: "12 \<le> blk_size c" by (rule tiled_positive [OF assms(1,4)])
  have x: "blk_addr b + 16 \<le> fst x" "fst x + snd x \<le> blk_addr b + blk_size b" using assms(3) by (simp_all add: holds_def)
  have r: "start \<le> blk_addr b" "blk_addr b + blk_size b \<le> e" using tiled_range [OF assms(1,2)] by simp_all
  show "start + 16 \<le> fst x" "fst x + snd x \<le> e" using x r by linarith+
  show "clear_of (blk_addr c, 12) (fst x - 4, 4)" "clear_of (blk_addr c, 12) x"
    using x sz tiled_disjoint [OF assms(1,2,4)] by (cases "b = c"; auto simp: clear_of_def)+
  show "clear_of (fst x - 4, 4 + snd x) (fst y - 4, 4 + snd y)" if "holds m c y" "b \<noteq> c"
    using x that tiled_disjoint [OF assms(1,2,4)] by (auto simp: clear_of_def holds_def)
qed

text \<open>C12: Nothing overlaps. In every arena that callers can reach by allocating with any sizes and alignments and freeing live
  addresses in any order, the bytes of all block headers, of the block pointers in front of the live allocations and of the live
  allocations themselves are pairwise disjoint and lie in the non-cached DMA region; so neither a write of a caller to its
  allocation nor a header that the allocator writes destroys another one. The block pointer in front of a live allocation leads to the
  header of a block in use.\<close>

theorem usb_allocations_disjoint:
  assumes "usb_reach start m live"
  shows "sorted_wrt clear_of (headers m @ back_pointers live @ live) \<and>
    (\<forall>(a, n) \<in> set (headers m @ back_pointers live @ live). start \<le> a \<and> a + n \<le> start + USB_NOCACHE_SIZE) \<and>
    (\<forall>(p, sz) \<in> set live. (\<exists>b \<in> set (ar_blocks m). blk_used b \<and> ar_back m p = Some (blk_addr b)) \<and> (\<forall>i < sz. usb_dma_coherent start (p + i)))"
proof (cases "ar_blocks m = []")
  case True
  then have "live = []" using usb_reach_inv [OF assms] by (cases live) (auto simp: arena_inv_def owners_inv_def)
  then show ?thesis by (simp add: True headers_def back_pointers_def)
next
  case False
  let ?e = "start + USB_NOCACHE_SIZE"
  have inv: "arena_inv start m live" using assms by (rule usb_reach_inv)
  then have own: "owners_inv m live" and til: "tiled start ?e (ar_blocks m)" using False by (simp_all add: arena_inv_def)
  have ex: "\<exists>b \<in> set (ar_blocks m). holds m b x" if "x \<in> set live" for x using own that by (simp add: owners_inv_def)
  have two: "clear_of (fst x - 4, 4 + snd x) (fst y - 4, 4 + snd y)" "start + 16 \<le> fst x"
    if xy: "x \<in> set live" "y \<in> set live" "x \<noteq> y" for x y
  proof -
    obtain b c where bc: "b \<in> set (ar_blocks m)" "holds m b x" "c \<in> set (ar_blocks m)" "holds m c y" using ex xy by blast
    have "b \<noteq> c"
    proof
      assume "b = c"
      then have "ar_back m (fst x) = ar_back m (fst y)" using bc by (simp add: holds_def)
      then show False using own xy unfolding owners_inv_def by blast
    qed
    then show "clear_of (fst x - 4, 4 + snd x) (fst y - 4, 4 + snd y)" "start + 16 \<le> fst x"
      using holds_clear(3,5) [OF til bc(1,2,3)] bc(4) by blast+
  qed
  have dist: "distinct live" using own by (simp add: owners_inv_def distinct_map)
  have "sorted_wrt clear_of (back_pointers live)"
    unfolding back_pointers_def sorted_wrt_map by (rule sorted_wrt_distinct [OF dist]) (use two in \<open>fastforce simp: clear_of_def\<close>)
  moreover have "sorted_wrt clear_of live"
    by (rule sorted_wrt_distinct [OF dist]) (use two in \<open>fastforce simp: clear_of_def\<close>)
  moreover have "clear_of (fst x - 4, 4) y" if xy: "x \<in> set live" "y \<in> set live" for x y
  proof (cases "x = y")
    case True
    then show ?thesis using ex [OF xy(1)] by (auto simp: clear_of_def holds_def)
  next
    case False
    then show ?thesis using two [OF xy False] two(2) [OF xy(2,1)] by (auto simp: clear_of_def)
  qed
  moreover have "clear_of (blk_addr c, 12) (fst x - 4, 4) \<and> clear_of (blk_addr c, 12) x" if "c \<in> set (ar_blocks m)" "x \<in> set live" for c x
    using ex [OF that(2)] holds_clear(1,2) [OF til _ _ that(1)] by blast
  ultimately have "sorted_wrt clear_of (headers m @ back_pointers live @ live)"
    using headers_clear [OF til] by (auto simp: sorted_wrt_append headers_def back_pointers_def)
  moreover have "start \<le> blk_addr c \<and> blk_addr c + 12 \<le> ?e" if "c \<in> set (ar_blocks m)" for c
    using tiled_range [OF til that] tiled_positive [OF til that] by simp
  moreover have "start + 16 \<le> fst x \<and> fst x + snd x \<le> ?e \<and>
      (\<exists>b \<in> set (ar_blocks m). blk_used b \<and> ar_back m (fst x) = Some (blk_addr b))" if x: "x \<in> set live" for x
  proof -
    obtain b where b: "b \<in> set (ar_blocks m)" "holds m b x" using ex [OF x] by blast
    then show ?thesis using holds_clear(3,4) [OF til b b(1)] by (auto simp: holds_def)
  qed
  ultimately show ?thesis by (fastforce simp: headers_def back_pointers_def usb_dma_coherent_def)
qed

text \<open>nothing leaks. When every allocation of a reachable arena has been freed, its block list is
  one free block that covers the whole region (or the region has not been touched yet), however
  the frees were ordered.\<close>

theorem usb_all_freed:
  assumes "usb_reach start m []"
  shows "ar_blocks m = [] \<or>
    ar_blocks m = [\<lparr>blk_addr = start, blk_size = USB_NOCACHE_SIZE, blk_used = False\<rparr>]"
proof -
  have inv: "arena_inv start m []" using assms by (rule usb_reach_inv)
  then have free: "\<forall>b \<in> set (ar_blocks m). \<not> blk_used b"
    by (auto simp: arena_inv_def owners_inv_def)
  have "length bs \<le> 1" if "separated bs" "\<forall>b \<in> set bs. \<not> blk_used b" for bs
    using that by (induction bs rule: separated.induct) auto
  with free inv have "length (ar_blocks m) \<le> 1" by (auto simp: arena_inv_def)
  then consider "ar_blocks m = []" | b where "ar_blocks m = [b]"
    by (cases "ar_blocks m") auto
  then show ?thesis
  proof cases
    case 2
    with inv free show ?thesis by (cases b) (auto simp: arena_inv_def)
  qed simp
qed

lemma power_of_two_4: "n AND (n - 1) = 0 \<Longrightarrow> 4 \<le> n \<Longrightarrow> 4 dvd n" for n :: nat
proof (rule ccontr)
  assume n: "n AND (n - 1) = 0" "4 \<le> n" "\<not> 4 dvd n"
  then have "n mod 4 \<noteq> 0" by (simp add: mod_eq_0_iff_dvd)
  then have same: "(n - 1) div 4 = n div 4" by (cases n) (auto simp: div_Suc split: if_splits)
  have "drop_bit 2 (n AND (n - 1)) = n div 4 AND n div 4"
    unfolding drop_bit_and by (simp add: drop_bit_eq_div same [simplified])
  with n(1) have "n div 4 = 0" by simp
  with n(2) show False by simp
qed

lemma align_dvd:
  fixes align :: nat
  assumes "align AND (align - 1) = 0" and "0 < align"
  shows "align dvd max 4 align" and "4 dvd max 4 align"
proof -
  have "align \<in> {1, 2, 3}" if "align < 4" using that assms(2) by auto
  moreover have "align \<noteq> 3" using assms(1) by auto
  ultimately show "align dvd max 4 align" by (cases "align < 4") (auto simp: max_def)
  show "4 dvd max 4 align" using power_of_two_4 [OF assms(1)] by (auto simp: max_def)
qed

lemma memalign_None_loop:
  assumes "usb_memalign start align sz m = (None, m')" and "sz \<noteq> 0" "align \<noteq> 0" "align \<le> 0x100000"
    "align AND (align - 1) = 0" "sz \<le> 0x100000"
  shows "alloc_loop (max 4 align) sz (ar_blocks m') = None"
proof -
  have al: "(if align < 4 then 4 else align) = max 4 align" by (simp add: max_def)
  show ?thesis
    using assms unfolding usb_memalign_def al Let_def by (auto split: if_splits option.splits)
qed

text \<open>an allocation that succeeds is aligned as asked and at least to a pointer, and has the room
  that was asked for behind a block header that stays intact; one that fails does so because its
  arguments are out of range or because no free block has the room for the header, the alignment
  gap and the data.\<close>

theorem usb_memalign_result:
  "case usb_memalign start align sz m of
     (Some p, m') \<Rightarrow> align dvd p \<and> 4 dvd p \<and>
       (\<exists>b \<in> set (ar_blocks m'). blk_used b \<and> blk_addr b + 16 \<le> p \<and> p + sz \<le> blk_addr b + blk_size b)
   | (None, m') \<Rightarrow> sz = 0 \<or> align = 0 \<or> align AND (align - 1) \<noteq> 0 \<or> 0x100000 < align \<or> 0x100000 < sz \<or>
       (\<forall>b \<in> set (ar_blocks m'). blk_used b \<or> blk_size b <
          round_up 4 (round_up (max 4 align) (blk_addr b + 16) - blk_addr b + sz))"
proof (cases "usb_memalign start align sz m")
  case (Pair r m')
  show ?thesis
  proof (cases r)
    case None
    with Pair memalign_None_loop [of start align sz m m']
    have "sz = 0 \<or> align = 0 \<or> align AND (align - 1) \<noteq> 0 \<or> 0x100000 < align \<or> 0x100000 < sz \<or>
        alloc_loop (max 4 align) sz (ar_blocks m') = None" by (meson not_less)
    with alloc_loop_None [of "max 4 align" sz "ar_blocks m'"] show ?thesis
      unfolding Pair None prod.case option.case by blast
  next
    case (Some p)
    with Pair obtain a bs where loop: "alloc_loop (max 4 align) sz (ready_blocks start m) = Some (p, a, bs)"
      and m': "m' = m\<lparr>ar_blocks := bs, ar_back := (ar_back m)(p \<mapsto> a)\<rparr>"
      and al: "align AND (align - 1) = 0" "0 < align" using memalign_Some by metis
    let ?need = "round_up 4 (p - a + sz)"
    from loop obtain xs b ys new where sh: "ready_blocks start m = xs @ b # ys" "bs = xs @ new @ ys"
        "\<not> blk_used b" "blk_addr b = a" "p = round_up (max 4 align) (blk_addr b + 16)"
        "?need \<le> blk_size b" "taken ?need b new"
      by (rule alloc_loop_Some)
    from sh(7,6,3) obtain b' t where new: "new = b' # t" "blk_used b'" "blk_addr b' = blk_addr b"
        "?need \<le> blk_size b'" by (rule takenE)
    have p: "a + 16 \<le> p" using round_up_ge [of "max 4 align" "blk_addr b + 16"] sh(4,5) by simp
    have "p - a + sz \<le> ?need" by (rule round_up_ge) simp
    with p new sh(4) have "p + sz \<le> blk_addr b' + blk_size b'" by linarith
    with new(2,3) sh(4) p have "\<exists>b \<in> set (ar_blocks m'). blk_used b \<and> blk_addr b + 16 \<le> p \<and>
        p + sz \<le> blk_addr b + blk_size b"
      unfolding m' sh(2) new(1) by auto
    moreover have "align dvd p" "4 dvd p"
      using align_dvd [OF al] round_up_dvd [of "max 4 align"] unfolding sh(5) by (meson dvd_trans)+
    ultimately show ?thesis using Pair Some by simp
  qed
qed

text \<open>Two allocations from a fresh arena, the first of which is then freed.\<close>

definition fresh_arena :: arena where
  "fresh_arena = \<lparr>ar_blocks = [], ar_back = Map.empty\<rparr>"

lemma example_allocs:
  "usb_memalign 0x100000 64 100 fresh_arena = (Some 0x100040, snd (usb_memalign 0x100000 64 100 fresh_arena))"
  "fst (usb_memalign 0x100000 8 24 (snd (usb_memalign 0x100000 64 100 fresh_arena))) = Some 0x1000b8"
  by (simp_all add: usb_memalign_def fresh_arena_def Let_def round_up_def)

theorem usb_memalign_result_witness:
  "64 dvd (0x100040 :: nat) \<and> (\<exists>b \<in> set (ar_blocks (snd (usb_memalign 0x100000 64 100 fresh_arena))).
     blk_used b \<and> blk_addr b + 16 \<le> 0x100040 \<and> 0x100040 + 100 \<le> blk_addr b + blk_size b)"
proof -
  obtain m' where e: "usb_memalign 0x100000 64 100 fresh_arena = (Some 0x100040, m')"
    using example_allocs(1) by blast
  show ?thesis using usb_memalign_result [of 100 64 "0x100000" fresh_arena] unfolding e by simp
qed

theorem usb_allocations_disjoint_witness:
  "\<exists>m. usb_reach 0x100000 m [(0x1000b8, 24), (0x100040, 100)] \<and> length (headers m) = 3 \<and>
     sorted_wrt clear_of (headers m @ back_pointers [(0x1000b8, 24), (0x100040, 100)] @ [(0x1000b8, 24), (0x100040, 100)])"
proof -
  let ?m = "snd (usb_memalign 0x100000 8 24 (snd (usb_memalign 0x100000 64 100 fresh_arena)))"
  have "usb_reach 0x100000 fresh_arena []" unfolding fresh_arena_def by (rule usb_reach.reset)
  from usb_reach.alloc [OF usb_reach.alloc [OF this example_allocs(1)]] example_allocs(2)
  have r: "usb_reach 0x100000 ?m [(0x1000b8, 24), (0x100040, 100)]"
    by (metis prod.collapse)
  have "length (headers ?m) = 3"
    by (simp add: headers_def usb_memalign_def fresh_arena_def Let_def round_up_def)
  then show ?thesis using r usb_allocations_disjoint [OF r] by blast
qed

theorem usb_all_freed_witness:
  "\<exists>m. usb_reach 0x100000 m [] \<and> ar_blocks m = [\<lparr>blk_addr = 0x100000, blk_size = USB_NOCACHE_SIZE, blk_used = False\<rparr>]"
proof -
  let ?m = "snd (usb_memalign 0x100000 64 100 fresh_arena)"
  have "usb_reach 0x100000 fresh_arena []" unfolding fresh_arena_def by (rule usb_reach.reset)
  from usb_reach.alloc [OF this example_allocs(1)] have r: "usb_reach 0x100000 ?m [(0x100040, 100)]" .
  obtain m' where f: "usb_free (Some 0x100040) ?m = Some m'" "ar_blocks m' \<noteq> []"
    by (simp add: usb_free_def usb_memalign_def fresh_arena_def Let_def round_up_def)
  have "usb_reach 0x100000 m' (filter (\<lambda>x. fst x \<noteq> 0x100040) [(0x100040, 100)])"
    by (rule usb_reach.release [OF r _ f(1)]) simp
  then have e: "usb_reach 0x100000 m' []" by simp
  from usb_all_freed [OF this] f(2) e show ?thesis by blast
qed

end
