(* ===== verification/Snmp_Protocol.thy ===== *)
theory Snmp_Protocol
  imports Text
begin

text \<open>
  The SNMPv2c engine \<^verbatim>\<open>software/r5/src/snmp_protocol.c\<close>: the BER reader, the bounded BER writer, object
  lookup, and the request handler for GET, GETNEXT, GETBULK and SET. A reader \<open>{p, n}\<close> is the list of
  the bytes it has left, an object identifier the list of its arcs, and a writer the list of the
  bytes written so far with its capacity and its \<open>ok\<close> flag.
\<close>

section \<open>Data\<close>

type_synonym oid = "u32 list"

record snmp_object =
  obj_oid :: oid
  obj_type :: u8
  obj_instance_arcs :: nat
  obj_number :: u64
  obj_text :: bytes

type_synonym snmp_mib = "snmp_object list"

record wr =
  w_data :: bytes
  w_cap :: nat
  w_ok :: bool

abbreviation SNMP_PACKET_MAX :: nat where "SNMP_PACKET_MAX \<equiv> 1400"
abbreviation SNMP_OID_MAX :: nat where "SNMP_OID_MAX \<equiv> 24"
abbreviation REQUEST_MAX :: nat where "REQUEST_MAX \<equiv> 32"
abbreviation RESPONSE_MAX :: nat where "RESPONSE_MAX \<equiv> 64"

section \<open>The reader\<close>

definition be_value :: "bytes \<Rightarrow> nat" where
  "be_value bs = foldl (\<lambda>n b. n * 256 + unat b) 0 bs"

text \<open>One tag, length and value: the tag, the value's bytes and the rest.\<close>

definition tlv :: "bytes \<Rightarrow> (u8 \<times> bytes \<times> bytes) option" where
  "tlv r =
     (case r of
        tag # n # rest \<Rightarrow>
          (let k = unat n mod 128 in
           if 128 \<le> unat n
           then if k = 0 \<or> 4 < k \<or> length rest < k then None
                else let len = be_value (take k rest); rest = drop k rest
                     in if length rest < len then None else Some (tag, take len rest, drop len rest)
           else if length rest < unat n then None else Some (tag, take (unat n) rest, drop (unat n) rest))
      | _ \<Rightarrow> None)"

definition expect :: "u8 \<Rightarrow> bytes \<Rightarrow> (bytes \<times> bytes) option" where
  "expect tag r =
     (case tlv r of None \<Rightarrow> None | Some (got, v, rest) \<Rightarrow> if got = tag then Some (v, rest) else None)"

text \<open>Dropping redundant sign bytes.\<close>

fun strip_sign :: "bytes \<Rightarrow> bytes" where
  "strip_sign (x # y # r) =
     (if x = 0 \<and> y AND 128 = 0 \<or> x = 255 \<and> y AND 128 \<noteq> 0 then strip_sign (y # r) else x # y # r)"
| "strip_sign s = s"

definition read_integer :: "bytes \<Rightarrow> (int \<times> bytes) option" where
  "read_integer r =
     (case expect 2 r of
        None \<Rightarrow> None
      | Some (v, rest) \<Rightarrow>
          if v = [] then None
          else let v = strip_sign v in
            if 4 < length v then None
            else Some (foldl (\<lambda>x b. x * 256 + uint b) (if hd v AND 128 \<noteq> 0 then - 1 else 0) v, rest))"

text \<open>One subidentifier: at most five bytes, the first not \<open>0x80\<close>.\<close>

fun read_subid :: "nat \<Rightarrow> nat \<Rightarrow> bytes \<Rightarrow> (nat \<times> bytes) option" where
  "read_subid count x [] = None"
| "read_subid count x (b # v) =
     (let count = count + 1 in
      if 5 < count \<or> count = 1 \<and> b = 128 then None
      else let x = x * 128 + unat (b AND 127)
           in if b AND 128 \<noteq> 0 then read_subid count x v else Some (x, v))"

lemma read_subid_length: "read_subid count x v = Some (y, r) \<Longrightarrow> length r < length v"
  by (induction count x v arbitrary: y r rule: read_subid.induct) (fastforce simp: Let_def split: if_splits)+

function oid_arcs :: "bytes \<Rightarrow> oid \<Rightarrow> oid option" where
  "oid_arcs v arcs =
     (if v = [] then Some arcs
      else case read_subid 0 0 v of
        None \<Rightarrow> None
      | Some (x, rest) \<Rightarrow>
          if arcs = [] then
            let top = (if x < 40 then 0 else if x < 80 then 1 else 2) in
            if 2 ^ 32 - 1 < x - top * 40 then None
            else oid_arcs rest [word_of_nat top, word_of_nat (x - top * 40)]
          else if 2 ^ 32 - 1 < x \<or> length arcs = SNMP_OID_MAX then None
          else oid_arcs rest (arcs @ [word_of_nat x]))"
  by pat_completeness auto
termination
  by (relation "measure (length \<circ> fst)") (auto dest: read_subid_length)

declare oid_arcs.simps [simp del]

definition oid_read :: "bytes \<Rightarrow> oid option" where
  "oid_read v = (if v = [] then None else oid_arcs v [])"

section \<open>The writer\<close>

definition put :: "bytes \<Rightarrow> wr \<Rightarrow> wr" where
  "put bs w = (if \<not> w_ok w \<or> w_cap w - length (w_data w) < length bs then w\<lparr>w_ok := False\<rparr>
     else w\<lparr>w_data := w_data w @ bs\<rparr>)"

definition put_byte :: "u8 \<Rightarrow> wr \<Rightarrow> wr" where
  "put_byte b w = put [b] w"

definition begin_tlv :: "u8 \<Rightarrow> wr \<Rightarrow> nat \<times> wr" where
  "begin_tlv tag w = (length (w_data w), put_byte 0 (put_byte 0 (put_byte 0x82 (put_byte tag w))))"

definition end_tlv :: "nat \<Rightarrow> wr \<Rightarrow> wr" where
  "end_tlv start w =
     (if \<not> w_ok w then w
      else let d = w_data w; len = length d - start - 4; body = drop (start + 4) d; hd1 = take (start + 1) d in
        w\<lparr>w_data :=
          (if len < 128 then hd1 @ [word_of_nat len] @ body
           else if len < 256 then hd1 @ [0x81, word_of_nat len] @ body
           else take (start + 2) d @ [word_of_nat (len div 256), word_of_nat len] @ body)\<rparr>)"

definition be64 :: "u64 \<Rightarrow> bytes" where
  "be64 value = map (\<lambda>i. ucast (drop_bit (56 - 8 * i) value)) [0..<8]"

fun strip_zero :: "bytes \<Rightarrow> bytes" where
  "strip_zero (x # y # r) = (if x = 0 then strip_zero (y # r) else x # y # r)"
| "strip_zero s = s"

definition number_bytes :: "u8 \<Rightarrow> u64 \<Rightarrow> bytes" where
  "number_bytes type value =
     (if type = 2 then strip_sign (be64 value)
      else let b = strip_zero (be64 value) in if hd b AND 128 \<noteq> 0 then 0 # b else b)"

definition put_number :: "u8 \<Rightarrow> u64 \<Rightarrow> wr \<Rightarrow> wr" where
  "put_number type value w =
     (let b = number_bytes type value in put b (put_byte (word_of_nat (length b)) (put_byte type w)))"

text \<open>Base-128 digits, least significant first.\<close>

fun base128 :: "nat \<Rightarrow> bytes" where
  "base128 x = word_of_nat (x mod 128) # (if x div 128 = 0 then [] else base128 (x div 128))"

declare base128.simps [simp del]

definition subid_bytes :: "nat \<Rightarrow> bytes" where
  "subid_bytes x = map (\<lambda>d. d OR 128) (rev (tl (base128 x))) @ [hd (base128 x)]"

definition put_subid :: "nat \<Rightarrow> wr \<Rightarrow> wr" where
  "put_subid x w = foldl (\<lambda>w b. put_byte b w) w (subid_bytes x)"

definition oid_write :: "oid \<Rightarrow> wr \<Rightarrow> wr" where
  "oid_write oi w =
     (case begin_tlv 6 w of (start, w) \<Rightarrow>
        let w = put_subid (unat (oi ! 0) * 40 + unat (oi ! 1)) w;
            w = foldl (\<lambda>w a. put_subid (unat a) w) w (drop 2 oi)
        in end_tlv start w)"

section \<open>Lookup\<close>

fun compare_oid :: "oid \<Rightarrow> oid \<Rightarrow> int" where
  "compare_oid [] [] = 0"
| "compare_oid [] (b # bs) = - 1"
| "compare_oid (a # as) [] = 1"
| "compare_oid (a # as) (b # bs) =
     (if a \<noteq> b then (if a < b then - 1 else 1) else compare_oid as bs)"

definition lookup :: "snmp_mib \<Rightarrow> oid \<Rightarrow> bool \<Rightarrow> snmp_object option" where
  "lookup m oi nxt =
     find (\<lambda>x. let cmp = compare_oid (obj_oid x) oi in \<not> nxt \<and> cmp = 0 \<or> nxt \<and> 0 < cmp) m"

definition missing :: "snmp_mib \<Rightarrow> oid \<Rightarrow> u8" where
  "missing m oi =
     (if list_ex (\<lambda>x. let base = length (obj_oid x) - obj_instance_arcs x
                      in base \<le> length oi \<and> take base (obj_oid x) = take base oi) m
      then 0x81 else 0x80)"

section \<open>Responses\<close>

definition enterprise_oid :: oid where
  "enterprise_oid = [1, 3, 6, 1, 4, 1, 32473, 1]"

definition binding :: "oid \<Rightarrow> snmp_object option \<Rightarrow> u8 \<Rightarrow> wr \<Rightarrow> wr" where
  "binding oi v exception w =
     (case begin_tlv 0x30 w of (start, w) \<Rightarrow>
        let w = oid_write oi w;
            w = (case v of
                   None \<Rightarrow> put_byte 0 (put_byte exception w)
                 | Some x \<Rightarrow>
                     if obj_type x = 4
                     then (case begin_tlv 4 w of (pos, w) \<Rightarrow> end_tlv pos (put (obj_text x) w))
                     else if obj_type x = 6 then oid_write enterprise_oid w
                     else put_number (obj_type x) (obj_number x) w)
        in end_tlv start w)"

text \<open>\<open>None\<close> is the result 0 of the source.\<close>

definition response :: "nat \<Rightarrow> bytes \<Rightarrow> int \<Rightarrow> nat \<Rightarrow> nat \<Rightarrow> bytes \<Rightarrow> bytes option" where
  "response cap community rid error index list =
     (let w = \<lparr>w_data = [], w_cap = cap, w_ok = True\<rparr> in
      case begin_tlv 0x30 w of (msg, w) \<Rightarrow>
      let w = put_number 2 1 w in
      case begin_tlv 4 w of (com, w) \<Rightarrow>
      let w = end_tlv com (put community w) in
      case begin_tlv 0xa2 w of (pdu, w) \<Rightarrow>
      let w = put_number 2 (word_of_int rid) w;
          w = put_number 2 (word_of_nat error) w;
          w = put_number 2 (word_of_nat index) w in
      case begin_tlv 0x30 w of (vars, w) \<Rightarrow>
      let w = end_tlv vars (put list w);
          w = end_tlv msg (end_tlv pdu w)
      in if w_ok w then Some (w_data w) else None)"

section \<open>The request handler\<close>

record request =
  rq_operation :: u8
  rq_id :: int
  rq_first :: int
  rq_second :: int
  rq_list :: bytes

text \<open>The checks before the variable bindings.\<close>

definition parse_header :: "bytes \<Rightarrow> bytes \<Rightarrow> request option" where
  "parse_header input community =
     (case expect 0x30 input of Some (msg, []) \<Rightarrow>
      (case read_integer msg of None \<Rightarrow> None | Some (version, msg) \<Rightarrow>
       if version \<noteq> 1 then None else
       case expect 4 msg of None \<Rightarrow> None | Some (com, msg) \<Rightarrow>
       if com \<noteq> community then None else
       case tlv msg of Some (operation, pdu, []) \<Rightarrow>
         if operation \<notin> {0xa0, 0xa1, 0xa3, 0xa5} then None else
         (case read_integer pdu of None \<Rightarrow> None | Some (rid, pdu) \<Rightarrow>
          case read_integer pdu of None \<Rightarrow> None | Some (fst1, pdu) \<Rightarrow>
          case read_integer pdu of None \<Rightarrow> None | Some (snd1, pdu) \<Rightarrow>
          case expect 0x30 pdu of Some (list, []) \<Rightarrow>
            Some \<lparr>rq_operation = operation, rq_id = rid, rq_first = fst1, rq_second = snd1, rq_list = list\<rparr>
          | _ \<Rightarrow> None)
       | _ \<Rightarrow> None)
      | _ \<Rightarrow> None)"

lemma tlv_length: "tlv r = Some (tag, v, rest) \<Longrightarrow> length rest < length r"
  by (auto simp: tlv_def Let_def split: list.splits if_splits)

lemma expect_length: "expect tag r = Some (v, rest) \<Longrightarrow> length rest < length r"
  by (auto simp: expect_def split: option.splits if_splits dest: tlv_length)

function parse_bindings :: "bytes \<Rightarrow> oid list \<Rightarrow> oid list option" where
  "parse_bindings list oids =
     (if list = [] then Some oids
      else if length oids = REQUEST_MAX then None
      else case expect 0x30 list of None \<Rightarrow> None | Some (vb, list) \<Rightarrow>
      case expect 6 vb of None \<Rightarrow> None | Some (v, vb) \<Rightarrow>
      case oid_read v of None \<Rightarrow> None | Some oi \<Rightarrow>
      case tlv vb of Some (type, v, []) \<Rightarrow> parse_bindings list (oids @ [oi]) | _ \<Rightarrow> None)"
  by pat_completeness auto
termination
  by (relation "measure (length \<circ> fst)") (auto dest: expect_length)

declare parse_bindings.simps [simp del]

datatype outcome = Running | Too_Big | Finished

record answer =
  an_oids :: "oid list"
  an_w :: wr
  an_emitted :: nat
  an_all_end :: bool

text \<open>One binding of the response; \<open>Too_Big\<close> is the early return of an error, \<open>Finished\<close> the jump to
  \<open>done\<close>.\<close>

definition answer_one :: "u8 \<Rightarrow> snmp_mib \<Rightarrow> outcome \<times> answer \<Rightarrow> nat \<Rightarrow> outcome \<times> answer" where
  "answer_one operation m oa i =
     (case oa of (st, a) \<Rightarrow>
      if st \<noteq> Running then (st, a)
      else let nxt = (operation \<noteq> 0xa0);
             obj = lookup m (an_oids a ! i) nxt;
             a = (case obj of None \<Rightarrow> a
                  | Some x \<Rightarrow> a\<lparr>an_oids := (an_oids a)[i := obj_oid x], an_all_end := False\<rparr>);
             before = length (w_data (an_w a));
             w = binding (an_oids a ! i) obj (if nxt then 0x82 else missing m (an_oids a ! i)) (an_w a)
           in if \<not> w_ok w \<or> an_emitted a = RESPONSE_MAX
              then if operation \<noteq> 0xa5 then (Too_Big, a\<lparr>an_w := w\<rparr>)
                   else (Finished, a\<lparr>an_w := w\<lparr>w_data := take before (w_data w)\<rparr>\<rparr>)
              else (Running, a\<lparr>an_w := w, an_emitted := an_emitted a + 1\<rparr>))"

fun answer_rounds :: "u8 \<Rightarrow> snmp_mib \<Rightarrow> nat \<Rightarrow> nat \<Rightarrow> nat list \<Rightarrow> outcome \<times> answer \<Rightarrow> outcome \<times> answer" where
  "answer_rounds operation m nonrepeat count [] oa = oa"
| "answer_rounds operation m nonrepeat count (round # rounds) (st, a) =
     (let start = (if round \<noteq> 0 then nonrepeat else 0);
          stop = (if round \<noteq> 0 then count else nonrepeat);
          (st, a) = foldl (answer_one operation m) (st, a\<lparr>an_all_end := True\<rparr>) [start..<stop]
      in if st \<noteq> Running \<or> round \<noteq> 0 \<and> an_all_end a then (st, a)
         else answer_rounds operation m nonrepeat count rounds (st, a))"

definition snmp_respond :: "bytes \<Rightarrow> nat \<Rightarrow> bytes \<Rightarrow> snmp_mib \<Rightarrow> bytes option" where
  "snmp_respond input cap community m =
     (if SNMP_PACKET_MAX < length input \<or> cap < 128 \<or> 64 < length community \<or> community = [] then None
      else case parse_header input community of None \<Rightarrow> None | Some rq \<Rightarrow>
      case parse_bindings (rq_list rq) [] of None \<Rightarrow> None | Some oids \<Rightarrow>
      let count = length oids; operation = rq_operation rq; rid = rq_id rq in
      if operation = 0xa3 then
        (case response cap community rid (if count \<noteq> 0 then 17 else 0) (if count \<noteq> 0 then 1 else 0) (rq_list rq) of
           None \<Rightarrow> response cap community rid 1 0 []
         | Some out \<Rightarrow> Some out)
      else let limit = (if SNMP_PACKET_MAX < cap then SNMP_PACKET_MAX else cap);
             nonrepeat = (if operation = 0xa5
               then (if rq_first rq < 0 then 0 else if int count < rq_first rq then count else nat (rq_first rq))
               else count);
             repeats = (if operation = 0xa5
               then (if rq_second rq < 0 then 0 else min RESPONSE_MAX (nat (rq_second rq))) else 0);
             a0 = \<lparr>an_oids = oids, an_w = \<lparr>w_data = [], w_cap = limit - 112, w_ok = True\<rparr>, an_emitted = 0,
                   an_all_end = True\<rparr>
           in case answer_rounds operation m nonrepeat count [0..<Suc repeats] (Running, a0) of (st, a) \<Rightarrow>
              if st = Too_Big then response cap community rid 1 0 []
              else response cap community rid 0 0 (w_data (an_w a)))"

section \<open>What the writer writes\<close>

text \<open>\<open>emits f enc peak\<close>: if \<open>f\<close> leaves the writer in the state \<open>ok\<close>, it has appended exactly \<open>enc\<close>; it
  never exceeds the capacity, and \<open>peak\<close> free bytes are enough for it to succeed.\<close>

definition emits :: "(wr \<Rightarrow> wr) \<Rightarrow> bytes \<Rightarrow> nat \<Rightarrow> bool" where
  "emits f enc peak = (\<forall>w. w_cap (f w) = w_cap w \<and>
     (w_ok (f w) \<longrightarrow> w_ok w \<and> w_data (f w) = w_data w @ enc) \<and>
     (\<exists>d. w_data (f w) = w_data w @ d) \<and>
     (length (w_data w) \<le> w_cap w \<longrightarrow> length (w_data (f w)) \<le> w_cap w) \<and>
     (w_ok w \<and> length (w_data w) + peak \<le> w_cap w \<longrightarrow> w_ok (f w)))"

lemma emitsD:
  assumes "emits f enc peak"
  shows "w_cap (f w) = w_cap w" and "w_ok (f w) \<Longrightarrow> w_ok w" and "w_ok (f w) \<Longrightarrow> w_data (f w) = w_data w @ enc"
    and "\<exists>d. w_data (f w) = w_data w @ d"
    and "length (w_data w) \<le> w_cap w \<Longrightarrow> length (w_data (f w)) \<le> w_cap w"
    and "w_ok w \<Longrightarrow> length (w_data w) + peak \<le> w_cap w \<Longrightarrow> w_ok (f w)"
  using assms unfolding emits_def by blast+

lemma emitsI:
  assumes "\<And>w. w_cap (f w) = w_cap w" and "\<And>w. w_ok (f w) \<Longrightarrow> w_ok w \<and> w_data (f w) = w_data w @ enc"
    and "\<And>w. \<exists>d. w_data (f w) = w_data w @ d"
    and "\<And>w. length (w_data w) \<le> w_cap w \<Longrightarrow> length (w_data (f w)) \<le> w_cap w"
    and "\<And>w. w_ok w \<Longrightarrow> length (w_data w) + peak \<le> w_cap w \<Longrightarrow> w_ok (f w)"
  shows "emits f enc peak"
  using assms unfolding emits_def by blast

lemma emits_put: "emits (put bs) bs (length bs)"
  by (rule emitsI) (auto simp: put_def split: if_splits)

lemma emits_byte: "emits (put_byte b) [b] 1"
  unfolding put_byte_def [abs_def] using emits_put [of "[b]"] by simp

lemma emits_id: "emits (\<lambda>w. w) [] 0"
  by (rule emitsI) auto

lemma emits_comp:
  assumes "emits f a p" and "emits g b q"
  shows "emits (\<lambda>w. g (f w)) (a @ b) (max p (length a + q))"
proof (rule emitsI)
  fix w
  note f = emitsD [OF assms(1), of w] and g = emitsD [OF assms(2), of "f w"]
  show "w_cap (g (f w)) = w_cap w" by (simp only: f(1) g(1))
  show "w_ok w \<and> w_data (g (f w)) = w_data w @ a @ b" if ok: "w_ok (g (f w))"
    using f(2,3) [OF g(2) [OF ok]] g(3) [OF ok] by simp
  obtain d1 d2 where "w_data (f w) = w_data w @ d1" "w_data (g (f w)) = w_data (f w) @ d2"
    using f(4) g(4) by blast
  then show "\<exists>d. w_data (g (f w)) = w_data w @ d" by simp
  show "length (w_data (g (f w))) \<le> w_cap w" if "length (w_data w) \<le> w_cap w"
    using g(5) f(5) [OF that] by (simp only: f(1))
  show "w_ok (g (f w))" if "w_ok w" "length (w_data w) + max p (length a + q) \<le> w_cap w"
  proof -
    have ok: "w_ok (f w)" using f(6) [OF that(1)] that(2) by linarith
    show ?thesis by (rule g(6) [OF ok]) (use that(2) in \<open>simp add: f(1) f(3) [OF ok]\<close>)
  qed
qed

lemma emits_mono: "emits f e p \<Longrightarrow> p \<le> q \<Longrightarrow> emits f e q"
  by (rule emitsI) (auto dest: emitsD)

text \<open>The definite-length encoding of a value under a tag.\<close>

definition ber_length :: "nat \<Rightarrow> bytes" where
  "ber_length n = (if n < 128 then [word_of_nat n] else if n < 256 then [0x81, word_of_nat n]
     else [0x82, word_of_nat (n div 256), word_of_nat n])"

definition ber :: "u8 \<Rightarrow> bytes \<Rightarrow> bytes" where
  "ber tag v = tag # ber_length (length v) @ v"

lemma length_ber: "length (ber tag v) \<le> length v + 4"
  by (simp add: ber_def ber_length_def)

lemma emits_begin: "emits (\<lambda>w. snd (begin_tlv tag w)) [tag, 0x82, 0, 0] 4"
proof -
  from emits_comp [OF emits_comp [OF emits_comp [OF emits_byte [of tag] emits_byte [of "0x82"]] emits_byte [of 0]]
      emits_byte [of 0]]
  show ?thesis by (simp add: begin_tlv_def numeral_eq_Suc)
qed

text \<open>A bracketed value.\<close>

definition tlv_of :: "u8 \<Rightarrow> (wr \<Rightarrow> wr) \<Rightarrow> wr \<Rightarrow> wr" where
  "tlv_of tag f w = (case begin_tlv tag w of (start, w) \<Rightarrow> end_tlv start (f w))"

lemma emits_tlv:
  assumes "emits f v p"
  shows "emits (tlv_of tag f) (ber tag v) (4 + p)"
proof (rule emitsI)
  fix w
  let ?w1 = "snd (begin_tlv tag w)" and ?n = "length (w_data w)"
  have "fst (begin_tlv tag w) = ?n" by (simp add: begin_tlv_def)
  then have run: "tlv_of tag f w = end_tlv ?n (f ?w1)"
    by (cases "begin_tlv tag w") (simp add: tlv_of_def)
  note b = emitsD [OF emits_begin [of tag], of w] and f = emitsD [OF assms, of ?w1]
  have fail: "tlv_of tag f w = f ?w1" if "\<not> w_ok (f ?w1)" using that by (simp add: run end_tlv_def)
  have ok_eq: "w_ok (tlv_of tag f w) = w_ok (f ?w1)" by (simp add: run end_tlv_def Let_def)
  have d: "w_data (f ?w1) = w_data w @ [tag, 0x82, 0, 0] @ v" if "w_ok (f ?w1)"
    using f(3) [OF that] b(3) [OF f(2) [OF that]] by simp
  have e: "w_data (tlv_of tag f w) = w_data w @ ber tag v" if "w_ok (f ?w1)"
    using that d [OF that] by (simp add: run end_tlv_def Let_def ber_def ber_length_def)
  have fits: "length (w_data (f ?w1)) \<le> w_cap w" if "?n \<le> w_cap w"
    using f(5) b(5) [OF that] by (simp only: b(1))
  show "w_cap (tlv_of tag f w) = w_cap w" by (simp add: run end_tlv_def Let_def f(1) b(1))
  show "w_ok w \<and> w_data (tlv_of tag f w) = w_data w @ ber tag v" if "w_ok (tlv_of tag f w)"
    using that e b(2) [OF f(2)] by (simp only: ok_eq)
  obtain d1 d2 where "w_data ?w1 = w_data w @ d1" "w_data (f ?w1) = w_data ?w1 @ d2"
    using f(4) b(4) by blast
  then show "\<exists>d. w_data (tlv_of tag f w) = w_data w @ d"
    using e fail by (cases "w_ok (f ?w1)") simp_all
  show "length (w_data (tlv_of tag f w)) \<le> w_cap w" if "?n \<le> w_cap w"
  proof (cases "w_ok (f ?w1)")
    case True
    then show ?thesis using fits [OF that] d [OF True] e [OF True] length_ber [of tag v] by simp
  qed (use fits [OF that] fail in simp)
  show "w_ok (tlv_of tag f w)" if "w_ok w" "?n + (4 + p) \<le> w_cap w"
  proof -
    have ok: "w_ok ?w1" using b(6) that by linarith
    show ?thesis
      unfolding ok_eq by (rule f(6) [OF ok]) (use that(2) in \<open>simp add: b(1) b(3) [OF ok]\<close>)
  qed
qed

lemma emits_number: "emits (put_number t x) (t # word_of_nat (length (number_bytes t x)) # number_bytes t x)
    (2 + length (number_bytes t x))"
proof -
  from emits_comp [OF emits_comp [OF emits_byte [of t] emits_byte [of "word_of_nat (length (number_bytes t x))"]]
      emits_put [of "number_bytes t x"]]
  show ?thesis by (simp add: put_number_def [abs_def] Let_def)
qed

lemma emits_subid: "emits (put_subid x) (subid_bytes x) (length (subid_bytes x))"
proof -
  have "emits (\<lambda>w. foldl (\<lambda>w b. put_byte b w) w bs) bs (length bs)" for bs
  proof (induction bs)
    case Nil
    then show ?case by (simp add: emits_id)
  next
    case (Cons b bs)
    from emits_comp [OF emits_byte [of b] this] show ?case by simp
  qed
  then show ?thesis by (simp add: put_subid_def [abs_def])
qed

definition oid_bytes :: "oid \<Rightarrow> bytes" where
  "oid_bytes oi = subid_bytes (unat (oi ! 0) * 40 + unat (oi ! 1)) @ concat (map (subid_bytes \<circ> unat) (drop 2 oi))"

lemma emits_oid: "emits (oid_write oi) (ber 6 (oid_bytes oi)) (4 + length (oid_bytes oi))"
proof -
  have many: "emits (\<lambda>w. foldl (\<lambda>w a. put_subid (unat a) w) w as) (concat (map (subid_bytes \<circ> unat) as))
      (length (concat (map (subid_bytes \<circ> unat) as)))" for as :: oid
  proof (induction as)
    case Nil
    then show ?case by (simp add: emits_id)
  next
    case (Cons a as)
    from emits_comp [OF emits_subid this] show ?case by simp
  qed
  have "oid_write oi = tlv_of 6 (\<lambda>w. foldl (\<lambda>w a. put_subid (unat a) w)
      (put_subid (unat (oi ! 0) * 40 + unat (oi ! 1)) w) (drop 2 oi))"
    by (simp add: oid_write_def tlv_of_def Let_def fun_eq_iff split: prod.splits)
  with emits_tlv [OF emits_comp [OF emits_subid many [of "drop 2 oi"]], of 6 "unat (oi ! 0) * 40 + unat (oi ! 1)"]
  show ?thesis by (simp add: oid_bytes_def)
qed

section \<open>Reading back what was written\<close>

lemma unat_word_of_nat_byte: "unat (word_of_nat n :: u8) = n mod 256"
  by (simp add: unat_of_nat take_bit_eq_mod)

lemma tlv_ber:
  assumes "length v < 65536"
  shows "tlv (ber tag v @ rest) = Some (tag, v, rest)"
proof -
  let ?n = "length v"
  consider "?n < 128" | "128 \<le> ?n" "?n < 256" | "256 \<le> ?n" by linarith
  then show ?thesis
  proof cases
    case 1
    then have "unat (word_of_nat ?n :: u8) = ?n" by (simp add: unat_word_of_nat_byte)
    with 1 show ?thesis by (simp add: ber_def ber_length_def tlv_def Let_def)
  next
    case 2
    then have "be_value [word_of_nat ?n] = ?n" by (simp add: be_value_def unat_word_of_nat_byte)
    with 2 show ?thesis by (simp add: ber_def ber_length_def tlv_def Let_def)
  next
    case 3
    have "?n div 256 < 256" using assms by (simp add: less_mult_imp_div_less)
    then have "be_value [word_of_nat (?n div 256), word_of_nat ?n] = ?n"
      by (simp add: be_value_def unat_word_of_nat_byte div_mult_mod_eq)
    with 3 show ?thesis by (simp add: ber_def ber_length_def tlv_def Let_def)
  qed
qed

lemma expect_ber: "length v < 65536 \<Longrightarrow> expect tag (ber tag v @ rest) = Some (v, rest)"
  by (simp add: expect_def tlv_ber)

lemma uint_byte: "0 \<le> uint b" "uint b < 256" for b :: u8
  using unsigned_less [of b, where ?'a = int] by simp_all

lemma byte_sign: "b AND 128 \<noteq> 0 \<longleftrightarrow> 128 \<le> uint b" for b :: u8
proof -
  have "b AND 128 \<noteq> 0 \<longleftrightarrow> bit b 7" using and_exp_eq_0_iff_not_bit [of b 7] by simp
  also have "\<dots> \<longleftrightarrow> bit (uint b) 7" by (simp add: bit_uint_iff)
  also have "\<dots> \<longleftrightarrow> odd (uint b div 128)" by (simp add: bit_iff_odd)
  also have "\<dots> \<longleftrightarrow> 128 \<le> uint b"
  proof (cases "128 \<le> uint b")
    case True
    then have "uint b div 128 = 1" using uint_byte [of b] by auto
    with True show ?thesis by simp
  next
    case False
    then have "uint b div 128 = 0" using uint_byte [of b] by auto
    with False show ?thesis by simp
  qed
  finally show ?thesis .
qed

text \<open>The signed value of a big-endian byte string.\<close>

definition sval_from :: "int \<Rightarrow> bytes \<Rightarrow> int" where
  "sval_from x v = foldl (\<lambda>x b. x * 256 + uint b) x v"

definition sval :: "bytes \<Rightarrow> int" where
  "sval v = sval_from (if hd v AND 128 \<noteq> 0 then - 1 else 0) v"

lemma sval_from_simps [simp]:
  "sval_from x [] = x" "sval_from x (b # v) = sval_from (x * 256 + uint b) v"
  by (simp_all add: sval_from_def)

lemma sval_from_linear: "sval_from x v = x * 256 ^ length v + sval_from 0 v"
proof (induction v arbitrary: x)
  case Nil
  then show ?case by simp
next
  case (Cons b v)
  from Cons [of "x * 256 + uint b"] Cons [of "uint b"] show ?case by (simp add: algebra_simps)
qed

lemma sval_from_bounds: "0 \<le> sval_from 0 v \<and> sval_from 0 v < 256 ^ length v"
proof (induction v)
  case Nil
  then show ?case by simp
next
  case (Cons b v)
  have b: "0 \<le> uint b" "uint b \<le> 255" using uint_byte [of b] by auto
  have "uint b * 256 ^ length v \<le> 255 * 256 ^ length v" using b by (intro mult_right_mono) auto
  moreover have "0 \<le> uint b * 256 ^ length v" using b by simp
  moreover have "sval_from 0 (b # v) = uint b * 256 ^ length v + sval_from 0 v"
    using sval_from_linear [of "uint b" v] by simp
  moreover have "(256 :: int) ^ length (b # v) = 256 * 256 ^ length v" by simp
  ultimately show ?case using Cons by linarith
qed

lemma sval_strip_sign: "v \<noteq> [] \<Longrightarrow> sval (strip_sign v) = sval v"
proof (induction v rule: strip_sign.induct)
  case (1 x y r)
  then show ?case by (auto simp: sval_def)
qed auto

lemma strip_sign_idem: "strip_sign (strip_sign v) = strip_sign v"
  by (induction v rule: strip_sign.induct) auto

lemma strip_sign_nonempty: "strip_sign v = [] \<longleftrightarrow> v = []"
  by (induction v rule: strip_sign.induct) auto

lemma sval_bounds:
  assumes "length v = Suc n"
  shows "- (128 * 256 ^ n) \<le> sval v \<and> sval v < 128 * 256 ^ n"
proof -
  obtain x r where v: "v = x # r" "length r = n" using assms by (cases v) auto
  note r = sval_from_bounds [of r]
  have lin: "sval_from (c * 256 + uint x) r = (c * 256 + uint x) * 256 ^ n + sval_from 0 r" for c
    using sval_from_linear [of "c * 256 + uint x" r] v(2) by simp
  have x: "0 \<le> uint x" "uint x < 256" using uint_byte [of x] by auto
  show ?thesis
  proof (cases "x AND 128 \<noteq> 0")
    case True
    then have "128 \<le> uint x" by (simp add: byte_sign)
    then have "- 128 * 256 ^ n \<le> (- 256 + uint x) * 256 ^ n" "(- 256 + uint x) * 256 ^ n \<le> - 1 * 256 ^ n"
      using x by (intro mult_right_mono; simp)+
    moreover have "sval v = (- 256 + uint x) * 256 ^ n + sval_from 0 r"
      using True v lin [of "- 1"] by (simp add: sval_def)
    ultimately show ?thesis using r unfolding v(2) by linarith
  next
    case False
    then have "uint x \<le> 127" by (simp add: byte_sign)
    then have "uint x * 256 ^ n \<le> 127 * 256 ^ n" by (intro mult_right_mono) simp_all
    moreover have "0 \<le> uint x * 256 ^ n" using x by simp
    moreover have "sval v = uint x * 256 ^ n + sval_from 0 r" using False v lin [of 0] by (simp add: sval_def)
    ultimately show ?thesis using r unfolding v(2) by linarith
  qed
qed

text \<open>A stripped string of more than one byte has a value that no shorter string has.\<close>

lemma sval_minimal:
  assumes "strip_sign v = v" and "length v = Suc (Suc n)"
  shows "sval v < - (128 * 256 ^ n) \<or> 128 * 256 ^ n \<le> sval v"
proof -
  obtain x y r where v: "v = x # y # r" "length r = n"
    using assms(2) by (auto simp: length_Suc_conv)
  have red: "\<not> (x = 0 \<and> y AND 128 = 0 \<or> x = 255 \<and> y AND 128 \<noteq> 0)"
  proof
    assume "x = 0 \<and> y AND 128 = 0 \<or> x = 255 \<and> y AND 128 \<noteq> 0"
    then have "strip_sign v = strip_sign (y # r)" unfolding v(1) by simp
    moreover have "length (strip_sign w) \<le> length w" for w
      by (induction w rule: strip_sign.induct) auto
    ultimately have "length v \<le> length (y # r)" using assms(1) by metis
    then show False using v(1) by simp
  qed
  let ?h = "uint x * 256 + uint y"
  have val: "sval v = (if x AND 128 \<noteq> 0 then ?h - 65536 else ?h) * 256 ^ n + sval_from 0 r"
    using sval_from_linear [of "(if x AND 128 \<noteq> 0 then ?h - 65536 else ?h)" r] v
    by (simp add: sval_def algebra_simps split: if_splits)
  note r = sval_from_bounds [of r, unfolded v(2)]
  have xy: "0 \<le> uint x" "uint x < 256" "0 \<le> uint y" "uint y < 256" using uint_byte by auto
  show ?thesis
  proof (cases "x AND 128 \<noteq> 0")
    case True
    have "?h - 65536 < - 128"
    proof (cases "x = 255")
      case x: True
      then have "\<not> 128 \<le> uint y" using red True by (simp add: byte_sign)
      with x show ?thesis by simp
    next
      case False
      then have "uint x \<noteq> uint (255 :: u8)" by (metis word_uint_eq_iff)
      moreover have u: "uint (255 :: u8) = 255" by simp
      ultimately have "uint x \<noteq> 255" unfolding u by blast
      with xy show ?thesis by linarith
    qed
    then have "(?h - 65536) * 256 ^ n \<le> - 129 * 256 ^ n" by (intro mult_right_mono) auto
    with val True r show ?thesis by simp
  next
    case False
    have "128 \<le> ?h"
    proof (cases "x = 0")
      case x: True
      then have "128 \<le> uint y" using red by (simp add: byte_sign)
      with x show ?thesis by simp
    next
      case x: False
      then have "1 \<le> uint x" using xy(1) by (metis int_one_le_iff_zero_less order_le_less uint_0_iff)
      with xy show ?thesis by linarith
    qed
    then have "128 * 256 ^ n \<le> ?h * 256 ^ n" by (intro mult_right_mono) auto
    moreover have "sval v = ?h * 256 ^ n + sval_from 0 r" using val False by simp
    ultimately show ?thesis using r by linarith
  qed
qed

lemma minimal_length:
  assumes "strip_sign v = v" and "- (2 ^ 31) \<le> sval v" and "sval v < 2 ^ 31"
  shows "length v \<le> 4"
proof (rule ccontr)
  assume "\<not> length v \<le> 4"
  then obtain n where n: "length v = Suc (Suc n)" "3 \<le> n"
    by (intro that [of "length v - 2"]) simp_all
  have "(256 :: int) ^ 3 \<le> 256 ^ n" using n(2) by (intro power_increasing) auto
  with sval_minimal [OF assms(1) n(1)] assms(2,3) show False by simp
qed

lemma read_number:
  assumes "v \<noteq> []" and "strip_sign v = v" and "- (2 ^ 31) \<le> sval v" and "sval v < 2 ^ 31"
  shows "read_integer (2 # word_of_nat (length v) # v @ rest) = Some (sval v, rest)"
proof -
  have len: "length v \<le> 4" by (rule minimal_length [OF assms(2,3,4)])
  moreover have "expect 2 (2 # word_of_nat (length v) # v @ rest) = Some (v, rest)"
    using expect_ber [of v 2 rest] len by (simp add: ber_def ber_length_def)
  ultimately show ?thesis
    using assms(1,2) by (simp add: read_integer_def sval_def sval_from_def Let_def)
qed

primrec be_bytes :: "nat \<Rightarrow> int \<Rightarrow> bytes" where
  "be_bytes 0 x = []"
| "be_bytes (Suc n) x = be_bytes n (x div 256) @ [word_of_int x]"

lemma sval_from_snoc: "sval_from x (v @ [b]) = sval_from x v * 256 + uint b"
  by (simp add: sval_from_def)

lemma sval_be_bytes: "sval_from 0 (be_bytes n x) = x mod 256 ^ n"
proof (induction n arbitrary: x)
  case 0
  then show ?case by simp
next
  case (Suc n)
  have "uint (word_of_int x :: u8) = x mod 256" by (simp add: uint_word_of_int)
  then show ?case
    using Suc [of "x div 256"] by (simp add: sval_from_snoc zmod_zmult2_eq)
qed

lemma be64_be_bytes: "be64 w = be_bytes 8 (uint w)"
proof -
  have byte: "ucast (drop_bit k w) = (word_of_int (uint w div 2 ^ k) :: u8)" for k
  proof -
    have "ucast (drop_bit k w) = (word_of_int (uint (drop_bit k w)) :: u8)" by simp
    also have "uint (drop_bit k w) = uint w div 2 ^ k"
      using unsigned_drop_bit_eq [of k w, where ?'a = int] uint_lt2p [of w]
      by (simp add: drop_bit_eq_div take_bit_eq_mod)
    finally show ?thesis .
  qed
  have upt: "[0..<8] = [0, 1, 2, 3, 4, 5, 6, 7 :: nat]" by (simp add: upt_rec)
  have "be64 w = map (\<lambda>k. word_of_int (uint w div 2 ^ k)) [56, 48, 40, 32, 24, 16, 8, 0]"
    unfolding be64_def upt byte by simp
  also have "\<dots> = be_bytes 8 (uint w)"
  proof -
    have eight: "(8 :: nat) = Suc (Suc (Suc (Suc (Suc (Suc (Suc (Suc 0)))))))" by simp
    show ?thesis unfolding eight be_bytes.simps by (simp add: zdiv_zmult2_eq [symmetric])
  qed
  finally show ?thesis .
qed

lemma be_bytes_nonempty: "be_bytes n x = [] \<longleftrightarrow> n = 0"
  by (cases n) simp_all

lemma hd_be_bytes: "hd (be_bytes (Suc n) x) = word_of_int (x div 256 ^ n)"
proof (induction n arbitrary: x)
  case 0
  then show ?case by simp
next
  case (Suc n)
  have "hd (be_bytes (Suc (Suc n)) x) = hd (be_bytes (Suc n) (x div 256))"
    by (simp only: be_bytes.simps(2) [of "Suc n"] hd_append be_bytes_nonempty) simp
  also have "\<dots> = word_of_int (x div 256 div 256 ^ n)" by (rule Suc)
  finally show ?case by (simp add: zdiv_zmult2_eq)
qed

lemma length_be_bytes [simp]: "length (be_bytes n x) = n"
  by (induction n arbitrary: x) simp_all

lemma sval_be64:
  assumes "- (2 ^ 31) \<le> x" and "x < 2 ^ 31"
  shows "sval (be64 (word_of_int x)) = x"
proof -
  let ?w = "word_of_int x :: u64" and ?u = "uint (word_of_int x :: u64)"
  have u: "?u = (if x < 0 then x + 2 ^ 64 else x)"
  proof (cases "x < 0")
    case True
    have "x mod 2 ^ 64 = (x + 2 ^ 64) mod 2 ^ 64" by simp
    also have "\<dots> = x + 2 ^ 64" using assms True by (intro mod_pos_pos_trivial) auto
    finally show ?thesis using True by (simp add: uint_word_of_int)
  next
    case False
    then show ?thesis using assms by (simp add: uint_word_of_int)
  qed
  have len: "length (be64 ?w) = 8" by (simp add: be64_def)
  have "hd (be64 ?w) = word_of_int (?u div 2 ^ 56)"
    using hd_be_bytes [of 7 ?u] by (simp add: be64_be_bytes numeral_eq_Suc)
  moreover have "?u div 2 ^ 56 = (if x < 0 then 255 else 0)"
  proof (cases "x < 0")
    case True
    have "(x + 2 ^ 64) div 2 ^ 56 = 255"
      by (rule int_div_pos_eq [of _ _ _ "x + 2 ^ 56"]) (use assms True in simp_all)
    then show ?thesis using True u by simp
  next
    case False
    then show ?thesis using assms u by simp
  qed
  ultimately have "hd (be64 ?w) AND 128 \<noteq> 0 \<longleftrightarrow> x < 0" by (simp add: byte_sign)
  moreover have "sval_from 0 (be64 ?w) = ?u"
    using u assms by (simp add: be64_be_bytes sval_be_bytes)
  moreover have "sval_from (- 1) (be64 ?w) = - (256 ^ 8) + sval_from 0 (be64 ?w)"
    using sval_from_linear [of "- 1" "be64 ?w"] len by simp
  ultimately show ?thesis using u by (auto simp: sval_def)
qed

text \<open>An integer of the protocol survives the writer and the reader.\<close>

definition int_bytes :: "int \<Rightarrow> bytes" where
  "int_bytes x = (let b = number_bytes 2 (word_of_int x) in 2 # word_of_nat (length b) # b)"

lemma length_strip_sign: "length (strip_sign v) \<le> length v"
  by (induction v rule: strip_sign.induct) auto

lemma read_int_bytes:
  assumes "- (2 ^ 31) \<le> x" and "x < 2 ^ 31"
  shows "read_integer (int_bytes x @ rest) = Some (x, rest)"
proof -
  let ?v = "strip_sign (be64 (word_of_int x))"
  have ne: "be64 (word_of_int x) \<noteq> []" "length (be64 (word_of_int x)) = 8" by (simp_all add: be64_def)
  have "sval ?v = x" using sval_strip_sign [OF ne(1)] sval_be64 [OF assms] by simp
  then show ?thesis
    using read_number [of ?v rest] assms strip_sign_idem strip_sign_nonempty ne(1)
    by (simp add: int_bytes_def number_bytes_def Let_def)
qed

lemma read_integer_range: "read_integer r = Some (x, rest) \<Longrightarrow> - (2 ^ 31) \<le> x \<and> x < 2 ^ 31"
proof -
  assume "read_integer r = Some (x, rest)"
  then obtain u where "u \<noteq> []" "length (strip_sign u) \<le> 4" "x = sval (strip_sign u)"
    by (cases "expect 2 r")
       (auto simp: read_integer_def sval_def [abs_def] sval_from_def [abs_def] Let_def split: if_splits)
  then obtain v where v: "v \<noteq> []" "length v \<le> 4" "x = sval v"
    using strip_sign_nonempty by metis
  then obtain n where n: "length v = Suc n" "n \<le> 3" by (cases v) auto
  have "(256 :: int) ^ n \<le> 256 ^ 3" using n(2) by (intro power_increasing) auto
  with sval_bounds [OF n(1)] v(3) show ?thesis by simp
qed

section \<open>Replies\<close>

text \<open>The bytes of one variable binding and of a whole reply.\<close>

definition value_bytes :: "snmp_object option \<Rightarrow> u8 \<Rightarrow> bytes" where
  "value_bytes v exception =
     (case v of
        None \<Rightarrow> [exception, 0]
      | Some x \<Rightarrow>
          if obj_type x = 4 then ber 4 (obj_text x)
          else if obj_type x = 6 then ber 6 (oid_bytes enterprise_oid)
          else obj_type x # word_of_nat (length (number_bytes (obj_type x) (obj_number x))) #
               number_bytes (obj_type x) (obj_number x))"

definition binding_bytes :: "oid \<Rightarrow> snmp_object option \<Rightarrow> u8 \<Rightarrow> bytes" where
  "binding_bytes oi v exception = ber 0x30 (ber 6 (oid_bytes oi) @ value_bytes v exception)"

definition reply_bytes :: "bytes \<Rightarrow> int \<Rightarrow> nat \<Rightarrow> nat \<Rightarrow> bytes \<Rightarrow> bytes" where
  "reply_bytes community rid error index list =
     ber 0x30 (int_bytes 1 @ ber 4 community @
       ber 0xa2 (int_bytes rid @ int_bytes (int error) @ int_bytes (int index) @ ber 0x30 list))"

lemma ber_length_ge: "length v + 2 \<le> length (ber tag v)"
  by (simp add: ber_def ber_length_def)

lemma length_ber_short: "length v < 128 \<Longrightarrow> length (ber tag v) = length v + 2"
  by (simp add: ber_def ber_length_def)

lemma emits_pair: "emits (\<lambda>w. put_byte b (put_byte a w)) [a, b] 2"
  using emits_comp [OF emits_byte [of a] emits_byte [of b]] by (simp add: numeral_2_eq_2)

lemma emits_value:
  "emits (\<lambda>w. case v of
            None \<Rightarrow> put_byte 0 (put_byte exception w)
          | Some x \<Rightarrow>
              if obj_type x = 4
              then (case begin_tlv 4 w of (pos, w) \<Rightarrow> end_tlv pos (put (obj_text x) w))
              else if obj_type x = 6 then oid_write enterprise_oid w
              else put_number (obj_type x) (obj_number x) w)
     (value_bytes v exception) (length (value_bytes v exception) + 2)"
proof (cases v)
  case None
  then show ?thesis using emits_mono [OF emits_pair] by (simp add: value_bytes_def)
next
  case (Some x)
  have str: "emits (tlv_of 4 (put (obj_text x))) (ber 4 (obj_text x)) (length (ber 4 (obj_text x)) + 2)"
    by (rule emits_mono [OF emits_tlv [OF emits_put]]) (use ber_length_ge [of "obj_text x" 4] in simp)
  have root: "emits (oid_write enterprise_oid) (ber 6 (oid_bytes enterprise_oid))
      (length (ber 6 (oid_bytes enterprise_oid)) + 2)"
    by (rule emits_mono [OF emits_oid]) (use ber_length_ge [of "oid_bytes enterprise_oid" 6] in simp)
  have num: "emits (put_number (obj_type x) (obj_number x))
      (obj_type x # word_of_nat (length (number_bytes (obj_type x) (obj_number x))) #
       number_bytes (obj_type x) (obj_number x)) (Suc (Suc (Suc (Suc (length (number_bytes (obj_type x) (obj_number x)))))))"
    by (rule emits_mono [OF emits_number]) simp
  consider "obj_type x = 4" | "obj_type x = 6" | "obj_type x \<noteq> 4" "obj_type x \<noteq> 6" by blast
  then show ?thesis
    by cases (use Some str root num in \<open>simp_all add: value_bytes_def tlv_of_def [abs_def] add.commute\<close>)
qed

lemma emits_binding:
  "emits (binding oi v exception) (binding_bytes oi v exception) (length (binding_bytes oi v exception) + 4)"
proof -
  let ?o = "ber 6 (oid_bytes oi)" and ?v = "value_bytes v exception"
  have "binding oi v exception = tlv_of 0x30 (\<lambda>w. (\<lambda>w. case v of
            None \<Rightarrow> put_byte 0 (put_byte exception w)
          | Some x \<Rightarrow>
              if obj_type x = 4
              then (case begin_tlv 4 w of (pos, w) \<Rightarrow> end_tlv pos (put (obj_text x) w))
              else if obj_type x = 6 then oid_write enterprise_oid w
              else put_number (obj_type x) (obj_number x) w) (oid_write oi w))"
    by (simp add: binding_def [abs_def] tlv_of_def [abs_def] Let_def)
  with emits_tlv [OF emits_comp [OF emits_oid emits_value], of "0x30"]
  have "emits (binding oi v exception) (binding_bytes oi v exception)
      (4 + max (4 + length (oid_bytes oi)) (length ?o + (length ?v + 2)))"
    by (simp add: binding_bytes_def)
  moreover have "4 + max (4 + length (oid_bytes oi)) (length ?o + (length ?v + 2))
      \<le> length (binding_bytes oi v exception) + 4"
    using ber_length_ge [of "?o @ ?v" "0x30"] ber_length_ge [of "oid_bytes oi" 6]
    by (simp add: binding_bytes_def)
  ultimately show ?thesis by (rule emits_mono)
qed

lemma emits_int: "emits (put_number 2 (word_of_int x)) (int_bytes x) (length (int_bytes x))"
  using emits_number [of 2 "word_of_int x"] by (simp add: int_bytes_def Let_def)

lemma length_int_bytes: "- (2 ^ 31) \<le> x \<Longrightarrow> x < 2 ^ 31 \<Longrightarrow> length (int_bytes x) \<le> 6"
  using minimal_length [OF strip_sign_idem, of "be64 (word_of_int x)"] sval_be64 [of x]
    sval_strip_sign [of "be64 (word_of_int x)"]
  by (simp add: int_bytes_def number_bytes_def Let_def be64_def)

definition reply_writer :: "bytes \<Rightarrow> int \<Rightarrow> nat \<Rightarrow> nat \<Rightarrow> bytes \<Rightarrow> wr \<Rightarrow> wr" where
  "reply_writer community rid error index list =
     tlv_of 0x30 (\<lambda>w. tlv_of 0xa2 (\<lambda>w. tlv_of 0x30 (put list)
        (put_number 2 (word_of_int (int index)) (put_number 2 (word_of_int (int error))
          (put_number 2 (word_of_int rid) w))))
      (tlv_of 4 (put community) (put_number 2 (word_of_int 1) w)))"

lemma response_writer:
  "response cap community rid error index list =
     (let w = reply_writer community rid error index list \<lparr>w_data = [], w_cap = cap, w_ok = True\<rparr>
      in if w_ok w then Some (w_data w) else None)"
  by (simp add: response_def reply_writer_def tlv_of_def Let_def split: prod.splits)

lemma emits_reply:
  assumes "length community \<le> 64" and "- (2 ^ 31) \<le> rid" and "rid < 2 ^ 31" and "error < 128" and "index < 128"
  shows "emits (reply_writer community rid error index list) (reply_bytes community rid error index list)
    (length list + 112)"
proof -
  let ?n = "\<lambda>x. length (int_bytes x)"
  let ?vars = "ber 0x30 list" and ?com = "ber 4 community"
  let ?pdu = "int_bytes rid @ int_bytes (int error) @ int_bytes (int index) @ ?vars"
  note vars = emits_tlv [OF emits_put [of list], of "0x30"]
  note ints = emits_comp [OF emits_comp [OF emits_int [of rid] emits_int [of "int error"]] emits_int [of "int index"]]
  note pdu = emits_tlv [OF emits_comp [OF ints vars], of "0xa2"]
  note com = emits_comp [OF emits_int [of 1] emits_tlv [OF emits_put [of community], of 4]]
  have "?n rid \<le> 6" "?n (int error) \<le> 6" "?n (int index) \<le> 6" "?n 1 \<le> 6"
    using assms by (simp_all add: length_int_bytes)
  moreover have "length ?com = length community + 2" using assms(1) by (simp add: length_ber_short)
  ultimately show ?thesis
    unfolding reply_writer_def reply_bytes_def
    using emits_mono [OF emits_tlv [OF emits_comp [OF com pdu], of "0x30"], of "length list + 112"] assms(1)
    by simp
qed

lemma response_total:
  assumes "length community \<le> 64" and "- (2 ^ 31) \<le> rid" and "rid < 2 ^ 31" and "error < 128" and "index < 128"
    and "length list + 112 \<le> cap"
  shows "response cap community rid error index list = Some (reply_bytes community rid error index list)"
proof -
  let ?w = "\<lparr>w_data = [], w_cap = cap, w_ok = True\<rparr>"
  note e = emitsD [OF emits_reply [OF assms(1-5), of list], of ?w]
  have "w_ok (reply_writer community rid error index list ?w)" using e(6) assms(6) by simp
  with e(3) show ?thesis by (simp add: response_writer Let_def)
qed

lemma response_sound:
  assumes "length community \<le> 64" and "- (2 ^ 31) \<le> rid" and "rid < 2 ^ 31" and "error < 128" and "index < 128"
    and "response cap community rid error index list = Some out"
  shows "out = reply_bytes community rid error index list \<and> length out \<le> cap"
proof -
  let ?w = "\<lparr>w_data = [], w_cap = cap, w_ok = True\<rparr>"
  note e = emitsD [OF emits_reply [OF assms(1-5), of list], of ?w]
  have ok: "w_ok (reply_writer community rid error index list ?w)"
    and out: "out = w_data (reply_writer community rid error index list ?w)"
    using assms(6) by (simp_all add: response_writer Let_def split: if_splits)
  then show ?thesis using e(3) [OF ok] e(5) by simp
qed

end
