(* ===== verification/Snmp_Grammar.thy ===== *)
theory Snmp_Grammar
  imports Snmp_Protocol
begin

text \<open>
  The requests of SNMPv2c as the standards describe them, independently of the reader in \<^verbatim>\<open>software/r5/src/snmp_protocol.c\<close>: elements
  with a tag, length octets and a value; integers in two's complement; object identifiers in base 128; variable bindings and messages. The
  reader is shown to accept exactly these, and to return the fields they were made of.
\<close>

section \<open>Object identifiers survive the wire\<close>

lemma seven_bits:
  fixes d :: u8
  assumes "unat d < 128"
  shows "d AND 128 = 0" and "d AND 127 = d" and "(d OR 128) AND 127 = d" and "(d OR 128) AND 128 = 128"
    and "d OR 128 = 128 \<longleftrightarrow> d = 0"
proof -
  have "uint d = int (unat d)" by simp
  then have "\<not> 128 \<le> uint d" using assms by linarith
  then show zero: "d AND 128 = 0" using byte_sign [of d] by blast
  have "d AND mask 7 = d"
    using assms by (simp add: word_eq_iff_unsigned unsigned_and_eq flip: take_bit_eq_mask)
       (simp add: take_bit_eq_mod unat_arith_simps)
  then show low: "d AND 127 = d" by (simp add: mask_numeral)
  show both: "(d OR 128) AND 127 = d" using low by (simp add: bit.conj_disj_distrib2)
  show "(d OR 128) AND 128 = 128" using zero by (simp add: bit.conj_disj_distrib2)
  show "d OR 128 = 128 \<longleftrightarrow> d = 0" using both by auto
qed

lemma read_subid_digits:
  fixes ds :: bytes and e :: u8
  assumes "\<forall>d\<in>set ds. unat d < 128" and "unat e < 128" and "count + length ds < 5"
    and "count = 0 \<Longrightarrow> ds \<noteq> [] \<Longrightarrow> hd ds \<noteq> 0"
  shows "read_subid count x (map (\<lambda>d. d OR 128) ds @ e # rest) = Some (foldl (\<lambda>x d. x * 128 + unat d) x (ds @ [e]), rest)"
  using assms
proof (induction ds arbitrary: count x)
  case Nil
  moreover have "e \<noteq> 128" using Nil(2) by auto
  ultimately show ?case by (simp add: Let_def seven_bits)
next
  case (Cons d ds)
  then show ?case by (auto simp: Let_def seven_bits)
qed

lemma base128_digits: "\<forall>d\<in>set (base128 x). unat d < 128"
proof (induction x rule: base128.induct)
  case (1 x)
  have "unat (word_of_nat (x mod 128) :: u8) < 128" by (simp add: unat_word_of_nat_byte)
  then show ?case using 1 by (subst base128.simps) auto
qed

lemma base128_value: "foldr (\<lambda>d x. x * 128 + unat d) (base128 x) 0 = x"
proof (induction x rule: base128.induct)
  case (1 x)
  have "x mod 128 mod 256 = x mod 128" by simp
  then show ?case
    using 1 by (subst base128.simps) (auto simp: unat_word_of_nat_byte div_mult_mod_eq)
qed

lemma base128_last: "base128 x \<noteq> [] \<and> (1 < length (base128 x) \<longrightarrow> last (base128 x) \<noteq> 0)"
proof (induction x rule: base128.induct)
  case (1 x)
  show ?case
  proof (cases "x div 128 = 0")
    case True
    then show ?thesis by (subst (1 2 3) base128.simps) simp
  next
    case False
    note IH = 1 [OF False]
    have "last (base128 (x div 128)) \<noteq> 0"
    proof (cases "1 < length (base128 (x div 128))")
      case single: False
      then have "x div 128 div 128 = 0"
        using base128.simps [of "x div 128"] base128.simps [of "x div 128 div 128"] by (auto split: if_splits)
      then have "base128 (x div 128) = [word_of_nat (x div 128)]" and "x div 128 < 128"
        using base128.simps [of "x div 128"] by auto
      moreover have "(word_of_nat (x div 128) :: u8) \<noteq> 0"
      proof
        assume "(word_of_nat (x div 128) :: u8) = 0"
        then have "unat (word_of_nat (x div 128) :: u8) = 0" by simp
        with False \<open>x div 128 < 128\<close> show False by (simp add: unat_word_of_nat_byte)
      qed
      ultimately show ?thesis by simp
    qed (use IH in blast)
    then show ?thesis using False IH base128.simps [of x] by auto
  qed
qed

lemma base128_length: "x < 128 ^ Suc n \<Longrightarrow> length (base128 x) \<le> Suc n"
proof (induction n arbitrary: x)
  case 0
  then show ?case by (simp add: base128.simps [of x])
next
  case (Suc n)
  then have "x div 128 < 128 ^ Suc n" by (simp add: less_mult_imp_div_less mult.commute)
  from Suc.IH [OF this] show ?case by (simp add: base128.simps [of x])
qed

lemma read_subid_bytes:
  assumes "x < 2 ^ 35"
  shows "read_subid 0 0 (subid_bytes x @ rest) = Some (x, rest)"
proof -
  let ?b = "base128 x"
  have len: "length ?b \<le> 5" using base128_length [of x 4] assms by simp
  have ne: "?b \<noteq> []" using base128_last by blast
  have dig: "unat d < 128" if "d \<in> set ?b" for d using base128_digits that by blast
  have split: "rev (tl ?b) @ [hd ?b] = rev ?b" using ne by (metis hd_Cons_tl rev.simps(2))
  have hd: "hd (rev (tl ?b)) \<noteq> 0" if "rev (tl ?b) \<noteq> []"
  proof -
    have "hd (rev (tl ?b)) = last ?b" using that by (simp add: hd_rev last_tl)
    moreover have "1 < length ?b" using that by (cases ?b) auto
    ultimately show ?thesis using base128_last by simp
  qed
  have "read_subid 0 0 (map (\<lambda>d. d OR 128) (rev (tl ?b)) @ hd ?b # rest) =
      Some (foldl (\<lambda>x d. x * 128 + unat d) 0 (rev (tl ?b) @ [hd ?b]), rest)"
    by (rule read_subid_digits) (use ne len hd dig in \<open>auto dest: list.set_sel(2)\<close>)
  then show ?thesis
    unfolding split by (simp add: subid_bytes_def foldl_conv_foldr base128_value)
qed

text \<open>Identifiers the reader can produce.\<close>

definition oid_valid :: "oid \<Rightarrow> bool" where
  "oid_valid oi \<longleftrightarrow> 2 \<le> length oi \<and> length oi \<le> SNMP_OID_MAX \<and> unat (oi ! 0) \<le> 2 \<and>
     (unat (oi ! 0) < 2 \<longrightarrow> unat (oi ! 1) < 40)"

lemma oid_arcs_tail:
  assumes "arcs \<noteq> []" and "length arcs + length as \<le> SNMP_OID_MAX"
  shows "oid_arcs (concat (map (subid_bytes \<circ> unat) as)) arcs = Some (arcs @ as)"
  using assms
proof (induction as arbitrary: arcs)
  case Nil
  then show ?case by (simp add: oid_arcs.simps)
next
  case (Cons a as)
  have a: "unat a < 2 ^ 32" using unsigned_less [of a, where ?'a = nat] by simp
  have "read_subid 0 0 (subid_bytes (unat a) @ concat (map (subid_bytes \<circ> unat) as)) =
      Some (unat a, concat (map (subid_bytes \<circ> unat) as))"
    using a by (intro read_subid_bytes) simp
  moreover have "subid_bytes (unat a) \<noteq> []" by (simp add: subid_bytes_def)
  ultimately show ?case
    using Cons a by (subst oid_arcs.simps) (simp add: comp_def)
qed

text \<open>Writing an object identifier and reading it back gives the identifier: every one of 2 to 24 arcs
  whose first two arcs ASN.1 allows, with 32-bit arcs, and the writer's five-byte subidentifier buffer is never exceeded.\<close>
theorem oid_round_trip:
  assumes "oid_valid oi"
  shows "oid_read (oid_bytes oi) = Some oi \<and>
    (\<forall>x\<in>insert (unat (oi ! 0) * 40 + unat (oi ! 1)) (set (map unat (drop 2 oi))). length (base128 x) \<le> 5)"
proof -
  obtain a b as where oi: "oi = a # b # as" using assms by (cases oi rule: list.exhaust [case_names Nil Cons])
      (auto simp: oid_valid_def Suc_le_length_iff numeral_2_eq_2)
  let ?x = "unat a * 40 + unat b"
  have v: "unat a \<le> 2" "unat a < 2 \<Longrightarrow> unat b < 40" "length as \<le> 22" using assms by (simp_all add: oid_valid_def oi)
  have u: "unat w < 2 ^ 32" for w :: u32 using unsigned_less [of w, where ?'a = nat] by simp
  have x: "?x < 2 ^ 35" using v(1) u [of b] by simp
  have top: "(if ?x < 40 then 0 else if ?x < 80 then 1 else 2) = unat a"
    using v(1,2) by (cases "unat a = 0"; cases "unat a = 1") auto
  have "oid_arcs (oid_bytes oi) [] = oid_arcs (concat (map (subid_bytes \<circ> unat) as)) [a, b]"
    using read_subid_bytes [OF x] top u [of b] by (subst oid_arcs.simps) (simp add: oid_bytes_def oi subid_bytes_def Let_def)
  also have "\<dots> = Some oi" using oid_arcs_tail [of "[a, b]" as] v(3) by (simp add: oi)
  finally have "oid_read (oid_bytes oi) = Some oi" by (simp add: oid_read_def oid_bytes_def subid_bytes_def)
  moreover have "length (base128 y) \<le> 5" if "y < 2 ^ 35" for y using base128_length [of y 4] that by simp
  moreover have "unat w < 2 ^ 35" for w :: u32 using u [of w] by simp
  ultimately show ?thesis using x by (auto simp: oi)
qed

theorem oid_round_trip_witness:
  "oid_valid enterprise_oid \<and> oid_read (oid_bytes enterprise_oid) = Some enterprise_oid"
proof -
  have v: "oid_valid enterprise_oid" by (simp add: oid_valid_def enterprise_oid_def)
  with oid_round_trip [OF v] show ?thesis by simp
qed

section \<open>Elements and integers\<close>

text \<open>The number that a string of octets represents, most significant first, and its length octets: one octet, or a count of at most four
  octets and the octets. The length need not be the shortest.\<close>

definition octets_value :: "bytes \<Rightarrow> nat" where
  "octets_value bs = horner_sum unat 256 (rev bs)"

definition length_octets :: "nat \<Rightarrow> bytes \<Rightarrow> bool" where
  "length_octets n ls \<longleftrightarrow> n < 128 \<and> ls = [word_of_nat n] \<or>
     (\<exists>ds. 1 \<le> length ds \<and> length ds \<le> 4 \<and> n = octets_value ds \<and> ls = word_of_nat (128 + length ds) # ds)"

definition element :: "u8 \<Rightarrow> bytes \<Rightarrow> bytes \<Rightarrow> bool" where
  "element tag v bs \<longleftrightarrow> (\<exists>ls. length_octets (length v) ls \<and> bs = tag # ls @ v)"

definition twos_complement :: "bytes \<Rightarrow> int" where
  "twos_complement v = int (octets_value v) - (if bit (hd v) 7 then 256 ^ length v else 0)"

definition integer_element :: "int \<Rightarrow> bytes \<Rightarrow> bool" where
  "integer_element x bs \<longleftrightarrow> - (2 ^ 31) \<le> x \<and> x < 2 ^ 31 \<and> (\<exists>v. v \<noteq> [] \<and> element 2 v bs \<and> x = twos_complement v)"

lemma be_value_octets: "be_value bs = octets_value bs"
  by (simp add: be_value_def octets_value_def horner_sum_foldr foldr_conv_foldl add.commute mult.commute)

lemma tlv_iff: "tlv r = Some (tag, v, rest) \<longleftrightarrow> (\<exists>e. element tag v e \<and> r = e @ rest)"
proof
  assume got: "tlv r = Some (tag, v, rest)"
  then obtain n r' where r: "r = tag # n # r'" by (auto simp: tlv_def Let_def split: list.splits if_splits)
  show "\<exists>e. element tag v e \<and> r = e @ rest"
  proof (cases "128 \<le> unat n")
    case False
    then have v: "v = take (unat n) r'" "rest = drop (unat n) r'" "unat n \<le> length r'" using got by (auto simp: r tlv_def split: if_splits)
    then have "length_octets (length v) [n]" using False by (simp add: length_octets_def)
    then show ?thesis using v(1,2) by (intro exI [of _ "tag # [n] @ v"]) (auto simp: r element_def)
  next
    case True
    define k where "k = unat n mod 128"
    have "unat n < 256" using unsigned_less [of n, where ?'a = nat] by simp
    then have n: "unat n = 128 + k" using True le_mod_geq [OF True] by (simp add: k_def)
    let ?ds = "take k r'" and ?t = "drop k r'"
    have got': "(if k = 0 \<or> 4 < k \<or> length r' < k then None
       else if length ?t < octets_value ?ds then None else Some (tag, take (octets_value ?ds) ?t, drop (octets_value ?ds) ?t)) = Some (tag, v, rest)"
      using got True unfolding r tlv_def list.case Let_def be_value_octets k_def [symmetric] by simp
    then have v: "1 \<le> k" "k \<le> 4" "k \<le> length r'" "v = take (octets_value ?ds) ?t" "rest = drop (octets_value ?ds) ?t" "octets_value ?ds \<le> length ?t"
      by (auto split: if_splits)
    have "n = word_of_nat (128 + k)" by (simp flip: n)
    then have "length_octets (length v) (n # ?ds)"
      unfolding length_octets_def using v(1-4,6) by (intro disjI2 exI [of _ ?ds]) (simp add: min_absorb2)
    moreover have "r = (tag # (n # ?ds) @ v) @ rest" unfolding r v(4,5) append_Cons append_assoc append_take_drop_id ..
    ultimately show ?thesis by (auto simp: element_def intro!: exI [of _ "tag # (n # ?ds) @ v"])
  qed
next
  assume "\<exists>e. element tag v e \<and> r = e @ rest"
  then obtain ls where ls: "length_octets (length v) ls" and r: "r = tag # ls @ v @ rest" by (auto simp: element_def)
  from ls consider "length v < 128" "ls = [word_of_nat (length v)]"
    | ds where "1 \<le> length ds" "length ds \<le> 4" "length v = octets_value ds" "ls = word_of_nat (128 + length ds) # ds"
    by (auto simp: length_octets_def)
  then show "tlv r = Some (tag, v, rest)"
  proof cases
    case 1
    then show ?thesis by (simp add: r tlv_def Let_def unat_word_of_nat_byte)
  next
    case 2
    have u: "unat (word_of_nat (128 + length ds) :: u8) = 128 + length ds"
      using 2(2) unat_word_of_nat_byte [of "128 + length ds"] by simp
    then have k: "unat (word_of_nat (128 + length ds) :: u8) mod 128 = length ds" using 2(2) unfolding u by simp
    show ?thesis using 2(1,2) unfolding r 2(4) tlv_def by (simp only: append_Cons list.case k u be_value_octets Let_def) (auto simp flip: 2(3))
  qed
qed

lemma expect_iff: "expect tag r = Some (v, rest) \<longleftrightarrow> (\<exists>e. element tag v e \<and> r = e @ rest)"
  by (auto simp: expect_def tlv_iff [symmetric] split: option.splits if_splits)

lemma sval_twos: "v \<noteq> [] \<Longrightarrow> sval v = twos_complement v"
proof -
  assume "v \<noteq> []"
  have "sval_from 0 v = int (octets_value v)"
  proof (induction v rule: rev_induct)
    case (snoc b v)
    then show ?case by (simp add: sval_from_snoc octets_value_def)
  qed (simp add: octets_value_def)
  moreover have "hd v AND 128 \<noteq> 0 \<longleftrightarrow> bit (hd v) 7" using and_exp_eq_0_iff_not_bit [of "hd v" 7] by simp
  ultimately show ?thesis using sval_from_linear [of "- 1" v] by (auto simp: sval_def twos_complement_def)
qed

lemma read_integer_iff: "read_integer r = Some (x, rest) \<longleftrightarrow> (\<exists>e. integer_element x e \<and> r = e @ rest)"
proof
  assume got: "read_integer r = Some (x, rest)"
  then obtain v where v: "expect 2 r = Some (v, rest)" "v \<noteq> []" "x = sval (strip_sign v)"
    by (cases "expect 2 r") (auto simp: read_integer_def sval_def [abs_def] sval_from_def [abs_def] Let_def split: if_splits)
  from v(1) obtain e where "element 2 v e" "r = e @ rest" by (auto simp: expect_iff)
  moreover have "x = twos_complement v" using v(2,3) by (simp add: sval_strip_sign sval_twos)
  ultimately show "\<exists>e. integer_element x e \<and> r = e @ rest" using read_integer_range [OF got] v(2) by (auto simp: integer_element_def)
next
  assume "\<exists>e. integer_element x e \<and> r = e @ rest"
  then obtain v where v: "expect 2 r = Some (v, rest)" "v \<noteq> []" "x = twos_complement v" "- (2 ^ 31) \<le> x" "x < 2 ^ 31"
    by (auto simp: integer_element_def expect_iff)
  have x: "sval (strip_sign v) = x" using v(2,3) by (simp add: sval_strip_sign sval_twos)
  have "length (strip_sign v) \<le> 4" by (rule minimal_length) (use x v(4,5) in \<open>simp_all add: strip_sign_idem\<close>)
  then show "read_integer r = Some (x, rest)" using v(1,2) x by (simp add: read_integer_def sval_def sval_from_def Let_def)
qed

section \<open>Object identifiers\<close>

lemma byte_parts:
  fixes b :: u8
  shows "unat (b AND 127) < 128" and "b AND 128 \<noteq> 0 \<Longrightarrow> (b AND 127) OR 128 = b" and "b AND 128 = 0 \<Longrightarrow> b AND 127 = b"
proof -
  have m: "b AND 127 = take_bit 7 b" by (simp add: take_bit_eq_mask mask_numeral)
  then show "unat (b AND 127) < 128" using take_bit_nat_less_exp [of 7 "unat b"] by (simp add: unsigned_take_bit_eq)
  have "(127 OR 128 :: u8) = - 1" by simp
  then have "b = b AND (127 OR 128)" by (metis bit.conj_one_right)
  then have split: "b = (b AND 127) OR (b AND 128)" by (simp only: bit.conj_disj_distrib)
  then show "b AND 128 = 0 \<Longrightarrow> b AND 127 = b" by simp
  assume "b AND 128 \<noteq> 0"
  then have "bit b 7" using and_exp_eq_0_iff_not_bit [of b 7] by simp
  moreover have "b AND 2 ^ n = 2 ^ n" if "bit b n" for n using that by (intro bit_word_eqI) (auto simp: bit_and_iff bit_exp_iff)
  from this [of 7] have "bit b 7 \<Longrightarrow> b AND 128 = 128" by simp
  ultimately have "b AND 128 = 128" by simp
  then show "(b AND 127) OR 128 = b" using split by simp
qed

lemma read_subid_inv:
  "read_subid count x v = Some (y, rest) \<Longrightarrow>
    \<exists>ds e. v = map (\<lambda>d. d OR 128) ds @ e # rest \<and> (\<forall>d\<in>set ds. unat d < 128) \<and> unat e < 128 \<and>
      (count = 0 \<longrightarrow> ds \<noteq> [] \<longrightarrow> hd ds \<noteq> 0) \<and> y = foldl (\<lambda>x d. x * 128 + unat d) x (ds @ [e])"
proof (induction count x v arbitrary: y rest rule: read_subid.induct)
  case (2 count x b v)
  have b: "\<not> 5 < count + 1" "\<not> (count + 1 = 1 \<and> b = 128)" using "2.prems" by (auto simp: Let_def split: if_splits)
  show ?case
  proof (cases "b AND 128 = 0")
    case True
    then have "v = rest" "y = x * 128 + unat b" using "2.prems" b byte_parts(3) [OF True] by (auto simp: Let_def split: if_splits)
    then show ?thesis using byte_parts(1) [of b] byte_parts(3) [OF True] by (intro exI [of _ "[]"] exI [of _ b]) simp
  next
    case False
    have "read_subid (count + 1) (x * 128 + unat (b AND 127)) v = Some (y, rest)"
      using "2.prems" False by (auto simp: Let_def split: if_splits)
    from "2.IH" [OF refl _ refl False this] b
    obtain ds e where v: "v = map (\<lambda>d. d OR 128) ds @ e # rest" "\<forall>d\<in>set ds. unat d < 128" "unat e < 128"
        "y = foldl (\<lambda>x d. x * 128 + unat d) (x * 128 + unat (b AND 127)) (ds @ [e])" by auto
    have "b AND 127 \<noteq> 0" if "count = 0" using b(2) byte_parts(2) [OF False] that by auto
    then show ?thesis
      using v byte_parts(1) [of b] byte_parts(2) [OF False] by (intro exI [of _ "(b AND 127) # ds"] exI [of _ e]) auto
  qed
qed simp

lemma base128_unique:
  "ds \<noteq> [] \<Longrightarrow> \<forall>d\<in>set ds. unat d < 128 \<Longrightarrow> (1 < length ds \<longrightarrow> last ds \<noteq> 0) \<Longrightarrow>
    base128 (foldr (\<lambda>d x. x * 128 + unat d) ds 0) = ds"
proof (induction ds)
  case (Cons d ds)
  let ?V = "foldr (\<lambda>d x. x * 128 + unat d) ds 0"
  have d: "unat d < 128" using Cons.prems by simp
  then have parts: "(?V * 128 + unat d) mod 128 = unat d" "(?V * 128 + unat d) div 128 = ?V" by simp_all
  show ?case
  proof (cases "ds = []")
    case True
    then show ?thesis using d by (simp add: base128.simps [of "unat d"])
  next
    case False
    have pos: "foldr (\<lambda>d x. x * 128 + unat d) es 0 \<noteq> 0" if "es \<noteq> []" "last es \<noteq> 0" for es :: bytes
      using that by (induction es) (auto split: if_splits simp: unat_eq_0)
    have "?V \<noteq> 0" using pos [OF False] Cons.prems False by auto
    moreover have "base128 ?V = ds" using Cons.IH False Cons.prems by auto
    ultimately show ?thesis using base128.simps [of "?V * 128 + unat d"] unfolding parts by simp
  qed
qed simp

lemma read_subid_iff: "x < 2 ^ 35 \<Longrightarrow> read_subid 0 0 v = Some (x, rest) \<longleftrightarrow> v = subid_bytes x @ rest"
proof
  assume "read_subid 0 0 v = Some (x, rest)"
  from read_subid_inv [OF this] obtain ds e where v: "v = map (\<lambda>d. d OR 128) ds @ e # rest" "\<forall>d\<in>set ds. unat d < 128" "unat e < 128"
      "ds \<noteq> [] \<longrightarrow> hd ds \<noteq> 0" "x = foldl (\<lambda>x d. x * 128 + unat d) 0 (ds @ [e])" by auto
  have "base128 x = e # rev ds"
    using base128_unique [of "e # rev ds"] v(2-5) by (simp add: foldl_conv_foldr last_rev)
  then show "v = subid_bytes x @ rest" by (simp add: subid_bytes_def v(1))
qed (simp add: read_subid_bytes)

lemma read_subid_bound: "read_subid 0 0 v = Some (x, rest) \<Longrightarrow> x < 2 ^ 35"
proof -
  have "read_subid count x v = Some (y, rest) \<Longrightarrow> count \<le> 5 \<Longrightarrow> x < 128 ^ count \<Longrightarrow> y < 128 ^ 5" for count x y v rest
  proof (induction count x v arbitrary: y rest rule: read_subid.induct)
    case (2 count x b v)
    have c: "Suc count \<le> 5" using "2.prems" by (auto simp: Let_def split: if_splits)
    have "x * 128 + unat (b AND 127) < 128 ^ Suc count" using "2.prems"(3) byte_parts(1) [of b] by simp
    moreover have "(128 :: nat) ^ Suc count \<le> 128 ^ 5" using c by (intro power_increasing) simp_all
    ultimately show ?case using "2.prems" "2.IH" c by (auto simp: Let_def split: if_splits)
  qed simp
  from this [of 0 0 v x rest] show "read_subid 0 0 v = Some (x, rest) \<Longrightarrow> x < 2 ^ 35" by simp
qed

lemma oid_arcs_inv:
  "oid_arcs v arcs = Some oi \<Longrightarrow> arcs \<noteq> [] \<Longrightarrow> length arcs \<le> SNMP_OID_MAX \<Longrightarrow>
    length oi \<le> SNMP_OID_MAX \<and> (\<exists>as. oi = arcs @ as \<and> v = concat (map (subid_bytes \<circ> unat) as))"
proof (induction v arcs arbitrary: oi rule: oid_arcs.induct)
  case (1 v arcs)
  show ?case
  proof (cases "v = []")
    case True
    then show ?thesis using 1(3-) by (auto simp: oid_arcs.simps [of "[]"])
  next
    case False
    then obtain x rest where x: "read_subid 0 0 v = Some (x, rest)" "\<not> 2 ^ 32 - 1 < x" "length arcs \<noteq> SNMP_OID_MAX"
        "oid_arcs rest (arcs @ [word_of_nat x]) = Some oi"
      using 1(3,4) by (subst (asm) oid_arcs.simps) (auto split: option.splits if_splits prod.splits)
    have "unat (word_of_nat x :: u32) = x" using x(2) by (simp add: unat_of_nat take_bit_eq_mod)
    moreover have "v = subid_bytes x @ rest" using x(1) read_subid_bound [OF x(1)] by (simp add: read_subid_iff)
    moreover obtain as where "length oi \<le> SNMP_OID_MAX" "oi = (arcs @ [word_of_nat x]) @ as" "rest = concat (map (subid_bytes \<circ> unat) as)"
      using "1.IH"(2) [OF False x(1) refl 1(4)] x 1(5) by (auto simp: comp_def)
    ultimately show ?thesis by (auto simp: comp_def intro!: exI [of _ "word_of_nat x # as"])
  qed
qed

text \<open>The reader of object identifiers inverts their encoding, and accepts nothing else.\<close>

lemma oid_read_iff: "oid_read v = Some oi \<longleftrightarrow> oid_valid oi \<and> v = oid_bytes oi"
proof
  assume got: "oid_read v = Some oi"
  then have ne: "v \<noteq> []" "oid_arcs v [] = Some oi" by (auto simp: oid_read_def split: if_splits)
  then obtain x rest where x: "read_subid 0 0 v = Some (x, rest)" using oid_arcs.simps [of v "[]"] by (auto split: option.splits)
  define top :: nat where "top = (if x < 40 then 0 else if x < 80 then 1 else 2)"
  have r: "x - top * 40 \<le> 2 ^ 32 - 1" "oid_arcs rest [word_of_nat top, word_of_nat (x - top * 40)] = Some oi"
    using ne x by (auto simp: oid_arcs.simps [of v] top_def Let_def split: if_splits)
  obtain as where as: "length oi \<le> SNMP_OID_MAX" "oi = [word_of_nat top, word_of_nat (x - top * 40)] @ as" "rest = concat (map (subid_bytes \<circ> unat) as)"
    using oid_arcs_inv [OF r(2)] by auto
  have u: "unat (word_of_nat top :: u32) = top" "unat (word_of_nat (x - top * 40) :: u32) = x - top * 40"
  proof -
    have w: "unat (word_of_nat n :: u32) = n" if "n \<le> 2 ^ 32 - 1" for n using that by (simp add: unat_of_nat take_bit_eq_mod)
    show "unat (word_of_nat top :: u32) = top" by (rule w) (simp add: top_def)
    show "unat (word_of_nat (x - top * 40) :: u32) = x - top * 40" by (rule w [OF r(1)])
  qed
  have "v = subid_bytes x @ rest" using x read_subid_bound [OF x] by (simp add: read_subid_iff)
  moreover have "top * 40 + (x - top * 40) = x" "top \<le> 2" "top < 2 \<Longrightarrow> x - top * 40 < 40" by (auto simp: top_def split: if_splits)
  ultimately show "oid_valid oi \<and> v = oid_bytes oi" using as u by (auto simp: oid_valid_def oid_bytes_def)
qed (use oid_round_trip in blast)

section \<open>Messages\<close>

text \<open>A message has the version 2c, which is the number 1, the community, and a protocol data unit whose tag is the operation: the request
  identifier, two numbers whose meaning depends on the operation, and a list of variable bindings. A request is a message with one of the four
  operations a manager asks for and at most 32 bindings; each names an object and carries one element, which a request leaves open.\<close>

definition message :: "bytes \<Rightarrow> u8 \<Rightarrow> int \<Rightarrow> int \<Rightarrow> int \<Rightarrow> bytes \<Rightarrow> bytes \<Rightarrow> bool" where
  "message community operation rid num1 num2 list bs \<longleftrightarrow>
     (\<exists>version com i1 i2 i3 vars pdu. integer_element 1 version \<and> element 4 community com \<and>
        integer_element rid i1 \<and> integer_element num1 i2 \<and> integer_element num2 i3 \<and> element 0x30 list vars \<and>
        element operation (i1 @ i2 @ i3 @ vars) pdu \<and> element 0x30 (version @ com @ pdu) bs)"

definition varbind :: "oid \<Rightarrow> bytes \<Rightarrow> bool" where
  "varbind oi bs \<longleftrightarrow> oid_valid oi \<and> (\<exists>name tag v val. element 6 (oid_bytes oi) name \<and> element tag v val \<and> element 0x30 (name @ val) bs)"

definition request_message :: "bytes \<Rightarrow> u8 \<Rightarrow> int \<Rightarrow> int \<Rightarrow> int \<Rightarrow> oid list \<Rightarrow> bytes \<Rightarrow> bool" where
  "request_message community operation rid num1 num2 oids bs \<longleftrightarrow>
     operation \<in> {0xa0, 0xa1, 0xa3, 0xa5} \<and> length oids \<le> 32 \<and>
     (\<exists>binds. list_all2 varbind oids binds \<and> message community operation rid num1 num2 (concat binds) bs)"

lemma element_nonempty: "element tag v bs \<Longrightarrow> bs \<noteq> []"
  by (auto simp: element_def)

lemma varbind_iff:
  "varbind oi bs \<longleftrightarrow> (\<exists>vb v rest tag w. element 0x30 vb bs \<and> expect 6 vb = Some (v, rest) \<and> oid_read v = Some oi \<and> tlv rest = Some (tag, w, []))"
  by (fastforce simp: varbind_def expect_iff tlv_iff oid_read_iff)

lemma parse_bindings_inv:
  "parse_bindings list oids = Some res \<Longrightarrow> length oids \<le> REQUEST_MAX \<Longrightarrow>
    length res \<le> REQUEST_MAX \<and> (\<exists>new binds. res = oids @ new \<and> list = concat binds \<and> list_all2 varbind new binds)"
proof (induction list oids arbitrary: res rule: parse_bindings.induct)
  case (1 list oids)
  show ?case
  proof (cases "list = []")
    case True
    then show ?thesis using 1(2,3) by (simp add: parse_bindings.simps [of "[]"])
  next
    case False
    then obtain vb rest v vb' oi tag w where p: "length oids \<noteq> REQUEST_MAX" "expect 0x30 list = Some (vb, rest)" "expect 6 vb = Some (v, vb')"
        "oid_read v = Some oi" "tlv vb' = Some (tag, w, [])" "parse_bindings rest (oids @ [oi]) = Some res"
      using 1(2) by (subst (asm) parse_bindings.simps) (auto split: if_splits option.splits prod.splits list.splits)
    obtain b where b: "element 0x30 vb b" "list = b @ rest" using p(2) by (auto simp: expect_iff)
    have "varbind oi b" unfolding varbind_iff using b(1) p(3-5) by blast
    moreover obtain new binds where "length res \<le> REQUEST_MAX" "res = (oids @ [oi]) @ new" "rest = concat binds" "list_all2 varbind new binds"
      using "1.IH" [OF False p(1,2) refl p(3) refl p(4,5) refl refl refl] p(1,6) 1(3) by auto
    ultimately show ?thesis using b(2) by (auto intro!: exI [of _ "oi # new"] exI [of _ "b # binds"])
  qed
qed

lemma parse_bindings_complete:
  "list_all2 varbind new binds \<Longrightarrow> length (oids @ new) \<le> REQUEST_MAX \<Longrightarrow> parse_bindings (concat binds) oids = Some (oids @ new)"
proof (induction arbitrary: oids rule: list_all2_induct)
  case Nil
  then show ?case by (simp add: parse_bindings.simps)
next
  case (Cons oi new b binds)
  obtain vb v rest tag w where p: "element 0x30 vb b" "expect 6 vb = Some (v, rest)" "oid_read v = Some oi" "tlv rest = Some (tag, w, [])"
    using Cons.hyps(1) unfolding varbind_iff by blast
  have "expect 0x30 (b @ concat binds) = Some (vb, concat binds)" using p(1) by (auto simp: expect_iff)
  then show ?case
    using Cons.IH [of "oids @ [oi]"] Cons.prems p(2-4) element_nonempty [OF p(1)] by (subst parse_bindings.simps) simp
qed

text \<open>The reader of requests accepts exactly the messages of its community and returns what they were made of.\<close>

lemma request_iff:
  "(\<exists>rq. parse_header input community = Some rq \<and> parse_bindings (rq_list rq) [] = Some oids \<and>
      rq_operation rq = operation \<and> rq_id rq = rid \<and> rq_first rq = num1 \<and> rq_second rq = num2) \<longleftrightarrow>
   request_message community operation rid num1 num2 oids input"
proof
  assume "\<exists>rq. parse_header input community = Some rq \<and> parse_bindings (rq_list rq) [] = Some oids \<and>
      rq_operation rq = operation \<and> rq_id rq = rid \<and> rq_first rq = num1 \<and> rq_second rq = num2"
  then obtain rq where rq: "parse_header input community = Some rq" "parse_bindings (rq_list rq) [] = Some oids"
      "rq_operation rq = operation" "rq_id rq = rid" "rq_first rq = num1" "rq_second rq = num2" by blast
  from rq(1) obtain msg m1 m2 pdu p1 p2 p3 where p: "expect 0x30 input = Some (msg, [])" "read_integer msg = Some (1, m1)"
      "expect 4 m1 = Some (community, m2)" "tlv m2 = Some (rq_operation rq, pdu, [])" "rq_operation rq \<in> {0xa0, 0xa1, 0xa3, 0xa5}"
      "read_integer pdu = Some (rq_id rq, p1)" "read_integer p1 = Some (rq_first rq, p2)" "read_integer p2 = Some (rq_second rq, p3)"
      "expect 0x30 p3 = Some (rq_list rq, [])"
    by (auto simp: parse_header_def split: option.splits prod.splits list.splits if_splits)
  obtain binds where "length oids \<le> 32" "rq_list rq = concat binds" "list_all2 varbind oids binds"
    using parse_bindings_inv [OF rq(2)] by auto
  with p rq(3-6) show "request_message community operation rid num1 num2 oids input"
    by (clarsimp simp: request_message_def message_def expect_iff tlv_iff read_integer_iff) blast
next
  assume "request_message community operation rid num1 num2 oids input"
  then obtain version com i1 i2 i3 binds lst pdu where m: "operation \<in> {0xa0, 0xa1, 0xa3, 0xa5}" "length oids \<le> 32"
      "integer_element 1 version" "element 4 community com" "integer_element rid i1" "integer_element num1 i2" "integer_element num2 i3"
      "list_all2 varbind oids binds" "element 0x30 (concat binds) lst" "element operation (i1 @ i2 @ i3 @ lst) pdu"
      "element 0x30 (version @ com @ pdu) input"
    unfolding request_message_def message_def by blast
  have "expect 0x30 input = Some (version @ com @ pdu, [])" "read_integer (version @ com @ pdu) = Some (1, com @ pdu)"
      "expect 4 (com @ pdu) = Some (community, pdu)" "tlv pdu = Some (operation, i1 @ i2 @ i3 @ lst, [])"
      "read_integer (i1 @ i2 @ i3 @ lst) = Some (rid, i2 @ i3 @ lst)" "read_integer (i2 @ i3 @ lst) = Some (num1, i3 @ lst)"
      "read_integer (i3 @ lst) = Some (num2, lst)" "expect 0x30 lst = Some (concat binds, [])"
    using m by (auto simp: expect_iff tlv_iff read_integer_iff)
  then have "parse_header input community = Some \<lparr>rq_operation = operation, rq_id = rid, rq_first = num1, rq_second = num2, rq_list = concat binds\<rparr>"
    using m(1) by (simp add: parse_header_def)
  moreover have "parse_bindings (concat binds) [] = Some oids" using parse_bindings_complete [OF m(8), of "[]"] m(2) by simp
  ultimately show "\<exists>rq. parse_header input community = Some rq \<and> parse_bindings (rq_list rq) [] = Some oids \<and>
      rq_operation rq = operation \<and> rq_id rq = rid \<and> rq_first rq = num1 \<and> rq_second rq = num2" by simp
qed

text \<open>What the writer writes is such a message.\<close>

lemma element_ber: "length v < 65536 \<Longrightarrow> element tag v (ber tag v)"
  using tlv_ber [of v tag "[]"] by (simp add: tlv_iff)

lemma integer_int_bytes: "- (2 ^ 31) \<le> x \<Longrightarrow> x < 2 ^ 31 \<Longrightarrow> integer_element x (int_bytes x)"
  using read_int_bytes [of x "[]"] by (simp add: read_integer_iff)

lemma message_reply_bytes:
  assumes "- (2 ^ 31) \<le> rid" "rid < 2 ^ 31" "error < 128" "index < 128" "length community \<le> 64"
    and "length (reply_bytes community rid error index list) < 65536"
  shows "message community 0xa2 rid (int error) (int index) list (reply_bytes community rid error index list)"
proof -
  let ?pdu = "int_bytes rid @ int_bytes (int error) @ int_bytes (int index) @ ber 0x30 list"
  let ?msg = "int_bytes 1 @ ber 4 community @ ber 0xa2 ?pdu"
  have len: "length ?msg < 65536" "length ?pdu < 65536" "length list < 65536"
    using assms(6) ber_length_ge [of ?msg "0x30"] ber_length_ge [of ?pdu "0xa2"] ber_length_ge [of list "0x30"]
    by (simp_all add: reply_bytes_def)
  have "element 4 community (ber 4 community)" using assms(5) by (intro element_ber) simp
  moreover have "integer_element 1 (int_bytes 1)" by (intro integer_int_bytes) simp_all
  moreover have "integer_element (int error) (int_bytes (int error))" "integer_element (int index) (int_bytes (int index))"
    using assms(3,4) by (intro integer_int_bytes; simp)+
  ultimately show ?thesis unfolding message_def reply_bytes_def
    using integer_int_bytes [OF assms(1,2)] element_ber [OF len(1)] element_ber [OF len(2)] element_ber [OF len(3)] by blast
qed

end
