(* ===== verification/Snmp_Replies.thy ===== *)
theory Snmp_Replies
  imports Snmp_Grammar
begin

text \<open>
  What the SNMP engine of \<^verbatim>\<open>software/r5/src/snmp_protocol.c\<close> promises: a reply to every well-formed
  request and to nothing else, the envelope of each reply, the bindings of a GET or GETNEXT reply, and the
  order of a walk. Requests and replies are described by the grammar, objects by the lexicographic order of their identifiers.
\<close>

section \<open>The header of a request\<close>

lemma parse_header_range:
  assumes "parse_header input community = Some rq"
  shows "- (2 ^ 31) \<le> rq_id rq" and "rq_id rq < 2 ^ 31" and "rq_operation rq \<in> {0xa0, 0xa1, 0xa3, 0xa5}"
proof -
  have "- (2 ^ 31) \<le> rq_id rq \<and> rq_id rq < 2 ^ 31"
    using assms
    by (auto simp: parse_header_def split: option.splits prod.splits if_splits list.splits
        dest: read_integer_range)
  then show "- (2 ^ 31) \<le> rq_id rq" "rq_id rq < 2 ^ 31" by simp_all
  show "rq_operation rq \<in> {0xa0, 0xa1, 0xa3, 0xa5}"
    using assms by (auto simp: parse_header_def split: option.splits prod.splits if_splits list.splits)
qed

lemma parse_bindings_count:
  "parse_bindings list oids = Some res \<Longrightarrow> length oids \<le> REQUEST_MAX \<Longrightarrow> length res \<le> REQUEST_MAX"
proof (induction list oids rule: parse_bindings.induct)
  case (1 list oids)
  show ?case
    using "1.prems" "1.IH"
    by (subst (asm) parse_bindings.simps)
       (force split: if_splits option.splits prod.splits list.splits)
qed

section \<open>The loops over the bindings\<close>

text \<open>The body writer never exceeds its capacity.\<close>

definition body_fits :: "nat \<Rightarrow> outcome \<times> answer \<Rightarrow> bool" where
  "body_fits cap oa \<longleftrightarrow>
     w_cap (an_w (snd oa)) = cap \<and> length (w_data (an_w (snd oa))) \<le> cap"

lemma answer_one_fits: "body_fits cap oa \<Longrightarrow> body_fits cap (answer_one operation m oa i)"
proof -
  assume fits: "body_fits cap oa"
  obtain st a where oa: "oa = (st, a)" by (cases oa)
  note b = emitsD(1,5) [OF emits_binding]
  have "length (take n d) \<le> cap" if "length d \<le> cap" for n and d :: bytes using that by simp
  then show ?thesis
    using fits b unfolding oa body_fits_def answer_one_def
    by (auto simp: Let_def split: option.splits)
qed

lemma answer_fold_fits:
  "body_fits cap oa \<Longrightarrow> body_fits cap (foldl (answer_one operation m) oa is)"
  by (induction "is" arbitrary: oa) (simp_all add: answer_one_fits)

lemma answer_rounds_fits:
  "body_fits cap oa \<Longrightarrow> body_fits cap (answer_rounds operation m nonrepeat count rounds oa)"
proof (induction operation m nonrepeat count rounds oa rule: answer_rounds.induct)
  case (2 operation m nonrepeat count round rounds st a)
  let ?s = "if round \<noteq> 0 then nonrepeat else 0" and ?e = "if round \<noteq> 0 then count else nonrepeat"
  obtain st' a' where f: "foldl (answer_one operation m) (st, a\<lparr>an_all_end := True\<rparr>) [?s..<?e] = (st', a')"
    by fastforce
  have "body_fits cap (st, a\<lparr>an_all_end := True\<rparr>)" using 2(2) by (simp add: body_fits_def)
  from answer_fold_fits [OF this, of operation m "[?s..<?e]"] have "body_fits cap (st', a')" by (simp only: f)
  then show ?case
    using "2.IH" [OF refl refl f [symmetric] refl] unfolding answer_rounds.simps Let_def f prod.case by auto
qed simp

section \<open>A reply to every well-formed request\<close>

text \<open>The requests that are answered: messages of the configured community in a datagram of at most 1400 bytes.\<close>

definition well_formed :: "bytes \<Rightarrow> nat \<Rightarrow> bytes \<Rightarrow> bool" where
  "well_formed input cap community \<longleftrightarrow>
     length input \<le> SNMP_PACKET_MAX \<and> 128 \<le> cap \<and> community \<noteq> [] \<and> length community \<le> 64 \<and>
     (\<exists>operation rid num1 num2 oids. request_message community operation rid num1 num2 oids input)"

lemma well_formed_parsed:
  "well_formed input cap community \<longleftrightarrow>
     length input \<le> SNMP_PACKET_MAX \<and> 128 \<le> cap \<and> community \<noteq> [] \<and> length community \<le> 64 \<and>
     (\<exists>rq oids. parse_header input community = Some rq \<and> parse_bindings (rq_list rq) [] = Some oids)"
  unfolding well_formed_def request_iff [symmetric] by blast

text \<open>Every result of the engine, by cases.\<close>

lemma snmp_respond_cases:
  assumes "parse_header input community = Some rq" and "parse_bindings (rq_list rq) [] = Some oids"
    and "length input \<le> SNMP_PACKET_MAX" "128 \<le> cap" "community \<noteq> []" "length community \<le> 64"
  obtains error index list where
    "snmp_respond input cap community m = Some (reply_bytes community (rq_id rq) error index list)"
    "length (reply_bytes community (rq_id rq) error index list) \<le> cap"
    "error \<in> {0, 1, 17}" "index \<le> 1"
    "rq_operation rq = 0xa3 \<Longrightarrow> oids \<noteq> [] \<Longrightarrow> error \<noteq> 0"
proof -
  let ?rid = "rq_id rq"
  note rid = parse_header_range(1,2) [OF assms(1)]
  have resp: "response cap community ?rid e i l = Some (reply_bytes community ?rid e i l)
      \<and> length (reply_bytes community ?rid e i l) \<le> cap"
    if "length l + 112 \<le> cap" "e < 128" "i < 128" for e i l
    using response_total [OF assms(6) rid that(2,3,1)] response_sound [OF assms(6) rid that(2,3)] by blast
  note small = resp [of "[]" 1 0, simplified]
  show thesis
  proof (cases "rq_operation rq = 0xa3")
    case set: True
    let ?e = "if length oids \<noteq> 0 then 17 else 0 :: nat" and ?i = "if length oids \<noteq> 0 then 1 else 0 :: nat"
    show thesis
    proof (cases "response cap community ?rid ?e ?i (rq_list rq)")
      case None
      then have "snmp_respond input cap community m = response cap community ?rid 1 0 []"
        using assms set by (simp add: snmp_respond_def Let_def)
      then show thesis using small assms(4) by (intro that [of 1 0 "[]"]) auto
    next
      case (Some out)
      then have "snmp_respond input cap community m = Some out"
        using assms set by (simp add: snmp_respond_def Let_def)
      moreover have "out = reply_bytes community ?rid ?e ?i (rq_list rq) \<and> length out \<le> cap"
        by (rule response_sound [OF assms(6) rid _ _ Some]) auto
      ultimately show thesis by (intro that [of ?e ?i "rq_list rq"]) (auto split: if_splits)
    qed
  next
    case get: False
    let ?limit = "if SNMP_PACKET_MAX < cap then SNMP_PACKET_MAX else cap"
    let ?a0 = "\<lparr>an_oids = oids, an_w = \<lparr>w_data = [], w_cap = ?limit - 112, w_ok = True\<rparr>, an_emitted = 0,
                an_all_end = True\<rparr>"
    let ?op = "rq_operation rq" and ?count = "length oids"
    let ?nonrepeat = "if ?op = 0xa5
        then (if rq_first rq < 0 then 0 else if int ?count < rq_first rq then ?count else nat (rq_first rq)) else ?count"
    let ?repeats = "if ?op = 0xa5
        then (if rq_second rq < 0 then 0 else min RESPONSE_MAX (nat (rq_second rq))) else 0"
    obtain st a where run: "answer_rounds ?op m ?nonrepeat ?count [0..<Suc ?repeats] (Running, ?a0) = (st, a)"
      by fastforce
    have res: "snmp_respond input cap community m =
        (if st = Too_Big then response cap community ?rid 1 0 []
         else response cap community ?rid 0 0 (w_data (an_w a)))"
      using assms(3-6) get unfolding snmp_respond_def assms(1,2) Let_def option.case run prod.case by simp
    have "body_fits (?limit - 112) (Running, ?a0)" by (simp add: body_fits_def)
    from answer_rounds_fits [OF this, of ?op m ?nonrepeat ?count "[0..<Suc ?repeats]"]
    have "body_fits (?limit - 112) (st, a)" by (simp only: run)
    then have "length (w_data (an_w a)) + 112 \<le> cap"
      using assms(4) by (auto simp: body_fits_def split: if_splits)
    then show thesis using that [of 1 0 "[]"] that [of 0 0 "w_data (an_w a)"] small resp assms(4) res get
      by (cases "st = Too_Big") simp_all
  qed
qed

text \<open>The engine answers exactly the well-formed requests: a datagram of at most 1400 bytes with a
  valid SNMPv2c header under the configured community, one of the four supported operations and at most 32 well-formed
  bindings always gets a reply, and nothing else gets one.\<close>
theorem snmp_respond_iff:
  "(\<exists>out. snmp_respond input cap community m = Some out) \<longleftrightarrow> well_formed input cap community"
proof
  assume "\<exists>out. snmp_respond input cap community m = Some out"
  then show "well_formed input cap community"
    by (fastforce simp: snmp_respond_def well_formed_parsed not_less split: if_splits option.splits)
next
  assume "well_formed input cap community"
  then show "\<exists>out. snmp_respond input cap community m = Some out"
    unfolding well_formed_parsed using snmp_respond_cases by metis
qed

text \<open>Every reply fits the caller's buffer and is a version-2c response message under the same
  community and with the request's identifier; its error status is noError, tooBig or notWritable, and a SET with
  bindings is never answered with noError.\<close>
theorem snmp_respond_envelope:
  assumes "snmp_respond input cap community m = Some out" and "cap \<le> 65535"
  shows "length out \<le> cap \<and>
    (\<exists>operation rid num1 num2 oids error index list. request_message community operation rid num1 num2 oids input \<and>
      message community 0xa2 rid error index list out \<and> error \<in> {0, 1, 17} \<and> (operation = 0xa3 \<and> oids \<noteq> [] \<longrightarrow> error \<noteq> 0))"
proof -
  have "well_formed input cap community" using assms(1) snmp_respond_iff by blast
  then obtain rq oids where wf: "parse_header input community = Some rq" "parse_bindings (rq_list rq) [] = Some oids"
      "length input \<le> SNMP_PACKET_MAX" "128 \<le> cap" "community \<noteq> []" "length community \<le> 64"
    unfolding well_formed_parsed by blast
  obtain error index list where
    r: "snmp_respond input cap community m = Some (reply_bytes community (rq_id rq) error index list)"
    "length (reply_bytes community (rq_id rq) error index list) \<le> cap" "error \<in> {0, 1, 17}" "index \<le> 1"
    "rq_operation rq = 0xa3 \<Longrightarrow> oids \<noteq> [] \<Longrightarrow> error \<noteq> 0"
    using snmp_respond_cases [OF wf, of m thesis] by blast
  have out: "out = reply_bytes community (rq_id rq) error index list" using assms(1) r(1) by simp
  have "message community 0xa2 (rq_id rq) (int error) (int index) list out"
    unfolding out
    by (rule message_reply_bytes [OF parse_header_range(1,2) [OF wf(1)] _ _ wf(6)]) (use r(2,3,4) assms(2) in auto)
  moreover have "request_message community (rq_operation rq) (rq_id rq) (rq_first rq) (rq_second rq) oids input"
    using wf(1,2) request_iff by blast
  moreover have "int error \<in> {0, 1, 17}" "rq_operation rq = 0xa3 \<and> oids \<noteq> [] \<longrightarrow> int error \<noteq> 0" using r(3,5) by auto
  ultimately show ?thesis using r(2) out by blast
qed

section \<open>The order of the objects\<close>

lemma compare_oid_refl [simp]: "compare_oid a a = 0"
  by (induction a) auto

lemma compare_oid_eq: "compare_oid a b = 0 \<longleftrightarrow> a = b"
  by (induction a b rule: compare_oid.induct) auto

lemma compare_oid_flip: "compare_oid b a = - compare_oid a b"
  by (induction a b rule: compare_oid.induct) (auto dest: less_asym)

lemma compare_oid_trans: "compare_oid a b < 0 \<Longrightarrow> compare_oid b c < 0 \<Longrightarrow> compare_oid a c < 0"
proof (induction a b arbitrary: c rule: compare_oid.induct)
  case (2 b bs)
  then show ?case by (cases c) auto
next
  case (4 a as b bs)
  then show ?case by (cases c) (auto split: if_splits intro: less_trans dest: less_asym)
qed auto

text \<open>The order the objects of a MIB are kept in.\<close>

definition mib_sorted :: "snmp_mib \<Rightarrow> bool" where
  "mib_sorted m = sorted_wrt (\<lambda>x y. compare_oid (obj_oid x) (obj_oid y) < 0) m"

lemma lookup_next_Cons:
  "lookup (x # m) oi True = (if 0 < compare_oid (obj_oid x) oi then Some x else lookup m oi True)"
  by (simp add: lookup_def Let_def)

lemma lookup_next_iff:
  assumes "mib_sorted m"
  shows "lookup m oi True = Some x \<longleftrightarrow>
    x \<in> set m \<and> 0 < compare_oid (obj_oid x) oi \<and>
    (\<forall>y\<in>set m. 0 < compare_oid (obj_oid y) oi \<longrightarrow> y = x \<or> compare_oid (obj_oid x) (obj_oid y) < 0)"
  using assms
proof (induction m)
  case Nil
  then show ?case by (simp add: lookup_def)
next
  case (Cons z m)
  have z: "compare_oid (obj_oid z) (obj_oid y) < 0" if "y \<in> set m" for y
    using Cons.prems that by (simp add: mib_sorted_def)
  have m: "mib_sorted m" using Cons.prems by (simp add: mib_sorted_def)
  have zx: "\<not> compare_oid (obj_oid x) (obj_oid z) < 0" if "x \<in> set m"
    using z [OF that] compare_oid_flip [of "obj_oid z" "obj_oid x"] by simp
  show ?case
  proof (cases "0 < compare_oid (obj_oid z) oi")
    case True
    then show ?thesis using z zx by (auto simp: lookup_next_Cons)
  next
    case False
    then show ?thesis using Cons.IH [OF m] by (auto simp: lookup_next_Cons)
  qed
qed

lemma sorted_nth_compare:
  "mib_sorted m \<Longrightarrow> i < length m \<Longrightarrow> j < length m \<Longrightarrow> compare_oid (obj_oid (m ! i)) (obj_oid (m ! j)) < 0 \<longleftrightarrow> i < j"
  by (metis (no_types, lifting) compare_oid_flip compare_oid_refl linorder_neqE_nat mib_sorted_def
      neg_less_0_iff_less not_less_iff_gr_or_eq sorted_wrt_nth_less)

lemma lookup_none_iff: "lookup m oi True = None \<longleftrightarrow> (\<forall>y\<in>set m. compare_oid (obj_oid y) oi \<le> 0)"
  by (auto simp: lookup_def find_None_iff Let_def not_less)

text \<open>The order the standard prescribes: lexicographic, arc by arc.\<close>

definition oid_less :: "oid \<Rightarrow> oid \<Rightarrow> bool" where
  "oid_less a b \<longleftrightarrow> (a, b) \<in> lexord {(x, y). x < y}"

lemma compare_oid_less: "compare_oid a b < 0 \<longleftrightarrow> oid_less a b"
  by (induction a b rule: compare_oid.induct) (auto simp: oid_less_def)

lemma compare_oid_greater: "0 < compare_oid a b \<longleftrightarrow> oid_less b a"
  using compare_oid_less [of b a] compare_oid_flip [of a b] by simp

lemma mib_sorted_iff: "mib_sorted m \<longleftrightarrow> sorted_wrt (\<lambda>x y. oid_less (obj_oid x) (obj_oid y)) m"
  by (simp add: mib_sorted_def compare_oid_less)

section \<open>The bindings of a GET or GETNEXT reply\<close>

definition answered :: "u8 \<Rightarrow> snmp_mib \<Rightarrow> oid \<Rightarrow> oid" where
  "answered operation m oi = (case lookup m oi (operation \<noteq> 0xa0) of None \<Rightarrow> oi | Some x \<Rightarrow> obj_oid x)"

definition answer_bytes :: "u8 \<Rightarrow> snmp_mib \<Rightarrow> oid \<Rightarrow> bytes" where
  "answer_bytes operation m oi =
     binding_bytes (answered operation m oi) (lookup m oi (operation \<noteq> 0xa0))
       (if operation \<noteq> 0xa0 then 0x82 else missing m (answered operation m oi))"

lemma answer_one_running:
  fixes a :: answer and m :: snmp_mib
  assumes "operation \<noteq> 0xa5" and "i < length (an_oids a)" and "an_emitted a < RESPONSE_MAX"
  defines "oi \<equiv> an_oids a ! i"
  defines "w \<equiv> binding (answered operation m oi) (lookup m oi (operation \<noteq> 0xa0))
       (if operation \<noteq> 0xa0 then 0x82 else missing m (answered operation m oi)) (an_w a)"
  obtains a' where "answer_one operation m (Running, a) i = (if w_ok w then Running else Too_Big, a')"
    and "an_w a' = w" and "an_oids a' = (an_oids a)[i := answered operation m oi]"
    and "w_ok w \<Longrightarrow> an_emitted a' = Suc (an_emitted a)"
proof -
  let ?o = "lookup m oi (operation \<noteq> 0xa0)"
  let ?a = "case ?o of None \<Rightarrow> a | Some x \<Rightarrow> a\<lparr>an_oids := (an_oids a)[i := obj_oid x], an_all_end := False\<rparr>"
  have a: "an_oids ?a = (an_oids a)[i := answered operation m oi]" "an_w ?a = an_w a" "an_emitted ?a = an_emitted a"
    by (auto simp: answered_def oi_def split: option.splits)
  have w: "binding (an_oids ?a ! i) ?o (if operation \<noteq> 0xa0 then 0x82 else missing m (an_oids ?a ! i)) (an_w ?a) = w"
    using assms(2) unfolding a w_def by simp
  have "answer_one operation m (Running, a) i =
      (if \<not> w_ok w \<or> an_emitted ?a = RESPONSE_MAX then (Too_Big, ?a\<lparr>an_w := w\<rparr>)
       else (Running, ?a\<lparr>an_w := w, an_emitted := an_emitted ?a + 1\<rparr>))"
    using assms(1) unfolding answer_one_def prod.case Let_def oi_def [symmetric] w by simp
  then show thesis
    using assms(3) a by (cases "w_ok w") (auto intro!: that)
qed

text \<open>After the first \<open>n\<close> bindings.\<close>

definition answered_upto :: "u8 \<Rightarrow> snmp_mib \<Rightarrow> oid list \<Rightarrow> nat \<Rightarrow> nat \<Rightarrow> outcome \<times> answer \<Rightarrow> bool" where
  "answered_upto operation m oids cap n oa \<longleftrightarrow>
     (case oa of (st, a) \<Rightarrow>
        w_cap (an_w a) = cap \<and>
        (st = Too_Big \<or>
         st = Running \<and> w_ok (an_w a) \<and> an_emitted a = n \<and>
           an_oids a = map (answered operation m) (take n oids) @ drop n oids \<and>
           w_data (an_w a) = concat (map (answer_bytes operation m) (take n oids))) \<and>
        (length (concat (map (answer_bytes operation m) (take n oids))) + 4 \<le> cap \<longrightarrow> st = Running))"

lemma answered_upto_step:
  assumes "operation \<noteq> 0xa5" and "n < length oids" and "n < RESPONSE_MAX"
    and "answered_upto operation m oids cap n oa"
  shows "answered_upto operation m oids cap (Suc n) (answer_one operation m oa n)"
proof -
  obtain st a where oa: "oa = (st, a)" by (cases oa)
  have cat: "concat (map (answer_bytes operation m) (take (Suc n) oids)) =
      concat (map (answer_bytes operation m) (take n oids)) @ answer_bytes operation m (oids ! n)"
    using assms(2) by (simp add: take_Suc_conv_app_nth)
  show ?thesis
  proof (cases "st = Running")
    case False
    then show ?thesis
      using assms(4) by (auto simp: oa answered_upto_def answer_one_def cat)
  next
    case True
    have inv: "w_cap (an_w a) = cap" "w_ok (an_w a)" "an_emitted a = n"
      "an_oids a = map (answered operation m) (take n oids) @ drop n oids"
      "w_data (an_w a) = concat (map (answer_bytes operation m) (take n oids))"
      using assms(4) True by (auto simp: oa answered_upto_def)
    let ?oi = "oids ! n"
    have oi: "an_oids a ! n = ?oi" "n < length (an_oids a)" using inv(4) assms(2) by (simp_all add: nth_append)
    let ?f = "binding (answered operation m ?oi) (lookup m ?oi (operation \<noteq> 0xa0))
       (if operation \<noteq> 0xa0 then 0x82 else missing m (answered operation m ?oi))"
    let ?w = "?f (an_w a)"
    have e: "emits ?f (answer_bytes operation m ?oi) (length (answer_bytes operation m ?oi) + 4)"
      unfolding answer_bytes_def by (rule emits_binding)
    note w = emitsD [OF e, of "an_w a"]
    obtain a' where a': "answer_one operation m (Running, a) n = (if w_ok ?w then Running else Too_Big, a')"
      "an_w a' = ?w" "an_oids a' = (an_oids a)[n := answered operation m ?oi]"
      "w_ok ?w \<Longrightarrow> an_emitted a' = Suc n"
      using answer_one_running [OF assms(1) oi(2), of m] assms(3) inv(3) unfolding oi(1) by metis
    have oids: "an_oids a' = map (answered operation m) (take (Suc n) oids) @ drop (Suc n) oids"
      using assms(2) inv(4) by (simp add: a'(3) list_update_append take_Suc_conv_app_nth
          flip: Cons_nth_drop_Suc)
    show ?thesis
      using w(1,3,6) inv a'(2,4) oids
      unfolding oa True a'(1) answered_upto_def cat by (auto simp: ac_simps)
  qed
qed

lemma answered_upto_fold:
  assumes "operation \<noteq> 0xa5" and "n \<le> length oids" and "n \<le> RESPONSE_MAX"
    and "answered_upto operation m oids cap 0 oa"
  shows "answered_upto operation m oids cap n (foldl (answer_one operation m) oa [0..<n])"
  using assms(2,3)
proof (induction n)
  case 0
  then show ?case using assms(4) by simp
next
  case (Suc n)
  then show ?case using answered_upto_step [OF assms(1), of n oids] by simp
qed

lemma snmp_get_cases:
  fixes m :: snmp_mib
  assumes "parse_header input community = Some rq" and "parse_bindings (rq_list rq) [] = Some oids"
    and "length input \<le> SNMP_PACKET_MAX" "128 \<le> cap" "community \<noteq> []" "length community \<le> 64"
    and "rq_operation rq \<in> {0xa0, 0xa1}"
  defines "body \<equiv> concat (map (answer_bytes (rq_operation rq) m) oids)"
  shows "snmp_respond input cap community m = Some (reply_bytes community (rq_id rq) 0 0 body) \<and> length body + 112 \<le> min SNMP_PACKET_MAX cap \<or>
         snmp_respond input cap community m = Some (reply_bytes community (rq_id rq) 1 0 []) \<and>
         min SNMP_PACKET_MAX cap < length body + 116"
proof -
  let ?limit = "if SNMP_PACKET_MAX < cap then SNMP_PACKET_MAX else cap"
  let ?op = "rq_operation rq" and ?n = "length oids"
  let ?a0 = "\<lparr>an_oids = oids, an_w = \<lparr>w_data = [], w_cap = ?limit - 112, w_ok = True\<rparr>, an_emitted = 0,
              an_all_end = True\<rparr>"
  have op: "?op \<noteq> 0xa5" "?op \<noteq> 0xa3" using assms(7) by auto
  obtain st a where fold: "foldl (answer_one ?op m) (Running, ?a0) [0..<?n] = (st, a)" by fastforce
  have "answered_upto ?op m oids (?limit - 112) 0 (Running, ?a0)" by (simp add: answered_upto_def)
  from answered_upto_fold [OF op(1) order_refl _ this] parse_bindings_count [OF assms(2)]
  have inv: "answered_upto ?op m oids (?limit - 112) ?n (st, a)" by (simp add: fold)
  have run: "answer_rounds ?op m ?n ?n [0..<Suc 0] (Running, ?a0) = (st, a)"
    using fold by (simp add: Let_def)
  have res: "snmp_respond input cap community m =
      (if st = Too_Big then response cap community (rq_id rq) 1 0 []
       else response cap community (rq_id rq) 0 0 (w_data (an_w a)))"
    using assms(3-6) op run unfolding snmp_respond_def assms(1,2) Let_def option.case by simp
  note rid = parse_header_range(1,2) [OF assms(1)]
  show ?thesis
  proof (cases "st = Too_Big")
    case True
    then have "min SNMP_PACKET_MAX cap < length body + 116"
      using inv assms(4) by (auto simp: answered_upto_def body_def split: if_splits)
    moreover have "snmp_respond input cap community m = Some (reply_bytes community (rq_id rq) 1 0 [])"
      using res True response_total [OF assms(6) rid, of 1 0 "[]" cap] assms(4) by simp
    ultimately show ?thesis by simp
  next
    case False
    then have data: "w_data (an_w a) = body" using inv by (auto simp: answered_upto_def body_def)
    have "body_fits (?limit - 112) (Running, ?a0)" by (simp add: body_fits_def)
    from answer_fold_fits [OF this, of ?op m "[0..<?n]"] have "body_fits (?limit - 112) (st, a)" by (simp only: fold)
    then have "length body + 112 \<le> min SNMP_PACKET_MAX cap" using assms(4) data by (auto simp: body_fits_def split: if_splits)
    then show ?thesis using res False data response_total [OF assms(6) rid, of 0 0 body cap] by simp
  qed
qed

text \<open>The value of an object in a reply: a text, the identifier of the enterprise, or a number, signed for an INTEGER and unsigned otherwise.\<close>

definition object_value :: "snmp_object \<Rightarrow> bytes \<Rightarrow> bool" where
  "object_value x bs \<longleftrightarrow>
     (if obj_type x = 4 then bs = ber 4 (obj_text x)
      else if obj_type x = 6 then bs = ber 6 (oid_bytes enterprise_oid)
      else \<exists>v. v \<noteq> [] \<and> length v \<le> 9 \<and> bs = ber (obj_type x) v \<and>
        twos_complement v = (if obj_type x = 2 then sint (obj_number x) else uint (obj_number x)))"

text \<open>The binding that answers an object identifier. A GET returns the object of exactly this name, or else the exception noSuchInstance
  if some object has the same name apart from its instance, and noSuchObject otherwise. A GETNEXT returns the least object of a greater name, or else
  endOfMibView.\<close>

definition answer_to :: "u8 \<Rightarrow> snmp_mib \<Rightarrow> oid \<Rightarrow> bytes \<Rightarrow> bool" where
  "answer_to operation m oi bs \<longleftrightarrow>
     (\<exists>name val. bs = ber 0x30 (ber 6 (oid_bytes name) @ val) \<and>
       (if operation = 0xa0
        then (\<exists>x\<in>set m. obj_oid x = oi \<and> name = oi \<and> object_value x val) \<or>
             (\<forall>x\<in>set m. obj_oid x \<noteq> oi) \<and> name = oi \<and>
             val = (if \<exists>x\<in>set m. take (length (obj_oid x) - obj_instance_arcs x) (obj_oid x) =
                        take (length (obj_oid x) - obj_instance_arcs x) oi then [0x81, 0] else [0x80, 0])
        else (\<exists>x\<in>set m. oid_less oi (obj_oid x) \<and> (\<forall>y\<in>set m. oid_less oi (obj_oid y) \<longrightarrow> y = x \<or> oid_less (obj_oid x) (obj_oid y)) \<and>
               name = obj_oid x \<and> object_value x val) \<or>
             (\<forall>x\<in>set m. \<not> oid_less oi (obj_oid x)) \<and> name = oi \<and> val = [0x82, 0]))"

lemma length_strip_zero: "length (strip_zero v) \<le> length v" "strip_zero v = [] \<longleftrightarrow> v = []" "sval_from 0 (strip_zero v) = sval_from 0 v"
  by (induction v rule: strip_zero.induct) auto

lemma sint_of_uint: "sint n = uint n - (if 2 ^ 63 \<le> uint n then 2 ^ 64 else 0)" for n :: u64
proof -
  have m: "uint n = sint n mod 2 ^ 64" using uint_sint [of n] by (simp add: take_bit_eq_mod)
  have b: "- (2 ^ 63) \<le> sint n" "sint n < 2 ^ 63" using sint_greater_eq [of n] sint_less [of n] by simp_all
  show ?thesis
  proof (cases "0 \<le> sint n")
    case True
    then have "uint n = sint n" using m b by simp
    then show ?thesis using b by simp
  next
    case False
    have "sint n mod 2 ^ 64 = (sint n + 2 ^ 64) mod 2 ^ 64" by simp
    also have "\<dots> = sint n + 2 ^ 64" using b False by (intro mod_pos_pos_trivial) simp_all
    finally show ?thesis using m b by simp
  qed
qed

lemma number_bytes_value:
  "number_bytes type n \<noteq> [] \<and> length (number_bytes type n) \<le> 9 \<and>
    twos_complement (number_bytes type n) = (if type = 2 then sint n else uint n)"
proof -
  have be: "be64 n \<noteq> []" "length (be64 n) = 8" by (simp_all add: be64_def)
  have un: "sval_from 0 (be64 n) = uint n" using uint_lt2p [of n] by (simp add: be64_be_bytes sval_be_bytes)
  show ?thesis
  proof (cases "type = 2")
    case True
    have "hd (be64 n) = word_of_int (uint n div 2 ^ 56)" using hd_be_bytes [of 7 "uint n"] by (simp add: be64_be_bytes numeral_eq_Suc)
    moreover have "uint n div 2 ^ 56 \<le> (2 ^ 64 - 1) div 2 ^ 56" using uint_lt2p [of n] by (intro zdiv_mono1) simp_all
    ultimately have "uint (hd (be64 n)) = uint n div 2 ^ 56" by (simp add: uint_word_of_int pos_imp_zdiv_nonneg_iff)
    moreover have "128 \<le> x div 2 ^ 56 \<longleftrightarrow> 2 ^ 63 \<le> x" for x :: int
      using mult_div_mod_eq [of "2 ^ 56" x] pos_mod_bound [of "2 ^ 56" x] pos_mod_sign [of "2 ^ 56" x] by (simp, linarith)
    ultimately have sign: "hd (be64 n) AND 128 \<noteq> 0 \<longleftrightarrow> 2 ^ 63 \<le> uint n" by (simp only: byte_sign)
    have "sval (be64 n) = uint n - (if 2 ^ 63 \<le> uint n then 2 ^ 64 else 0)"
      using sval_from_linear [of "- 1" "be64 n"] be(2) un sign by (simp add: sval_def)
    also have "\<dots> = sint n" using sint_of_uint [of n] by simp
    finally have "sval (number_bytes type n) = sint n" using be(1) by (simp add: True number_bytes_def sval_strip_sign)
    then show ?thesis using be length_strip_sign [of "be64 n"] by (simp add: True number_bytes_def strip_sign_nonempty sval_twos)
  next
    case False
    let ?b = "strip_zero (be64 n)"
    have b: "?b \<noteq> []" "length ?b \<le> 8" "sval_from 0 ?b = uint n" using length_strip_zero [of "be64 n"] be un by simp_all
    have nb: "number_bytes type n = (if hd ?b AND 128 \<noteq> 0 then 0 # ?b else ?b)" using False by (simp add: number_bytes_def Let_def)
    have "sval (number_bytes type n) = uint n" using b(1,3) by (auto simp: nb sval_def)
    moreover have "number_bytes type n \<noteq> []" using b(1) by (simp add: nb)
    ultimately show ?thesis using b(1,2) False by (auto simp: sval_twos) (simp add: nb)
  qed
qed

lemma value_bytes_object: "object_value x (value_bytes (Some x) exception)"
proof -
  let ?v = "number_bytes (obj_type x) (obj_number x)"
  have "obj_type x # word_of_nat (length ?v) # ?v = ber (obj_type x) ?v" using number_bytes_value [of "obj_type x" "obj_number x"] by (simp add: ber_def ber_length_def)
  then show ?thesis using number_bytes_value [of "obj_type x" "obj_number x"] unfolding object_value_def value_bytes_def by auto
qed

lemma answer_bytes_answer:
  assumes "mib_sorted m" and "operation \<in> {0xa0, 0xa1}"
  shows "answer_to operation m oi (answer_bytes operation m oi)"
proof (cases "operation = 0xa0")
  case True
  show ?thesis
  proof (cases "lookup m oi False")
    case None
    then have "\<forall>x\<in>set m. obj_oid x \<noteq> oi" by (auto simp: lookup_def find_None_iff compare_oid_eq)
    moreover have same: "b \<le> length oi \<and> take b ys = take b oi \<longleftrightarrow> take b ys = take b oi" if "b \<le> length ys" for b and ys :: oid
      using that by (auto dest: arg_cong [where f = length])
    moreover have "missing m oi = (if \<exists>x\<in>set m. take (length (obj_oid x) - obj_instance_arcs x) (obj_oid x) =
        take (length (obj_oid x) - obj_instance_arcs x) oi then 0x81 else 0x80)"
      by (simp add: missing_def list_ex_iff Let_def same)
    ultimately show ?thesis using None True
      by (auto simp: answer_to_def answer_bytes_def binding_bytes_def answered_def value_bytes_def)
  next
    case (Some x)
    then have "x \<in> set m" "obj_oid x = oi" by (auto simp: lookup_def find_Some_iff compare_oid_eq in_set_conv_nth)
    then show ?thesis using Some True value_bytes_object [of x]
      by (auto simp: answer_to_def answer_bytes_def binding_bytes_def answered_def)
  qed
next
  case False
  show ?thesis
  proof (cases "lookup m oi True")
    case None
    then have "\<forall>x\<in>set m. \<not> oid_less oi (obj_oid x)" by (auto simp: lookup_none_iff not_less simp flip: compare_oid_greater)
    then show ?thesis using None False by (auto simp: answer_to_def answer_bytes_def binding_bytes_def answered_def value_bytes_def)
  next
    case (Some x)
    note next' = Some [unfolded lookup_next_iff [OF assms(1)] compare_oid_greater compare_oid_less]
    then show ?thesis using Some False value_bytes_object [of x]
      by (auto simp: answer_to_def answer_bytes_def binding_bytes_def answered_def intro!: bexI [of _ x])
  qed
qed

text \<open>C22: The bindings of a reply. For every GET or GETNEXT message under the configured community, on objects in the order of their
  identifiers, the engine replies with a response message of the same identifier. It has noError and, for
  each requested identifier in order, the binding that answers it: the object of this name (GET) or the least object of a greater name
  (GETNEXT), or the exception that says why there is none. Only when these bindings do not fit the datagram the reply is tooBig, without bindings.\<close>
theorem snmp_get_bindings:
  assumes "request_message community operation rid num1 num2 oids input" and "operation \<in> {0xa0, 0xa1}"
    and "length input \<le> SNMP_PACKET_MAX" "128 \<le> cap" "community \<noteq> []" "length community \<le> 64"
    and "sorted_wrt (\<lambda>x y. oid_less (obj_oid x) (obj_oid y)) m"
  shows "\<exists>bindings out. list_all2 (answer_to operation m) oids bindings \<and> snmp_respond input cap community m = Some out \<and>
    (message community 0xa2 rid 0 0 (concat bindings) out \<or>
     message community 0xa2 rid 1 0 [] out \<and> min SNMP_PACKET_MAX cap < length (concat bindings) + 116)"
proof -
  obtain rq where rq: "parse_header input community = Some rq" "parse_bindings (rq_list rq) [] = Some oids" "rq_operation rq = operation" "rq_id rq = rid"
    using assms(1) request_iff by blast
  let ?bs = "map (answer_bytes operation m) oids"
  have bs: "list_all2 (answer_to operation m) oids ?bs"
    using answer_bytes_answer [OF _ assms(2)] assms(7) by (simp add: list_all2_map2 list.rel_refl mib_sorted_iff)
  note rid = parse_header_range(1,2) [OF rq(1), unfolded rq(4)]
  have msg: "message community 0xa2 rid (int e) 0 l (reply_bytes community rid e 0 l)" if "length l \<le> 1400" "e < 128" for e l
  proof -
    have "length (reply_bytes community rid e 0 l) \<le> length l + 112"
      using response_total [OF assms(6) rid that(2), of 0 l "length l + 112"] response_sound [OF assms(6) rid that(2), of 0 "length l + 112" l] by auto
    then show ?thesis using message_reply_bytes [OF rid that(2) _ assms(6), of 0 l] that(1) by simp
  qed
  from snmp_get_cases [OF rq(1,2) assms(3-6), of m] assms(2)
  consider "snmp_respond input cap community m = Some (reply_bytes community rid 0 0 (concat ?bs))" "length (concat ?bs) + 112 \<le> min SNMP_PACKET_MAX cap"
    | "snmp_respond input cap community m = Some (reply_bytes community rid 1 0 [])" "min SNMP_PACKET_MAX cap < length (concat ?bs) + 116"
    unfolding rq(3,4) by blast
  then show ?thesis
  proof cases
    case 1
    then show ?thesis using bs msg [of "concat ?bs" 0] by (intro exI [of _ ?bs] exI [of _ "reply_bytes community rid 0 0 (concat ?bs)"]) simp
  next
    case 2
    then show ?thesis using bs msg [of "[]" 1] by (intro exI [of _ ?bs] exI [of _ "reply_bytes community rid 1 0 []"]) simp
  qed
qed

text \<open>A GET of 1.3.6.1.2.1.1.1.0 under the community \<open>ab\<close>, and a MIB that holds it.\<close>

definition sample_get :: bytes where
  "sample_get = [0x30, 34, 2, 1, 1, 4, 2, 97, 98, 0xa0, 25, 2, 1, 7, 2, 1, 0, 2, 1, 0,
     0x30, 14, 0x30, 12, 6, 8, 0x2b, 6, 1, 2, 1, 1, 1, 0, 5, 0]"

definition sample_mib :: snmp_mib where
  "sample_mib = [\<lparr>obj_oid = [1, 3, 6, 1, 2, 1, 1, 1, 0], obj_type = 4, obj_instance_arcs = 1, obj_number = 0,
     obj_text = [79, 75]\<rparr>]"

definition sample_reply :: bytes where
  "sample_reply = [0x30, 36, 2, 1, 1, 4, 2, 97, 98, 0xa2, 27, 2, 1, 7, 2, 1, 0, 2, 1, 0,
     0x30, 16, 0x30, 14, 6, 8, 0x2b, 6, 1, 2, 1, 1, 1, 0, 4, 2, 79, 75]"

definition sample_request :: request where
  "sample_request = \<lparr>rq_operation = 0xa0, rq_id = 7, rq_first = 0, rq_second = 0,
    rq_list = [0x30, 12, 6, 8, 0x2b, 6, 1, 2, 1, 1, 1, 0, 5, 0]\<rparr>"

lemma sample_parse:
  "parse_header sample_get [97, 98] = Some sample_request"
  "parse_bindings (rq_list sample_request) [] = Some [[1, 3, 6, 1, 2, 1, 1, 1, 0]]"
  "concat (map (answer_bytes (rq_operation sample_request) sample_mib) [[1, 3, 6, 1, 2, 1, 1, 1, 0]]) =
     [0x30, 14, 6, 8, 0x2b, 6, 1, 2, 1, 1, 1, 0, 4, 2, 79, 75]"
  "reply_bytes [97, 98] (rq_id sample_request) 0 0 [0x30, 14, 6, 8, 0x2b, 6, 1, 2, 1, 1, 1, 0, 4, 2, 79, 75] = sample_reply"
  subgoal by code_simp
  subgoal by (simp add: sample_request_def parse_bindings.simps expect_def tlv_def oid_read_def oid_arcs.simps)
  subgoal by code_simp
  subgoal by code_simp
  done

lemma sample_exchange: "snmp_respond sample_get 1400 [97, 98] sample_mib = Some sample_reply"
  using snmp_get_cases [OF sample_parse(1,2), of 1400 sample_mib] sample_parse(3,4)
  by (simp add: sample_get_def sample_request_def)

lemma sample_message: "request_message [97, 98] 0xa0 7 0 0 [[1, 3, 6, 1, 2, 1, 1, 1, 0]] sample_get"
  using sample_parse(1,2) request_iff [of sample_get "[97, 98]" "[[1, 3, 6, 1, 2, 1, 1, 1, 0]]" "0xa0" 7 0 0] by (auto simp: sample_request_def)

theorem snmp_respond_envelope_witness:
  "snmp_respond sample_get 1400 [97, 98] sample_mib = Some sample_reply \<and> length sample_reply \<le> 1400 \<and>
   (\<exists>rid error index list. message [97, 98] 0xa2 rid error index list sample_reply \<and> error \<in> {0, 1, 17})"
  using snmp_respond_envelope [OF sample_exchange] sample_exchange by auto

theorem snmp_get_bindings_witness:
  "\<exists>out. snmp_respond sample_get 1400 [97, 98] sample_mib = Some out \<and>
     message [97, 98] 0xa2 7 0 0 [0x30, 14, 6, 8, 0x2b, 6, 1, 2, 1, 1, 1, 0, 4, 2, 79, 75] out"
proof -
  have "sorted_wrt (\<lambda>x y. oid_less (obj_oid x) (obj_oid y)) sample_mib" by (simp add: sample_mib_def)
  moreover have "length sample_get \<le> SNMP_PACKET_MAX" by (simp add: sample_get_def)
  ultimately obtain bindings out where got: "list_all2 (answer_to 0xa0 sample_mib) [[1, 3, 6, 1, 2, 1, 1, 1, 0]] bindings"
      "snmp_respond sample_get 1400 [97, 98] sample_mib = Some out"
      "message [97, 98] 0xa2 7 0 0 (concat bindings) out \<or>
       message [97, 98] 0xa2 7 1 0 [] out \<and> min SNMP_PACKET_MAX 1400 < length (concat bindings) + 116"
    using snmp_get_bindings [OF sample_message, of 1400 sample_mib] by auto
  have "concat bindings = ber 0x30 (ber 6 (oid_bytes [1, 3, 6, 1, 2, 1, 1, 1, 0]) @ ber 4 [79, 75])"
    using got(1) by (auto simp: list_all2_Cons1 answer_to_def object_value_def sample_mib_def)
  also have "\<dots> = [0x30, 14, 6, 8, 0x2b, 6, 1, 2, 1, 1, 1, 0, 4, 2, 79, 75]" by code_simp
  finally show ?thesis using got(2,3) by auto
qed

section \<open>A walk\<close>

text \<open>C23: On a MIB in object-identifier order GETNEXT returns the least object above the requested one, and
  none only when there is none; so a walk that starts at any object visits each following object once, in order, and ends.\<close>
theorem lookup_walk:
  assumes "mib_sorted m"
  shows "(\<forall>oi x. lookup m oi True = Some x \<longrightarrow> x \<in> set m \<and> 0 < compare_oid (obj_oid x) oi \<and>
            (\<forall>y\<in>set m. 0 < compare_oid (obj_oid y) oi \<longrightarrow> y = x \<or> compare_oid (obj_oid x) (obj_oid y) < 0)) \<and>
         (\<forall>oi. lookup m oi True = None \<longrightarrow> (\<forall>y\<in>set m. compare_oid (obj_oid y) oi \<le> 0)) \<and>
         (\<forall>i<length m. lookup m (obj_oid (m ! i)) True = (if Suc i < length m then Some (m ! Suc i) else None))"
proof (intro conjI allI impI)
  fix i assume i: "i < length m"
  note cmp = sorted_nth_compare [OF assms]
  show "lookup m (obj_oid (m ! i)) True = (if Suc i < length m then Some (m ! Suc i) else None)"
  proof (cases "Suc i < length m")
    case True
    have "y = m ! Suc i \<or> compare_oid (obj_oid (m ! Suc i)) (obj_oid y) < 0"
      if y: "y \<in> set m" "0 < compare_oid (obj_oid y) (obj_oid (m ! i))" for y
    proof -
      obtain j where j: "j < length m" "y = m ! j" using y(1) by (auto simp: in_set_conv_nth)
      then have "i < j" using cmp [OF i j(1)] y(2) compare_oid_flip [of "obj_oid (m ! j)" "obj_oid (m ! i)"] by simp
      then show ?thesis using cmp [OF True j(1)] j(2) by (cases "Suc i = j") auto
    qed
    moreover have "0 < compare_oid (obj_oid (m ! Suc i)) (obj_oid (m ! i))"
      using cmp [OF i True] compare_oid_flip [of "obj_oid (m ! Suc i)" "obj_oid (m ! i)"] by simp
    ultimately show ?thesis using True by (simp add: lookup_next_iff [OF assms])
  next
    case False
    have "compare_oid (obj_oid (m ! j)) (obj_oid (m ! i)) \<le> 0" if "j < length m" for j
      using cmp [OF i that] False that i compare_oid_flip [of "obj_oid (m ! j)" "obj_oid (m ! i)"]
      by (cases "j = i") auto
    then have "lookup m (obj_oid (m ! i)) True = None" by (auto simp: lookup_none_iff in_set_conv_nth)
    with False show ?thesis by simp
  qed
qed (use lookup_next_iff [OF assms] lookup_none_iff in blast)+

theorem lookup_walk_witness:
  "mib_sorted sample_mib \<and> lookup sample_mib (obj_oid (sample_mib ! 0)) True = None"
proof -
  have s: "mib_sorted sample_mib" by (simp add: mib_sorted_def sample_mib_def)
  with lookup_walk [OF s] show ?thesis by (simp add: sample_mib_def)
qed

end
