(* ===== verification/Snapshots.thy ===== *)
theory Snapshots
  imports Prelude
begin

text \<open>
  The snapshots the firmware's tasks publish and the management interfaces read:
  \<^verbatim>\<open>software/r5/include/statistics.h\<close>, \<^verbatim>\<open>ports.h\<close> and the status part of \<^verbatim>\<open>stp.h\<close>. Arrays are lists; the
  lengths the declarations fix are collected in the well-formedness predicates. Signed fields are
  words of the same width, read with sign extension. The two build options \<open>STATS_DDR\<close> and
  \<open>STATS_DEBUG\<close> are a record that the functions depending on them take.
\<close>

record stats_build =
  STATS_DDR :: bool
  STATS_DEBUG :: bool

record statistics_bank_snapshot =
  bk_last_success :: u64
  bk_clock_unavailable_events :: u32
  bk_active_clock_timeouts :: u32
  bk_hardware_status :: u32
  bk_state :: u8

record statistics_snapshot =
  ss_bank :: "statistics_bank_snapshot list"
  ss_port :: "u64 list list"
  ss_ddr :: "u64 list list"
  ss_debug :: "u64 list"
  ss_fabric_hz :: u32
  ss_timestamp :: u64
  ss_polls :: u32
  ss_late_polls :: u32
  ss_saturated_reads :: u32
  ss_read_timeouts :: u32
  ss_capabilities :: u32
  ss_mailbox_release_timeouts :: u32
  ss_snapshot_response_timeouts :: u32
  ss_release_timeout_by_index :: "u32 list list"
  ss_response_timeout_by_index :: "u32 list list"
  ss_last_release_index :: u32
  ss_last_release_target_index :: u32
  ss_last_response_index :: u32
  ss_available :: bool

record sensor_snapshot =
  sn_temperature_mc :: "u32 list"
  sn_voltage_uv :: "u32 list list"
  sn_som_current_ua :: u32
  sn_som_voltage_uv :: u32
  sn_som_power_uw :: u32
  sn_timestamp :: u64
  sn_valid_mask :: u32
  sn_errors :: u32

record port_snapshot =
  ps_admin :: u8
  ps_physical :: u8
  ps_forwarding :: u8
  ps_advertise :: "u8 list"
  ps_applied :: "u8 list"
  ps_sfp_requested :: u16
  ps_speed_mbps :: "u16 list"

abbreviation PHYSICAL_PORT_MASK :: u8 where "PHYSICAL_PORT_MASK \<equiv> 0x1f"
abbreviation CPU_PORT_MASK :: u8 where "CPU_PORT_MASK \<equiv> 0x20"
abbreviation UINT32_MAX :: u32 where "UINT32_MAX \<equiv> 0xffffffff"

text \<open>The lengths the declarations give the arrays.\<close>

definition rows :: "nat \<Rightarrow> nat \<Rightarrow> 'a list list \<Rightarrow> bool" where
  "rows m n t \<longleftrightarrow> length t = m \<and> (\<forall>r\<in>set t. length r = n)"

definition statistics_wf :: "statistics_snapshot \<Rightarrow> bool" where
  "statistics_wf s \<longleftrightarrow>
     length (ss_bank s) = 13 \<and> rows 6 8 (ss_port s) \<and> rows 4 8 (ss_ddr s) \<and> length (ss_debug s) = 16 \<and>
     rows 13 16 (ss_release_timeout_by_index s) \<and> rows 13 16 (ss_response_timeout_by_index s)"

definition sensor_wf :: "sensor_snapshot \<Rightarrow> bool" where
  "sensor_wf v \<longleftrightarrow> length (sn_temperature_mc v) = 2 \<and> rows 2 3 (sn_voltage_uv v)"

definition port_snapshot_wf :: "port_snapshot \<Rightarrow> bool" where
  "port_snapshot_wf p \<longleftrightarrow> length (ps_advertise p) = 4 \<and> length (ps_applied p) = 4 \<and> length (ps_speed_mbps p) = 6"

lemma rows_length: "rows m n t \<Longrightarrow> length t = m"
  by (simp add: rows_def)

lemma rows_nth: "rows m n t \<Longrightarrow> i < m \<Longrightarrow> length (t ! i) = n"
  by (simp add: rows_def)

lemma rows_replicate [simp]: "rows m n (replicate m (replicate n x))"
  by (simp add: rows_def)

text \<open>Writing one element keeps the shape; a write out of range changes nothing.\<close>

lemma rows_update: "rows m n t \<Longrightarrow> rows m n (t[i := (t ! i)[j := v]])"
  by (cases "i < length t")
     (auto simp: rows_def list_update_beyond dest!: set_update_subset_insert [THEN subsetD])

end
