(* ===== verification/Snmp_Mib.thy ===== *)
theory Snmp_Mib
  imports Snmp_Replies Snapshots
begin

text \<open>
  The MIB \<^verbatim>\<open>software/r5/src/snmp_mib.c\<close> builds for each request: one entry per call of \<open>add\<close> or
  \<open>system_object\<close>, in the source's order. A failing \<open>assert\<close> is \<open>None\<close>. The theorems show that the
  assertion never fires, that the objects are in the order a walk needs, and that ages saturate.
\<close>

section \<open>Ages\<close>

definition age :: "u64 \<Rightarrow> u64 \<Rightarrow> u32 \<Rightarrow> u32" where
  "age now before hz =
     (if before = 0 \<or> hz = 0 \<or> now < before then UINT32_MAX
      else let elapsed = now - before in
        if 0xffffffff div 1000 < elapsed div ucast hz then UINT32_MAX
        else let ms = elapsed * 1000 div ucast hz
             in if 0xffffffff < ms then UINT32_MAX else ucast ms)"

section \<open>Objects\<close>

abbreviation SNMP_OBJECT_MAX :: nat where "SNMP_OBJECT_MAX \<equiv> 448"
abbreviation INTEGER :: u8 where "INTEGER \<equiv> 0x02"
abbreviation STRING :: u8 where "STRING \<equiv> 0x04"
abbreviation COUNTER :: u8 where "COUNTER \<equiv> 0x41"
abbreviation GAUGE :: u8 where "GAUGE \<equiv> 0x42"
abbreviation TICKS :: u8 where "TICKS \<equiv> 0x43"
abbreviation COUNTER64 :: u8 where "COUNTER64 \<equiv> 0x46"

definition mib_root :: oid where
  "mib_root = [1, 3, 6, 1, 4, 1, 32473, 1]"

definition add :: "nat \<Rightarrow> nat \<Rightarrow> nat \<Rightarrow> u8 \<Rightarrow> u64 \<Rightarrow> bytes \<Rightarrow> snmp_mib \<Rightarrow> snmp_mib option" where
  "add grp column row type value txt m =
     (if SNMP_OBJECT_MAX \<le> length m then None
      else Some (m @ [\<lparr>
        obj_oid = mib_root @ [word_of_nat grp] @
          (if 2 \<le> grp \<and> grp \<le> 4 \<or> grp = 6 \<or> grp = 7 then [1] else []) @ [word_of_nat column, word_of_nat row],
        obj_type = type, obj_instance_arcs = 1, obj_number = value, obj_text = txt\<rparr>]))"

definition system_object :: "nat \<Rightarrow> u8 \<Rightarrow> u64 \<Rightarrow> bytes \<Rightarrow> snmp_mib \<Rightarrow> snmp_mib" where
  "system_object column type value txt m =
     m @ [\<lparr>obj_oid = [1, 3, 6, 1, 2, 1, 1, word_of_nat column, 0], obj_type = type, obj_instance_arcs = 1,
           obj_number = value, obj_text = txt\<rparr>]"

text \<open>The calls of the builder: \<open>Slot\<close> is an \<open>add\<close> whose object gets a further instance arc.\<close>

datatype mib_call =
    System nat u8 u64 bytes
  | Add nat nat nat u8 u64 bytes
  | Slot nat nat nat nat u8 u64

definition add_slot :: "nat \<Rightarrow> snmp_mib \<Rightarrow> snmp_mib" where
  "add_slot slot m = butlast m @ [(last m)\<lparr>obj_oid := obj_oid (last m) @ [word_of_nat slot], obj_instance_arcs := 2\<rparr>]"

fun run_call :: "mib_call \<Rightarrow> snmp_mib \<Rightarrow> snmp_mib option" where
  "run_call (System column type value txt) m = Some (system_object column type value txt m)"
| "run_call (Add grp column row type value txt) m = add grp column row type value txt m"
| "run_call (Slot grp column row slot type value) m =
     map_option (add_slot slot) (add grp column row type value [] m)"

fun mib_calls :: "mib_call list \<Rightarrow> snmp_mib \<Rightarrow> snmp_mib option" where
  "mib_calls [] m = Some m"
| "mib_calls (c # cs) m = (case run_call c m of None \<Rightarrow> None | Some m \<Rightarrow> mib_calls cs m)"

definition mib_ports :: "bytes list" where
  "mib_ports = map ascii [''GEM0 right upper'', ''GEM1 right lower'', ''PL0 left upper'', ''PL1 left lower'', ''SFP'', ''CPU'']"

definition mib_ddr :: "bytes list" where
  "mib_ddr = map ascii [''physical ingress write'', ''physical egress read'', ''CPU write'', ''CPU read'']"

definition mib_debug :: "bytes list" where
  "mib_debug = map ascii [''GEM0 ingress stall'', ''GEM1 ingress stall'', ''PL0 ingress stall'', ''PL1 ingress stall'',
     ''SFP ingress stall'', ''GEM0 egress stall'', ''GEM1 egress stall'', ''PL0 egress stall'', ''PL1 egress stall'',
     ''SFP egress stall'', ''CPU to fabric stall'', ''fabric to CPU stall'', ''CPU allocation wait'',
     ''CPU enqueue wait'', ''link flush busy'', ''combined AXI errors'']"

text \<open>The groups of calls, in order.\<close>

definition system_calls :: "u32 \<Rightarrow> mib_call list" where
  "system_calls uptime_cs =
     [System 1 STRING 0 (ascii ''KR260 open Ethernet switch; R5 FreeRTOS''), System 2 0x06 0 [],
      System 3 TICKS (ucast uptime_cs) [], System 5 STRING 0 (ascii ''kr260-switch'')]"

definition health_calls :: "stats_build \<Rightarrow> statistics_snapshot \<Rightarrow> u64 \<Rightarrow> u32 \<Rightarrow> mib_call list" where
  "health_calls b s now hz =
     (let health = [if ss_available s then 1 else 2, ss_capabilities s, ss_polls s, ss_late_polls s,
            ss_saturated_reads s, ss_read_timeouts s, age now (ss_timestamp s) hz, hz,
            1 OR (if STATS_DDR b then 2 else 0) OR (if STATS_DEBUG b then 4 else 0)] in
      map (\<lambda>i. Add 1 (i + 1) 0 (if i = 0 then INTEGER else if 2 \<le> i \<and> i \<le> 5 then COUNTER else GAUGE)
         (ucast (health ! i)) []) [0..<9] @
      [Add 1 10 0 COUNTER (ucast (ss_mailbox_release_timeouts s)) [],
       Add 1 11 0 COUNTER (ucast (ss_snapshot_response_timeouts s)) [],
       Add 1 12 0 GAUGE (ucast (ss_last_release_index s)) [],
       Add 1 13 0 GAUGE (ucast (ss_last_release_target_index s)) [],
       Add 1 14 0 GAUGE (ucast (ss_last_response_index s)) [],
       Add 1 15 0 GAUGE (ucast (ss_fabric_hz s)) []])"

definition port_calls :: "statistics_snapshot \<Rightarrow> u32 \<Rightarrow> port_snapshot \<Rightarrow> mib_call list" where
  "port_calls s links port_state =
     concat (map (\<lambda>col. map (\<lambda>row. Add 2 col (row + 1)
         (if col = 1 then STRING else if col = 2 then INTEGER else COUNTER64)
         (if col = 1 then 0 else if col = 2 then (if drop_bit row links AND 1 \<noteq> 0 then 1 else 2)
          else ss_port s ! row ! (col - 3))
         (if col = 1 then mib_ports ! row else [])) [0..<6]) [1..<11]) @
     map (\<lambda>row. Add 2 12 (row + 1) GAUGE (ucast (ps_speed_mbps port_state ! row)) []) [0..<6] @
     map (\<lambda>row. Add 2 13 (row + 1) GAUGE (if row < 4 then ucast (ps_advertise port_state ! row) else 0) []) [0..<6]"

definition ddr_calls :: "statistics_snapshot \<Rightarrow> mib_call list" where
  "ddr_calls s =
     concat (map (\<lambda>col. map (\<lambda>row. Add 3 col (row + 1)
         (if col = 1 then STRING else if col = 5 then GAUGE else COUNTER64)
         (if col = 1 then 0 else ss_ddr s ! row ! (col - 2))
         (if col = 1 then mib_ddr ! row else [])) [0..<4]) [1..<10])"

definition debug_calls :: "statistics_snapshot \<Rightarrow> mib_call list" where
  "debug_calls s =
     concat (map (\<lambda>col. map (\<lambda>row. Add 4 col (row + 1)
         (if col = 1 then STRING else COUNTER64)
         (if col = 1 then 0 else ss_debug s ! row)
         (if col = 1 then mib_debug ! row else [])) [0..<16]) [1..<3])"

definition sensor_calls :: "sensor_snapshot \<Rightarrow> u64 \<Rightarrow> u32 \<Rightarrow> mib_call list" where
  "sensor_calls v now hz =
     [Add 5 1 0 GAUGE (ucast (sn_valid_mask v)) [], Add 5 2 0 COUNTER (ucast (sn_errors v)) [],
      Add 5 3 0 GAUGE (ucast (age now (sn_timestamp v) hz)) []] @
     map (\<lambda>i. Add 5 (4 + i) 0 INTEGER (scast (sn_temperature_mc v ! i)) []) [0..<2] @
     map (\<lambda>i. Add 5 (6 + i) 0 GAUGE (ucast (sn_voltage_uv v ! (i div 3) ! (i mod 3))) []) [0..<6] @
     [Add 5 12 0 INTEGER (scast (sn_som_current_ua v)) [], Add 5 13 0 GAUGE (ucast (sn_som_voltage_uv v)) [],
      Add 5 14 0 GAUGE (ucast (sn_som_power_uw v)) []]"

definition bank_slots :: "nat \<Rightarrow> nat" where
  "bank_slots bank = (if bank < 4 then 4 else if bank = 12 then 16 else 8)"

definition bank_listed :: "stats_build \<Rightarrow> nat \<Rightarrow> bool" where
  "bank_listed b bank \<longleftrightarrow> \<not> (8 \<le> bank \<and> bank < 12 \<and> \<not> STATS_DDR b) \<and> \<not> (bank = 12 \<and> \<not> STATS_DEBUG b)"

definition timeout_calls :: "stats_build \<Rightarrow> statistics_snapshot \<Rightarrow> mib_call list" where
  "timeout_calls b s =
     concat (map (\<lambda>col. concat (map (\<lambda>bank.
         if \<not> bank_listed b bank then []
         else map (\<lambda>slot. Slot 6 col bank slot COUNTER
             (ucast (if col = 1 then ss_release_timeout_by_index s ! bank ! slot
                     else ss_response_timeout_by_index s ! bank ! slot))) [0..<bank_slots bank]) [0..<13])) [1..<3])"

definition bank_calls :: "statistics_snapshot \<Rightarrow> u64 \<Rightarrow> u32 \<Rightarrow> mib_call list" where
  "bank_calls s now hz =
     concat (map (\<lambda>col. map (\<lambda>b.
         let h = ss_bank s ! b;
             n = (if col = 1 then ucast (bk_state h) else if col = 2 then age now (bk_last_success h) hz
                  else if col = 3 then bk_clock_unavailable_events h
                  else if col = 4 then bk_active_clock_timeouts h else bk_hardware_status h)
         in Add 7 col (b + 1) (if col = 3 \<or> col = 4 then COUNTER else GAUGE) (ucast n) []) [0..<13]) [1..<6])"

definition snmp_mib_build ::
  "stats_build \<Rightarrow> statistics_snapshot \<Rightarrow> sensor_snapshot \<Rightarrow> u64 \<Rightarrow> u32 \<Rightarrow> u32 \<Rightarrow> u32 \<Rightarrow> port_snapshot \<Rightarrow>
   snmp_mib option" where
  "snmp_mib_build b s v now hz uptime_cs links port_state =
     mib_calls (system_calls uptime_cs @ health_calls b s now hz @ port_calls s links port_state @
       (if STATS_DDR b then ddr_calls s else []) @ (if STATS_DEBUG b then debug_calls s else []) @
       sensor_calls v now hz @ timeout_calls b s @ bank_calls s now hz) []"

section \<open>The identifiers do not depend on the values\<close>

fun call_oid :: "mib_call \<Rightarrow> oid" where
  "call_oid (System column type value txt) = [1, 3, 6, 1, 2, 1, 1, word_of_nat column, 0]"
| "call_oid (Add grp column row type value txt) = mib_root @ [word_of_nat grp] @
     (if 2 \<le> grp \<and> grp \<le> 4 \<or> grp = 6 \<or> grp = 7 then [1] else []) @ [word_of_nat column, word_of_nat row]"
| "call_oid (Slot grp column row slot type value) = mib_root @ [word_of_nat grp] @
     (if 2 \<le> grp \<and> grp \<le> 4 \<or> grp = 6 \<or> grp = 7 then [1] else []) @
     [word_of_nat column, word_of_nat row, word_of_nat slot]"

lemma run_call_some:
  assumes "length m < SNMP_OBJECT_MAX"
  shows "\<exists>x. run_call c m = Some (m @ [x]) \<and> obj_oid x = call_oid c \<and> obj_instance_arcs x \<le> 2"
  using assms by (cases c) (auto simp: add_def system_object_def add_slot_def)

lemma mib_calls_some:
  "length m + length cs \<le> SNMP_OBJECT_MAX \<Longrightarrow>
    \<exists>xs. mib_calls cs m = Some (m @ xs) \<and> map obj_oid xs = map call_oid cs \<and> (\<forall>x\<in>set xs. obj_instance_arcs x \<le> 2)"
proof (induction cs arbitrary: m)
  case Nil
  then show ?case by simp
next
  case (Cons c cs)
  then obtain x where x: "run_call c m = Some (m @ [x])" "obj_oid x = call_oid c" "obj_instance_arcs x \<le> 2"
    using run_call_some [of m c] by auto
  obtain xs where "mib_calls cs (m @ [x]) = Some ((m @ [x]) @ xs)" "map obj_oid xs = map call_oid cs"
      "\<forall>x\<in>set xs. obj_instance_arcs x \<le> 2"
    using Cons.IH [of "m @ [x]"] Cons.prems by auto
  with x show ?case by (intro exI [of _ "x # xs"]) simp
qed

text \<open>The order of the identifiers is that of short keys of natural numbers.\<close>

fun call_key :: "mib_call \<Rightarrow> nat list" where
  "call_key (System column type value txt) = [0, column, 0]"
| "call_key (Add grp column row type value txt) =
     1 # grp # (if 2 \<le> grp \<and> grp \<le> 4 \<or> grp = 6 \<or> grp = 7 then [1] else []) @ [column, row]"
| "call_key (Slot grp column row slot type value) =
     1 # grp # (if 2 \<le> grp \<and> grp \<le> 4 \<or> grp = 6 \<or> grp = 7 then [1] else []) @ [column, row, slot]"

fun key_less :: "nat list \<Rightarrow> nat list \<Rightarrow> bool" where
  "key_less xs [] = False"
| "key_less [] (y # ys) = True"
| "key_less (x # xs) (y # ys) = (x < y \<or> x = y \<and> key_less xs ys)"

definition key_small :: "nat list \<Rightarrow> bool" where
  "key_small = list_all (\<lambda>k. k < 64)"

lemma small_word_less: "x < 64 \<Longrightarrow> y < 64 \<Longrightarrow> (word_of_nat x :: u32) < word_of_nat y \<longleftrightarrow> x < y"
  by (simp add: word_less_nat_alt unat_of_nat take_bit_eq_mod)

lemma small_word_eq: "x < 64 \<Longrightarrow> y < 64 \<Longrightarrow> (word_of_nat x :: u32) = word_of_nat y \<longleftrightarrow> x = y"
  by (metis linorder_neq_iff small_word_less)

lemma compare_key:
  "key_small xs \<Longrightarrow> key_small ys \<Longrightarrow> compare_oid (map word_of_nat xs) (map word_of_nat ys) < 0 \<longleftrightarrow> key_less xs ys"
proof (induction xs ys rule: key_less.induct)
  case (1 xs)
  then show ?case by (cases xs) auto
qed (auto simp: key_small_def small_word_less small_word_eq)

lemma compare_oid_prefix: "compare_oid (p @ xs) (p @ ys) = compare_oid xs ys"
  by (induction p) auto

lemma compare_call:
  assumes "key_small (call_key c)" and "key_small (call_key d)" and "key_less (call_key c) (call_key d)"
  shows "compare_oid (call_oid c) (call_oid d) < 0"
proof -
  have root: "call_oid e = mib_root @ map word_of_nat (tl (call_key e))" if "hd (call_key e) = 1" for e
    using that by (cases e) auto
  have sys: "call_oid e = [1, 3, 6, 1, 2, 1, 1] @ map word_of_nat (tl (call_key e))" if "hd (call_key e) = 0" for e
    using that by (cases e) auto
  have hd: "call_key e \<noteq> []" "hd (call_key e) = 0 \<or> hd (call_key e) = 1" for e by (cases e; simp)+
  have tl: "key_small (tl (call_key e))" if "key_small (call_key e)" for e
    using that hd(1) [of e] by (cases "call_key e") (auto simp: key_small_def)
  have less: "hd (call_key c) < hd (call_key d) \<or>
      hd (call_key c) = hd (call_key d) \<and> key_less (tl (call_key c)) (tl (call_key d))"
    using assms(3) hd(1) [of c] hd(1) [of d] by (cases "call_key c"; cases "call_key d") auto
  note cmp = compare_key [OF tl [OF assms(1)] tl [OF assms(2)]]
  consider "hd (call_key c) = 0" "hd (call_key d) = 1" | "hd (call_key c) = 0" "hd (call_key d) = 0"
    | "hd (call_key c) = 1" "hd (call_key d) = 1" using less hd(2) [of c] hd(2) [of d] by fastforce
  then show ?thesis
  proof cases
    case 1
    then show ?thesis by (simp add: root sys mib_root_def)
  next
    case 2
    then show ?thesis using less cmp by (simp add: sys [of c] sys [of d])
  next
    case 3
    then show ?thesis using less cmp by (simp add: root [of c] root [of d] compare_oid_prefix)
  qed
qed

text \<open>The keys of every build.\<close>

definition cells :: "nat \<Rightarrow> nat list \<Rightarrow> nat list \<Rightarrow> nat list list" where
  "cells grp cols rws = concat (map (\<lambda>col. map (\<lambda>row. call_key (Add grp col row 0 0 [])) rws) cols)"

definition slots :: "stats_build \<Rightarrow> nat list list" where
  "slots b = concat (map (\<lambda>col. concat (map (\<lambda>bank. if \<not> bank_listed b bank then []
     else map (\<lambda>slot. call_key (Slot 6 col bank slot 0 0)) [0..<bank_slots bank]) [0..<13])) [1..<3])"

definition mib_shape :: "stats_build \<Rightarrow> nat list list" where
  "mib_shape b =
     map (\<lambda>c. call_key (System c 0 0 [])) [1, 2, 3, 5] @
     cells 1 [1..<16] [0] @ cells 2 ([1..<11] @ [12, 13]) [1..<7] @
     (if STATS_DDR b then cells 3 [1..<10] [1..<5] else []) @
     (if STATS_DEBUG b then cells 4 [1..<3] [1..<17] else []) @
     cells 5 [1..<15] [0] @ slots b @ cells 7 [1..<6] [1..<14]"

lemma call_keys:
  "map call_key (system_calls up) = map (\<lambda>c. call_key (System c 0 0 [])) [1, 2, 3, 5]"
  "map call_key (health_calls b s now hz) = cells 1 [1..<16] [0]"
  "map call_key (port_calls s links p) = cells 2 ([1..<11] @ [12, 13]) [1..<7]"
  "map call_key (ddr_calls s) = cells 3 [1..<10] [1..<5]"
  "map call_key (debug_calls s) = cells 4 [1..<3] [1..<17]"
  "map call_key (sensor_calls v now hz) = cells 5 [1..<15] [0]"
  "map call_key (timeout_calls b s) = slots b"
  "map call_key (bank_calls s now hz) = cells 7 [1..<6] [1..<14]"
  subgoal by (simp add: system_calls_def)
  subgoal by (simp add: health_calls_def cells_def Let_def upt_rec)
  subgoal by (simp add: port_calls_def cells_def upt_rec)
  subgoal by (simp add: ddr_calls_def cells_def upt_rec)
  subgoal by (simp add: debug_calls_def cells_def upt_rec)
  subgoal by (simp add: sensor_calls_def cells_def upt_rec)
  subgoal by (simp add: timeout_calls_def slots_def map_concat comp_def if_distrib [of "map call_key"] cong: if_cong)
  subgoal by (simp add: bank_calls_def cells_def Let_def upt_rec)
  done

text \<open>The order and the size, by evaluation for the four builds.\<close>

lemma mib_shape_checked:
  "\<forall>ddr\<in>{False, True}. \<forall>debug\<in>{False, True}.
     let ks = mib_shape \<lparr>STATS_DDR = ddr, STATS_DEBUG = debug\<rparr> in
     successively key_less ks \<and> length ks \<le> 430 \<and> list_all key_small ks"
  by code_simp

lemma build_keys:
  "\<exists>cs. snmp_mib_build b s v now hz up links p = mib_calls cs [] \<and> map call_key cs = mib_shape b"
proof (intro exI conjI)
  let ?cs = "system_calls up @ health_calls b s now hz @ port_calls s links p @
    (if STATS_DDR b then ddr_calls s else []) @ (if STATS_DEBUG b then debug_calls s else []) @
    sensor_calls v now hz @ timeout_calls b s @ bank_calls s now hz"
  show "snmp_mib_build b s v now hz up links p = mib_calls ?cs []" by (rule snmp_mib_build_def)
  show "map call_key ?cs = mib_shape b"
    unfolding mib_shape_def map_append call_keys
    by (cases "STATS_DDR b"; cases "STATS_DEBUG b") (simp_all add: call_keys)
qed

lemma call_oid_valid: "oid_valid (call_oid c) \<and> 3 \<le> length (call_oid c)"
  by (cases c) (simp_all add: oid_valid_def mib_root_def)

lemma calls_sorted:
  assumes "successively key_less (map call_key cs)" and "list_all key_small (map call_key cs)"
  shows "sorted_wrt (\<lambda>x y. compare_oid x y < 0) (map call_oid cs)"
proof -
  have "successively (\<lambda>x y. compare_oid x y < 0) (map call_oid cs)"
    using assms
  proof (induction cs rule: induct_list012)
    case (3 c d cs)
    then show ?case using compare_call [of c d] by simp
  qed simp_all
  then show ?thesis
    by (subst (asm) successively_iff_sorted_wrt_strong) (auto intro: compare_oid_trans)
qed

text \<open>Building the MIB never trips its capacity assertion, in any of the four builds and for any
  statistics, sensors and port state: it yields at most 430 of the 448 objects, in strictly increasing
  object-identifier order (what GETNEXT relies on), each with an identifier the protocol can encode and fewer instance arcs than arcs.\<close>
theorem snmp_mib_build_ordered:
  "\<exists>m. snmp_mib_build b s v now hz uptime_cs links port_state = Some m \<and> length m \<le> 430 \<and> mib_sorted m \<and>
     list_all (\<lambda>x. oid_valid (obj_oid x) \<and> obj_instance_arcs x < length (obj_oid x)) m"
proof -
  obtain cs where cs: "snmp_mib_build b s v now hz uptime_cs links port_state = mib_calls cs []"
      "map call_key cs = mib_shape b"
    using build_keys by blast
  have b: "\<lparr>STATS_DDR = STATS_DDR b, STATS_DEBUG = STATS_DEBUG b\<rparr> = b" by simp
  have shape: "successively key_less (map call_key cs)" "length (map call_key cs) \<le> 430"
      "list_all key_small (map call_key cs)"
    using bspec [OF bspec [OF mib_shape_checked, of "STATS_DDR b"], of "STATS_DEBUG b"]
    unfolding cs(2) b Let_def by auto
  obtain xs where xs: "mib_calls cs [] = Some xs" "map obj_oid xs = map call_oid cs" "\<forall>x\<in>set xs. obj_instance_arcs x \<le> 2"
    using mib_calls_some [of "[]" cs] shape(2) by auto
  have "sorted_wrt (\<lambda>x y. compare_oid x y < 0) (map obj_oid xs)" unfolding xs(2) by (rule calls_sorted [OF shape(1,3)])
  then have "mib_sorted xs" by (simp add: mib_sorted_def sorted_wrt_map)
  moreover have "length xs \<le> 430" using shape(2) xs(2) by (metis length_map)
  moreover have "oid_valid (obj_oid x) \<and> obj_instance_arcs x < length (obj_oid x)" if "x \<in> set xs" for x
  proof -
    have "obj_oid x \<in> set (map call_oid cs)" using that by (simp flip: xs(2))
    then obtain c where "obj_oid x = call_oid c" by auto
    then show ?thesis using call_oid_valid [of c] xs(3) that by fastforce
  qed
  ultimately show ?thesis using cs(1) xs(1) by (auto simp: list_all_iff)
qed

section \<open>Ages saturate\<close>

lemma unat_hz: "unat (ucast hz :: u64) = unat hz" "unat hz < 2 ^ 32" for hz :: u32
proof -
  show u: "unat hz < 2 ^ 32" using unsigned_less [of hz, where ?'a = nat] by simp
  then show "unat (ucast hz :: u64) = unat hz" by (simp add: unsigned_ucast_eq take_bit_nat_eq_self)
qed

text \<open>The age of a sample is the exact number of elapsed milliseconds, saturated at 2^32 - 1: the
  64-bit product does not overflow for any counter frequency up to 4 GHz.\<close>
theorem age_saturates:
  assumes "before \<noteq> 0" and "before \<le> now" and "hz \<noteq> 0" and "unat hz \<le> 4000000000"
  shows "unat (age now before hz) = min (2 ^ 32 - 1) ((unat now - unat before) * 1000 div unat hz)"
proof -
  let ?e = "unat now - unat before" and ?h = "unat hz"
  have e: "unat (now - before) = ?e" using assms(2) by (simp add: unat_sub word_le_nat_alt)
  have h: "0 < ?h" "unat (ucast hz :: u64) = ?h" using assms(3) unat_hz by (auto simp: unat_gt_0)
  have q: "unat ((now - before) div ucast hz) = ?e div ?h" by (simp add: unat_div e h(2))
  have guard: "(0xffffffff div 1000 :: u64) < (now - before) div ucast hz \<longleftrightarrow> 4294967 < ?e div ?h"
    by (simp add: word_less_nat_alt q)
  show ?thesis
  proof (cases "4294967 < ?e div ?h")
    case True
    then have "4294968 \<le> ?e div ?h" by simp
    then have "4294968 * ?h \<le> ?e" unfolding less_eq_div_iff_mult_less_eq [OF h(1)] .
    then have "4294968 * 1000 * ?h \<le> ?e * 1000" by simp
    then have "4294968 * 1000 \<le> ?e * 1000 div ?h" unfolding less_eq_div_iff_mult_less_eq [OF h(1)] .
    then show ?thesis using True guard assms by (simp add: age_def Let_def)
  next
    case False
    then have "?e div ?h < 4294968" by simp
    then have "?e < 4294968 * ?h" unfolding div_less_iff_less_mult [OF h(1)] .
    then have small: "?e * 1000 < 2 ^ 64" using assms(4) by simp
    have ms: "unat ((now - before) * 1000 div ucast hz) = ?e * 1000 div ?h"
    proof -
      have "unat ((now - before) * 1000) = unat (now - before) * unat (1000 :: u64)"
        by (rule unat_mult_lem [THEN iffD1]) (use small e in simp)
      then show ?thesis unfolding unat_div h(2) e by simp
    qed
    then have big: "(0xffffffff :: u64) < (now - before) * 1000 div ucast hz \<longleftrightarrow> 4294967295 < ?e * 1000 div ?h"
      by (simp add: word_less_nat_alt)
    show ?thesis
    proof (cases "4294967295 < ?e * 1000 div ?h")
      case True
      then show ?thesis using False guard big assms by (simp add: age_def Let_def)
    next
      case small_ms: False
      then have "unat (ucast ((now - before) * 1000 div ucast hz) :: u32) = ?e * 1000 div ?h"
        using ms by (simp add: unsigned_ucast_eq take_bit_nat_eq_self)
      then show ?thesis using False small_ms guard big assms by (simp add: age_def Let_def)
    qed
  qed
qed

theorem age_saturates_witness:
  "unat (age 5000000000 1000 781250) = min (2 ^ 32 - 1) ((5000000000 - 1000) * 1000 div 781250)"
  using age_saturates [of 1000 5000000000 781250] by simp

end
