(* ===== verification/Hardware.thy ===== *)
theory Hardware
  imports Prelude "HOL-Library.Monad_Syntax"
begin

text \<open>
  The hardware the firmware drives, as a world that every effectful operation takes and returns: what
  each access of a register, of the free-running counter or of the tick count returns is an input,
  indexed by the number of accesses before it, and the accesses, delays and cache operations are logged in order.
  On it stand the register accesses of \<^verbatim>\<open>software/r5/include/board.h\<close> and the 64-bit timestamp of
  \<^verbatim>\<open>software/r5/src/board.c\<close>. Components extend the world record with their own static variables. A
  polling loop that need not end is an option: \<open>None\<close> is not returning.
\<close>

section \<open>The world\<close>

datatype port = Reg u32 | Counter | Tick_Count | Create nat | Rx_Status nat | Tx_Status nat

datatype event =
    Rd u32 u32
  | Wr u32 u32
  | Sleep nat
  | Clean u32 nat
  | Invalidate u32 nat
  | Bd_Clear u32
  | Dma_Event
  | Net_Link bool

record hw =
  hw_input :: "nat \<Rightarrow> port \<Rightarrow> u32"
  hw_count :: nat
  hw_log :: "event list"
  stamp_last :: u32
  stamp_high :: u64
  stamp_hz :: u32

definition sense :: "port \<Rightarrow> 'a hw_scheme \<Rightarrow> u32 \<times> 'a hw_scheme" where
  "sense p h = (hw_input h (hw_count h) p, h\<lparr>hw_count := Suc (hw_count h)\<rparr>)"

definition emit :: "event \<Rightarrow> 'a hw_scheme \<Rightarrow> 'a hw_scheme" where
  "emit e h = h\<lparr>hw_log := hw_log h @ [e]\<rparr>"

definition mmio_read :: "u32 \<Rightarrow> 'a hw_scheme \<Rightarrow> u32 \<times> 'a hw_scheme" where
  "mmio_read a h = (case sense (Reg a) h of (v, h) \<Rightarrow> (v, emit (Rd a v) h))"

definition mmio_write :: "u32 \<Rightarrow> u32 \<Rightarrow> 'a hw_scheme \<Rightarrow> 'a hw_scheme" where
  "mmio_write a v h = emit (Wr a v) h"

definition tick_count :: "'a hw_scheme \<Rightarrow> u32 \<times> 'a hw_scheme" where
  "tick_count h = sense Tick_Count h"

definition vTaskDelay :: "nat \<Rightarrow> 'a hw_scheme \<Rightarrow> 'a hw_scheme" where
  "vTaskDelay n h = emit (Sleep n) h"

abbreviation DIAG_BASE :: u32 where "DIAG_BASE \<equiv> 0x80100000"
abbreviation DMA_BASE :: u32 where "DMA_BASE \<equiv> 0x80000000"
abbreviation LINK_SET :: u32 where "LINK_SET \<equiv> 0x0c"
abbreviation LINK_CLR :: u32 where "LINK_CLR \<equiv> 0x10"
abbreviation LINK_STATUS :: u32 where "LINK_STATUS \<equiv> 0x14"
abbreviation PCS_STATUS :: u32 where "PCS_STATUS \<equiv> 0x20"
abbreviation FWD_SET :: u32 where "FWD_SET \<equiv> 0x38"
abbreviation FWD_CLR :: u32 where "FWD_CLR \<equiv> 0x3c"
abbreviation LEARN_SET :: u32 where "LEARN_SET \<equiv> 0x40"
abbreviation LEARN_CLR :: u32 where "LEARN_CLR \<equiv> 0x44"
abbreviation PORT_CTRL_STATUS :: u32 where "PORT_CTRL_STATUS \<equiv> 0x48"
abbreviation CPU_RX_TAG :: u32 where "CPU_RX_TAG \<equiv> 0x50"
abbreviation CPU_TX_ABI :: u32 where "CPU_TX_ABI \<equiv> 0x54"
abbreviation STP_ABI :: u32 where "STP_ABI \<equiv> 0x58"

lemmas hw_defs = sense_def emit_def mmio_read_def mmio_write_def tick_count_def vTaskDelay_def

named_theorems hw_simps \<open>selectors of the world after an access\<close>

lemma sense_simps [hw_simps]:
  "fst (sense p h) = hw_input h (hw_count h) p"
  "hw_log (snd (sense p h)) = hw_log h"
  "hw_input (snd (sense p h)) = hw_input h"
  "stamp_last (snd (sense p h)) = stamp_last h" "stamp_high (snd (sense p h)) = stamp_high h"
  "stamp_hz (snd (sense p h)) = stamp_hz h" "hw_count (snd (sense p h)) = Suc (hw_count h)"
  by (simp_all add: sense_def)

lemma emit_simps [hw_simps]:
  "hw_log (emit e h) = hw_log h @ [e]" "hw_input (emit e h) = hw_input h" "hw_count (emit e h) = hw_count h"
  "stamp_last (emit e h) = stamp_last h" "stamp_high (emit e h) = stamp_high h" "stamp_hz (emit e h) = stamp_hz h"
  by (simp_all add: emit_def)

lemma mmio_write_simps [hw_simps]:
  "hw_log (mmio_write a v h) = hw_log h @ [Wr a v]" "hw_input (mmio_write a v h) = hw_input h"
  "hw_count (mmio_write a v h) = hw_count h" "stamp_last (mmio_write a v h) = stamp_last h"
  "stamp_high (mmio_write a v h) = stamp_high h" "stamp_hz (mmio_write a v h) = stamp_hz h"
  by (simp_all add: mmio_write_def hw_simps)

lemma mmio_read_simps [hw_simps]:
  "fst (mmio_read a h) = hw_input h (hw_count h) (Reg a)"
  "hw_log (snd (mmio_read a h)) = hw_log h @ [Rd a (hw_input h (hw_count h) (Reg a))]"
  "hw_input (snd (mmio_read a h)) = hw_input h" "hw_count (snd (mmio_read a h)) = Suc (hw_count h)"
  "stamp_last (snd (mmio_read a h)) = stamp_last h" "stamp_high (snd (mmio_read a h)) = stamp_high h"
  "stamp_hz (snd (mmio_read a h)) = stamp_hz h"
  by (simp_all add: mmio_read_def sense_def hw_simps)

lemma vTaskDelay_simps [hw_simps]:
  "hw_log (vTaskDelay n h) = hw_log h @ [Sleep n]" "hw_input (vTaskDelay n h) = hw_input h"
  "hw_count (vTaskDelay n h) = hw_count h" "stamp_last (vTaskDelay n h) = stamp_last h"
  "stamp_high (vTaskDelay n h) = stamp_high h" "stamp_hz (vTaskDelay n h) = stamp_hz h"
  by (simp_all add: vTaskDelay_def hw_simps)

section \<open>The timestamp\<close>

text \<open>A 32-bit counter extended to 64 bits in software.\<close>

definition stamp_extend :: "u32 \<times> u64 \<Rightarrow> u32 \<Rightarrow> u64 \<times> (u32 \<times> u64)" where
  "stamp_extend s now =
     (case s of (lst, high) \<Rightarrow>
        let high = (if now < lst then high + 2 ^ 32 else high) in (high OR ucast now, (now, high)))"

definition stamp_sample :: "'a hw_scheme \<Rightarrow> u64 \<times> 'a hw_scheme" where
  "stamp_sample h =
     (case sense Counter h of (now, h) \<Rightarrow>
      case stamp_extend (stamp_last h, stamp_high h) now of (value, lst, high) \<Rightarrow>
        (value, h\<lparr>stamp_last := lst, stamp_high := high\<rparr>))"

text \<open>Masking the interrupt around the sample has no effect on one processor without preemption here.\<close>

definition board_timestamp :: "'a hw_scheme \<Rightarrow> u64 \<times> 'a hw_scheme" where
  "board_timestamp h = stamp_sample h"

definition board_timestamp_hz :: "'a hw_scheme \<Rightarrow> u32" where
  "board_timestamp_hz h = stamp_hz h"

definition board_tick_clear :: "'a hw_scheme \<Rightarrow> 'a hw_scheme" where
  "board_tick_clear h = snd (stamp_sample h)"

lemma board_timestamp_simps [hw_simps]:
  "hw_log (snd (board_timestamp h)) = hw_log h" "hw_input (snd (board_timestamp h)) = hw_input h"
  "stamp_hz (snd (board_timestamp h)) = stamp_hz h" "hw_count (snd (board_timestamp h)) = Suc (hw_count h)"
  by (simp_all add: board_timestamp_def stamp_sample_def sense_def split: prod.splits)

section \<open>The extension is exact\<close>

text \<open>The reference: a counter that never wraps, read modulo $2^{64}$. A sample must follow the previous
  one within one wrap of the hardware counter, which the millisecond tick ensures.\<close>

definition stamp_step :: "u32 \<times> u64 \<Rightarrow> nat \<Rightarrow> u64 \<times> (u32 \<times> u64)" where
  "stamp_step s t = stamp_extend s (word_of_nat t)"

definition stamp_ref :: "unit \<Rightarrow> nat \<Rightarrow> u64 \<times> unit" where
  "stamp_ref u t = (word_of_nat t, ())"

definition stamp_rel :: "nat \<Rightarrow> u32 \<times> u64 \<Rightarrow> unit \<Rightarrow> bool" where
  "stamp_rel t s u \<longleftrightarrow> fst s = word_of_nat t \<and> snd s = word_of_nat (t div 2 ^ 32 * 2 ^ 32)"

lemma high_or_low: "(word_of_nat (t div 2 ^ 32 * 2 ^ 32) :: u64) OR ucast (word_of_nat t :: u32) = word_of_nat t"
proof (rule bit_word_eqI)
  fix n assume n: "n < LENGTH(64)"
  have high: "bit (t div 2 ^ 32 * 2 ^ 32) n \<longleftrightarrow> 32 \<le> n \<and> bit t n"
  proof -
    have "t div 2 ^ 32 * 2 ^ 32 = push_bit 32 (drop_bit 32 t)" by (simp only: push_bit_eq_mult drop_bit_eq_div)
    then show ?thesis
      by (simp only: bit_push_bit_iff bit_drop_bit_eq comp_def) (auto simp: le_add_diff_inverse)
  qed
  moreover define H where "H = t div 2 ^ 32 * 2 ^ 32"
  ultimately show "bit ((word_of_nat (t div 2 ^ 32 * 2 ^ 32) :: u64) OR ucast (word_of_nat t :: u32)) n =
      bit (word_of_nat t :: u64) n"
    using n unfolding H_def [symmetric] by (auto simp: bit_or_iff bit_of_nat_iff bit_ucast_iff)
qed

lemma wrap_iff:
  assumes "t \<le> t'" and "t' - t < 2 ^ 32"
  shows "(word_of_nat t' :: u32) < word_of_nat t \<longleftrightarrow> t' div 2 ^ 32 = Suc (t div 2 ^ 32)"
    and "t' div 2 ^ 32 = t div 2 ^ 32 \<or> t' div 2 ^ 32 = Suc (t div 2 ^ 32)"
proof -
  let ?m = "2 ^ 32 :: nat"
  have t: "t = t div ?m * ?m + t mod ?m" "t' = t' div ?m * ?m + t' mod ?m" by simp_all
  have m: "t mod ?m < ?m" "t' mod ?m < ?m" by simp_all
  have le: "t div ?m \<le> t' div ?m" using assms(1) by (rule div_le_mono)
  have up: "t' div ?m \<le> Suc (t div ?m)"
  proof -
    have "t' < t + ?m" using assms by linarith
    then have "t' div ?m \<le> (t + ?m) div ?m" by (intro div_le_mono) simp
    then show ?thesis by simp
  qed
  from le up show cases: "t' div ?m = t div ?m \<or> t' div ?m = Suc (t div ?m)" by linarith
  have "t' mod ?m < t mod ?m \<longleftrightarrow> t' div ?m = Suc (t div ?m)"
    using cases
  proof
    assume same: "t' div ?m = t div ?m"
    then have "\<not> t' mod ?m < t mod ?m" using t assms(1) by (metis add_le_cancel_left not_le)
    with same show ?thesis by simp
  next
    assume next_lap: "t' div ?m = Suc (t div ?m)"
    have "t' = t div ?m * ?m + ?m + t' mod ?m" using t(2) unfolding next_lap by simp
    then have "t' mod ?m < t mod ?m" using assms(2) t(1) by linarith
    with next_lap show ?thesis by simp
  qed
  then show "(word_of_nat t' :: u32) < word_of_nat t \<longleftrightarrow> t' div ?m = Suc (t div ?m)"
    by (simp add: word_less_nat_alt unat_of_nat take_bit_eq_mod)
qed

interpretation stamps: timed_refinement stamp_step stamp_ref "\<lambda>t. t" "\<lambda>t t'. t \<le> t' \<and> t' - t < 2 ^ 32" stamp_rel
proof unfold_locales
  fix t :: nat and c :: "u32 \<times> u64" and a :: unit and t' :: nat
  assume rel: "stamp_rel t c a" and adm: "t \<le> t' \<and> t' - t < 2 ^ 32"
  obtain lst high where c: "c = (lst, high)" by (cases c)
  have inv: "lst = word_of_nat t" "high = word_of_nat (t div 2 ^ 32 * 2 ^ 32)" using rel by (simp_all add: stamp_rel_def c)
  note wrap = wrap_iff [OF conjunct1 [OF adm] conjunct2 [OF adm]]
  have new: "(if (word_of_nat t' :: u32) < lst then high + 2 ^ 32 else high) = word_of_nat (t' div 2 ^ 32 * 2 ^ 32)"
    using wrap unfolding inv by (auto simp: algebra_simps)
  have step: "stamp_step c t' = (word_of_nat t', (word_of_nat t', word_of_nat (t' div 2 ^ 32 * 2 ^ 32)))"
    unfolding stamp_step_def stamp_extend_def c prod.case Let_def new high_or_low by (rule refl)
  show "fst (stamp_step c t') = fst (stamp_ref a t')" by (simp add: step stamp_ref_def)
  show "stamp_rel t' (snd (stamp_step c t')) (snd (stamp_ref a t'))" by (simp add: step stamp_rel_def)
qed

text \<open>The software extension of the 32-bit counter is exact: if successive samples are less than one
  counter wrap apart, every sample of a run returns the true count modulo 2^64.\<close>
theorem stamp_run_exact:
  assumes "admissible (\<lambda>t t'. t \<le> t' \<and> t' - t < 2 ^ 32) (\<lambda>t. t) 0 ts"
  shows "fst (run stamp_step (0, 0) ts) = map word_of_nat ts"
proof -
  have "stamp_rel 0 (0, 0) ()" by (simp add: stamp_rel_def)
  from stamps.run_output [OF this assms] have "fst (run stamp_step (0, 0) ts) = fst (run stamp_ref () ts)" .
  also have "\<dots> = map word_of_nat ts"
    by (induction ts) (simp_all add: fst_run_Cons stamp_ref_def del: run.simps(2))
  finally show ?thesis .
qed

theorem stamp_run_exact_witness:
  "fst (run stamp_step (0, 0) [4000000000, 5000000000, 9000000000]) = map word_of_nat [4000000000, 5000000000, 9000000000]"
  by (rule stamp_run_exact) simp

end
