(* ===== verification/Statistics.thy ===== *)
theory Statistics
  imports Hardware Snapshots
begin

text \<open>
  The statistics collector \<^verbatim>\<open>software/r5/src/statistics.c\<close>: the accumulated totals extend the world, one poll of the
  task is \<open>statistics_poll\<close>. Critical sections only order the copies other tasks take and have no
  counterpart. The theorems show that the array shapes, the split of the timeout count and the
  per-index timeout counters stay consistent over any number of polls, and what a read adds to the totals.
\<close>

abbreviation CAPS :: u32 where "CAPS \<equiv> DIAG_BASE + 0x24"
abbreviation INDEX :: u32 where "INDEX \<equiv> DIAG_BASE + 0x28"
abbreviation DATA :: u32 where "DATA \<equiv> DIAG_BASE + 0x2c"
abbreviation BANK_STATUS :: u32 where "BANK_STATUS \<equiv> DIAG_BASE + 0x38"

definition expected_caps :: "stats_build \<Rightarrow> u32" where
  "expected_caps b = 0x53540201 OR (if STATS_DDR b then 2 else 0) OR (if STATS_DEBUG b then 4 else 0)"

record stats = hw +
  totals :: statistics_snapshot

definition statistics_get :: "'a stats_scheme \<Rightarrow> statistics_snapshot" where
  "statistics_get h = totals h"

definition empty_bank :: statistics_bank_snapshot where
  "empty_bank = \<lparr>bk_last_success = 0, bk_clock_unavailable_events = 0, bk_active_clock_timeouts = 0,
     bk_hardware_status = 0, bk_state = 0\<rparr>"

definition initial_totals :: statistics_snapshot where
  "initial_totals = \<lparr>ss_bank = replicate 13 empty_bank, ss_port = replicate 6 (replicate 8 0),
     ss_ddr = replicate 4 (replicate 8 0), ss_debug = replicate 16 0, ss_fabric_hz = 0, ss_timestamp = 0,
     ss_polls = 0, ss_late_polls = 0, ss_saturated_reads = 0, ss_read_timeouts = 0, ss_capabilities = 0,
     ss_mailbox_release_timeouts = 0, ss_snapshot_response_timeouts = 0,
     ss_release_timeout_by_index = replicate 13 (replicate 16 0),
     ss_response_timeout_by_index = replicate 13 (replicate 16 0),
     ss_last_release_index = UINT32_MAX, ss_last_release_target_index = UINT32_MAX,
     ss_last_response_index = UINT32_MAX, ss_available = False\<rparr>"

section \<open>Accumulation\<close>

text \<open>The counter a hardware index belongs to.\<close>

datatype cell = Port_Cell nat nat | Ddr_Cell nat nat | Debug_Cell nat

definition cell_of :: "stats_build \<Rightarrow> nat \<Rightarrow> cell option" where
  "cell_of b index =
     (let bank = index div 16; slot = index mod 16 in
      if bank < 4 \<and> slot < 4 then Some (Port_Cell (bank div 2) (bank mod 2 * 4 + slot))
      else if 4 \<le> bank \<and> bank < 8 \<and> slot < 8 then Some (Port_Cell (bank - 2) slot)
      else if STATS_DDR b \<and> 8 \<le> bank \<and> bank < 12 \<and> slot < 8 then Some (Ddr_Cell (bank - 8) slot)
      else if STATS_DEBUG b \<and> bank = 12 then Some (Debug_Cell slot)
      else None)"

fun cell_get :: "cell \<Rightarrow> statistics_snapshot \<Rightarrow> u64" where
  "cell_get (Port_Cell r c) s = ss_port s ! r ! c"
| "cell_get (Ddr_Cell r c) s = ss_ddr s ! r ! c"
| "cell_get (Debug_Cell c) s = ss_debug s ! c"

fun cell_put :: "cell \<Rightarrow> u64 \<Rightarrow> statistics_snapshot \<Rightarrow> statistics_snapshot" where
  "cell_put (Port_Cell r c) v s = s\<lparr>ss_port := (ss_port s)[r := (ss_port s ! r)[c := v]]\<rparr>"
| "cell_put (Ddr_Cell r c) v s = s\<lparr>ss_ddr := (ss_ddr s)[r := (ss_ddr s ! r)[c := v]]\<rparr>"
| "cell_put (Debug_Cell c) v s = s\<lparr>ss_debug := (ss_debug s)[c := v]\<rparr>"

definition accumulate :: "stats_build \<Rightarrow> nat \<Rightarrow> u32 \<Rightarrow> statistics_snapshot \<Rightarrow> statistics_snapshot" where
  "accumulate b index value s =
     (case cell_of b index of
        None \<Rightarrow> s
      | Some p \<Rightarrow>
          let bank = index div 16; slot = index mod 16;
              s = (if value AND 0x80000000 \<noteq> 0 then s\<lparr>ss_saturated_reads := ss_saturated_reads s + 1\<rparr> else s);
              value = ucast (value AND 0x7fffffff)
          in if 8 \<le> bank \<and> bank < 12 \<and> slot = 3
             then (if cell_get p s < value then cell_put p value s else s)
             else cell_put p (cell_get p s + value) s)"

definition bank_enabled :: "stats_build \<Rightarrow> nat \<Rightarrow> bool" where
  "bank_enabled b bank \<longleftrightarrow> \<not> (8 \<le> bank \<and> bank < 12 \<and> \<not> STATS_DDR b) \<and> \<not> (bank = 12 \<and> \<not> STATS_DEBUG b)"

definition bank_update :: "nat \<Rightarrow> (statistics_bank_snapshot \<Rightarrow> statistics_bank_snapshot) \<Rightarrow> statistics_snapshot \<Rightarrow> statistics_snapshot" where
  "bank_update bank f s = s\<lparr>ss_bank := (ss_bank s)[bank := f (ss_bank s ! bank)]\<rparr>"

definition unavailable :: "nat \<Rightarrow> statistics_snapshot \<Rightarrow> statistics_snapshot" where
  "unavailable bank s =
     bank_update bank (\<lambda>k. (if bk_state k \<noteq> 2
        then k\<lparr>bk_clock_unavailable_events := bk_clock_unavailable_events k + 1\<rparr> else k)\<lparr>bk_state := 2\<rparr>) s"

definition bump :: "u32 list list \<Rightarrow> nat \<Rightarrow> nat \<Rightarrow> u32 list list" where
  "bump t i j = t[i := (t ! i)[j := t ! i ! j + 1]]"

text \<open>A read that timed out, with the status seen after it.\<close>

definition timed_out :: "nat \<Rightarrow> u32 \<Rightarrow> statistics_snapshot \<Rightarrow> statistics_snapshot" where
  "timed_out index status s =
     (let bank = index div 16; held = unat (drop_bit 4 status AND 15);
          s = bank_update bank (\<lambda>k. k\<lparr>bk_state := 3, bk_active_clock_timeouts := bk_active_clock_timeouts k + 1\<rparr>) s;
          s = s\<lparr>ss_read_timeouts := ss_read_timeouts s + 1\<rparr>
      in if status AND 1 = 0 \<and> status AND 4 \<noteq> 0
         then s\<lparr>ss_mailbox_release_timeouts := ss_mailbox_release_timeouts s + 1,
                ss_last_release_index := word_of_nat (bank * 16 + held),
                ss_last_release_target_index := word_of_nat index,
                ss_release_timeout_by_index := bump (ss_release_timeout_by_index s) bank held\<rparr>
         else s\<lparr>ss_snapshot_response_timeouts := ss_snapshot_response_timeouts s + 1,
                ss_last_response_index := word_of_nat index,
                ss_response_timeout_by_index := bump (ss_response_timeout_by_index s) bank (index mod 16)\<rparr>)"

abbreviation on_totals :: "(statistics_snapshot \<Rightarrow> statistics_snapshot) \<Rightarrow> 'a stats_scheme \<Rightarrow> 'a stats_scheme" where
  "on_totals f h \<equiv> h\<lparr>totals := f (totals h)\<rparr>"

definition note_status :: "nat \<Rightarrow> u32 \<Rightarrow> 'a stats_scheme \<Rightarrow> 'a stats_scheme" where
  "note_status bank status h = on_totals (bank_update bank (\<lambda>k. k\<lparr>bk_hardware_status := status\<rparr>)) h"

definition read_counter :: "stats_build \<Rightarrow> nat \<Rightarrow> 'a stats_scheme \<Rightarrow> bool \<times> 'a stats_scheme" where
  "read_counter b index h =
     (let bank = index div 16; h = mmio_write INDEX (word_of_nat index) h;
          (status, h) = mmio_read BANK_STATUS h; h = note_status bank status h
      in if status AND 8 = 0 \<and> status AND 2 = 0 then (False, on_totals (unavailable bank) h)
         else let (value, h) = mmio_read DATA h; (status, h) = mmio_read BANK_STATUS h; h = note_status bank status h
              in if value = UINT32_MAX
                 then (False, on_totals (if status AND 8 = 0 \<or> status AND 0x101 = 0x101
                                         then unavailable bank else timed_out index status) h)
                 else (True, on_totals (accumulate b index value) h))"

fun read_slots :: "stats_build \<Rightarrow> nat list \<Rightarrow> 'a stats_scheme \<Rightarrow> bool \<times> 'a stats_scheme" where
  "read_slots b [] h = (True, h)"
| "read_slots b (i # is) h = (case read_counter b i h of (ok, h) \<Rightarrow> if ok then read_slots b is h else (False, h))"

definition collect_bank :: "stats_build \<Rightarrow> nat \<Rightarrow> 'a stats_scheme \<Rightarrow> 'a stats_scheme" where
  "collect_bank b bank h =
     (let count = (if bank < 4 then 4 else if bank = 12 then 16 else 8);
          h = mmio_write INDEX (word_of_nat (bank * 16)) h;
          (status, h) = mmio_read BANK_STATUS h; h = note_status bank status h;
          slot = unat (drop_bit 4 status AND 15);
          (go, h) = (if status AND 1 \<noteq> 0
                     then if count \<le> slot then (False, h) else read_counter b (bank * 16 + slot) h
                     else (True, h))
      in if \<not> go then h
         else let (ok, h) = read_slots b (map (\<lambda>slot. bank * 16 + slot) [0..<count]) h
              in if \<not> ok then h
                 else let (now, h) = board_timestamp h
                      in on_totals (bank_update bank (\<lambda>k. k\<lparr>bk_last_success := now, bk_state := 1\<rparr>)) h)"

text \<open>The task before its loop, and one iteration of the loop.\<close>

definition statistics_start :: "stats_build \<Rightarrow> 'a stats_scheme \<Rightarrow> 'a stats_scheme" where
  "statistics_start b h =
     (let (caps, h) = mmio_read CAPS h; (hz, h) = mmio_read (DIAG_BASE + 0x34) h
      in on_totals (\<lambda>s. s\<lparr>ss_capabilities := caps, ss_fabric_hz := hz, ss_available := (caps = expected_caps b),
           ss_bank := map (\<lambda>i. (ss_bank s ! i)\<lparr>bk_state := (if bank_enabled b i then 4 else 0)\<rparr>) [0..<13]\<rparr>) h)"

definition statistics_poll :: "stats_build \<Rightarrow> 'a stats_scheme \<Rightarrow> 'a stats_scheme" where
  "statistics_poll b h =
     (let (now, h) = board_timestamp h;
          h = (if ss_timestamp (totals h) \<noteq> 0 \<and> ucast (board_timestamp_hz h) div 2 < now - ss_timestamp (totals h)
               then on_totals (\<lambda>s. s\<lparr>ss_late_polls := ss_late_polls s + 1\<rparr>) h else h);
          h = (if ss_available (totals h)
               then on_totals (\<lambda>s. s\<lparr>ss_polls := ss_polls s + 1\<rparr>)
                      (foldl (\<lambda>h bank. if bank_enabled b bank then collect_bank b bank h else h) h [0..<13])
               else h)
      in vTaskDelay 250 (on_totals (\<lambda>s. s\<lparr>ss_timestamp := now\<rparr>) h))"

section \<open>The invariant of the totals\<close>

text \<open>The array shapes, the total of the two timeout classes, and each class as the sum of its counters
  by index, all modulo $2^{32}$.\<close>

definition timeouts_add_up :: "u32 \<Rightarrow> u32 \<Rightarrow> u32 \<Rightarrow> u32 list list \<Rightarrow> u32 list list \<Rightarrow> bool" where
  "timeouts_add_up reads release response release_by response_by \<longleftrightarrow>
     reads = release + response \<and> release = sum_list (map sum_list release_by) \<and>
     response = sum_list (map sum_list response_by)"

definition stats_inv :: "statistics_snapshot \<Rightarrow> bool" where
  "stats_inv s \<longleftrightarrow> statistics_wf s \<and>
     timeouts_add_up (ss_read_timeouts s) (ss_mailbox_release_timeouts s) (ss_snapshot_response_timeouts s)
       (ss_release_timeout_by_index s) (ss_response_timeout_by_index s)"

lemma sum_list_update_word:
  fixes xs :: "'a::ab_group_add list"
  shows "i < length xs \<Longrightarrow> sum_list (xs[i := v]) = sum_list xs - xs ! i + v"
  by (induction xs arbitrary: i) (auto split: nat.splits simp: algebra_simps)

lemma sum_bump:
  assumes "i < length t" and "j < length (t ! i)"
  shows "sum_list (map sum_list (bump t i j)) = sum_list (map sum_list t) + 1"
  using assms by (simp add: bump_def map_update sum_list_update_word)

lemma bump_shape: "rows m n t \<Longrightarrow> rows m n (bump t i j)"
  by (simp add: bump_def rows_update)

lemma inv_bank: "stats_inv s \<Longrightarrow> stats_inv (bank_update bank f s)"
  by (simp add: stats_inv_def statistics_wf_def bank_update_def)

lemma inv_unavailable: "stats_inv s \<Longrightarrow> stats_inv (unavailable bank s)"
  by (simp add: unavailable_def inv_bank)

lemma inv_saturated: "stats_inv s \<Longrightarrow> stats_inv (s\<lparr>ss_saturated_reads := n\<rparr>)"
  by (simp add: stats_inv_def statistics_wf_def)

lemma inv_cell: "stats_inv s \<Longrightarrow> stats_inv (cell_put p v s)"
  by (cases p) (simp_all add: stats_inv_def statistics_wf_def rows_update)

lemma inv_accumulate: "stats_inv s \<Longrightarrow> stats_inv (accumulate b index value s)"
  by (simp add: accumulate_def Let_def inv_cell inv_saturated split: option.split)

lemma held_slot: "unat (drop_bit 4 (status :: u32) AND 15) < 16"
proof -
  have "drop_bit 4 status AND 15 \<le> 15" by (rule word_and_le1)
  then show ?thesis by (simp add: word_le_nat_alt)
qed

lemma inv_timed_out:
  assumes "stats_inv s" and "index div 16 < 13"
  shows "stats_inv (timed_out index status s)"
proof -
  let ?s = "bank_update (index div 16) (\<lambda>k. k\<lparr>bk_state := 3, bk_active_clock_timeouts := bk_active_clock_timeouts k + 1\<rparr>) s"
  have inv: "stats_inv ?s" by (rule inv_bank [OF assms(1)])
  let ?rel = "ss_release_timeout_by_index ?s" and ?rsp = "ss_response_timeout_by_index ?s"
  have row: "length (?rel ! (index div 16)) = 16" "length (?rsp ! (index div 16)) = 16"
      "index div 16 < length ?rel" "index div 16 < length ?rsp"
    using inv assms(2) by (auto simp: stats_inv_def statistics_wf_def rows_length rows_nth)
  note bumps = sum_bump [OF row(3), of "unat (drop_bit 4 status AND 15)"] sum_bump [OF row(4), of "index mod 16"]
  let ?t = "ss_read_timeouts ?s" and ?m = "ss_mailbox_release_timeouts ?s" and ?n = "ss_snapshot_response_timeouts ?s"
  have add_up: "timeouts_add_up ?t ?m ?n ?rel ?rsp" using inv by (simp add: stats_inv_def)
  have "timeouts_add_up (?t + 1) (?m + 1) ?n (bump ?rel (index div 16) (unat (drop_bit 4 status AND 15))) ?rsp"
    "timeouts_add_up (?t + 1) ?m (?n + 1) ?rel (bump ?rsp (index div 16) (index mod 16))"
    using add_up row(1,2) held_slot [of status] unfolding timeouts_add_up_def
    by (simp_all only: bumps mod_less_divisor) simp_all
  then show ?thesis
    using inv unfolding timed_out_def Let_def by (simp add: stats_inv_def statistics_wf_def bump_shape)
qed

lemma totals_hw [hw_simps]:
  "totals (snd (sense p h)) = totals h" "totals (emit e h) = totals h" "totals (mmio_write a v h) = totals h"
  "totals (snd (mmio_read a h)) = totals h" "totals (vTaskDelay n h) = totals h"
  "totals (snd (board_timestamp h)) = totals h"
  by (simp_all add: sense_def emit_def mmio_write_def mmio_read_def vTaskDelay_def board_timestamp_def stamp_sample_def
      case_prod_beta)

lemma inv_note: "stats_inv (totals h) \<Longrightarrow> stats_inv (totals (note_status bank status h))"
  by (simp add: note_status_def inv_bank)

lemma inv_read_counter:
  "stats_inv (totals h) \<Longrightarrow> index div 16 < 13 \<Longrightarrow> stats_inv (totals (snd (read_counter b index h)))"
  by (simp add: read_counter_def Let_def case_prod_beta hw_simps inv_note inv_unavailable inv_timed_out inv_accumulate)

lemma inv_read_slots:
  "stats_inv (totals h) \<Longrightarrow> (\<And>i. i \<in> set is \<Longrightarrow> i div 16 < 13) \<Longrightarrow> stats_inv (totals (snd (read_slots b is h)))"
proof (induction "is" arbitrary: h)
  case Nil
  then show ?case by simp
next
  case (Cons i "is")
  have "stats_inv (totals (snd (read_counter b i h)))" using Cons.prems by (simp add: inv_read_counter)
  from Cons.IH [OF this] this Cons.prems(2) show ?case by (simp add: case_prod_beta)
qed

lemma inv_collect:
  assumes "stats_inv (totals h)" and "bank < 13"
  shows "stats_inv (totals (collect_bank b bank h))"
proof -
  have slot: "(bank * 16 + unat (drop_bit 4 status AND 15)) div 16 < 13" for status :: u32
    using assms(2) held_slot [of status] by simp
  let ?count = "if bank < 4 then 4 else if bank = 12 then 16 else 8"
  let ?r = "mmio_read BANK_STATUS (mmio_write INDEX (word_of_nat (bank * 16)) h)"
  let ?slot = "unat (drop_bit 4 (fst ?r) AND 15)"
  obtain h1 where h1: "h1 = note_status bank (fst ?r) (snd ?r)" by blast
  have inv1: "stats_inv (totals h1)" unfolding h1 by (rule inv_note) (use assms(1) in \<open>simp add: hw_simps\<close>)
  obtain go h2 where g: "(if fst ?r AND 1 \<noteq> 0
        then if ?count \<le> ?slot then (False, h1) else read_counter b (bank * 16 + ?slot) h1 else (True, h1)) = (go, h2)"
    by fastforce
  have inv2: "stats_inv (totals h2)"
    using g inv1 inv_read_counter [OF inv1 slot, of b "fst ?r"] by (auto split: if_splits)
  obtain ok h3 where s: "read_slots b (map (\<lambda>slot. bank * 16 + slot) [0..<?count]) h2 = (ok, h3)" by fastforce
  have "stats_inv (totals (snd (read_slots b (map (\<lambda>slot. bank * 16 + slot) [0..<?count]) h2)))"
    by (rule inv_read_slots [OF inv2]) (use assms(2) in \<open>auto split: if_splits\<close>)
  then have inv3: "stats_inv (totals h3)" by (simp add: s)
  have "collect_bank b bank h = (if \<not> go then h2 else if \<not> ok then h3 else
      on_totals (bank_update bank (\<lambda>k. k\<lparr>bk_last_success := fst (board_timestamp h3), bk_state := 1\<rparr>)) (snd (board_timestamp h3)))"
    unfolding collect_bank_def Let_def case_prod_beta h1 [symmetric] g fst_conv snd_conv s by simp
  then show ?thesis using inv2 inv3 by (simp add: inv_bank hw_simps)
qed

lemma inv_fold:
  assumes "stats_inv (totals h)" and "\<forall>k\<in>set ks. k < 13"
  shows "stats_inv (totals (foldl (\<lambda>h bank. if bank_enabled b bank then collect_bank b bank h else h) h ks))"
  using assms by (induction ks arbitrary: h) (simp_all add: inv_collect)

lemma inv_fields:
  "stats_inv s \<Longrightarrow> stats_inv (s\<lparr>ss_late_polls := n\<rparr>)" "stats_inv s \<Longrightarrow> stats_inv (s\<lparr>ss_polls := n\<rparr>)"
  "stats_inv s \<Longrightarrow> stats_inv (s\<lparr>ss_timestamp := t\<rparr>)"
  by (simp_all add: stats_inv_def statistics_wf_def)

lemma inv_poll: "stats_inv (totals h) \<Longrightarrow> stats_inv (totals (statistics_poll b h))"
  by (simp add: statistics_poll_def Let_def case_prod_beta hw_simps inv_fields inv_fold)

lemma inv_start: "stats_inv (totals h) \<Longrightarrow> stats_inv (totals (statistics_start b h))"
  by (simp add: statistics_start_def Let_def case_prod_beta hw_simps stats_inv_def statistics_wf_def)

text \<open>C29: Over any number of polls, from the initial totals and on any hardware, the arrays keep their
  declared shapes, the timeout total is the sum of its two classes, and each class is the sum of its per-index counters (modulo 2^32).\<close>
theorem statistics_consistent:
  assumes "totals h = initial_totals"
  shows "stats_inv (totals ((statistics_poll b ^^ n) (statistics_start b h)))"
proof (induction n)
  case 0
  have "stats_inv initial_totals"
    by (simp add: initial_totals_def stats_inv_def statistics_wf_def timeouts_add_up_def sum_list_replicate)
  then show ?case using assms by (simp add: inv_start)
next
  case (Suc n)
  then show ?case by (simp add: inv_poll)
qed

theorem statistics_consistent_witness:
  "stats_inv (totals ((statistics_poll \<lparr>STATS_DDR = True, STATS_DEBUG = False\<rparr> ^^ 3)
     (statistics_start \<lparr>STATS_DDR = True, STATS_DEBUG = False\<rparr>
       \<lparr>hw_input = (\<lambda>n p. 0x53540203), hw_count = 0, hw_log = [], stamp_last = 0, stamp_high = 0, stamp_hz = 1,
        totals = initial_totals\<rparr>)))"
  by (rule statistics_consistent) simp

section \<open>What a read does\<close>

text \<open>Indices that count have distinct cells, so no counter is mixed up with another.\<close>

fun index_of :: "cell \<Rightarrow> nat" where
  "index_of (Port_Cell r c) = (if r < 2 then (r * 2 + c div 4) * 16 + c mod 4 else (r + 2) * 16 + c)"
| "index_of (Ddr_Cell r c) = (r + 8) * 16 + c"
| "index_of (Debug_Cell c) = 12 * 16 + c"

lemma index_of_cell: "cell_of b i = Some c \<Longrightarrow> index_of c = i"
proof -
  assume c: "cell_of b i = Some c"
  define bank slot where "bank = i div 16" and "slot = i mod 16"
  have i: "i = bank * 16 + slot" by (simp add: bank_def slot_def)
  note cell = c [unfolded cell_of_def Let_def, folded bank_def slot_def]
  consider "bank < 4" "slot < 4" "c = Port_Cell (bank div 2) (bank mod 2 * 4 + slot)"
    | "4 \<le> bank" "bank < 8" "c = Port_Cell (bank - 2) slot"
    | "8 \<le> bank" "c = Ddr_Cell (bank - 8) slot" | "bank = 12" "c = Debug_Cell slot"
    using cell by (auto split: if_splits)
  then show ?thesis
  proof cases
    case 1
    have "bank div 2 < 2" "(bank mod 2 * 4 + slot) div 4 = bank mod 2" "(bank mod 2 * 4 + slot) mod 4 = slot"
      using 1(1,2) by auto
    then show ?thesis using 1(3) i by (simp add: div_mult_mod_eq)
  qed (use i in auto)
qed

lemma cell_of_inj: "cell_of b i = Some c \<Longrightarrow> cell_of b j = Some c \<Longrightarrow> i = j"
  by (metis index_of_cell)

fun in_range :: "cell \<Rightarrow> bool" where
  "in_range (Port_Cell r c) = (r < 6 \<and> c < 8)"
| "in_range (Ddr_Cell r c) = (r < 4 \<and> c < 8)"
| "in_range (Debug_Cell c) = (c < 16)"

lemma cell_of_range: "cell_of b i = Some c \<Longrightarrow> in_range c"
  by (auto simp: cell_of_def Let_def less_mult_imp_div_less split: if_splits)

lemma cell_get_put:
  assumes "statistics_wf s" and "in_range p" and "in_range q"
  shows "cell_get p (cell_put q v s) = (if p = q then v else cell_get p s)"
  using assms
  by (cases p; cases q) (auto simp: statistics_wf_def rows_length rows_nth nth_list_update)

lemma cell_get_other [simp]:
  "cell_get p (bank_update bank f s) = cell_get p s" "cell_get p (s\<lparr>ss_saturated_reads := n\<rparr>) = cell_get p s"
  by (cases p; simp add: bank_update_def)+

lemma cell_get_failed [simp]:
  "cell_get p (unavailable bank s) = cell_get p s" "cell_get p (timed_out i status s) = cell_get p s"
  by (cases p; simp add: unavailable_def timed_out_def bank_update_def Let_def)+

lemma cell_get_note [simp]: "cell_get p (totals (note_status bank status h)) = cell_get p (totals h)"
  by (simp add: note_status_def)

lemma wf_updates:
  "statistics_wf s \<Longrightarrow> statistics_wf (bank_update bank f s)"
  "statistics_wf s \<Longrightarrow> statistics_wf (s\<lparr>ss_saturated_reads := n\<rparr>)"
  by (simp_all add: statistics_wf_def bank_update_def)

lemma accumulate_cell:
  assumes "statistics_wf s" and "cell_of b j = Some p"
  shows "cell_get p (accumulate b i value s) =
    (if i = j then (if 8 \<le> i div 16 \<and> i div 16 < 12 \<and> i mod 16 = 3 then max (cell_get p s) (ucast (value AND 0x7fffffff))
                    else cell_get p s + ucast (value AND 0x7fffffff))
     else cell_get p s)"
proof (cases "cell_of b i")
  case None
  then show ?thesis using assms(2) by (auto simp: accumulate_def)
next
  case (Some q)
  have eq: "i = j \<longleftrightarrow> p = q" using Some assms(2) cell_of_inj by auto
  let ?s = "if value AND 0x80000000 \<noteq> 0 then s\<lparr>ss_saturated_reads := ss_saturated_reads s + 1\<rparr> else s"
  have wf: "statistics_wf ?s" using assms(1) by (simp add: wf_updates)
  have get: "cell_get c ?s = cell_get c s" for c by simp
  note put = cell_get_put [OF wf cell_of_range [OF assms(2)] cell_of_range [OF Some]]
  show ?thesis
    unfolding accumulate_def Some option.case Let_def eq
    using put get by (auto simp: max_def)
qed

text \<open>A successful read adds the 31-bit sample to the counter of its index (for the DDR maximum slot it takes the
  maximum) and leaves every other counter unchanged; a read that fails changes no counter.\<close>
theorem read_counter_adds:
  assumes "statistics_wf (totals h)" and "cell_of b j = Some p"
    and "read_counter b i h = (ok, h')" and "value = hw_input h (Suc (hw_count h)) (Reg DATA)"
  shows "cell_get p (totals h') =
    (if ok \<and> i = j
     then (if 8 \<le> i div 16 \<and> i div 16 < 12 \<and> i mod 16 = 3 then max (cell_get p (totals h)) (ucast (value AND 0x7fffffff))
           else cell_get p (totals h) + ucast (value AND 0x7fffffff))
     else cell_get p (totals h))"
proof -
  let ?h1 = "note_status (i div 16) (hw_input h (hw_count h) (Reg BANK_STATUS))
    (snd (mmio_read BANK_STATUS (mmio_write INDEX (word_of_nat i) h)))"
  let ?h3 = "note_status (i div 16) (hw_input h (Suc (Suc (hw_count h))) (Reg BANK_STATUS))
    (snd (mmio_read BANK_STATUS (snd (mmio_read DATA ?h1))))"
  have count: "hw_count (note_status k st g) = hw_count g" "hw_input (note_status k st g) = hw_input g"
    for k st and g :: "'a stats_scheme" by (simp_all add: note_status_def)
  have wf: "statistics_wf (totals ?h3)"
    using assms(1) by (simp add: note_status_def hw_simps wf_updates)
  have get: "cell_get c (totals ?h1) = cell_get c (totals h)" "cell_get c (totals ?h3) = cell_get c (totals h)" for c
    by (simp_all add: hw_simps)
  note acc = accumulate_cell [OF wf assms(2), of i "value", unfolded get]
  have "read_counter b i h =
    (if hw_input h (hw_count h) (Reg BANK_STATUS) AND 8 = 0 \<and> hw_input h (hw_count h) (Reg BANK_STATUS) AND 2 = 0
     then (False, on_totals (unavailable (i div 16)) ?h1)
     else if value = UINT32_MAX
     then (False, on_totals (if hw_input h (Suc (Suc (hw_count h))) (Reg BANK_STATUS) AND 8 = 0 \<or>
         hw_input h (Suc (Suc (hw_count h))) (Reg BANK_STATUS) AND 0x101 = 0x101
         then unavailable (i div 16) else timed_out i (hw_input h (Suc (Suc (hw_count h))) (Reg BANK_STATUS))) ?h3)
     else (True, on_totals (accumulate b i value) ?h3))"
    unfolding read_counter_def Let_def case_prod_beta
    by (simp add: assms(4) hw_simps count)
  with assms(3) acc get show ?thesis
    by (auto split: if_splits)
qed

definition sample_world :: stats where
  "sample_world = \<lparr>hw_input = (\<lambda>n p. if n = 1 then 0x80000005 else 8), hw_count = 0, hw_log = [], stamp_last = 0,
     stamp_high = 0, stamp_hz = 1, totals = initial_totals\<rparr>"

theorem read_counter_adds_witness:
  "cell_get (Port_Cell 0 1) (totals (snd (read_counter \<lparr>STATS_DDR = False, STATS_DEBUG = False\<rparr> 1 sample_world))) = 5"
proof -
  let ?b = "\<lparr>STATS_DDR = False, STATS_DEBUG = False\<rparr>"
  have wf: "statistics_wf (totals sample_world)"
    by (simp add: sample_world_def initial_totals_def statistics_wf_def)
  have cell: "cell_of ?b 1 = Some (Port_Cell 0 1)" by (simp add: cell_of_def)
  have run: "read_counter ?b 1 sample_world = (True, snd (read_counter ?b 1 sample_world))"
  proof -
    have "fst (read_counter ?b 1 sample_world)" by code_simp
    then show ?thesis by (metis prod.collapse)
  qed
  have zero: "cell_get (Port_Cell 0 1) (totals sample_world) = 0"
    by (simp add: sample_world_def initial_totals_def)
  show ?thesis
    using read_counter_adds [OF wf cell run refl] zero by (simp add: sample_world_def)
qed

end
