(* ===== verification/Pstate.thy ===== *)
theory Pstate
  imports Hardware
begin

text \<open>
  Per-port data-plane control, \<^verbatim>\<open>software/r5/src/pstate.c\<close>. The world is extended with the latched
  failure flag. The mutex serialises the callers of \<open>clear_and_flush\<close>, so its body is one step here. The theorems
  follow the forwarding enables the hardware keeps through the log of register writes: after a failure every
  physical port is closed and nothing reopens it, and a flush that is not reported as failed has completed.
\<close>

section \<open>Operations\<close>

record pstate = hw +
  control_failed :: bool

fun wait_flush_from :: "nat \<Rightarrow> 'a pstate_scheme \<Rightarrow> bool \<times> 'a pstate_scheme" where
  "wait_flush_from 0 h = (False, h\<lparr>control_failed := True\<rparr>)"
| "wait_flush_from (Suc n) h =
     (case mmio_read (DIAG_BASE + LINK_STATUS) (vTaskDelay 1 h) of (v, h) \<Rightarrow>
        if v AND 256 = 0 then (True, h) else wait_flush_from n h)"

definition wait_flush :: "'a pstate_scheme \<Rightarrow> bool \<times> 'a pstate_scheme" where
  "wait_flush h = wait_flush_from 100 h"

definition clear_and_flush :: "u32 \<Rightarrow> u8 \<Rightarrow> 'a pstate_scheme \<Rightarrow> 'a pstate_scheme" where
  "clear_and_flush reg ports h =
     (if ports = 0 then h
      else let (ok, h) = wait_flush h;
               h = (if ok then snd (wait_flush (mmio_write (DIAG_BASE + reg) (ucast ports AND 0x3f) h)) else h)
           in if control_failed h then mmio_write (DIAG_BASE + FWD_CLR) 0x1f h else h)"

definition pstate_stp_supported :: "'a hw_scheme \<Rightarrow> bool \<times> 'a hw_scheme" where
  "pstate_stp_supported h = (case mmio_read (DIAG_BASE + STP_ABI) h of (v, h) \<Rightarrow> (v = 0x53545002, h))"

definition pstate_latch_fault :: "'a pstate_scheme \<Rightarrow> 'a pstate_scheme" where
  "pstate_latch_fault h = mmio_write (DIAG_BASE + FWD_CLR) 0x1f (h\<lparr>control_failed := True\<rparr>)"

definition pstate_failed :: "'a pstate_scheme \<Rightarrow> bool" where
  "pstate_failed h = control_failed h"

definition pstate_link_clear :: "u8 \<Rightarrow> 'a pstate_scheme \<Rightarrow> 'a pstate_scheme" where
  "pstate_link_clear ports h = clear_and_flush LINK_CLR ports h"

definition pstate_fwd_set :: "u8 \<Rightarrow> 'a pstate_scheme \<Rightarrow> 'a pstate_scheme" where
  "pstate_fwd_set ports h =
     (if \<not> control_failed h then mmio_write (DIAG_BASE + FWD_SET) (ucast ports AND 0x3f) h else h)"

definition pstate_fwd_clear :: "u8 \<Rightarrow> 'a pstate_scheme \<Rightarrow> 'a pstate_scheme" where
  "pstate_fwd_clear ports h = clear_and_flush FWD_CLR ports h"

definition pstate_learn_set :: "u8 \<Rightarrow> 'a pstate_scheme \<Rightarrow> 'a pstate_scheme" where
  "pstate_learn_set ports h =
     (if \<not> control_failed h then mmio_write (DIAG_BASE + LEARN_SET) (ucast ports AND 0x3f) h else h)"

definition pstate_learn_clear :: "u8 \<Rightarrow> 'a pstate_scheme \<Rightarrow> 'a pstate_scheme" where
  "pstate_learn_clear ports h = clear_and_flush LEARN_CLR ports h"

definition pstate_get :: "'a hw_scheme \<Rightarrow> (u8 \<times> u8) \<times> 'a hw_scheme" where
  "pstate_get h =
     (case mmio_read (DIAG_BASE + PORT_CTRL_STATUS) h of (v, h) \<Rightarrow>
        ((ucast (v AND 0x3f), ucast (drop_bit 8 v AND 0x3f)), h))"

section \<open>Runs\<close>

datatype pstate_op =
    Link_Clear u8 | Fwd_Set u8 | Fwd_Clear u8 | Learn_Set u8 | Learn_Clear u8 | Latch_Fault | Get | Stp_Supported

fun pstate_do :: "pstate_op \<Rightarrow> 'a pstate_scheme \<Rightarrow> 'a pstate_scheme" where
  "pstate_do (Link_Clear m) h = pstate_link_clear m h"
| "pstate_do (Fwd_Set m) h = pstate_fwd_set m h"
| "pstate_do (Fwd_Clear m) h = pstate_fwd_clear m h"
| "pstate_do (Learn_Set m) h = pstate_learn_set m h"
| "pstate_do (Learn_Clear m) h = pstate_learn_clear m h"
| "pstate_do Latch_Fault h = pstate_latch_fault h"
| "pstate_do Get h = snd (pstate_get h)"
| "pstate_do Stp_Supported h = snd (pstate_stp_supported h)"

text \<open>The forwarding enables the hardware holds after the writes of a log.\<close>

fun fwd_event :: "u32 \<Rightarrow> event \<Rightarrow> u32" where
  "fwd_event fwd (Wr a v) = (if a = DIAG_BASE + FWD_SET then fwd OR v
     else if a = DIAG_BASE + FWD_CLR then fwd AND NOT v else fwd)"
| "fwd_event fwd e = fwd"

definition fwd_enabled :: "u32 \<Rightarrow> event list \<Rightarrow> u32" where
  "fwd_enabled fwd evs = foldl fwd_event fwd evs"

lemma fwd_enabled_simps [simp]:
  "fwd_enabled fwd [] = fwd" "fwd_enabled fwd (e # evs) = fwd_enabled (fwd_event fwd e) evs"
  "fwd_enabled fwd (evs @ evs') = fwd_enabled (fwd_enabled fwd evs) evs'"
  by (simp_all add: fwd_enabled_def)

section \<open>A wait only sleeps and reads\<close>

definition quiet :: "event \<Rightarrow> bool" where
  "quiet e \<longleftrightarrow> (case e of Sleep n \<Rightarrow> True | Rd a v \<Rightarrow> True | _ \<Rightarrow> False)"

lemma quiet_simps [simp]: "quiet (Sleep n)" "quiet (Rd a v)" "\<not> quiet (Wr a v)"
  by (simp_all add: quiet_def)

lemma quiet_fwd: "list_all quiet evs \<Longrightarrow> fwd_enabled fwd evs = fwd"
  by (induction evs arbitrary: fwd) (auto simp: fwd_enabled_def quiet_def split: event.splits)

text \<open>The trace of a wait: busy polls, then an idle one within the budget.\<close>

definition idle_after :: "nat \<Rightarrow> event list \<Rightarrow> bool" where
  "idle_after budget evs \<longleftrightarrow> (\<exists>busy v. evs = concat (map (\<lambda>b. [Sleep 1, Rd (DIAG_BASE + LINK_STATUS) b]) busy) @
     [Sleep 1, Rd (DIAG_BASE + LINK_STATUS) v] \<and> (\<forall>b\<in>set busy. b AND 256 \<noteq> 0) \<and> v AND 256 = 0 \<and> length busy < budget)"

lemma control_failed_hw [hw_simps]:
  "control_failed (snd (sense p h)) = control_failed h" "control_failed (emit e h) = control_failed h"
  "control_failed (mmio_write a v h) = control_failed h" "control_failed (snd (mmio_read a h)) = control_failed h"
  "control_failed (vTaskDelay n h) = control_failed h"
  by (simp_all add: sense_def emit_def mmio_write_def mmio_read_def vTaskDelay_def)

lemma wait_flush_from_result:
  "wait_flush_from n h = (ok, h') \<Longrightarrow>
    \<exists>evs. hw_log h' = hw_log h @ evs \<and> list_all quiet evs \<and> (ok \<longrightarrow> idle_after n evs) \<and>
      control_failed h' = (control_failed h \<or> \<not> ok)"
proof (induction n arbitrary: h)
  case 0
  then show ?case by auto
next
  case (Suc n)
  let ?h = "snd (mmio_read (DIAG_BASE + LINK_STATUS) (vTaskDelay 1 h))"
    and ?v = "fst (mmio_read (DIAG_BASE + LINK_STATUS) (vTaskDelay 1 h))"
  have log: "hw_log ?h = hw_log h @ [Sleep 1, Rd (DIAG_BASE + LINK_STATUS) ?v]" "control_failed ?h = control_failed h"
    by (simp_all add: hw_simps)
  show ?case
  proof (cases "?v AND 256 = 0")
    case True
    then have "ok" "h' = ?h" using Suc.prems by (auto simp: case_prod_beta)
    moreover have "idle_after (Suc n) [Sleep 1, Rd (DIAG_BASE + LINK_STATUS) ?v]"
      unfolding idle_after_def by (intro exI [of _ "[]"] exI [of _ ?v]) (use True in simp)
    ultimately show ?thesis using log by auto
  next
    case False
    then have "wait_flush_from n ?h = (ok, h')" using Suc.prems by (simp add: case_prod_beta)
    from Suc.IH [OF this] obtain evs where evs: "hw_log h' = hw_log ?h @ evs" "list_all quiet evs"
        "ok \<longrightarrow> idle_after n evs" "control_failed h' = (control_failed ?h \<or> \<not> ok)"
      by blast
    have "idle_after (Suc n) ([Sleep 1, Rd (DIAG_BASE + LINK_STATUS) ?v] @ evs)" if ok: ok
    proof -
      obtain busy w where "evs = concat (map (\<lambda>b. [Sleep 1, Rd (DIAG_BASE + LINK_STATUS) b]) busy) @
          [Sleep 1, Rd (DIAG_BASE + LINK_STATUS) w]" "\<forall>b\<in>set busy. b AND 256 \<noteq> 0" "w AND 256 = 0" "length busy < n"
        using evs(3) ok unfolding idle_after_def by blast
      then show ?thesis
        unfolding idle_after_def by (intro exI [of _ "?v # busy"] exI [of _ w]) (use False in simp)
    qed
    then show ?thesis
      using evs log by (intro exI [of _ "[Sleep 1, Rd (DIAG_BASE + LINK_STATUS) ?v] @ evs"]) simp
  qed
qed

lemmas wait_flush_result = wait_flush_from_result [of 100, folded wait_flush_def]

section \<open>Clearing\<close>

lemma clear_and_flush_trace:
  assumes "ports \<noteq> 0"
  obtains evs where "hw_log (clear_and_flush reg ports h) = hw_log h @ evs @
      (if control_failed (clear_and_flush reg ports h) then [Wr (DIAG_BASE + FWD_CLR) 0x1f] else [])"
    and "control_failed h \<Longrightarrow> control_failed (clear_and_flush reg ports h)"
    and "list_all quiet evs \<and> control_failed (clear_and_flush reg ports h) \<or>
      (\<exists>w1 w2. evs = w1 @ [Wr (DIAG_BASE + reg) (ucast ports AND 0x3f)] @ w2 \<and> list_all quiet w1 \<and> list_all quiet w2 \<and>
        idle_after 100 w1 \<and> (control_failed (clear_and_flush reg ports h) \<or> idle_after 100 w2))"
proof -
  obtain ok1 h1 where w1: "wait_flush h = (ok1, h1)" by fastforce
  obtain e1 where e1: "hw_log h1 = hw_log h @ e1" "list_all quiet e1" "ok1 \<longrightarrow> idle_after 100 e1"
      "control_failed h1 = (control_failed h \<or> \<not> ok1)"
    using wait_flush_result [OF w1] by blast
  show thesis
  proof (cases ok1)
    case False
    then have "clear_and_flush reg ports h = mmio_write (DIAG_BASE + FWD_CLR) 0x1f h1"
      using assms w1 e1(4) by (simp add: clear_and_flush_def)
    then show thesis using e1 False by (intro that [of e1]) (simp_all add: hw_simps)
  next
    case True
    let ?h = "mmio_write (DIAG_BASE + reg) (ucast ports AND 0x3f) h1"
    obtain ok2 h2 where w2: "wait_flush ?h = (ok2, h2)" by fastforce
    obtain e2 where e2: "hw_log h2 = hw_log ?h @ e2" "list_all quiet e2" "ok2 \<longrightarrow> idle_after 100 e2"
        "control_failed h2 = (control_failed ?h \<or> \<not> ok2)"
      using wait_flush_result [OF w2] by blast
    have res: "clear_and_flush reg ports h =
        (if control_failed h2 then mmio_write (DIAG_BASE + FWD_CLR) 0x1f h2 else h2)"
      using assms w1 w2 True by (simp add: clear_and_flush_def)
    then have "control_failed (clear_and_flush reg ports h) = control_failed h2" by (simp add: hw_simps)
    then show thesis
      using e1 e2 True
      by (intro that [of "e1 @ [Wr (DIAG_BASE + reg) (ucast ports AND 0x3f)] @ e2"]) (auto simp: res hw_simps)
  qed
qed

text \<open>C27: A clear that does not end in the latched failure has flushed completely: the register is written once,
  after the hardware was seen idle, and the operation returns only after it was seen idle again, each time within 100 polls.\<close>
theorem clear_and_flush_complete:
  assumes "ports \<noteq> 0" and "\<not> control_failed (clear_and_flush reg ports h)"
  shows "\<exists>w1 w2. hw_log (clear_and_flush reg ports h) =
      hw_log h @ w1 @ [Wr (DIAG_BASE + reg) (ucast ports AND 0x3f)] @ w2 \<and> idle_after 100 w1 \<and> idle_after 100 w2"
  using clear_and_flush_trace [OF assms(1), of reg h] assms(2) by (smt (verit) append.right_neutral append_assoc)

section \<open>Fail closed\<close>

definition closed :: "u32 \<Rightarrow> 'a pstate_scheme \<Rightarrow> bool" where
  "closed fwd h \<longleftrightarrow> (control_failed h \<longrightarrow> fwd_enabled fwd (hw_log h) AND 0x1f = 0)"

lemma clear_closes [simp]: "(f AND - 32) AND 31 = (0 :: u32)"
  by (simp add: and.assoc)

lemma closed_clear: "closed fwd h \<Longrightarrow> closed fwd (clear_and_flush reg ports h)"
proof (cases "ports = 0")
  case True
  then show "closed fwd h \<Longrightarrow> closed fwd (clear_and_flush reg ports h)" by (simp add: clear_and_flush_def)
next
  case False
  obtain evs where "hw_log (clear_and_flush reg ports h) = hw_log h @ evs @
      (if control_failed (clear_and_flush reg ports h) then [Wr (DIAG_BASE + FWD_CLR) 0x1f] else [])"
    using clear_and_flush_trace [OF False, of reg h] by metis
  then have "control_failed (clear_and_flush reg ports h) \<Longrightarrow>
      fwd_enabled fwd (hw_log (clear_and_flush reg ports h)) =
      fwd_enabled fwd (hw_log h @ evs) AND NOT 0x1f"
    by (simp flip: append_assoc)
  then show "closed fwd (clear_and_flush reg ports h)" using clear_closes by (simp add: closed_def)
qed

lemma closed_do: "closed fwd h \<Longrightarrow> closed fwd (pstate_do x h)"
  by (cases x)
     (simp_all add: closed_clear pstate_link_clear_def pstate_fwd_clear_def pstate_learn_clear_def,
      auto simp: closed_def pstate_fwd_set_def pstate_learn_set_def pstate_latch_fault_def pstate_get_def
        pstate_stp_supported_def hw_simps clear_closes case_prod_beta)

lemma failed_do: "control_failed h \<Longrightarrow> control_failed (pstate_do x h)"
proof -
  assume f: "control_failed h"
  have "control_failed (clear_and_flush reg ports h)" for reg ports
    by (cases "ports = 0") (use f clear_and_flush_trace [of ports reg h] in \<open>auto simp: clear_and_flush_def\<close>)
  then show ?thesis
    using f by (cases x)
      (auto simp: pstate_link_clear_def pstate_fwd_clear_def pstate_learn_clear_def pstate_fwd_set_def
        pstate_learn_set_def pstate_latch_fault_def pstate_get_def pstate_stp_supported_def hw_simps case_prod_beta)
qed

text \<open>C28: Port control fails closed: over any sequence of operations, from the moment the failure is latched
  (a wedged flush or an explicit fault) no physical port is enabled for forwarding in the hardware, whatever
  operations follow.\<close>
theorem pstate_fails_closed:
  assumes "\<not> control_failed h" and "control_failed (fold pstate_do ops h)"
  shows "fwd_enabled fwd (hw_log (fold pstate_do (ops @ later) h)) AND 0x1f = 0"
proof -
  have start: "closed fwd h" using assms(1) by (simp add: closed_def)
  have "closed fwd (fold pstate_do (ops @ later) h)"
    by (rule fold_invariant [where Q = "\<lambda>_. True"]) (use start in \<open>auto intro: closed_do\<close>)
  moreover have "control_failed (fold pstate_do later h')" if "control_failed h'" for h'
    by (rule fold_invariant [where Q = "\<lambda>_. True"]) (use that in \<open>auto intro: failed_do\<close>)
  ultimately show ?thesis using assms(2) by (auto simp: closed_def)
qed

definition quiet_world :: "u32 \<Rightarrow> pstate" where
  "quiet_world v = \<lparr>hw_input = (\<lambda>n p. v), hw_count = 0, hw_log = [], stamp_last = 0, stamp_high = 0, stamp_hz = 1,
     control_failed = False\<rparr>"

theorem clear_and_flush_complete_witness:
  "\<exists>w1 w2. hw_log (clear_and_flush LINK_CLR 3 (quiet_world 0)) =
      hw_log (quiet_world 0) @ w1 @ [Wr (DIAG_BASE + LINK_CLR) 3] @ w2 \<and> idle_after 100 w1 \<and> idle_after 100 w2"
proof -
  have "\<not> control_failed (clear_and_flush LINK_CLR 3 (quiet_world 0))" by code_simp
  from clear_and_flush_complete [OF _ this] show ?thesis by simp
qed

theorem pstate_fails_closed_witness:
  "fwd_enabled 0x3f (hw_log (fold pstate_do ([Fwd_Set 0x1f, Latch_Fault] @ [Fwd_Set 0x1f, Fwd_Clear 1]) (quiet_world 0)))
     AND 0x1f = 0"
proof -
  have "\<not> control_failed (quiet_world 0)" by (simp add: quiet_world_def)
  moreover have "control_failed (fold pstate_do [Fwd_Set 0x1f, Latch_Fault] (quiet_world 0))" by code_simp
  ultimately show ?thesis by (rule pstate_fails_closed)
qed

end
