(* ===== verification/Fabric_Dma.thy ===== *)
theory Fabric_Dma
  imports Pstate
begin

text \<open>
  The DMA driver of the CPU port, \<^verbatim>\<open>software/r5/src/fabric_dma.c\<close>. The descriptor status words are written by the
  hardware: every read of one is an input of the world. So are the bytes a completed receive buffer
  holds (\<open>rx_fill\<close>) and the interrupts that are served while a task blocks (\<open>irqs\<close>), which
  makes the interleaving of the sender with the interrupt handler explicit. The
  transmit mutex serialises the senders. Addresses of the static arrays are base addresses of the world.
\<close>

section \<open>State\<close>

abbreviation RX_COUNT :: nat where "RX_COUNT \<equiv> 16"
abbreviation FRAME_BYTES :: nat where "FRAME_BYTES \<equiv> 1536"
abbreviation COMPLETE :: u32 where "COMPLETE \<equiv> 0x80000000"
abbreviation ERRORS :: u32 where "ERRORS \<equiv> 0x70000000"
abbreviation SOF_EOF :: u32 where "SOF_EOF \<equiv> 0x0c000000"
abbreviation RX_CH :: u32 where "RX_CH \<equiv> 0x30"
abbreviation DMA_ERRORS :: u32 where "DMA_ERRORS \<equiv> 0x770"
abbreviation IRQ_ALL :: u32 where "IRQ_ALL \<equiv> 0x7000"
abbreviation IRQ_ERROR :: u32 where "IRQ_ERROR \<equiv> 0x4000"
abbreviation RUN_IRQ :: u32 where "RUN_IRQ \<equiv> 0x15001"

record bd =
  bd_next :: u32
  bd_buffer :: u32
  bd_control :: u32

record fabric_dma_counters =
  c_tx_irq :: u32
  c_rx_irq :: u32
  c_error_irq :: u32
  c_tx_completed :: u32
  c_rx_consumed :: u32
  c_rx_dropped :: u32
  c_tx_timeouts :: u32

record dma = pstate +
  dma_ready :: bool
  dma_failed :: bool
  tx_lock :: bool
  tx_done_made :: bool
  tx_done :: bool
  rx_index :: nat
  tx_index :: nat
  rx_bd :: "bd list"
  tx_bd :: "bd list"
  tx_data :: "bytes list"
  rx_fill :: "nat \<Rightarrow> nat \<Rightarrow> bytes"
  irqs :: "nat \<Rightarrow> bool list"
  rx_base :: u32
  tx_base :: u32
  rx_data_base :: u32
  tx_data_base :: u32
  counters :: fabric_dma_counters
  last_tag_valid :: bool
  last_tag_port :: u8

abbreviation on_counters :: "(fabric_dma_counters \<Rightarrow> fabric_dma_counters) \<Rightarrow> 'a dma_scheme \<Rightarrow> 'a dma_scheme" where
  "on_counters f h \<equiv> h\<lparr>counters := f (counters h)\<rparr>"

definition rx_address :: "nat \<Rightarrow> 'a dma_scheme \<Rightarrow> u32" where
  "rx_address i h = rx_base h + 64 * word_of_nat i"

definition tx_address :: "nat \<Rightarrow> 'a dma_scheme \<Rightarrow> u32" where
  "tx_address i h = tx_base h + 64 * word_of_nat i"

section \<open>Operations\<close>

definition fail_closed :: "'a dma_scheme \<Rightarrow> 'a dma_scheme" where
  "fail_closed h =
     (let h = h\<lparr>dma_failed := True\<rparr>;
          (v, h) = mmio_read DMA_BASE h; h = mmio_write DMA_BASE (v AND NOT IRQ_ALL) h;
          (v, h) = mmio_read (DMA_BASE + RX_CH) h
      in mmio_write (DMA_BASE + RX_CH) (v AND NOT IRQ_ALL) h)"

definition fabric_dma_healthy :: "'a dma_scheme \<Rightarrow> bool" where
  "fabric_dma_healthy h \<longleftrightarrow> dma_ready h \<and> \<not> dma_failed h"

definition fabric_dma_interrupt :: "bool \<Rightarrow> 'a dma_scheme \<Rightarrow> 'a dma_scheme" where
  "fabric_dma_interrupt receive h =
     (let channel = DMA_BASE + (if receive then RX_CH else 0);
          (status, h) = mmio_read (channel + 4) h;
          h = mmio_write (channel + 4) (status AND IRQ_ALL) h
      in if status AND IRQ_ALL = 0 then h
         else let h = on_counters (\<lambda>c. if receive then c\<lparr>c_rx_irq := c_rx_irq c + 1\<rparr> else c\<lparr>c_tx_irq := c_tx_irq c + 1\<rparr>) h;
                  error = (status AND (DMA_ERRORS OR IRQ_ERROR) \<noteq> 0);
                  h = (if error then fail_closed (on_counters (\<lambda>c. c\<lparr>c_error_irq := c_error_irq c + 1\<rparr>) h) else h);
                  h = (if \<not> receive \<or> error then h\<lparr>tx_done := True\<rparr> else h)
              in if receive \<or> error then emit Dma_Event h else h)"

text \<open>The interrupts served while the caller blocks.\<close>

definition served :: "'a dma_scheme \<Rightarrow> 'a dma_scheme" where
  "served h = fold fabric_dma_interrupt (irqs h (hw_count h)) h"

definition fabric_dma_rx_pending :: "'a dma_scheme \<Rightarrow> bool \<times> 'a dma_scheme" where
  "fabric_dma_rx_pending h =
     (if \<not> fabric_dma_healthy h then (False, h)
      else case sense (Rx_Status (rx_index h)) h of (status, h) \<Rightarrow> (status AND COMPLETE \<noteq> 0, h))"

partial_function (option) reset_wait :: "u64 \<Rightarrow> 'a dma_scheme \<Rightarrow> (bool \<times> 'a dma_scheme) option" where
  "reset_wait start h =
     (case mmio_read DMA_BASE h of (v, h) \<Rightarrow>
        if v AND 4 = 0 then Some (True, h)
        else case board_timestamp h of (now, h) \<Rightarrow>
          if ucast (board_timestamp_hz h) div 10 < now - start then Some (False, h\<lparr>dma_failed := True\<rparr>)
          else reset_wait start h)"

definition rings :: "'a dma_scheme \<Rightarrow> 'a dma_scheme" where
  "rings h = h\<lparr>
     counters := \<lparr>c_tx_irq = 0, c_rx_irq = 0, c_error_irq = 0, c_tx_completed = 0, c_rx_consumed = 0, c_rx_dropped = 0, c_tx_timeouts = 0\<rparr>,
     rx_bd := map (\<lambda>i. \<lparr>bd_next = rx_address ((i + 1) mod RX_COUNT) h,
        bd_buffer = rx_data_base h + word_of_nat (FRAME_BYTES * i), bd_control = word_of_nat FRAME_BYTES\<rparr>) [0..<RX_COUNT],
     tx_bd := map (\<lambda>i. \<lparr>bd_next = tx_address ((i + 1) mod 2) h,
        bd_buffer = tx_data_base h + word_of_nat (FRAME_BYTES * i), bd_control = 0\<rparr>) [0..<2],
     tx_data := replicate 2 (replicate FRAME_BYTES 0)\<rparr>"

definition fabric_dma_init :: "'a dma_scheme \<Rightarrow> (bool \<times> 'a dma_scheme) option" where
  "fabric_dma_init h =
     (if dma_ready h \<or> dma_failed h then Some (fabric_dma_healthy h, h)
      else let (abi, h) = mmio_read (DIAG_BASE + CPU_TX_ABI) h in
      if abi \<noteq> 0x43545801 then Some (False, h\<lparr>dma_failed := True\<rparr>)
      else let (l, h) = (if tx_lock h then (1, h) else sense (Create 0) h); h = h\<lparr>tx_lock := (l \<noteq> 0)\<rparr>;
               (d, h) = (if tx_done_made h then (1, h) else sense (Create 1) h); h = h\<lparr>tx_done_made := (d \<noteq> 0)\<rparr> in
      if \<not> tx_lock h \<or> \<not> tx_done_made h then Some (False, h\<lparr>dma_failed := True\<rparr>)
      else let h = mmio_write DMA_BASE 4 h; (start, h) = board_timestamp h in
      case reset_wait start h of None \<Rightarrow> None | Some (ok, h) \<Rightarrow>
      if \<not> ok then Some (False, h)
      else let h = rings h;
               h = mmio_write (DMA_BASE + RX_CH + 8) (rx_address 0 h) h;
               h = mmio_write (DMA_BASE + RX_CH + 4) IRQ_ALL h;
               h = mmio_write (DMA_BASE + 4) IRQ_ALL h;
               h = h\<lparr>dma_ready := True\<rparr>;
               h = mmio_write (DMA_BASE + RX_CH) RUN_IRQ h;
               h = mmio_write (DMA_BASE + RX_CH + 0x10) (rx_address (RX_COUNT - 1) h) h;
               h = mmio_write (DMA_BASE + 8) (tx_address 0 h) h;
               h = mmio_write DMA_BASE RUN_IRQ h
           in Some (fabric_dma_healthy h, h))"

abbreviation timed_out_tx :: "'a dma_scheme \<Rightarrow> 'a dma_scheme" where
  "timed_out_tx h \<equiv> on_counters (\<lambda>c. c\<lparr>c_tx_timeouts := c_tx_timeouts c + 1\<rparr>) h"

text \<open>One turn of the wait for the descriptor: the tick budget, the semaphore (with the interrupts served while
  blocked), and the status words the hardware has written. \<open>Inr\<close> is the source's \<open>continue\<close>.\<close>

definition wait_turn :: "u32 \<Rightarrow> 'a dma_scheme \<Rightarrow> (bool \<times> 'a dma_scheme) + 'a dma_scheme" where
  "wait_turn start h =
     (case tick_count h of (now, h) \<Rightarrow>
        if 100 \<le> now - start then Inl (False, timed_out_tx h)
        else let h = served h in
          if \<not> tx_done h then Inl (False, timed_out_tx h)
          else let h = h\<lparr>tx_done := False\<rparr> in
          if \<not> fabric_dma_healthy h then Inl (False, h)
          else case sense (Tx_Status (tx_index h)) h of (status, h) \<Rightarrow>
            if status AND COMPLETE = 0 then Inr h
            else case sense (Tx_Status (tx_index h)) h of (status, h) \<Rightarrow>
              if status AND ERRORS = 0
              then Inl (True, on_counters (\<lambda>c. c\<lparr>c_tx_completed := c_tx_completed c + 1\<rparr>)
                     (h\<lparr>tx_index := (tx_index h + 1) mod 2\<rparr>))
              else Inl (False, h))"

partial_function (option) wait_done :: "u32 \<Rightarrow> 'a dma_scheme \<Rightarrow> (bool \<times> 'a dma_scheme) option" where
  "wait_done start h = (case wait_turn start h of Inl r \<Rightarrow> Some r | Inr h \<Rightarrow> wait_done start h)"

definition tx_image :: "bool \<Rightarrow> u8 \<Rightarrow> bytes \<Rightarrow> bytes" where
  "tx_image directed ports p =
     [if directed then 0x40 OR (ports AND 0x1f) else 0, 0xa5] @ p @ replicate (60 - length p) 0"

text \<open>\<open>None\<close> in place of the frame is the null pointer.\<close>

definition send_frame :: "bytes option \<Rightarrow> bool \<Rightarrow> u8 \<Rightarrow> 'a dma_scheme \<Rightarrow> (bool \<times> 'a dma_scheme) option" where
  "send_frame frame directed ports h =
     (case frame of
        None \<Rightarrow> Some (False, h)
      | Some p \<Rightarrow>
          if length p < 14 \<or> 1514 < length p \<or> \<not> fabric_dma_healthy h then Some (False, h)
          else let h = served h in
          if \<not> fabric_dma_healthy h then Some (False, h)
          else let i = tx_index h;
                   bytes = (if length p < 60 then 60 else length p);
                   h = h\<lparr>tx_data := (tx_data h)[i := poke 0 (tx_image directed ports p) (tx_data h ! i)]\<rparr>;
                   h = h\<lparr>tx_bd := (tx_bd h)[i := (tx_bd h ! i)\<lparr>bd_control := SOF_EOF OR word_of_nat (bytes + 2)\<rparr>]\<rparr>;
                   h = emit (Bd_Clear (tx_address i h)) h;
                   h = h\<lparr>tx_done := False\<rparr>;
                   h = mmio_write (DMA_BASE + 0x10) (tx_address i h) h;
                   (start, h) = tick_count h
               in case wait_done start h of
                    None \<Rightarrow> None
                  | Some (ok, h) \<Rightarrow> Some (ok, if ok then h else emit Dma_Event (fail_closed h)))"

definition fabric_dma_send :: "bytes option \<Rightarrow> 'a dma_scheme \<Rightarrow> (bool \<times> 'a dma_scheme) option" where
  "fabric_dma_send frame h = send_frame frame False 0 h"

definition fabric_dma_send_directed :: "bytes option \<Rightarrow> u8 \<Rightarrow> 'a dma_scheme \<Rightarrow> (bool \<times> 'a dma_scheme) option" where
  "fabric_dma_send_directed frame ports h = send_frame frame True ports h"

definition fabric_dma_receive :: "nat \<Rightarrow> 'a dma_scheme \<Rightarrow> bytes \<times> 'a dma_scheme" where
  "fabric_dma_receive capacity h =
     (if \<not> fabric_dma_healthy h then ([], h)
      else case sense (Rx_Status (rx_index h)) h of (status, h) \<Rightarrow>
        if status AND COMPLETE = 0 then ([], h)
        else let (tag, h) = mmio_read (DIAG_BASE + CPU_RX_TAG) h;
                 h = h\<lparr>last_tag_valid := (tag AND 0x80000000 \<noteq> 0), last_tag_port := ucast (tag AND 7)\<rparr>;
                 n = unat (status AND 0xffff);
                 n = (if status AND (ERRORS OR SOF_EOF) \<noteq> SOF_EOF \<or> n < 14 \<or> 1514 < n \<or> capacity < n then 0 else n);
                 h = on_counters (\<lambda>c. c\<lparr>c_rx_consumed := c_rx_consumed c + 1\<rparr>) h;
                 frame = take n (rx_fill h (hw_count h) (rx_index h));
                 h = (if n \<noteq> 0 then h else on_counters (\<lambda>c. c\<lparr>c_rx_dropped := c_rx_dropped c + 1\<rparr>) h);
                 h = emit (Bd_Clear (rx_address (rx_index h) h)) h;
                 h = mmio_write (DMA_BASE + RX_CH + 0x10) (rx_address (rx_index h) h) h
             in (frame, h\<lparr>rx_index := (rx_index h + 1) mod RX_COUNT\<rparr>))"

definition fabric_dma_last_rx_tag :: "'a dma_scheme \<Rightarrow> bool \<times> u8" where
  "fabric_dma_last_rx_tag h = (last_tag_valid h, last_tag_port h)"

section \<open>What the interrupt handler and the wait leave alone\<close>

text \<open>The events that hand a descriptor to the hardware or take one back.\<close>

definition silent :: "event \<Rightarrow> bool" where
  "silent e \<longleftrightarrow> (case e of
     Wr a v \<Rightarrow> a \<noteq> DMA_BASE + 0x10 \<and> a \<noteq> DMA_BASE + RX_CH + 0x10
   | Rd a v \<Rightarrow> a \<noteq> DIAG_BASE + CPU_RX_TAG
   | Bd_Clear a \<Rightarrow> False
   | _ \<Rightarrow> True)"

definition dma_view :: "'a dma_scheme \<Rightarrow> _" where
  "dma_view h = (tx_data h, tx_bd h, rx_bd h, rx_index h, dma_ready h, rx_base h, tx_base h, hw_input h, irqs h, rx_fill h,
     c_rx_consumed (counters h), control_failed h)"

definition dma_keeps :: "'a dma_scheme \<Rightarrow> 'a dma_scheme \<Rightarrow> bool" where
  "dma_keeps h h' \<longleftrightarrow> dma_view h' = dma_view h \<and> (dma_failed h \<longrightarrow> dma_failed h') \<and> hw_count h \<le> hw_count h' \<and>
     (\<exists>evs. hw_log h' = hw_log h @ evs \<and> list_all silent evs)"

lemma keeps_refl [intro]: "dma_keeps h h"
  by (simp add: dma_keeps_def)

lemma keeps_trans [trans]: "dma_keeps h h1 \<Longrightarrow> dma_keeps h1 h2 \<Longrightarrow> dma_keeps h h2"
proof -
  assume a: "dma_keeps h h1" and b: "dma_keeps h1 h2"
  obtain e1 e2 where "hw_log h1 = hw_log h @ e1" "list_all silent e1" "hw_log h2 = hw_log h1 @ e2" "list_all silent e2"
    using a b unfolding dma_keeps_def by blast
  then have "\<exists>evs. hw_log h2 = hw_log h @ evs \<and> list_all silent evs" by (intro exI [of _ "e1 @ e2"]) simp
  moreover have "dma_view h2 = dma_view h" "dma_failed h \<longrightarrow> dma_failed h2" "hw_count h \<le> hw_count h2"
    using a b unfolding dma_keeps_def by (metis, metis, metis le_trans)
  ultimately show ?thesis unfolding dma_keeps_def by blast
qed

definition dma_same :: "'a dma_scheme \<Rightarrow> 'a dma_scheme \<Rightarrow> bool" where
  "dma_same h h' \<longleftrightarrow> dma_keeps h h' \<and> tx_index h' = tx_index h"

lemma same_trans: "dma_same h h1 \<Longrightarrow> dma_same h1 h2 \<Longrightarrow> dma_same h h2"
  unfolding dma_same_def using keeps_trans by metis

lemma sameI:
  assumes "dma_same g h" and "dma_view h' = dma_view h" and "dma_failed h \<Longrightarrow> dma_failed h'" and "hw_count h \<le> hw_count h'"
    and "hw_log h' = hw_log h @ evs" and "list_all silent evs" and "tx_index h' = tx_index h"
  shows "dma_same g h'"
  by (rule same_trans [OF assms(1)]) (use assms(2-7) in \<open>auto simp: dma_same_def dma_keeps_def\<close>)

text \<open>Stepwise: every action other than a handover.\<close>

lemma same_refl: "dma_same h h"
  by (simp add: dma_same_def keeps_refl)

lemma same_if: "(c \<Longrightarrow> dma_same g x) \<Longrightarrow> (\<not> c \<Longrightarrow> dma_same g y) \<Longrightarrow> dma_same g (if c then x else y)"
  by simp

lemma same_read: "dma_same g h \<Longrightarrow> a \<noteq> DIAG_BASE + CPU_RX_TAG \<Longrightarrow> dma_same g (snd (mmio_read a h))"
  by (erule sameI) (auto simp: dma_view_def hw_defs silent_def)

lemma same_write:
  "dma_same g h \<Longrightarrow> a \<noteq> DMA_BASE + 0x10 \<Longrightarrow> a \<noteq> DMA_BASE + RX_CH + 0x10 \<Longrightarrow> dma_same g (mmio_write a v h)"
  by (erule sameI) (auto simp: dma_view_def hw_defs silent_def)

lemma same_sense: "dma_same g h \<Longrightarrow> dma_same g (snd (sense p h))"
  by (erule sameI [where evs = "[]"]) (auto simp: dma_view_def hw_defs)

lemma same_tick: "dma_same g h \<Longrightarrow> dma_same g (snd (tick_count h))"
  unfolding tick_count_def by (rule same_sense)

lemma same_event: "dma_same g h \<Longrightarrow> dma_same g (emit Dma_Event h)"
  by (erule sameI) (auto simp: dma_view_def hw_defs silent_def)

lemma same_counters:
  "dma_same g h \<Longrightarrow> c_rx_consumed (f (counters h)) = c_rx_consumed (counters h) \<Longrightarrow> dma_same g (on_counters f h)"
  by (erule sameI [where evs = "[]"]) (auto simp: dma_view_def)

lemma same_done: "dma_same g h \<Longrightarrow> dma_same g (h\<lparr>tx_done := t\<rparr>)"
  by (erule sameI [where evs = "[]"]) (auto simp: dma_view_def)

lemma same_fail: "dma_same g h \<Longrightarrow> dma_same g (h\<lparr>dma_failed := True\<rparr>)"
  by (erule sameI [where evs = "[]"]) (auto simp: dma_view_def)

lemmas same_steps = same_if same_read same_write same_sense same_tick same_event same_counters same_done same_fail

lemma same_fail_closed: "dma_same g h \<Longrightarrow> dma_same g (fail_closed h)"
  unfolding fail_closed_def Let_def case_prod_beta by (intro same_steps) simp_all

lemma fail_closed_failed: "dma_failed (fail_closed h)"
  by (simp add: fail_closed_def hw_defs Let_def case_prod_beta)

lemma same_interrupt: "dma_same g h \<Longrightarrow> dma_same g (fabric_dma_interrupt receive h)"
  unfolding fabric_dma_interrupt_def Let_def case_prod_beta by (intro same_steps same_fail_closed) simp_all

lemma same_served: "dma_same g h \<Longrightarrow> dma_same g (served h)"
proof -
  have "dma_same g h \<Longrightarrow> dma_same g (fold fabric_dma_interrupt is h)" for "is"
    by (induction "is" arbitrary: h) (simp_all add: same_interrupt)
  then show "dma_same g h \<Longrightarrow> dma_same g (served h)" by (simp add: served_def)
qed

text \<open>Two reads of the status word of the current transmit descriptor in a row, from an access count on: complete, then without an error bit.\<close>

definition reported_done :: "nat \<Rightarrow> 'a dma_scheme \<Rightarrow> bool" where
  "reported_done m h \<longleftrightarrow> (\<exists>n\<ge>m. hw_input h n (Tx_Status (tx_index h)) AND COMPLETE \<noteq> 0 \<and>
     hw_input h (Suc n) (Tx_Status (tx_index h)) AND ERRORS = 0)"

definition wait_post :: "'a dma_scheme \<Rightarrow> bool \<Rightarrow> 'a dma_scheme \<Rightarrow> bool" where
  "wait_post h ok h' \<longleftrightarrow> dma_keeps h h' \<and>
     (if ok then tx_index h' = (tx_index h + 1) mod 2 \<and> fabric_dma_healthy h' \<and> reported_done (hw_count h) h
      else tx_index h' = tx_index h)"

lemma wait_post_step:
  assumes "dma_same h h1" and "wait_post h1 ok h'"
  shows "wait_post h ok h'"
proof -
  have k: "dma_keeps h h1" "tx_index h1 = tx_index h" using assms(1) by (simp_all add: dma_same_def)
  then have "hw_input h1 = hw_input h" "hw_count h \<le> hw_count h1" by (simp_all add: dma_keeps_def dma_view_def)
  then have "reported_done (hw_count h1) h1 \<Longrightarrow> reported_done (hw_count h) h"
    using k(2) le_trans by (fastforce simp: reported_done_def)
  then show ?thesis
    using assms(2) k keeps_trans [OF k(1)] by (auto simp: wait_post_def split: if_splits)
qed

lemma wait_turn_keeps:
  "wait_turn start h = Inr h1 \<Longrightarrow> dma_same h h1 \<and> hw_count h < hw_count h1"
  "wait_turn start h = Inl (ok, h1) \<Longrightarrow> wait_post h ok h1"
proof -
  let ?h0 = "snd (tick_count h)"
  let ?h1 = "served ?h0"
  let ?h2 = "?h1\<lparr>tx_done := False\<rparr>"
  let ?h3 = "snd (sense (Tx_Status (tx_index ?h2)) ?h2)"
  let ?h4 = "snd (sense (Tx_Status (tx_index ?h3)) ?h3)"
  have k0: "dma_same h ?h0" by (rule same_tick [OF same_refl])
  have k1: "dma_same h ?h1" by (rule same_served [OF k0])
  have k2: "dma_same h ?h2" by (rule same_done [OF k1])
  have k3: "dma_same h ?h3" by (rule same_sense [OF k2])
  have k4: "dma_same h ?h4" by (rule same_sense [OF k3])
  have count: "hw_count h < hw_count ?h3"
    using k2 by (simp add: sense_def dma_same_def dma_keeps_def)
  have fails: "wait_post h False (timed_out_tx ?h0)" "wait_post h False (timed_out_tx ?h1)" "wait_post h False ?h2"
      "wait_post h False ?h4"
    using same_counters [OF k0] same_counters [OF k1] k2 k4 by (simp_all add: wait_post_def dma_same_def)
  have wins: "wait_post h True (on_counters (\<lambda>c. c\<lparr>c_tx_completed := c_tx_completed c + 1\<rparr>)
         (?h4\<lparr>tx_index := (tx_index ?h4 + 1) mod 2\<rparr>))"
    if "fabric_dma_healthy ?h2" and st: "fst (sense (Tx_Status (tx_index ?h2)) ?h2) AND COMPLETE \<noteq> 0"
      "fst (sense (Tx_Status (tx_index ?h3)) ?h3) AND ERRORS = 0"
  proof -
    have "hw_input ?h2 = hw_input h" "tx_index ?h2 = tx_index h" "hw_count h \<le> hw_count ?h2"
      using k2 by (simp_all add: dma_same_def dma_keeps_def dma_view_def)
    then have "reported_done (hw_count h) h"
      using st unfolding reported_done_def by (intro exI [of _ "hw_count ?h2"]) (simp add: sense_def)
    then show ?thesis
      using that(1) k4 by (simp add: wait_post_def dma_same_def dma_keeps_def dma_view_def fabric_dma_healthy_def sense_def)
  qed
  show "dma_same h h1 \<and> hw_count h < hw_count h1" if "wait_turn start h = Inr h1"
    using that k3 count by (auto simp: wait_turn_def Let_def case_prod_beta split: if_splits)
  show "wait_post h ok h1" if "wait_turn start h = Inl (ok, h1)"
    using that fails wins by (auto simp: wait_turn_def Let_def case_prod_beta split: if_splits)
qed

lemma wait_done_result: "wait_done start h = Some (ok, h') \<Longrightarrow> wait_post h ok h'"
proof -
  have "wait_post h (fst r) (snd r)" if "wait_done start h = Some r" for r
  proof (rule wait_done.raw_induct [where P = "\<lambda>start h r. wait_post h (fst r) (snd r)", OF _ that])
    fix f :: "u32 \<Rightarrow> 'a dma_scheme \<Rightarrow> (bool \<times> 'a dma_scheme) option" and start h r
    assume IH: "\<And>start h r. f start h = Some r \<Longrightarrow> wait_post h (fst r) (snd r)"
      and turn: "(case wait_turn start h of Inl r \<Rightarrow> Some r | Inr h \<Rightarrow> f start h) = Some r"
    show "wait_post h (fst r) (snd r)"
    proof (cases "wait_turn start h")
      case (Inl x)
      then show ?thesis using turn wait_turn_keeps(2) [of start h "fst r" "snd r"] by simp
    next
      case (Inr h1)
      then have "f start h1 = Some r" using turn by simp
      from IH [OF this] wait_turn_keeps(1) [OF Inr] show ?thesis by (metis wait_post_step)
    qed
  qed
  then show "wait_done start h = Some (ok, h') \<Longrightarrow> wait_post h ok h'" by fastforce
qed

lemma wait_done_returns:
  assumes "\<forall>n\<ge>N. 100 \<le> hw_input h n Tick_Count - start"
  shows "\<exists>r. wait_done start h = Some r"
  using assms
proof (induction "Suc N - hw_count h" arbitrary: h rule: less_induct)
  case less
  show ?case
  proof (cases "wait_turn start h")
    case (Inl r)
    then show ?thesis by (simp add: wait_done.simps [of start h])
  next
    case (Inr h1)
    note k = wait_turn_keeps(1) [OF Inr]
    have "\<not> 100 \<le> hw_input h (hw_count h) Tick_Count - start"
      using Inr by (auto simp: wait_turn_def hw_defs)
    then have "hw_count h < N" using less.prems by (metis linorder_not_less)
    moreover have "hw_input h1 = hw_input h" using k by (simp add: dma_same_def dma_keeps_def dma_view_def)
    moreover have "Suc N - hw_count h1 < Suc N - hw_count h" using \<open>hw_count h < N\<close> k by linarith
    ultimately obtain r where "wait_done start h1 = Some r" using less.hyps [of h1] less.prems by auto
    then show ?thesis using Inr by (simp add: wait_done.simps [of start h])
  qed
qed

section \<open>Sending\<close>

definition tx_wf :: "'a dma_scheme \<Rightarrow> bool" where
  "tx_wf h \<longleftrightarrow> tx_index h < 2 \<and> length (tx_bd h) = 2 \<and> length (tx_data h) = 2 \<and> length (tx_data h ! 0) = FRAME_BYTES \<and>
     length (tx_data h ! 1) = FRAME_BYTES"

text \<open>The state handed to the hardware.\<close>

definition handed :: "bool \<Rightarrow> u8 \<Rightarrow> bytes \<Rightarrow> 'a dma_scheme \<Rightarrow> 'a dma_scheme" where
  "handed directed ports p h =
     (let i = tx_index h; bytes = (if length p < 60 then 60 else length p);
          h = h\<lparr>tx_data := (tx_data h)[i := poke 0 (tx_image directed ports p) (tx_data h ! i)]\<rparr>;
          h = h\<lparr>tx_bd := (tx_bd h)[i := (tx_bd h ! i)\<lparr>bd_control := SOF_EOF OR word_of_nat (bytes + 2)\<rparr>]\<rparr>;
          h = emit (Bd_Clear (tx_address i h)) h; h = h\<lparr>tx_done := False\<rparr>
      in mmio_write (DMA_BASE + 0x10) (tx_address i h) h)"

lemma send_frame_cases:
  assumes "send_frame frame directed ports h = Some (ok, h')"
  obtains (rejected) "\<not> ok" "dma_same h h'"
  | (sent) p h2 where "frame = Some p" "14 \<le> length p" "length p \<le> 1514" "fabric_dma_healthy (served h)"
      "dma_same (handed directed ports p (served h)) h2" "ok \<Longrightarrow> wait_post h2 True h'"
      "\<not> ok \<Longrightarrow> dma_failed h' \<and> dma_same (handed directed ports p (served h)) h'"
proof (cases frame)
  case None
  then show thesis using assms rejected same_refl by (auto simp: send_frame_def)
next
  case (Some p)
  let ?h1 = "served h"
  have k1: "dma_same h ?h1" by (rule same_served [OF same_refl])
  show thesis
  proof (cases "length p < 14 \<or> 1514 < length p \<or> \<not> fabric_dma_healthy h \<or> \<not> fabric_dma_healthy ?h1")
    case True
    then have "ok = False" "h' = h \<or> h' = ?h1"
      using assms Some by (auto simp: send_frame_def Let_def split: if_splits)
    then show thesis using rejected k1 same_refl by auto
  next
    case False
    let ?h2 = "snd (tick_count (handed directed ports p ?h1))" and ?start = "fst (tick_count (handed directed ports p ?h1))"
    have k2: "dma_same (handed directed ports p ?h1) ?h2" by (rule same_tick [OF same_refl])
    have "send_frame frame directed ports h = (case wait_done ?start ?h2 of None \<Rightarrow> None
        | Some (ok, h) \<Rightarrow> Some (ok, if ok then h else emit Dma_Event (fail_closed h)))"
      using False by (simp add: send_frame_def Some handed_def Let_def case_prod_beta)
    then obtain h3 where h3: "wait_done ?start ?h2 = Some (ok, h3)" "h' = (if ok then h3 else emit Dma_Event (fail_closed h3))"
      using assms by (auto split: option.splits)
    note w = wait_done_result [OF h3(1)]
    have "dma_failed h' \<and> dma_same (handed directed ports p ?h1) h'" if "\<not> ok"
    proof -
      have "dma_same (handed directed ports p ?h1) h3"
        by (rule same_trans [OF k2]) (use w that in \<open>simp add: wait_post_def dma_same_def\<close>)
      then show ?thesis
        using h3(2) that same_event [OF same_fail_closed] fail_closed_failed [of h3] by (auto simp: emit_def)
    qed
    then show thesis using False k1 k2 w h3(2) Some by (intro sent) auto
  qed
qed

lemma same_failed: "dma_same h h' \<Longrightarrow> dma_failed h \<Longrightarrow> dma_failed h'"
  by (simp add: dma_same_def dma_keeps_def)

lemma same_view: "dma_same h h' \<Longrightarrow> dma_view h' = dma_view h \<and> tx_index h' = tx_index h"
  by (simp add: dma_same_def dma_keeps_def)

text \<open>What is put in front of the frame and behind it.\<close>

lemma handed_fields:
  assumes "tx_wf h" and "length p \<le> 1514"
  shows "tx_index (handed directed ports p h) = tx_index h" and "hw_count (handed directed ports p h) = hw_count h"
    and "hw_input (handed directed ports p h) = hw_input h"
    and "tx_data (handed directed ports p h) ! tx_index h = tx_image directed ports p @
      drop (length (tx_image directed ports p)) (tx_data h ! tx_index h)"
    and "bd_control (tx_bd (handed directed ports p h) ! tx_index h) = SOF_EOF OR word_of_nat (length (tx_image directed ports p))"
    and "tx_data (handed directed ports p h) ! (1 - tx_index h) = tx_data h ! (1 - tx_index h)"
    and "hw_log (handed directed ports p h) = hw_log h @ [Bd_Clear (tx_address (tx_index h) h), Wr (DMA_BASE + 0x10) (tx_address (tx_index h) h)]"
proof -
  have i: "tx_index h < 2" "tx_index h \<noteq> 1 - tx_index h"
    using assms(1) by (simp add: tx_wf_def) presburger
  have data: "tx_data (handed directed ports p h) = (tx_data h)[tx_index h := poke 0 (tx_image directed ports p) (tx_data h ! tx_index h)]"
    and bds: "tx_bd (handed directed ports p h) = (tx_bd h)[tx_index h :=
      (tx_bd h ! tx_index h)\<lparr>bd_control := SOF_EOF OR word_of_nat ((if length p < 60 then 60 else length p) + 2)\<rparr>]"
    by (simp_all add: handed_def Let_def hw_defs)
  show "tx_index (handed directed ports p h) = tx_index h" "hw_count (handed directed ports p h) = hw_count h"
    "hw_input (handed directed ports p h) = hw_input h"
    by (simp_all add: handed_def Let_def hw_defs)
  have len: "length (tx_image directed ports p) = (if length p < 60 then 60 else length p) + 2" by (simp add: tx_image_def)
  show "tx_data (handed directed ports p h) ! tx_index h = tx_image directed ports p @
      drop (length (tx_image directed ports p)) (tx_data h ! tx_index h)"
    using assms(1) i(1) by (simp add: data tx_wf_def poke_def)
  show "bd_control (tx_bd (handed directed ports p h) ! tx_index h) = SOF_EOF OR word_of_nat (length (tx_image directed ports p))"
    using assms(1) i(1) by (simp add: bds tx_wf_def len)
  show "tx_data (handed directed ports p h) ! (1 - tx_index h) = tx_data h ! (1 - tx_index h)"
    using i(2) by (simp add: data)
  show "hw_log (handed directed ports p h) = hw_log h @ [Bd_Clear (tx_address (tx_index h) h), Wr (DMA_BASE + 0x10) (tx_address (tx_index h) h)]"
    by (simp add: handed_def Let_def hw_defs tx_address_def)
qed

text \<open>C30: A send either completes, or hands nothing over, or leaves the driver failed for good. When it completes: the
  current buffer held the flags byte (the directed flag and the mask restricted to the five physical ports, or zero), the
  magic byte, the frame and zeros up to 60 bytes of frame, and its descriptor covered exactly these bytes; that
  descriptor was cleared and handed over once and nothing else was; after that the hardware was seen to
  report it complete and then, in the next read, without an error; the other buffer is untouched and the ring advances.\<close>
theorem send_frame_outcome:
  assumes "send_frame frame directed ports h = Some (ok, h')" and "tx_wf h"
  shows "if ok
    then \<exists>p before after. frame = Some p \<and> 14 \<le> length p \<and> length p \<le> 1514 \<and> fabric_dma_healthy h' \<and>
      tx_index h' = (tx_index h + 1) mod 2 \<and>
      tx_data h' ! tx_index h = [if directed then 0x40 OR (ports AND 0x1f) else 0, 0xa5] @ p @ replicate (60 - length p) 0 @
        drop (max 62 (length p + 2)) (tx_data h ! tx_index h) \<and>
      bd_control (tx_bd h' ! tx_index h) = SOF_EOF OR word_of_nat (max 62 (length p + 2)) \<and>
      tx_data h' ! (1 - tx_index h) = tx_data h ! (1 - tx_index h) \<and>
      hw_log h' = hw_log h @ before @ [Bd_Clear (tx_address (tx_index h) h), Wr (DMA_BASE + 0x10) (tx_address (tx_index h) h)] @ after \<and>
      list_all silent before \<and> list_all silent after \<and>
      (\<exists>n\<ge>hw_count (served h). hw_input h n (Tx_Status (tx_index h)) AND COMPLETE \<noteq> 0 \<and>
        hw_input h (Suc n) (Tx_Status (tx_index h)) AND ERRORS = 0)
    else dma_same h h' \<or> dma_failed h'"
  using assms(1)
proof (cases rule: send_frame_cases)
  case rejected
  then show ?thesis by simp
next
  case (sent p h2)
  let ?h1 = "served h"
  have s1: "dma_same h ?h1" by (rule same_served [OF same_refl])
  have v1: "dma_view ?h1 = dma_view h" "tx_index ?h1 = tx_index h" using same_view [OF s1] by simp_all
  have wf: "tx_wf ?h1" using assms(2) v1 by (simp add: tx_wf_def dma_view_def)
  note f = handed_fields [OF wf sent(3), of directed ports]
  have adr: "tx_address (tx_index ?h1) ?h1 = tx_address (tx_index h) h" using v1 by (simp add: tx_address_def dma_view_def)
  show ?thesis
  proof (cases ok)
    case True
    have w: "wait_post h2 True h'" by (rule sent(6) [OF True])
    have v2: "dma_view h2 = dma_view (handed directed ports p ?h1)" "tx_index h2 = tx_index (handed directed ports p ?h1)"
      using same_view [OF sent(5)] by simp_all
    have v3: "dma_view h' = dma_view h2" "tx_index h' = (tx_index h2 + 1) mod 2" "fabric_dma_healthy h'"
      using w by (simp_all add: wait_post_def dma_keeps_def)
    have len: "length (tx_image directed ports p) = max 62 (length p + 2)" by (auto simp: tx_image_def)
    have fields: "tx_data h' ! tx_index h = [if directed then 0x40 OR (ports AND 0x1f) else 0, 0xa5] @ p @ replicate (60 - length p) 0 @
        drop (max 62 (length p + 2)) (tx_data h ! tx_index h)"
      "bd_control (tx_bd h' ! tx_index h) = SOF_EOF OR word_of_nat (max 62 (length p + 2))"
      "tx_data h' ! (1 - tx_index h) = tx_data h ! (1 - tx_index h)"
      using v1 v2 v3 f(4-6) unfolding len by (simp_all add: dma_view_def tx_image_def)
    obtain before after1 after2 where log: "hw_log ?h1 = hw_log h @ before" "list_all silent before"
        "hw_log h2 = hw_log (handed directed ports p ?h1) @ after1" "list_all silent after1"
        "hw_log h' = hw_log h2 @ after2" "list_all silent after2"
      using s1 sent(5) w unfolding dma_same_def wait_post_def dma_keeps_def by blast
    have whole: "hw_log h' = hw_log h @ before @ [Bd_Clear (tx_address (tx_index h) h), Wr (DMA_BASE + 0x10) (tx_address (tx_index h) h)] @
        (after1 @ after2)"
      by (simp only: log(1,3,5) f(7) adr append_assoc)
    have hw: "hw_input h2 = hw_input h" "hw_count ?h1 \<le> hw_count h2" "tx_index h2 = tx_index h"
      using sent(5) v1 v2 f(1-3) by (simp_all add: dma_view_def dma_same_def dma_keeps_def)
    have "\<exists>n\<ge>hw_count ?h1. hw_input h n (Tx_Status (tx_index h)) AND COMPLETE \<noteq> 0 \<and>
        hw_input h (Suc n) (Tx_Status (tx_index h)) AND ERRORS = 0"
      using w hw le_trans by (fastforce simp: wait_post_def reported_done_def)
    then show ?thesis
      using True sent(1-3) v1(2) v2(2) v3(2,3) f(1) fields log(2,4,6)
      by (intro if_P [THEN iffD2, OF True] exI [of _ p] exI [of _ before] exI [of _ "after1 @ after2"] conjI whole) simp_all
  qed (use sent(7) in simp)
qed

text \<open>C31: Sending terminates: if from some access on the tick count is at least 100 ms past its value at the
  handover, the call returns, whatever interrupts arrive meanwhile.\<close>
theorem send_frame_returns:
  assumes "\<forall>n\<ge>N. 100 \<le> hw_input h n Tick_Count - hw_input h (hw_count (served h)) Tick_Count"
  shows "\<exists>r. send_frame frame directed ports h = Some r"
proof (cases frame)
  case None
  then show ?thesis unfolding send_frame_def None option.case by blast
next
  case (Some p)
  let ?g = "handed directed ports p (served h)"
  have "hw_input (served h) = hw_input h"
    using same_view [OF same_served [OF same_refl [of h]]] by (simp add: dma_view_def)
  then have world: "hw_input (snd (tick_count ?g)) = hw_input h"
      "fst (tick_count ?g) = hw_input h (hw_count (served h)) Tick_Count"
    by (simp_all add: handed_def Let_def hw_defs)
  obtain r where "wait_done (fst (tick_count ?g)) (snd (tick_count ?g)) = Some r"
    using wait_done_returns [of N "snd (tick_count ?g)" "fst (tick_count ?g)"] assms unfolding world by blast
  then show ?thesis
    by (auto simp: send_frame_def Some handed_def Let_def case_prod_beta)
qed

section \<open>Receiving\<close>

text \<open>A receive that finds no completed descriptor changes nothing the hardware sees; one that does consumes exactly that
  descriptor: one read of the ingress tag, then the status is cleared and the descriptor returned, and the ring
  advances. The frame copied has a legal length and fits the caller's buffer.\<close>
theorem fabric_dma_receive_consumes:
  assumes "fabric_dma_receive capacity h = (frame, h')" and "\<forall>n i. length (rx_fill h n i) = FRAME_BYTES"
  shows "(frame = [] \<and> dma_same h h' \<or>
      (\<exists>tag. hw_log h' = hw_log h @ [Rd (DIAG_BASE + CPU_RX_TAG) tag, Bd_Clear (rx_address (rx_index h) h),
           Wr (DMA_BASE + RX_CH + 0x10) (rx_address (rx_index h) h)] \<and>
         fabric_dma_last_rx_tag h' = (tag AND 0x80000000 \<noteq> 0, ucast (tag AND 7))) \<and>
       rx_index h' = (rx_index h + 1) mod RX_COUNT \<and> fabric_dma_healthy h' \<and>
       c_rx_consumed (counters h') = c_rx_consumed (counters h) + 1 \<and> tx_data h' = tx_data h) \<and>
    (frame = [] \<or> 14 \<le> length frame \<and> length frame \<le> 1514 \<and> length frame \<le> capacity)"
proof (cases "fabric_dma_healthy h \<and> fst (sense (Rx_Status (rx_index h)) h) AND COMPLETE \<noteq> 0")
  case False
  then have "frame = []" "h' = h \<or> h' = snd (sense (Rx_Status (rx_index h)) h)"
    using assms(1) by (auto simp: fabric_dma_receive_def case_prod_beta split: if_splits)
  then show ?thesis using same_refl same_sense [OF same_refl] by auto
next
  case True
  then show ?thesis
    using assms
    by (auto simp: fabric_dma_receive_def case_prod_beta Let_def hw_defs fabric_dma_last_rx_tag_def rx_address_def
        fabric_dma_healthy_def split: if_splits)
qed

section \<open>Fail closed\<close>

datatype dma_op = Irq bool | Send "bytes option" bool u8 | Receive nat | Pending | Init

fun dma_do :: "dma_op \<Rightarrow> 'a dma_scheme \<Rightarrow> 'a dma_scheme option" where
  "dma_do (Irq receive) h = Some (fabric_dma_interrupt receive h)"
| "dma_do (Send frame directed ports) h = map_option snd (send_frame frame directed ports h)"
| "dma_do (Receive capacity) h = Some (snd (fabric_dma_receive capacity h))"
| "dma_do Pending h = Some (snd (fabric_dma_rx_pending h))"
| "dma_do Init h = map_option snd (fabric_dma_init h)"

fun dma_run :: "dma_op list \<Rightarrow> 'a dma_scheme \<Rightarrow> 'a dma_scheme option" where
  "dma_run [] h = Some h"
| "dma_run (x # xs) h = (case dma_do x h of None \<Rightarrow> None | Some h \<Rightarrow> dma_run xs h)"

lemma dma_do_failed:
  assumes "dma_failed h"
  shows "\<exists>h'. dma_do x h = Some h' \<and> dma_same h h'"
  using assms same_refl same_interrupt [OF same_refl]
  by (cases x) (auto simp: send_frame_def fabric_dma_receive_def fabric_dma_rx_pending_def fabric_dma_init_def
      fabric_dma_healthy_def split: option.splits)

text \<open>The driver fails closed: once failed, every later sequence of sends, receives, polls, initialisations and
  interrupts returns, leaves it failed and unhealthy, touches no buffer or descriptor and gives the hardware no descriptor.\<close>
theorem dma_fails_closed:
  assumes "dma_failed h"
  shows "\<exists>h'. dma_run ops h = Some h' \<and> dma_failed h' \<and> \<not> fabric_dma_healthy h' \<and> dma_same h h'"
  using assms
proof (induction ops arbitrary: h)
  case Nil
  then show ?case by (simp add: same_refl fabric_dma_healthy_def)
next
  case (Cons x ops)
  obtain h1 where h1: "dma_do x h = Some h1" "dma_same h h1" using dma_do_failed [OF Cons.prems] by blast
  from Cons.IH [OF same_failed [OF h1(2) Cons.prems]] h1 show ?case by (auto intro: same_trans)
qed

section \<open>Examples\<close>

definition sample_dma :: dma where
  "sample_dma = \<lparr>hw_input = (\<lambda>n p. case p of Tick_Count \<Rightarrow> if n < 10 then 0 else 100 | Reg a \<Rightarrow> 0x1000 | _ \<Rightarrow> 0x8c000040),
     hw_count = 0, hw_log = [], stamp_last = 0, stamp_high = 0, stamp_hz = 1, control_failed = False,
     dma_ready = True, dma_failed = False, tx_lock = True, tx_done_made = True, tx_done = False, rx_index = 0, tx_index = 1,
     rx_bd = [], tx_bd = replicate 2 \<lparr>bd_next = 0, bd_buffer = 0, bd_control = 0\<rparr>, tx_data = replicate 2 (replicate FRAME_BYTES 0),
     rx_fill = (\<lambda>n i. replicate FRAME_BYTES 1), irqs = (\<lambda>n. if n = 2 then [False] else []), rx_base = 0, tx_base = 0x1000,
     rx_data_base = 0, tx_data_base = 0,
     counters = \<lparr>c_tx_irq = 0, c_rx_irq = 0, c_error_irq = 0, c_tx_completed = 0, c_rx_consumed = 0, c_rx_dropped = 0,
       c_tx_timeouts = 0\<rparr>, last_tag_valid = False, last_tag_port = 0\<rparr>"

theorem dma_fails_closed_witness:
  "\<exists>h'. dma_run [Irq True, Send (Some (replicate 60 1)) False 0, Receive 1536] (sample_dma\<lparr>dma_failed := True\<rparr>) = Some h' \<and>
     dma_failed h' \<and> \<not> fabric_dma_healthy h' \<and> dma_same (sample_dma\<lparr>dma_failed := True\<rparr>) h'"
  by (rule dma_fails_closed) simp

theorem fabric_dma_receive_consumes_witness:
  "length (fst (fabric_dma_receive 1536 sample_dma)) = 64 \<and> rx_index (snd (fabric_dma_receive 1536 sample_dma)) = 1"
proof -
  have run: "fabric_dma_receive 1536 sample_dma = (replicate 64 1, snd (fabric_dma_receive 1536 sample_dma))"
    by (simp add: fabric_dma_receive_def sample_dma_def fabric_dma_healthy_def hw_defs Let_def)
  have fill: "\<forall>n i. length (rx_fill sample_dma n i) = FRAME_BYTES" by (simp add: sample_dma_def)
  have "fst (fabric_dma_receive 1536 sample_dma) = replicate 64 1" using run by (metis fst_conv)
  moreover have "rx_index sample_dma = 0" by (simp add: sample_dma_def)
  ultimately show ?thesis using fabric_dma_receive_consumes [OF run fill] by auto
qed

theorem send_frame_returns_witness:
  "\<exists>r. send_frame (Some (replicate 60 1)) True 3 sample_dma = Some r"
proof (rule send_frame_returns)
  show "\<forall>n\<ge>10. 100 \<le> hw_input sample_dma n Tick_Count - hw_input sample_dma (hw_count (served sample_dma)) Tick_Count"
    by (simp add: sample_dma_def served_def)
qed

theorem send_frame_outcome_witness:
  "\<exists>h'. send_frame (Some (replicate 60 1)) True 0xff sample_dma = Some (True, h') \<and> tx_index h' = 0 \<and>
     take 62 (tx_data h' ! 1) = [0x5f, 0xa5] @ replicate 60 1"
proof -
  have run: "\<exists>h'. send_frame (Some (replicate 60 1)) True 0xff sample_dma = Some (True, h')"
    by (simp add: send_frame_def sample_dma_def fabric_dma_healthy_def served_def hw_defs Let_def tx_address_def
        wait_done.simps wait_turn_def fabric_dma_interrupt_def)
  then obtain h' where h': "send_frame (Some (replicate 60 1)) True 0xff sample_dma = Some (True, h')" by blast
  have "tx_wf sample_dma" by (simp add: tx_wf_def sample_dma_def)
  from send_frame_outcome [OF h' this] h' show ?thesis by (auto simp: tx_image_def sample_dma_def)
qed

end
