(* ===== verification/Links.thy ===== *)
theory Links
  imports Fabric_Dma Policy Snapshots
begin

text \<open>
  Link management, \<^verbatim>\<open>software/r5/src/links.c\<close>: the MDIO transactions of the PS and PL PHYs, MAC set-up, the
  observation of the physical links and the 250 ms poll that admits and removes ports. The
  static variables extend the world of the DMA driver. A speed is its register value in Mb/s. Console messages are left out; informing
  the network task is an event.
\<close>

section \<open>State\<close>

abbreviation SFP_BASE :: u32 where "SFP_BASE \<equiv> 0x800c0000"
abbreviation SFP_DUAL_ID :: u32 where "SFP_DUAL_ID \<equiv> 0x4455414c"
abbreviation GEM0 :: u32 where "GEM0 \<equiv> 0xff0b0000"
abbreviation GEM1 :: u32 where "GEM1 \<equiv> 0xff0c0000"

record links = dma +
  sfp_probe_ms :: u32
  sfp_applied_request :: u16
  sfp_target :: u16
  sfp_pending :: bool
  ps_ready :: "bool list"
  pl_ready :: "bool list"
  ports :: port_snapshot
  configured_speed :: "u16 list"
  link_state :: link_policy

abbreviation on_ports :: "(port_snapshot \<Rightarrow> port_snapshot) \<Rightarrow> 'a links_scheme \<Rightarrow> 'a links_scheme" where
  "on_ports f h \<equiv> h\<lparr>ports := f (ports h)\<rparr>"

definition initial_ports :: port_snapshot where
  "initial_ports = \<lparr>ps_admin = PHYSICAL_PORT_MASK, ps_physical = 0, ps_forwarding = 0, ps_advertise = [4, 7, 7, 7],
     ps_applied = [0, 0, 0, 0], ps_sfp_requested = 0, ps_speed_mbps = [0, 0, 0, 0, 0, 0]\<rparr>"

definition port_bit :: "nat \<Rightarrow> u8" where
  "port_bit p = push_bit p 1"

definition board_ports_snapshot :: "'a links_scheme \<Rightarrow> port_snapshot" where
  "board_ports_snapshot h = ports h"

definition board_ports_configure :: "u8 \<Rightarrow> bytes option \<Rightarrow> 'a links_scheme \<Rightarrow> bool \<times> 'a links_scheme" where
  "board_ports_configure admin advertise h =
     (if PHYSICAL_PORT_MASK < admin \<or>
         (case advertise of None \<Rightarrow> False
          | Some a \<Rightarrow> a ! 0 \<noteq> 4 \<or> a ! 1 = 0 \<or> 7 < a ! 1 \<or> a ! 2 = 0 \<or> 7 < a ! 2 \<or> a ! 3 = 0 \<or> 7 < a ! 3)
      then (False, h)
      else (True, on_ports (\<lambda>p. (case advertise of None \<Rightarrow> p | Some a \<Rightarrow> p\<lparr>ps_advertise := take 4 a\<rparr>)\<lparr>ps_admin := admin\<rparr>) h))"

definition board_ports_set :: "u8 \<Rightarrow> 'a links_scheme \<Rightarrow> 'a links_scheme" where
  "board_ports_set admin h = snd (board_ports_configure admin None h)"

definition board_ports_get :: "'a links_scheme \<Rightarrow> u8 \<times> u8 \<times> u8" where
  "board_ports_get h = (let p = board_ports_snapshot h in (ps_admin p, ps_physical p, ps_forwarding p))"

section \<open>PS PHYs\<close>

definition ps_phy_addr :: "nat \<Rightarrow> nat" where
  "ps_phy_addr i = [4, 9] ! i"

partial_function (option) mdio_idle :: "u64 \<Rightarrow> u64 \<Rightarrow> 'a hw_scheme \<Rightarrow> (bool \<times> 'a hw_scheme) option" where
  "mdio_idle start limit h =
     (case mmio_read (GEM1 + 8) h of (v, h) \<Rightarrow>
        if v AND 4 \<noteq> 0 then Some (True, h)
        else case board_timestamp h of (now, h) \<Rightarrow>
          if limit < now - start then Some (False, h) else mdio_idle start limit h)"

text \<open>A transaction: \<open>Some v\<close> writes \<open>v\<close>, \<open>None\<close> reads. The result is the value of \<open>*value\<close> afterwards.\<close>

definition mdio :: "nat \<Rightarrow> nat \<Rightarrow> u16 option \<Rightarrow> 'a hw_scheme \<Rightarrow> ((bool \<times> u16) \<times> 'a hw_scheme) option" where
  "mdio phy reg write h =
     (let (start, h) = board_timestamp h; limit = ucast (board_timestamp_hz h) div 100;
          given = (case write of None \<Rightarrow> 0 | Some v \<Rightarrow> v) in
      case mdio_idle start limit h of None \<Rightarrow> None | Some (ok, h) \<Rightarrow>
      if \<not> ok then Some ((False, given), h)
      else let h = mmio_write (GEM1 + 0x34) (0x40020000 OR (if write \<noteq> None then 0x10000000 else 0x20000000) OR
                     push_bit 23 (word_of_nat phy) OR push_bit 18 (word_of_nat reg) OR ucast given) h;
               (start, h) = board_timestamp h in
      case mdio_idle start limit h of None \<Rightarrow> None | Some (ok, h) \<Rightarrow>
      if \<not> ok then Some ((False, given), h)
      else case write of
        Some v \<Rightarrow> Some ((True, v), h)
      | None \<Rightarrow> (case mmio_read (GEM1 + 0x34) h of (v, h) \<Rightarrow> Some ((ucast v \<noteq> (0xffff :: u16), ucast v), h)))"

definition phy_write :: "nat \<Rightarrow> nat \<Rightarrow> u16 \<Rightarrow> 'a hw_scheme \<Rightarrow> (bool \<times> 'a hw_scheme) option" where
  "phy_write phy reg v h = map_option (\<lambda>((ok, _), h). (ok, h)) (mdio phy reg (Some v) h)"

text \<open>A sequence of steps that stops at the first failure, the source's \<open>&&\<close>.\<close>

definition and_then :: "(bool \<times> 'h) option \<Rightarrow> ('h \<Rightarrow> (bool \<times> 'h) option) \<Rightarrow> (bool \<times> 'h) option" where
  "and_then r f = (case r of None \<Rightarrow> None | Some (ok, h) \<Rightarrow> if ok then f h else Some (False, h))"

definition mmd_select :: "nat \<Rightarrow> nat \<Rightarrow> 'a hw_scheme \<Rightarrow> (bool \<times> 'a hw_scheme) option" where
  "mmd_select phy reg h =
     and_then (phy_write phy 13 0x1f h) (\<lambda>h. and_then (phy_write phy 14 (word_of_nat reg) h) (phy_write phy 13 0x401f))"

definition mmd :: "nat \<Rightarrow> nat \<Rightarrow> u16 option \<Rightarrow> 'a hw_scheme \<Rightarrow> ((bool \<times> u16) \<times> 'a hw_scheme) option" where
  "mmd phy reg write h =
     (case mmd_select phy reg h of None \<Rightarrow> None | Some (ok, h) \<Rightarrow>
      if \<not> ok then Some ((False, case write of None \<Rightarrow> 0 | Some v \<Rightarrow> v), h) else mdio phy 14 write h)"

definition mmd_write :: "nat \<Rightarrow> nat \<Rightarrow> u16 \<Rightarrow> 'a hw_scheme \<Rightarrow> (bool \<times> 'a hw_scheme) option" where
  "mmd_write phy reg v h = map_option (\<lambda>((ok, _), h). (ok, h)) (mmd phy reg (Some v) h)"

text \<open>Read, modify and write of an extended register.\<close>

definition mmd_change :: "nat \<Rightarrow> nat \<Rightarrow> (u16 \<Rightarrow> u16) \<Rightarrow> 'a hw_scheme \<Rightarrow> (bool \<times> 'a hw_scheme) option" where
  "mmd_change phy reg f h =
     (case mmd phy reg None h of None \<Rightarrow> None | Some ((ok, v), h) \<Rightarrow>
      if \<not> ok then Some (False, h) else mmd_write phy reg (f v) h)"

definition phy_identify :: "nat \<Rightarrow> 'a hw_scheme \<Rightarrow> (bool \<times> 'a hw_scheme) option" where
  "phy_identify phy h =
     (case mdio phy 2 None h of None \<Rightarrow> None | Some ((ok, id1), h) \<Rightarrow>
      if \<not> ok then Some (False, h)
      else case mdio phy 3 None h of None \<Rightarrow> None | Some ((ok, id2), h) \<Rightarrow>
      Some (ok \<and> id1 = 0x2000 \<and> id2 AND 0xfff0 = 0xa230, h))"

definition phy_init :: "nat \<Rightarrow> u32 \<Rightarrow> 'a hw_scheme \<Rightarrow> (bool \<times> 'a hw_scheme) option" where
  "phy_init port advertise h =
     (let phy = ps_phy_addr port in
      and_then (phy_identify phy h) (\<lambda>h.
      and_then (if port = 0 then Some (True, h)
                else and_then (mmd_change phy 0x31 (\<lambda>v. v AND NOT 0x80) h) (\<lambda>h.
                     and_then (mmd_change phy 0x32 (\<lambda>v. v OR 3) h) (mmd_write phy 0x86 0x67))) (\<lambda>h.
      and_then (phy_write phy 4 (ps_phy_advertisement advertise) h) (\<lambda>h.
      and_then (phy_write phy 9 (if advertise AND 4 \<noteq> 0 then 0x0200 else 0) h)
        (phy_write phy 0 0x1200)))))"

section \<open>PL PHYs and MACs\<close>

partial_function (option) pl_wait_loop :: "u32 \<Rightarrow> bool \<Rightarrow> u64 \<Rightarrow> u64 \<Rightarrow> 'a hw_scheme \<Rightarrow> (bool \<times> 'a hw_scheme) option" where
  "pl_wait_loop base finish start limit h =
     (case mmio_read (base + 0x10) h of (s, h) \<Rightarrow>
        if (if finish then s AND 2 \<noteq> 0 else s AND 1 = 0) then Some (\<not> finish \<or> s AND 4 = 0, h)
        else case board_timestamp h of (now, h) \<Rightarrow>
          if now - start \<le> limit then pl_wait_loop base finish start limit h else Some (False, h))"

definition pl_wait :: "u32 \<Rightarrow> bool \<Rightarrow> 'a hw_scheme \<Rightarrow> (bool \<times> 'a hw_scheme) option" where
  "pl_wait base finish h =
     (let (start, h) = board_timestamp h in pl_wait_loop base finish start (ucast (board_timestamp_hz h) div 100) h)"

definition pl_write :: "u32 \<Rightarrow> nat \<Rightarrow> nat \<Rightarrow> u16 \<Rightarrow> 'a hw_scheme \<Rightarrow> (bool \<times> 'a hw_scheme) option" where
  "pl_write base phy reg v h =
     and_then (pl_wait base False h) (\<lambda>h.
       let h = mmio_write (base + 0x10) 6 h;
           h = mmio_write base (push_bit 16 1 OR push_bit 8 (word_of_nat reg) OR word_of_nat phy) h;
           h = mmio_write (base + 4) (ucast v) h; h = mmio_write (base + 0x0c) 1 h
       in pl_wait base True h)"

definition pl_advertise :: "nat \<Rightarrow> u32 \<Rightarrow> 'a hw_scheme \<Rightarrow> (bool \<times> 'a hw_scheme) option" where
  "pl_advertise port capabilities h =
     (let base = 0x80010000 + word_of_nat port * 0x10000; (s, h) = mmio_read (base + 0x10) h in
      if s AND 0x18 \<noteq> 8 then Some (False, h)
      else let h = mmio_write (base + 0x18) 1 h in
      case and_then (pl_wait base False h) (\<lambda>h.
             and_then (pl_write base (port + 2) 4 (ps_phy_advertisement capabilities) h) (\<lambda>h.
             and_then (pl_write base (port + 2) 9 (if capabilities AND 4 \<noteq> 0 then 0x200 else 0) h)
               (pl_write base (port + 2) 0 0x1200)))
      of None \<Rightarrow> None | Some (ok, h) \<Rightarrow> Some (ok, mmio_write (base + 0x18) 0 h))"

definition pl_mac :: "nat \<Rightarrow> u32" where
  "pl_mac i = 0x80040000 + word_of_nat i * 0x40000"

definition pl_mode :: "u16 \<Rightarrow> u32" where
  "pl_mode speed = (if speed = 1000 then 2 else if speed = 100 then 1 else 0)"

definition link_macs :: "u32 list" where
  "link_macs = [0x80040000, 0x80080000, 0x800c0000]"

definition mac_init :: "'a hw_scheme \<Rightarrow> 'a hw_scheme" where
  "mac_init h =
     (let h = mmio_write GEM0 0x10 h; h = mmio_write GEM1 0x10 h;
          (clk, h) = mmio_read 0xff180308 h; h = mmio_write 0xff180308 (clk OR 0x108) h;
          h = foldl (\<lambda>h i. let m = link_macs ! i;
                h = mmio_write (m + 0x14) 0 h; h = mmio_write (m + 0x410) 0x80000000 h;
                h = (if i < 2 then mmio_write (m + 0x41c) 2 h else h);
                h = mmio_write (m + 0x404) 0x12000000 h
              in mmio_write (m + 0x408) 0x10000000 h) h [0..<3]
      in foldl (\<lambda>h i. let gem = (if i \<noteq> 0 then GEM1 else GEM0);
                h = mmio_write gem 0x10 h; h = mmio_write (gem + 0x2c) 0xffffffff h;
                cfg = push_bit 18 7 OR 0x20000 OR 0x400 OR 0x10 OR 2;
                cfg = (if i = 0 then cfg OR 0x08000800 else cfg);
                h = mmio_write (gem + 4) cfg h
              in mmio_write (gem + 0x4c) 1 h) h [0..<(2 :: nat)])"

section \<open>The SFP\<close>

definition board_sfp_capabilities :: "'a hw_scheme \<Rightarrow> u32 \<times> 'a hw_scheme" where
  "board_sfp_capabilities h =
     (case mmio_read (SFP_BASE + 0x4f8) h of (i, h) \<Rightarrow>
        (if i = SFP_DUAL_ID then 3 else if i = 0x31304745 then 2 else 1, h))"

definition board_sfp_host_rate :: "'a hw_scheme \<Rightarrow> u32 \<times> 'a hw_scheme" where
  "board_sfp_host_rate h =
     (case board_sfp_capabilities h of (caps, h) \<Rightarrow>
        if caps = 3 then mmio_read (SFP_BASE + 0x4f0) h else (if caps = 2 then 10000 else 1000, h))"

definition board_sfp_configure :: "u32 \<Rightarrow> 'a links_scheme \<Rightarrow> 'a links_scheme" where
  "board_sfp_configure speed h = on_ports (\<lambda>p. p\<lparr>ps_sfp_requested := ucast speed\<rparr>) h"

section \<open>Observing the links\<close>

definition set_speed :: "nat \<Rightarrow> u16 \<Rightarrow> 'a links_scheme \<Rightarrow> 'a links_scheme" where
  "set_speed i v h = on_ports (\<lambda>p. p\<lparr>ps_speed_mbps := (ps_speed_mbps p)[i := v]\<rparr>) h"

text \<open>One PS port: the resolved speed, 0 unless it is one of those applied.\<close>

definition ps_observe :: "nat \<Rightarrow> u8 \<Rightarrow> 'a links_scheme \<Rightarrow> (u8 \<times> 'a links_scheme) option" where
  "ps_observe i up h =
     (case (if ps_ready h ! i then mdio (ps_phy_addr i) 0x11 None h else Some ((False, 0), h)) of
        None \<Rightarrow> None
      | Some ((valid, status), h) \<Rightarrow>
          let h = (if valid then h else h\<lparr>ps_ready := (ps_ready h)[i := False]\<rparr>);
              speed = (if valid then ucast (ps_phy_speed status) else 0);
              abl = (if speed = 1000 then 4 else if speed = 100 then 2 else 1);
              speed = (if ps_applied (ports h) ! i AND abl = 0 then 0 else speed)
          in Some (if speed \<noteq> 0 then up OR port_bit i else up, set_speed i speed h))"

definition pl_speed :: "u32 \<Rightarrow> nat \<Rightarrow> u32 \<Rightarrow> 'a links_scheme \<Rightarrow> u16" where
  "pl_speed calibrated i status h =
     (let k = drop_bit 6 status AND 3;
          speed = (if k = 2 then 1000 else if k = 1 then 100 else if k = 0 then 10 else 0);
          abl = (if speed = 1000 then 4 else if speed = 100 then 2 else 1);
          valid = (pl_ready h ! i \<and> status AND 0x738 = 0x728 \<and> calibrated AND push_bit (4 + i) 1 \<noteq> 0 \<and>
                   ps_applied (ports h) ! (i + 2) AND abl \<noteq> 0)
      in if valid then speed else 0)"

definition pl_observe :: "u32 \<Rightarrow> nat \<Rightarrow> u8 \<times> 'a links_scheme \<Rightarrow> u8 \<times> 'a links_scheme" where
  "pl_observe calibrated i s =
     (case s of (up, h) \<Rightarrow>
      let (status, h) = mmio_read (0x80010010 + word_of_nat i * 0x10000) h;
          speed = pl_speed calibrated i status h
      in (if speed \<noteq> 0 then up OR port_bit (i + 2) else up, set_speed (i + 2) speed h))"

definition sfp_observe :: "u8 \<Rightarrow> 'a links_scheme \<Rightarrow> u8 \<times> 'a links_scheme" where
  "sfp_observe up h =
     (let (sb, h) = mmio_read (DIAG_BASE + 4) h; (pcs, h) = mmio_read (DIAG_BASE + PCS_STATUS) h;
          (caps, h) = board_sfp_capabilities h;
          (rdy, h) = (if caps \<noteq> 3 then (True, h)
                      else case mmio_read (SFP_BASE + 0x4e4) h of (v, h) \<Rightarrow> (v AND 0x0c = 8, h));
          up = (if rdy \<and> sb AND 0x1f = 0 \<and> pcs AND 0xf = 7 then up OR 0x10 else up);
          (rate, h) = board_sfp_host_rate h
      in (up, set_speed 4 (if up AND 0x10 \<noteq> 0 then ucast rate else 0) h))"

definition board_phy_mask :: "'a links_scheme \<Rightarrow> (u8 \<times> 'a links_scheme) option" where
  "board_phy_mask h =
     (case ps_observe 0 0 h of None \<Rightarrow> None | Some (up, h) \<Rightarrow>
      case ps_observe 1 up h of None \<Rightarrow> None | Some (up, h) \<Rightarrow>
      let (calibrated, h) = mmio_read DIAG_BASE h;
          (up, h) = pl_observe calibrated 1 (pl_observe calibrated 0 (up, h))
      in Some (sfp_observe up h))"

section \<open>The poll\<close>

text \<open>The rate request of a dual-rate SFP and the automatic probe; the result is the desired mask.\<close>

definition sfp_new_request :: "u16 \<Rightarrow> u32 \<Rightarrow> 'a links_scheme \<Rightarrow> 'a links_scheme" where
  "sfp_new_request requested now h =
     (if sfp_applied_request h \<noteq> requested
      then h\<lparr>sfp_applied_request := requested,
             sfp_target := (if requested = 1000 \<or> requested = 10000 then requested else 10000),
             sfp_pending := True, sfp_probe_ms := now\<rparr>
      else h)"

definition sfp_request :: "port_snapshot \<Rightarrow> u8 \<Rightarrow> u32 \<Rightarrow> u8 \<Rightarrow> 'a links_scheme \<Rightarrow> u8 \<times> 'a links_scheme" where
  "sfp_request request observed now desired h =
     (let (caps, h) = board_sfp_capabilities h in
      if caps \<noteq> 3 then (desired, h)
      else let h = sfp_new_request (ps_sfp_requested request) now h;
               h = (if observed AND 0x10 \<noteq> 0 then h\<lparr>sfp_probe_ms := now\<rparr> else h);
               (absent, h) = (if ps_sfp_requested request = 0 \<and> ps_admin request AND 0x10 \<noteq> 0
                              then case mmio_read (DIAG_BASE + 4) h of (v, h) \<Rightarrow> (v AND 1 = 0, h) else (False, h));
               h = (if absent \<and> observed AND 0x10 = 0 \<and> \<not> sfp_pending h \<and> 4000 \<le> now - sfp_probe_ms h
                    then h\<lparr>sfp_target := (if sfp_target h = 10000 then 1000 else 10000), sfp_pending := True\<rparr> else h)
           in (if sfp_pending h then desired AND NOT 0x10 else desired, h))"

text \<open>Ports whose PHY or MAC must be set up again are not desired; the MAC follows the desired mask.\<close>

definition ps_stale :: "port_snapshot \<Rightarrow> nat \<Rightarrow> 'a links_scheme \<Rightarrow> bool" where
  "ps_stale request i h \<longleftrightarrow> \<not> ps_ready h ! i \<or> ps_applied (ports h) ! i \<noteq> ps_advertise request ! i \<or>
     configured_speed h ! i \<noteq> ps_speed_mbps (ports h) ! i"

definition pl_stale :: "port_snapshot \<Rightarrow> nat \<Rightarrow> 'a links_scheme \<Rightarrow> bool" where
  "pl_stale request i h \<longleftrightarrow> \<not> pl_ready h ! i \<or> ps_applied (ports h) ! (i + 2) \<noteq> ps_advertise request ! (i + 2) \<or>
     configured_speed h ! (i + 2) \<noteq> ps_speed_mbps (ports h) ! (i + 2)"

definition gem_base :: "nat \<Rightarrow> u32" where
  "gem_base i = (if i \<noteq> 0 then GEM1 else GEM0)"

definition quiesce_ps :: "port_snapshot \<Rightarrow> u8 \<times> 'a links_scheme \<Rightarrow> nat \<Rightarrow> u8 \<times> 'a links_scheme" where
  "quiesce_ps request s i =
     (case s of (desired, h) \<Rightarrow>
      let desired = (if ps_stale request i h then desired AND NOT (port_bit i) else desired)
      in (desired, mmio_write (gem_base i) (if desired AND port_bit i \<noteq> 0 then 0x1c else 0x10) h))"

definition quiesce_pl :: "port_snapshot \<Rightarrow> u8 \<times> 'a links_scheme \<Rightarrow> nat \<Rightarrow> u8 \<times> 'a links_scheme" where
  "quiesce_pl request s i =
     (case s of (desired, h) \<Rightarrow>
      let desired = (if pl_stale request i h then desired AND NOT (port_bit (i + 2)) else desired)
      in (desired, mmio_write (pl_mac i + 0x41c)
            (pl_mode (configured_speed h ! (i + 2)) OR (if desired AND port_bit (i + 2) \<noteq> 0 then 4 else 0)) h))"

definition mac_receive :: "port_snapshot \<Rightarrow> 'a links_scheme \<Rightarrow> nat \<Rightarrow> 'a links_scheme" where
  "mac_receive request h i =
     mmio_write (link_macs ! i + 0x404) (if ps_admin request AND port_bit (i + 2) \<noteq> 0 then 0x12000000 else 0x02000000) h"

text \<open>Set-up of one port that is not forwarding; \<open>observed\<close> is the mask still to be published.\<close>

definition set_configured :: "nat \<Rightarrow> u16 \<Rightarrow> 'a links_scheme \<Rightarrow> 'a links_scheme" where
  "set_configured i v h = h\<lparr>configured_speed := (configured_speed h)[i := v]\<rparr>"

definition set_applied :: "nat \<Rightarrow> u8 \<Rightarrow> 'a links_scheme \<Rightarrow> 'a links_scheme" where
  "set_applied i v h = on_ports (\<lambda>p. p\<lparr>ps_applied := (ps_applied p)[i := v]\<rparr>) h"

definition ps_setup :: "port_snapshot \<Rightarrow> nat \<Rightarrow> u8 \<times> 'a links_scheme \<Rightarrow> (u8 \<times> 'a links_scheme) option" where
  "ps_setup request i s =
     (case s of (observed, h) \<Rightarrow>
      if enabled (link_state h) AND port_bit i \<noteq> 0 then Some (observed, h)
      else if \<not> ps_ready h ! i \<or> ps_applied (ports h) ! i \<noteq> ps_advertise request ! i
      then (case phy_init i (ucast (ps_advertise request ! i)) h of
              None \<Rightarrow> None
            | Some (ok, h) \<Rightarrow>
                let h = h\<lparr>ps_ready := (ps_ready h)[i := ok]\<rparr>;
                    h = (if ok then set_applied i (ps_advertise request ! i) h else h)
                in Some (observed AND NOT (port_bit i), set_speed i 0 (set_configured i 0 h)))
      else if configured_speed h ! i \<noteq> ps_speed_mbps (ports h) ! i
      then let speed = ps_speed_mbps (ports h) ! i;
               h = (if speed \<noteq> 0
                    then let ref = 0xff5e0050 + word_of_nat i * 4;
                             h = (if i \<noteq> 0 then (case mmio_read ref h of (v, h) \<Rightarrow> mmio_write ref (ps_gem_clock v (ucast speed)) h) else h)
                         in (case mmio_read (gem_base i + 4) h of (v, h) \<Rightarrow> mmio_write (gem_base i + 4) (ps_gem_config v (ucast speed)) h)
                    else h)
           in Some (observed, set_configured i speed h)
      else Some (observed, h))"

definition pl_setup :: "port_snapshot \<Rightarrow> nat \<Rightarrow> u8 \<times> 'a links_scheme \<Rightarrow> (u8 \<times> 'a links_scheme) option" where
  "pl_setup request i s =
     (case s of (observed, h) \<Rightarrow>
      if enabled (link_state h) AND port_bit (i + 2) \<noteq> 0 then Some (observed, h)
      else if \<not> pl_ready h ! i \<or> ps_applied (ports h) ! (i + 2) \<noteq> ps_advertise request ! (i + 2)
      then (case pl_advertise i (ucast (ps_advertise request ! (i + 2))) h of
              None \<Rightarrow> None
            | Some (ok, h) \<Rightarrow>
                let h = h\<lparr>pl_ready := (pl_ready h)[i := ok]\<rparr>;
                    h = (if ok then set_applied (i + 2) (ps_advertise request ! (i + 2)) h else h)
                in Some (observed AND NOT (port_bit (i + 2)), set_speed (i + 2) 0 (set_configured (i + 2) 0 h)))
      else if configured_speed h ! (i + 2) \<noteq> ps_speed_mbps (ports h) ! (i + 2)
      then let speed = ps_speed_mbps (ports h) ! (i + 2)
           in Some (observed, set_configured (i + 2) speed (mmio_write (pl_mac i + 0x41c) (pl_mode speed) h))
      else Some (observed, h))"

definition settled :: "bool \<Rightarrow> u32 \<Rightarrow> 'a links_scheme \<Rightarrow> bool" where
  "settled busy now h \<longleftrightarrow> \<not> busy \<and> 250 \<le> now - last_clear_ms (link_state h)"

definition setup_ports :: "port_snapshot \<Rightarrow> bool \<Rightarrow> u32 \<Rightarrow> u8 \<times> 'a links_scheme \<Rightarrow> (u8 \<times> 'a links_scheme) option" where
  "setup_ports request busy now s =
     (case (if settled busy now (snd s) then Option.bind (ps_setup request 0 s) (ps_setup request 1) else Some s) of
        None \<Rightarrow> None
      | Some s \<Rightarrow> if settled busy now (snd s) then Option.bind (pl_setup request 0 s) (pl_setup request 1) else Some s)"

definition sfp_switch :: "bool \<Rightarrow> u32 \<Rightarrow> u8 \<times> 'a links_scheme \<Rightarrow> u8 \<times> 'a links_scheme" where
  "sfp_switch busy now s =
     (case s of (observed, h) \<Rightarrow>
      if sfp_pending h \<and> enabled (link_state h) AND 0x10 = 0 \<and> settled busy now h
      then let h = mmio_write (SFP_BASE + 0x4e0) (if sfp_target h = 10000 then 1 else 0) h
           in (observed AND NOT 0x10, set_speed 4 0 (h\<lparr>sfp_pending := False, sfp_probe_ms := now\<rparr>))
      else (observed, h))"

text \<open>The decision: what is desired, and the policy's action on it.\<close>

definition link_desire :: "port_snapshot \<Rightarrow> u8 \<Rightarrow> u32 \<Rightarrow> 'a links_scheme \<Rightarrow> u8 \<times> 'a links_scheme" where
  "link_desire request observed now h =
     (let (desired, h) = sfp_request request observed now (observed AND ps_admin request) h;
          (desired, h) = foldl (quiesce_ps request) (desired, h) [0, 1];
          (desired, h) = foldl (quiesce_pl request) (desired, h) [0, 1];
          h = foldl (mac_receive request) h [0, 1, 2]
      in (if fabric_dma_healthy h then desired else 0, h))"

definition link_apply :: "u8 \<Rightarrow> bool \<Rightarrow> u32 \<Rightarrow> 'a links_scheme \<Rightarrow> 'a links_scheme" where
  "link_apply desired busy now h =
     (let (a, s) = link_update (link_state h) desired busy now;
          h = h\<lparr>link_state := s\<rparr>;
          h = (if act_clear a \<noteq> 0 then pstate_link_clear (act_clear a) h else h)
      in if act_set a \<noteq> 0 then mmio_write (DIAG_BASE + LINK_SET) (ucast (act_set a)) h else h)"

definition link_poll :: "'a links_scheme \<Rightarrow> 'a links_scheme option" where
  "link_poll h =
     (let request = board_ports_snapshot h in
      case board_phy_mask h of None \<Rightarrow> None | Some (observed, h) \<Rightarrow>
      let (now, h) = tick_count h;
          (status, h) = mmio_read (DIAG_BASE + LINK_STATUS) h;
          busy = (status AND 0x100 \<noteq> 0);
          (desired, h) = link_desire request observed now h;
          h = link_apply desired busy now h in
      case setup_ports request busy now (observed, h) of None \<Rightarrow> None | Some s \<Rightarrow>
      let (observed, h) = sfp_switch busy now s;
          h = on_ports (\<lambda>p. p\<lparr>ps_physical := observed, ps_forwarding := enabled (link_state h)\<rparr>) h
      in Some (emit (Net_Link (enabled (link_state h) \<noteq> 0)) h))"

text \<open>The task: set-up, the clock assertions (\<open>None\<close> when one fails), then polls.\<close>

definition board_link_start :: "'a links_scheme \<Rightarrow> 'a links_scheme option" where
  "board_link_start h =
     (let h = mac_init h; (r0, h) = mmio_read 0xff5e0050 h in
      if r0 AND 0x003f3f07 \<noteq> 0x00010800 then None
      else let (r1, h) = mmio_read 0xff5e0054 h in
      if r1 AND 0x003f3f07 \<noteq> 0x00010800 then None else Some (snd (tick_count h)))"

end
