(* ===== verification/Links_Steps.thy ===== *)
theory Links_Steps
  imports Links
begin

text \<open>
  The parts of the link poll, one lemma each: which registers it writes, what it leaves alone of the link state and of
  the other ports, and that removal and admission keep the shadow mask equal to what the fabric holds.
\<close>

section \<open>Hardware steps\<close>

text \<open>A step that changes no static variable beyond the world and only adds events of a kind.\<close>

definition quietly :: "(event \<Rightarrow> bool) \<Rightarrow> 'a hw_scheme \<Rightarrow> 'a hw_scheme \<Rightarrow> bool" where
  "quietly ok g h \<longleftrightarrow> hw.more h = hw.more g \<and> (\<exists>evs. hw_log h = hw_log g @ evs \<and> list_all ok evs)"

definition quietly_opt :: "(event \<Rightarrow> bool) \<Rightarrow> 'a hw_scheme \<Rightarrow> ('b \<times> 'a hw_scheme) option \<Rightarrow> bool" where
  "quietly_opt ok g r \<longleftrightarrow> (case r of None \<Rightarrow> True | Some (b, h) \<Rightarrow> quietly ok g h)"

lemma quietlyI:
  assumes "quietly ok g h" and "hw.more h' = hw.more h" and "hw_log h' = hw_log h @ evs" and "list_all ok evs"
  shows "quietly ok g h'"
  using assms unfolding quietly_def by (metis append_assoc list_all_append)

lemma quietly_refl: "quietly ok g g"
  by (simp add: quietly_def)

lemma quietly_mono: "quietly ok g h \<Longrightarrow> (\<And>e. ok e \<Longrightarrow> ok' e) \<Longrightarrow> quietly ok' g h"
  unfolding quietly_def by (metis list.pred_mono_strong)

lemma quietly_trans: "quietly ok g h \<Longrightarrow> quietly ok h k \<Longrightarrow> quietly ok g k"
  unfolding quietly_def by (metis append_assoc list_all_append)

lemma quietly_read: "quietly ok g h \<Longrightarrow> (\<And>v. ok (Rd a v)) \<Longrightarrow> quietly ok g (snd (mmio_read a h))"
  by (erule quietlyI) (auto simp: hw_defs)

lemma quietly_write: "quietly ok g h \<Longrightarrow> ok (Wr a v) \<Longrightarrow> quietly ok g (mmio_write a v h)"
  by (erule quietlyI) (auto simp: hw_defs)

lemma quietly_tick: "quietly ok g h \<Longrightarrow> quietly ok g (snd (tick_count h))"
  by (erule quietlyI [where evs = "[]"]) (auto simp: hw_defs)

lemma quietly_stamp: "quietly ok g h \<Longrightarrow> quietly ok g (snd (board_timestamp h))"
  by (erule quietlyI [where evs = "[]"])
     (auto simp: board_timestamp_def stamp_sample_def sense_def split: prod.splits)

lemma quietly_if: "(c \<Longrightarrow> quietly ok g x) \<Longrightarrow> (\<not> c \<Longrightarrow> quietly ok g y) \<Longrightarrow> quietly ok g (if c then x else y)"
  by simp

lemmas quiet_steps = quietly_if quietly_read quietly_write quietly_tick quietly_stamp

lemma opt_None: "quietly_opt ok g None"
  by (simp add: quietly_opt_def)

lemma opt_Some: "quietly ok g (snd r) \<Longrightarrow> quietly_opt ok g (Some r)"
  by (simp add: quietly_opt_def case_prod_beta)

lemma opt_if: "(c \<Longrightarrow> quietly_opt ok g x) \<Longrightarrow> (\<not> c \<Longrightarrow> quietly_opt ok g y) \<Longrightarrow> quietly_opt ok g (if c then x else y)"
  by simp

lemma opt_and_then:
  "quietly_opt ok g r \<Longrightarrow> (\<And>h. quietly ok g h \<Longrightarrow> quietly_opt ok g (f h)) \<Longrightarrow> quietly_opt ok g (and_then r f)"
  unfolding quietly_opt_def and_then_def by (cases r) (force split: option.splits prod.splits)+

lemma opt_case:
  "quietly_opt ok g r \<Longrightarrow> (\<And>x. quietly ok g (snd x) \<Longrightarrow> quietly_opt ok g (f x)) \<Longrightarrow>
    quietly_opt ok g (case r of None \<Rightarrow> None | Some x \<Rightarrow> f x)"
  by (cases r) (simp_all add: quietly_opt_def case_prod_beta)

lemma opt_map: "quietly_opt ok g r \<Longrightarrow> quietly_opt ok g (map_option (\<lambda>((b, _), h). (b, h)) r)"
  by (cases r) (simp_all add: quietly_opt_def case_prod_beta)

lemmas opt_steps = opt_None opt_Some opt_if opt_case opt_and_then

section \<open>PHY transactions\<close>

text \<open>The PL MACs hold their speed in the two low bits of a mode register, beside an enable bit that the poll sets and clears.\<close>

definition mode_reg :: "u32 \<Rightarrow> nat option" where
  "mode_reg a = (if a = 0x8004041c then Some 2 else if a = 0x8008041c then Some 3 else None)"

text \<open>The port whose PHY or MAC a register write sets up.\<close>

definition owner :: "u32 \<Rightarrow> u32 \<Rightarrow> nat option" where
  "owner a v =
     (if a = GEM0 + 4 then Some 0
      else if a = GEM1 + 4 \<or> a = 0xff5e0054 then Some 1
      else if a = GEM1 + 0x34 \<and> v AND 0x30000000 = 0x10000000
        then (if drop_bit 23 v AND 0x1f = 4 then Some 0 else if drop_bit 23 v AND 0x1f = 9 then Some 1 else None)
      else if a = 0x80010004 then Some 2
      else if a = 0x80020004 then Some 3
      else if a = SFP_BASE + 0x4e0 then Some 4
      else mode_reg a)"

text \<open>The registers that open and close a port, and those that hand a descriptor to the DMA.\<close>

abbreviation gates :: "u32 list" where
  "gates \<equiv> [DIAG_BASE + LINK_SET, DIAG_BASE + LINK_CLR, DIAG_BASE + FWD_SET, DIAG_BASE + FWD_CLR, DMA_BASE + 0x10, DMA_BASE + RX_CH + 0x10]"

definition touches :: "nat list \<Rightarrow> event \<Rightarrow> bool" where
  "touches S e \<longleftrightarrow> (case e of
     Wr a v \<Rightarrow> a \<notin> set gates \<and> (\<forall>p. owner a v = Some p \<longrightarrow> p \<in> set S) | _ \<Rightarrow> True)"

lemma touches_simps [simp]: "touches S (Rd a v)" "touches S (Net_Link b)"
  by (simp_all add: touches_def)

lemma touches_Wr: "touches S (Wr a v) \<longleftrightarrow> a \<notin> set gates \<and> (\<forall>p. owner a v = Some p \<longrightarrow> p \<in> set S)"
  by (simp add: touches_def)

lemma touches_mono: "touches S e \<Longrightarrow> set S \<subseteq> set T \<Longrightarrow> touches T e"
  by (auto simp: touches_def split: event.splits)

lemma mdio_idle_quiet: "quietly ok g h \<Longrightarrow> (\<And>a v. ok (Rd a v)) \<Longrightarrow> quietly_opt ok g (mdio_idle start limit h)"
proof -
  assume reads: "\<And>a v. ok (Rd a v)"
  have "quietly ok h (snd r)" if "mdio_idle start limit h = Some r" for r
  proof (rule mdio_idle.raw_induct [where P = "\<lambda>start limit h r. quietly ok h (snd r)", OF _ that])
    fix f :: "u64 \<Rightarrow> u64 \<Rightarrow> 'a hw_scheme \<Rightarrow> (bool \<times> 'a hw_scheme) option" and start limit h r
    assume IH: "\<And>start limit h r. f start limit h = Some r \<Longrightarrow> quietly ok h (snd r)"
      and step: "(case mmio_read (GEM1 + 8) h of (v, h) \<Rightarrow> if v AND 4 \<noteq> 0 then Some (True, h)
        else case board_timestamp h of (now, h) \<Rightarrow> if limit < now - start then Some (False, h) else f start limit h) = Some r"
    let ?h1 = "snd (mmio_read (GEM1 + 8) h)" and ?h2 = "snd (board_timestamp (snd (mmio_read (GEM1 + 8) h)))"
    have q: "quietly ok h ?h1" "quietly ok h ?h2" by (intro quiet_steps quietly_refl reads)+
    have "r = (True, ?h1) \<or> r = (False, ?h2) \<or> f start limit ?h2 = Some r"
      using step [unfolded case_prod_beta] by (metis option.inject)
    then consider "r = (True, ?h1)" | "r = (False, ?h2)" | "f start limit ?h2 = Some r" by blast
    then show "quietly ok h (snd r)"
    proof cases
      case 3
      show ?thesis by (rule quietly_trans [OF q(2) IH [OF 3]])
    qed (use q in simp_all)
  qed
  then show "quietly ok g h \<Longrightarrow> quietly_opt ok g (mdio_idle start limit h)"
    by (auto simp: quietly_opt_def intro: quietly_trans split: option.splits)
qed

text \<open>The management command word, for the registers the driver uses.\<close>

abbreviation mdio_regs :: "nat list" where
  "mdio_regs \<equiv> [0, 2, 3, 4, 9, 0xd, 0xe, 0x11]"

definition mdio_word :: "nat \<Rightarrow> nat \<Rightarrow> bool \<Rightarrow> u16 \<Rightarrow> u32" where
  "mdio_word phy reg write v = 0x40020000 OR (if write then 0x10000000 else 0x20000000) OR
     push_bit 23 (word_of_nat phy) OR push_bit 18 (word_of_nat reg) OR ucast v"

lemma drop_ucast: "drop_bit 23 (ucast (v :: u16)) = (0 :: u32)" "ucast (v :: u16) AND 0x30000000 = (0 :: u32)"
proof -
  have "ucast v AND push_bit 28 3 = (0 :: u32)"
    by (rule bit_eqI) (use bit_imp_le_length [of v] in \<open>fastforce simp del: push_bit_numeral simp: bit_and_iff bit_push_bit_iff bit_ucast_iff\<close>)
  then show "ucast (v :: u16) AND 0x30000000 = (0 :: u32)" by simp
  show "drop_bit 23 (ucast (v :: u16)) = (0 :: u32)"
    by (rule bit_eqI) (auto simp: bit_simps dest: bit_imp_le_length)
qed

lemma owner_read: "reg \<in> set mdio_regs \<Longrightarrow> i < 2 \<Longrightarrow> owner (GEM1 + 0x34) (mdio_word (ps_phy_addr i) reg False v) = None"
  by (auto simp: owner_def mode_reg_def mdio_word_def ps_phy_addr_def drop_ucast bit.conj_disj_distrib2 less_2_cases_iff)

lemma owner_write: "reg \<in> set mdio_regs \<Longrightarrow> i < 2 \<Longrightarrow> owner (GEM1 + 0x34) (mdio_word (ps_phy_addr i) reg True v) = Some i"
  by (auto simp: owner_def mode_reg_def mdio_word_def ps_phy_addr_def drop_ucast bit.conj_disj_distrib2 less_2_cases_iff drop_bit_or)

lemma touches_command:
  assumes "reg \<in> set mdio_regs" and "i < 2" and "w \<Longrightarrow> i \<in> set S"
  shows "touches S (Wr (GEM1 + 0x34) (mdio_word (ps_phy_addr i) reg w v))"
proof (cases w)
  case True
  then have "owner (GEM1 + 0x34) (mdio_word (ps_phy_addr i) reg w v) = Some i" using owner_write [OF assms(1,2)] by metis
  then show ?thesis using assms(3) [OF True] by (simp add: touches_Wr)
next
  case False
  then have "owner (GEM1 + 0x34) (mdio_word (ps_phy_addr i) reg w v) = None" using owner_read [OF assms(1,2)] by metis
  then show ?thesis by (simp add: touches_Wr)
qed

lemma mdio_quiet:
  assumes "quietly (touches S) g h" and "i < 2" and "reg \<in> set mdio_regs" and "write \<noteq> None \<Longrightarrow> i \<in> set S"
  shows "quietly_opt (touches S) g (mdio (ps_phy_addr i) reg write h)"
  unfolding mdio_def mdio_word_def [symmetric] Let_def case_prod_beta
  by (cases "write"; simp only: option.case;
      intro opt_steps mdio_idle_quiet quiet_steps touches_command; (rule assms(1-3) | simp add: assms(1,2,4) quietly_read)?)

lemma phy_write_quiet:
  assumes "quietly (touches S) g h" and "i < 2" and "reg \<in> set mdio_regs" and "i \<in> set S"
  shows "quietly_opt (touches S) g (phy_write (ps_phy_addr i) reg v h)"
  unfolding phy_write_def by (intro opt_map mdio_quiet assms)

lemma mmd_select_quiet:
  assumes "quietly (touches S) g h" and "i < 2" and "i \<in> set S"
  shows "quietly_opt (touches S) g (mmd_select (ps_phy_addr i) reg h)"
  unfolding mmd_select_def by (intro opt_and_then phy_write_quiet assms) simp_all

lemma mmd_quiet:
  assumes "quietly (touches S) g h" and "i < 2" and "i \<in> set S"
  shows "quietly_opt (touches S) g (mmd (ps_phy_addr i) reg write h)"
  unfolding mmd_def case_prod_beta
  by (intro opt_case opt_if opt_Some mmd_select_quiet mdio_quiet assms) (simp_all add: assms)

lemma mmd_write_quiet:
  assumes "quietly (touches S) g h" and "i < 2" and "i \<in> set S"
  shows "quietly_opt (touches S) g (mmd_write (ps_phy_addr i) reg v h)"
  unfolding mmd_write_def by (intro opt_map mmd_quiet assms)

lemma mmd_change_quiet:
  assumes "quietly (touches S) g h" and "i < 2" and "i \<in> set S"
  shows "quietly_opt (touches S) g (mmd_change (ps_phy_addr i) reg f h)"
  unfolding mmd_change_def case_prod_beta
  by (intro opt_case opt_if opt_Some mmd_quiet mmd_write_quiet assms) (simp_all add: assms)

lemma phy_identify_quiet:
  assumes "quietly (touches S) g h" and "i < 2"
  shows "quietly_opt (touches S) g (phy_identify (ps_phy_addr i) h)"
  unfolding phy_identify_def case_prod_beta
  by (intro opt_case opt_if opt_Some mdio_quiet assms) (simp_all add: assms)

lemma phy_init_quiet:
  assumes "quietly (touches S) g h" and "i < 2" and "i \<in> set S"
  shows "quietly_opt (touches S) g (phy_init i adv h)"
  unfolding phy_init_def Let_def
  by (intro opt_and_then opt_if opt_Some phy_identify_quiet mmd_change_quiet mmd_write_quiet phy_write_quiet assms)
     (simp_all add: assms)

lemma pl_wait_quiet: "quietly ok g h \<Longrightarrow> (\<And>a v. ok (Rd a v)) \<Longrightarrow> quietly_opt ok g (pl_wait base finish h)"
proof -
  assume q: "quietly ok g h" and reads: "\<And>a v. ok (Rd a v)"
  have loop: "quietly ok h (snd r)" if "pl_wait_loop base finish start limit h = Some r" for start limit r and h :: "'a hw_scheme"
  proof (rule pl_wait_loop.raw_induct [where P = "\<lambda>base finish start limit h r. quietly ok h (snd r)", OF _ that])
    fix f :: "u32 \<Rightarrow> bool \<Rightarrow> u64 \<Rightarrow> u64 \<Rightarrow> 'a hw_scheme \<Rightarrow> (bool \<times> 'a hw_scheme) option" and base finish start limit h r
    assume IH: "\<And>base finish start limit h r. f base finish start limit h = Some r \<Longrightarrow> quietly ok h (snd r)"
      and step: "(case mmio_read (base + 0x10) h of (s, h) \<Rightarrow>
        if (if finish then s AND 2 \<noteq> 0 else s AND 1 = 0) then Some (\<not> finish \<or> s AND 4 = 0, h)
        else case board_timestamp h of (now, h) \<Rightarrow>
          if now - start \<le> limit then f base finish start limit h else Some (False, h)) = Some r"
    let ?h1 = "snd (mmio_read (base + 0x10) h)" and ?h2 = "snd (board_timestamp (snd (mmio_read (base + 0x10) h)))"
    have q: "quietly ok h ?h1" "quietly ok h ?h2" by (intro quiet_steps quietly_refl reads)+
    have "snd r = ?h1 \<or> snd r = ?h2 \<or> f base finish start limit ?h2 = Some r"
      using step [unfolded case_prod_beta] by (metis option.inject snd_conv)
    then consider "snd r = ?h1" | "snd r = ?h2" | "f base finish start limit ?h2 = Some r" by blast
    then show "quietly ok h (snd r)"
    proof cases
      case 3
      show ?thesis by (rule quietly_trans [OF q(2) IH [OF 3]])
    qed (use q in simp_all)
  qed
  have "quietly ok g (snd (board_timestamp h))" by (intro quiet_steps q)
  then show ?thesis
    unfolding pl_wait_def Let_def case_prod_beta quietly_opt_def using loop by (auto intro: quietly_trans split: option.splits)
qed

definition pl_base :: "nat \<Rightarrow> u32" where
  "pl_base port = 0x80010000 + word_of_nat port * 0x10000"

lemma pl_base_touches:
  assumes "port < 2" and "port + 2 \<in> set S"
  shows "touches S (Wr (pl_base port) v)" "touches S (Wr (pl_base port + 4) v)" "touches S (Wr (pl_base port + 0xc) v)"
    "touches S (Wr (pl_base port + 0x10) v)" "touches S (Wr (pl_base port + 0x18) v)"
proof -
  have "touches S (Wr (pl_base port) v) \<and> touches S (Wr (pl_base port + 4) v) \<and> touches S (Wr (pl_base port + 0xc) v) \<and>
      touches S (Wr (pl_base port + 0x10) v) \<and> touches S (Wr (pl_base port + 0x18) v)"
    using less_2_cases [OF assms(1)]
  proof
    assume p: "port = 0"
    then have "2 \<in> set S" using assms(2) by (simp add: numeral_2_eq_2)
    then show ?thesis by (simp add: touches_Wr owner_def mode_reg_def pl_base_def p)
  next
    assume p: "port = Suc 0"
    then have "3 \<in> set S" using assms(2) by (simp add: numeral_3_eq_3)
    then show ?thesis by (simp add: touches_Wr owner_def mode_reg_def pl_base_def p)
  qed
  then show "touches S (Wr (pl_base port) v)" "touches S (Wr (pl_base port + 4) v)" "touches S (Wr (pl_base port + 0xc) v)"
    "touches S (Wr (pl_base port + 0x10) v)" "touches S (Wr (pl_base port + 0x18) v)" by blast+
qed

lemma pl_write_quiet:
  assumes "quietly (touches S) g h" and "port < 2" and "port + 2 \<in> set S"
  shows "quietly_opt (touches S) g (pl_write (pl_base port) phy reg v h)"
  unfolding pl_write_def Let_def
  by (intro opt_and_then pl_wait_quiet quiet_steps pl_base_touches assms) simp_all

lemma pl_advertise_quiet:
  assumes "quietly (touches S) g h" and "port < 2" and "port + 2 \<in> set S"
  shows "quietly_opt (touches S) g (pl_advertise port caps h)"
  unfolding pl_advertise_def pl_base_def [symmetric] Let_def case_prod_beta
  by (intro opt_steps pl_wait_quiet pl_write_quiet quiet_steps assms pl_base_touches)
     (simp_all add: quietly_read quietly_write pl_base_touches [OF assms(2,3)] assms)

section \<open>The poll leaves the gates alone\<close>

text \<open>A part of the poll that leaves the variables of the other tasks, the link state, the failure flags and the gates as they are and sets up only the ports of a list.\<close>

definition poll_step :: "nat list \<Rightarrow> 'a links_scheme \<Rightarrow> 'a links_scheme \<Rightarrow> bool" where
  "poll_step S g h \<longleftrightarrow> links.more h = links.more g \<and> link_state h = link_state g \<and> control_failed h = control_failed g \<and>
     dma_ready h = dma_ready g \<and> dma_failed h = dma_failed g \<and>
     (\<exists>evs. hw_log h = hw_log g @ evs \<and> list_all (touches S) evs)"

lemma poll_refl: "poll_step S g g"
  by (simp add: poll_step_def)

lemma poll_trans: "poll_step S g h \<Longrightarrow> poll_step S h k \<Longrightarrow> poll_step S g k"
  unfolding poll_step_def by (metis append_assoc list_all_append)

lemma poll_mono: "poll_step S g h \<Longrightarrow> set S \<subseteq> set T \<Longrightarrow> poll_step T g h"
  unfolding poll_step_def by (metis list.pred_mono_strong touches_mono)

lemma more_fields:
  fixes g h :: "'a links_scheme"
  assumes "hw.more h = hw.more g"
  shows "link_state h = link_state g" "control_failed h = control_failed g" "dma_ready h = dma_ready g"
    "dma_failed h = dma_failed g" "ports h = ports g" "ps_ready h = ps_ready g" "pl_ready h = pl_ready g"
    "configured_speed h = configured_speed g" "links.more h = links.more g"
  using assms by (cases g, cases h, simp)+

lemma poll_quiet: "poll_step S g h \<Longrightarrow> quietly (touches S) h k \<Longrightarrow> poll_step S g k"
  by (erule poll_trans) (auto simp: poll_step_def quietly_def dest: more_fields)

lemma bit_port_bit: "bit (port_bit i) p \<longleftrightarrow> p = i \<and> i < 8"
  by (auto simp: port_bit_def bit_simps)

lemma and_port_bit: "u AND port_bit i \<noteq> 0 \<longleftrightarrow> bit u i"
  unfolding port_bit_def by (rule bit_iff_and_push_bit_not_eq_0 [symmetric])

lemma and_0x10: "(u :: u8) AND 0x10 = 0 \<longleftrightarrow> \<not> bit u 4"
proof -
  have "port_bit 4 = 0x10" by (simp add: port_bit_def)
  then show ?thesis using and_port_bit [of u 4] by metis
qed

section \<open>Observation\<close>

text \<open>The mask lists exactly the ports, below a bound, with a speed.\<close>

definition seen :: "nat \<Rightarrow> u8 \<Rightarrow> u16 list \<Rightarrow> bool" where
  "seen n up sp \<longleftrightarrow> (\<forall>p. bit up p \<longleftrightarrow> p < n \<and> sp ! p \<noteq> 0)"

lemma seen_step:
  "seen n up sp \<Longrightarrow> n < length sp \<Longrightarrow> n < 8 \<Longrightarrow> seen (Suc n) (if s \<noteq> 0 then up OR port_bit n else up) (sp[n := s])"
  by (auto simp: seen_def bit_or_iff bit_port_bit nth_list_update less_Suc_eq)

definition observing :: "'a links_scheme \<Rightarrow> 'a links_scheme \<Rightarrow> bool" where
  "observing g h \<longleftrightarrow> poll_step [] g h \<and> configured_speed h = configured_speed g \<and> pl_ready h = pl_ready g \<and>
     (\<exists>sp. length sp = length (ps_speed_mbps (ports g)) \<and> ports h = (ports g)\<lparr>ps_speed_mbps := sp\<rparr>)"

lemma observing_refl: "observing g g"
  by (auto simp: observing_def poll_refl intro: exI [of _ "ps_speed_mbps (ports g)"])

lemma observing_trans: "observing g h \<Longrightarrow> observing h k \<Longrightarrow> observing g k"
  by (auto simp: observing_def intro: poll_trans)

lemma observing_quiet: "observing g h \<Longrightarrow> quietly (touches []) h k \<Longrightarrow> observing g k"
  unfolding observing_def using poll_quiet more_fields by (metis quietly_def)

lemma observing_speed: "observing g h \<Longrightarrow> observing g (set_speed i v h)"
proof -
  assume "observing g h"
  moreover have "observing h (set_speed i v h)"
    by (auto simp: observing_def poll_step_def set_speed_def intro: exI [of _ "(ps_speed_mbps (ports h))[i := v]"])
  ultimately show ?thesis by (rule observing_trans)
qed

lemma observing_unready: "observing g h \<Longrightarrow> observing g (h\<lparr>ps_ready := r\<rparr>)"
proof -
  assume "observing g h"
  moreover have "observing h (h\<lparr>ps_ready := r\<rparr>)"
    by (auto simp: observing_def poll_step_def intro: exI [of _ "ps_speed_mbps (ports h)"])
  ultimately show ?thesis by (rule observing_trans)
qed

lemma set_speed_speeds [simp]: "ps_speed_mbps (ports (set_speed i v h)) = (ps_speed_mbps (ports h))[i := v]"
  by (simp add: set_speed_def)

lemma ps_observe_result:
  assumes "ps_observe i up h = Some (up', h')" and "i < 2" and "seen i up (ps_speed_mbps (ports h))"
    and "i < length (ps_speed_mbps (ports h))"
  shows "observing h h' \<and> seen (Suc i) up' (ps_speed_mbps (ports h'))"
proof -
  let ?r = "if ps_ready h ! i then mdio (ps_phy_addr i) 0x11 None h else Some ((False, 0), h)"
  obtain valid status h1 where r: "?r = Some ((valid, status), h1)"
    using assms(1) by (cases ?r) (auto simp: ps_observe_def)
  have "quietly_opt (touches []) h ?r"
    by (intro opt_if opt_Some mdio_quiet quietly_refl assms(2)) (simp_all add: quietly_refl)
  then have q: "quietly (touches []) h h1" by (simp only: r quietly_opt_def option.case prod.case)
  define h2 where "h2 = (if valid then h1 else h1\<lparr>ps_ready := (ps_ready h1)[i := False]\<rparr>)"
  have o2: "observing h h2"
    using observing_unready observing_quiet [OF observing_refl q] by (auto simp: h2_def)
  have same: "ps_speed_mbps (ports h2) = ps_speed_mbps (ports h)"
    using more_fields(5) [of h1 h] q by (simp add: h2_def quietly_def)
  obtain sp where "up' = (if sp \<noteq> 0 then up OR port_bit i else up)" "h' = set_speed i sp h2"
    using assms(1) unfolding ps_observe_def r by (auto simp: Let_def h2_def)
  then show ?thesis using seen_step [OF assms(3,4)] assms(2) observing_speed [OF o2] same by simp
qed

lemma pl_observe_result:
  assumes "pl_observe calibrated i (up, h) = (up', h')" and "i < 2" and "seen (i + 2) up (ps_speed_mbps (ports h))"
    and "i + 2 < length (ps_speed_mbps (ports h))"
  shows "observing h h' \<and> seen (Suc (i + 2)) up' (ps_speed_mbps (ports h'))"
proof -
  let ?h = "snd (mmio_read (0x80010010 + word_of_nat i * 0x10000) h)"
  have q: "quietly (touches []) h ?h" by (intro quiet_steps quietly_refl) simp
  define sp where "sp = pl_speed calibrated i (fst (mmio_read (0x80010010 + word_of_nat i * 0x10000) h)) ?h"
  have "up' = (if sp \<noteq> 0 then up OR port_bit (i + 2) else up)" "h' = set_speed (i + 2) sp ?h"
    using assms(1) unfolding pl_observe_def Let_def case_prod_beta sp_def by auto
  moreover have "ps_speed_mbps (ports ?h) = ps_speed_mbps (ports h)"
    using more_fields(5) [of ?h h] q by (simp add: quietly_def)
  ultimately show ?thesis
    using seen_step [OF assms(3,4)] assms(2) observing_speed [OF observing_quiet [OF observing_refl q]] by simp
qed

lemma sfp_caps_quiet: "quietly (touches S) g h \<Longrightarrow> quietly (touches S) g (snd (board_sfp_capabilities h))"
  unfolding board_sfp_capabilities_def case_prod_beta snd_conv by (intro quiet_steps) simp_all

lemma sfp_rate_quiet: "quietly (touches S) g h \<Longrightarrow> quietly (touches S) g (snd (board_sfp_host_rate h))"
  unfolding board_sfp_host_rate_def case_prod_beta by (simp add: sfp_caps_quiet quietly_read)

lemma sfp_observe_result:
  assumes "sfp_observe up h = (up', h')"
  shows "observing h h' \<and> (\<forall>p. p \<noteq> 4 \<longrightarrow> bit up' p = bit up p) \<and> (\<forall>p<4. ps_speed_mbps (ports h') ! p = ps_speed_mbps (ports h) ! p)"
proof -
  let ?h1 = "snd (board_sfp_capabilities (snd (mmio_read (DIAG_BASE + PCS_STATUS) (snd (mmio_read (DIAG_BASE + 4) h)))))"
  have q1: "quietly (touches []) h ?h1" by (intro sfp_caps_quiet quiet_steps quietly_refl) simp_all
  then have "quietly (touches []) h (snd (mmio_read (SFP_BASE + 0x4e4) ?h1))" by (intro quiet_steps) simp_all
  with q1 obtain h2 up2 v where h2: "quietly (touches []) h h2" "up' = up2" "h' = set_speed 4 v h2"
      "up2 = up \<or> up2 = up OR port_bit 4"
    using assms unfolding sfp_observe_def Let_def case_prod_beta
    by (auto simp: port_bit_def intro: sfp_rate_quiet split: if_splits)
  have same: "ps_speed_mbps (ports h2) = ps_speed_mbps (ports h)"
    using more_fields(5) [of h2 h] h2(1) by (simp add: quietly_def)
  have "observing h h'" unfolding h2(3) by (intro observing_speed observing_quiet [OF observing_refl h2(1)])
  moreover have "bit up' p = bit up p" if "p \<noteq> 4" for p
    using h2(2,4) that by (auto simp: bit_or_iff bit_port_bit)
  ultimately show ?thesis using same by (simp add: h2(3))
qed

lemma board_phy_mask_result:
  assumes run: "board_phy_mask h = Some (up, h')" and len: "5 \<le> length (ps_speed_mbps (ports h))"
  shows "observing h h' \<and> (\<forall>p. bit up p \<longrightarrow> p < 5) \<and> (\<forall>p<4. bit up p \<longleftrightarrow> ps_speed_mbps (ports h') ! p \<noteq> 0)"
proof -
  obtain u1 h1 u2 h2 where s1: "ps_observe 0 0 h = Some (u1, h1)" and s2: "ps_observe 1 u1 h1 = Some (u2, h2)"
    using run by (auto simp: board_phy_mask_def split: option.splits)
  let ?c = "fst (mmio_read DIAG_BASE h2)" and ?h3 = "snd (mmio_read DIAG_BASE h2)"
  obtain u4 h4 u5 h5 where s4: "pl_observe ?c 0 (u2, ?h3) = (u4, h4)" and s5: "pl_observe ?c 1 (u4, h4) = (u5, h5)"
    by fastforce
  have s6: "sfp_observe u5 h5 = (up, h')"
    using run unfolding board_phy_mask_def
    by (simp only: s1 s2 s4 s5 option.case prod.case Let_def case_prod_beta fst_conv snd_conv option.inject)
  have lens: "observing g k \<Longrightarrow> length (ps_speed_mbps (ports k)) = length (ps_speed_mbps (ports g))" for g k
    by (auto simp: observing_def)
  have r1: "observing h h1" "seen 1 u1 (ps_speed_mbps (ports h1))"
    using ps_observe_result [OF s1 _ _ order.strict_trans2 [OF _ len]] by (simp_all add: seen_def)
  have r2: "observing h1 h2" "seen 2 u2 (ps_speed_mbps (ports h2))"
    using ps_observe_result [OF s2] r1 len lens [OF r1(1)] by (auto simp: numeral_2_eq_2)
  have q3: "quietly (touches []) h2 ?h3" by (intro quietly_read quietly_refl) simp
  have r3: "observing h2 ?h3" "ports ?h3 = ports h2"
    by (rule observing_quiet [OF observing_refl q3]) (use q3 more_fields(5) in \<open>unfold quietly_def, blast\<close>)
  have r4: "observing ?h3 h4" "seen 3 u4 (ps_speed_mbps (ports h4))"
    using pl_observe_result [OF s4] r2 r3 len lens [OF r1(1)] lens [OF r2(1)] by (auto simp: numeral_3_eq_3 numeral_2_eq_2)
  have r5: "observing h4 h5" "seen 4 u5 (ps_speed_mbps (ports h5))"
    using pl_observe_result [OF s5] r3 r4 len lens [OF r1(1)] lens [OF r2(1)] lens [OF r4(1)]
    by (auto simp: numeral_3_eq_3 eval_nat_numeral)
  have "observing h h5" using r1(1) r2(1) r3(1) r4(1) r5(1) observing_trans by metis
  moreover note sfp_observe_result [OF s6]
  ultimately show ?thesis
    using r5(2) observing_trans by (auto simp: seen_def less_Suc_eq)
qed

section \<open>Decision\<close>

text \<open>The speeds the mode registers hold after a log, where it tells.\<close>

fun mode_event :: "(nat \<rightharpoonup> u32) \<Rightarrow> event \<Rightarrow> (nat \<rightharpoonup> u32)" where
  "mode_event md (Wr a v) = (case mode_reg a of None \<Rightarrow> md | Some p \<Rightarrow> md(p \<mapsto> v AND 3))"
| "mode_event md e = md"

definition modes :: "(nat \<rightharpoonup> u32) \<Rightarrow> event list \<Rightarrow> (nat \<rightharpoonup> u32)" where
  "modes md evs = foldl mode_event md evs"

lemma modes_simps [simp]:
  "modes md [] = md" "modes md (e # evs) = modes (mode_event md e) evs" "modes md (xs @ ys) = modes (modes md xs) ys"
  by (simp_all add: modes_def)

text \<open>The decision writes the mode registers, each with the speed its MAC is already configured for.\<close>

definition refreshing :: "u16 list \<Rightarrow> event \<Rightarrow> bool" where
  "refreshing cs e \<longleftrightarrow> touches [] e \<or> (\<exists>i v. i < 2 \<and> e = Wr (pl_mac i + 0x41c) v \<and> v AND 3 = pl_mode (cs ! (i + 2)))"

definition deciding :: "'a links_scheme \<Rightarrow> 'a links_scheme \<Rightarrow> bool" where
  "deciding g h \<longleftrightarrow> poll_step [2, 3] g h \<and> ports h = ports g \<and> ps_ready h = ps_ready g \<and> pl_ready h = pl_ready g \<and>
     configured_speed h = configured_speed g \<and> (\<exists>evs. hw_log h = hw_log g @ evs \<and> list_all (refreshing (configured_speed g)) evs)"

lemma deciding_refl: "deciding g g"
  by (simp add: deciding_def poll_refl)

lemma deciding_trans: "deciding g h \<Longrightarrow> deciding h k \<Longrightarrow> deciding g k"
  unfolding deciding_def using poll_trans by (metis append_assoc list_all_append)

lemma touching_refreshing: "list_all (touches []) evs \<Longrightarrow> list_all (refreshing cs) evs"
  by (simp add: list_all_iff refreshing_def)

lemma deciding_same:
  assumes "poll_step [] g h" and "ports h = ports g" and "ps_ready h = ps_ready g" and "pl_ready h = pl_ready g"
    and "configured_speed h = configured_speed g"
  shows "deciding g h"
proof -
  have "poll_step [2, 3] g h" by (rule poll_mono [OF assms(1)]) simp
  moreover have "\<exists>evs. hw_log h = hw_log g @ evs \<and> list_all (refreshing (configured_speed g)) evs"
    using assms(1) touching_refreshing unfolding poll_step_def by blast
  ultimately show ?thesis using assms(2-5) by (simp add: deciding_def)
qed

lemma deciding_quiet: "deciding g h \<Longrightarrow> quietly (touches []) h k \<Longrightarrow> deciding g k"
  using deciding_trans [OF _ deciding_same [OF poll_quiet [OF poll_refl]]] more_fields by (metis quietly_def)

lemma deciding_write: "deciding g h \<Longrightarrow> touches [] (Wr a v) \<Longrightarrow> deciding g (mmio_write a v h)"
  by (erule deciding_quiet) (intro quiet_steps quietly_refl)

lemma pl_mac_reg: "i < 2 \<Longrightarrow> mode_reg (pl_mac i + 0x41c) = Some (i + 2)"
  by (auto simp: mode_reg_def pl_mac_def less_2_cases_iff)

lemma mode_reg_owner: "mode_reg a = Some p \<Longrightarrow> owner a v = Some p \<and> a \<notin> set gates"
  by (auto simp: owner_def mode_reg_def split: if_splits)

lemma pl_mac_touches: "i < 2 \<Longrightarrow> i + 2 \<in> set S \<Longrightarrow> touches S (Wr (pl_mac i + 0x41c) v)"
  using mode_reg_owner [OF pl_mac_reg] by (simp add: touches_Wr)

lemma deciding_mode:
  assumes "deciding g h" and "i < 2" and "v AND 3 = pl_mode (configured_speed g ! (i + 2))"
  shows "deciding g (mmio_write (pl_mac i + 0x41c) v h)"
proof (rule deciding_trans [OF assms(1)])
  have "i + 2 \<in> set [2, 3]" using assms(2) by auto
  then have "touches [2, 3] (Wr (pl_mac i + 0x41c) v)" using pl_mac_touches [OF assms(2)] by blast
  moreover have "refreshing (configured_speed h) (Wr (pl_mac i + 0x41c) v)"
    using assms by (auto simp: refreshing_def deciding_def)
  ultimately show "deciding h (mmio_write (pl_mac i + 0x41c) v h)"
    by (simp add: deciding_def poll_step_def mmio_write_def emit_def)
qed

lemma refreshing_mode: "refreshing cs e \<Longrightarrow> mode_event md e p \<in> {md p, Some (pl_mode (cs ! p))}"
proof -
  have "mode_event md e p = md p" if "touches [] e"
    using that mode_reg_owner by (cases e) (fastforce simp: touches_def split: option.splits)+
  then show "refreshing cs e \<Longrightarrow> mode_event md e p \<in> {md p, Some (pl_mode (cs ! p))}"
    using pl_mac_reg by (fastforce simp: refreshing_def)
qed

lemma refreshing_modes: "list_all (refreshing cs) evs \<Longrightarrow> modes md evs p \<in> {md p, Some (pl_mode (cs ! p))}"
proof (induction evs arbitrary: md)
  case (Cons e evs)
  have "modes (mode_event md e) evs p \<in> {mode_event md e p, Some (pl_mode (cs ! p))}" using Cons.prems by (intro Cons.IH) simp
  moreover have "mode_event md e p \<in> {md p, Some (pl_mode (cs ! p))}" using Cons.prems by (intro refreshing_mode) simp
  ultimately show ?case unfolding modes_simps by (metis insert_iff)
qed simp

definition mode_shown :: "nat \<Rightarrow> 'a links_scheme \<Rightarrow> bool" where
  "mode_shown p h \<longleftrightarrow> modes Map.empty (hw_log h) p = Some (pl_mode (configured_speed h ! p))"

lemma deciding_shown: "deciding g h \<Longrightarrow> mode_shown p g \<Longrightarrow> mode_shown p h"
proof -
  assume d: "deciding g h" and shown: "mode_shown p g"
  then obtain evs where "hw_log h = hw_log g @ evs" "list_all (refreshing (configured_speed g)) evs"
    by (auto simp: deciding_def)
  then show "mode_shown p h"
    using d shown refreshing_modes [of "configured_speed g" evs "modes Map.empty (hw_log g)" p] by (auto simp: deciding_def mode_shown_def)
qed

lemma mode_value: "(pl_mode s OR (if c then 4 else 0)) AND 3 = pl_mode s"
  by (simp add: pl_mode_def)

lemma deciding_stale:
  assumes "deciding g h" shows "ps_stale request i h = ps_stale request i g" "pl_stale request i h = pl_stale request i g"
  using assms by (simp_all add: deciding_def ps_stale_def pl_stale_def)

lemma sfp_request_result:
  assumes "sfp_request request observed now d h = (d', h')"
  shows "deciding h h' \<and> (d' = d \<or> d' = d AND NOT 0x10)"
proof -
  let ?h1 = "snd (board_sfp_capabilities h)" and ?n = "\<lambda>g. sfp_new_request (ps_sfp_requested request) now g"
  define h3 where "h3 = (if observed AND 0x10 \<noteq> 0 then (?n ?h1)\<lparr>sfp_probe_ms := now\<rparr> else ?n ?h1)"
  have q1: "deciding h ?h1" by (intro deciding_quiet [OF deciding_refl] sfp_caps_quiet quietly_refl)
  have "deciding ?h1 h3" by (simp add: h3_def deciding_def poll_step_def sfp_new_request_def)
  then have q3: "deciding h h3" by (rule deciding_trans [OF q1])
  then have q4: "deciding h (snd (mmio_read (DIAG_BASE + 4) h3))"
    by (rule deciding_quiet) (intro quiet_steps quietly_refl, simp)
  have probe: "deciding g k \<Longrightarrow> deciding g (k\<lparr>sfp_target := t, sfp_pending := b\<rparr>)" for g k :: "'a links_scheme" and t b
    by (simp add: deciding_def poll_step_def)
  show ?thesis
    using assms q1 q3 q4 unfolding sfp_request_def Let_def case_prod_beta h3_def [symmetric]
    by (auto intro: probe split: if_splits)
qed

lemma quiesce_ps_result:
  assumes "quiesce_ps request (d, h) i = (d', h')" and "deciding g h" and "i < 2"
  shows "deciding g h' \<and> (\<forall>p. bit d' p \<longrightarrow> bit d p \<and> (p = i \<longrightarrow> \<not> ps_stale request i g))"
proof -
  have "touches [] (Wr (gem_base i) v)" for v by (simp add: touches_Wr owner_def mode_reg_def gem_base_def)
  then show ?thesis
    using assms by (auto simp: quiesce_ps_def Let_def bit_and_iff bit_not_iff bit_port_bit deciding_stale(1) [OF assms(2)]
      intro: deciding_write split: if_splits)
qed

lemma quiesce_pl_result:
  assumes "quiesce_pl request (d, h) i = (d', h')" and "deciding g h" and "i < 2"
  shows "deciding g h' \<and> (\<forall>p. bit d' p \<longrightarrow> bit d p \<and> (p = i + 2 \<longrightarrow> \<not> pl_stale request i g)) \<and> mode_shown (i + 2) h'"
proof -
  have same: "configured_speed h = configured_speed g" using assms(2) by (simp add: deciding_def)
  define v where "v = pl_mode (configured_speed h ! (i + 2)) OR (if d' AND port_bit (i + 2) \<noteq> 0 then 4 else 0)"
  have v: "v AND 3 = pl_mode (configured_speed h ! (i + 2))" unfolding v_def by (rule mode_value)
  have run: "h' = mmio_write (pl_mac i + 0x41c) v h" "d' = (if pl_stale request i h then d AND NOT (port_bit (i + 2)) else d)"
    using assms(1) by (auto simp: quiesce_pl_def Let_def v_def)
  have "deciding g h'" unfolding run(1) by (rule deciding_mode [OF assms(2,3)]) (simp add: v same)
  moreover have "mode_shown (i + 2) h'"
    using v pl_mac_reg [OF assms(3)] by (simp add: run(1) mode_shown_def hw_simps) (simp add: hw_defs)
  ultimately show ?thesis
    by (auto simp: run(2) bit_and_iff bit_not_iff bit_port_bit deciding_stale(2) [OF assms(2)] split: if_splits)
qed

lemma link_desire_result:
  assumes "link_desire request observed now h = (d, h')"
  shows "deciding h h' \<and> (\<forall>p. bit d p \<longrightarrow> bit observed p \<and> bit (ps_admin request) p \<and> fabric_dma_healthy h \<and>
    (p < 2 \<longrightarrow> \<not> ps_stale request p h) \<and> (2 \<le> p \<and> p < 4 \<longrightarrow> \<not> pl_stale request (p - 2) h)) \<and>
    mode_shown 2 h' \<and> mode_shown 3 h'"
proof -
  obtain d1 h1 where s1: "sfp_request request observed now (observed AND ps_admin request) h = (d1, h1)" by fastforce
  obtain d2 h2 where s2: "quiesce_ps request (d1, h1) 0 = (d2, h2)" by fastforce
  obtain d3 h3 where s3: "quiesce_ps request (d2, h2) 1 = (d3, h3)" by fastforce
  obtain d4 h4 where s4: "quiesce_pl request (d3, h3) 0 = (d4, h4)" by fastforce
  obtain d5 h5 where s5: "quiesce_pl request (d4, h4) 1 = (d5, h5)" by fastforce
  let ?h = "foldl (mac_receive request) h5 [0, 1, 2]"
  have res: "d = (if fabric_dma_healthy ?h then d5 else 0)" "h' = ?h"
    using assms by (auto simp: Let_def link_desire_def s1 s2 [simplified] s3 [simplified] s4 [simplified] s5 [simplified])
  note r1 = sfp_request_result [OF s1]
  have r2: "deciding h h2" "\<And>p. bit d2 p \<Longrightarrow> bit d1 p \<and> (p = 0 \<longrightarrow> \<not> ps_stale request 0 h)"
    using quiesce_ps_result [OF s2, of h] r1 by simp_all
  have r3: "deciding h h3" "\<And>p. bit d3 p \<Longrightarrow> bit d2 p \<and> (p = 1 \<longrightarrow> \<not> ps_stale request 1 h)"
    using quiesce_ps_result [OF s3, of h] r2(1) by simp_all
  have r4: "deciding h h4" "\<And>p. bit d4 p \<Longrightarrow> bit d3 p \<and> (p = 2 \<longrightarrow> \<not> pl_stale request 0 h)" "mode_shown 2 h4"
    using quiesce_pl_result [OF s4, of h] r3(1) by (simp_all add: numeral_2_eq_2)
  have r5: "deciding h h5" "\<And>p. bit d5 p \<Longrightarrow> bit d4 p \<and> (p = 3 \<longrightarrow> \<not> pl_stale request 1 h)" "mode_shown 3 h5"
    using quiesce_pl_result [OF s5, of h] r4(1) by (simp_all add: numeral_3_eq_3)
  have "deciding h4 h5" using quiesce_pl_result [OF s5 deciding_refl] by simp
  then have shown2: "mode_shown 2 h5" using r4(3) by (rule deciding_shown)
  have "deciding h5 ?h"
    unfolding foldl.simps mac_receive_def
    by (intro deciding_write deciding_refl) (simp_all add: touches_Wr owner_def mode_reg_def link_macs_def)
  then have shown: "mode_shown 2 ?h" "mode_shown 3 ?h" using shown2 r5(3) deciding_shown by blast+
  have r6: "deciding h ?h"
    unfolding foldl.simps mac_receive_def
    by (intro deciding_write r5) (simp_all add: touches_Wr owner_def mode_reg_def link_macs_def)
  have d1: "bit d1 p \<Longrightarrow> bit observed p \<and> bit (ps_admin request) p" for p
    using r1 by (auto simp: bit_and_iff)
  have chain: "bit d p \<Longrightarrow> fabric_dma_healthy h \<and> bit d5 p" for p
    using r6 by (auto simp: res(1) deciding_def poll_step_def fabric_dma_healthy_def split: if_splits)
  have "bit d p \<longrightarrow> bit observed p \<and> bit (ps_admin request) p \<and> fabric_dma_healthy h \<and>
      (p < 2 \<longrightarrow> \<not> ps_stale request p h) \<and> (2 \<le> p \<and> p < 4 \<longrightarrow> \<not> pl_stale request (p - 2) h)" for p
  proof
    assume b: "bit d p"
    consider "p = 0" | "p = 1" | "p = 2" | "p = 3" | "4 \<le> p" by linarith
    then show "bit observed p \<and> bit (ps_admin request) p \<and> fabric_dma_healthy h \<and>
        (p < 2 \<longrightarrow> \<not> ps_stale request p h) \<and> (2 \<le> p \<and> p < 4 \<longrightarrow> \<not> pl_stale request (p - 2) h)"
      using chain [OF b] r5(2) [of p] r4(2) [of p] r3(2) [of p] r2(2) [of p] d1 [of p] by cases simp_all
  qed
  then show ?thesis using r6 shown res(2) by blast
qed

section \<open>Removal and admission\<close>

lemma wait_flush_from_more: "pstate.more (snd (wait_flush_from n h)) = pstate.more h"
  by (induction n arbitrary: h) (simp_all add: case_prod_beta hw_defs)

lemma clear_more: "pstate.more (clear_and_flush reg m h) = pstate.more h"
proof -
  have w: "pstate.more (snd (wait_flush g)) = pstate.more g" for g :: "'a pstate_scheme"
    by (simp add: wait_flush_def wait_flush_from_more)
  have e: "pstate.more (mmio_write a v g) = pstate.more g" for a v and g :: "'a pstate_scheme" by (simp add: hw_defs)
  show ?thesis unfolding clear_and_flush_def Let_def case_prod_beta by (simp add: w e)
qed

lemma clear_fields:
  fixes h :: "'a links_scheme"
  shows "link_state (clear_and_flush reg m h) = link_state h" "ports (clear_and_flush reg m h) = ports h"
    "ps_ready (clear_and_flush reg m h) = ps_ready h" "pl_ready (clear_and_flush reg m h) = pl_ready h"
    "configured_speed (clear_and_flush reg m h) = configured_speed h" "links.more (clear_and_flush reg m h) = links.more h"
proof -
  have "pstate.more g = pstate.more k \<Longrightarrow> link_state g = link_state k \<and> ports g = ports k \<and> ps_ready g = ps_ready k \<and>
      pl_ready g = pl_ready k \<and> configured_speed g = configured_speed k \<and> links.more g = links.more k" for g k :: "'a links_scheme"
    by (cases g, cases k) simp
  from this [OF clear_more [of reg m h]] show "link_state (clear_and_flush reg m h) = link_state h"
    "ports (clear_and_flush reg m h) = ports h" "ps_ready (clear_and_flush reg m h) = ps_ready h"
    "pl_ready (clear_and_flush reg m h) = pl_ready h" "configured_speed (clear_and_flush reg m h) = configured_speed h"
    "links.more (clear_and_flush reg m h) = links.more h"
    by simp_all
qed

text \<open>The link enables the fabric holds after a log, and the writes of a log that set up a port its gates admit.\<close>

fun link_event :: "u32 \<Rightarrow> event \<Rightarrow> u32" where
  "link_event l (Wr a v) = (if a = DIAG_BASE + LINK_SET then l OR v
     else if a = DIAG_BASE + LINK_CLR then l AND NOT v else l)"
| "link_event l e = l"

definition link_enabled :: "u32 \<Rightarrow> event list \<Rightarrow> u32" where
  "link_enabled l evs = foldl link_event l evs"

definition event_safe :: "u32 \<Rightarrow> u32 \<Rightarrow> (nat \<rightharpoonup> u32) \<Rightarrow> event \<Rightarrow> bool" where
  "event_safe l f md e = (case e of
     Wr a v \<Rightarrow> (case owner a v of None \<Rightarrow> True
       | Some p \<Rightarrow> \<not> (bit l p \<and> bit f p) \<or> mode_reg a = Some p \<and> md p = Some (v AND 3))
   | _ \<Rightarrow> True)"

text \<open>While the fabric passes the traffic of a port, no write sets the port up, and a write of its mode register keeps the
  speed that the last write before it has set.\<close>

fun safe_log :: "u32 \<Rightarrow> u32 \<Rightarrow> (nat \<rightharpoonup> u32) \<Rightarrow> event list \<Rightarrow> bool" where
  "safe_log l f md [] = True"
| "safe_log l f md (e # es) =
     (event_safe l f md e \<and> safe_log (link_event l e) (fwd_event f e) (mode_event md e) es)"

lemma link_enabled_simps [simp]:
  "link_enabled l [] = l" "link_enabled l (e # evs) = link_enabled (link_event l e) evs"
  "link_enabled l (xs @ ys) = link_enabled (link_enabled l xs) ys"
  by (simp_all add: link_enabled_def)

lemma safe_log_append [simp]:
  "safe_log l f md (xs @ ys) \<longleftrightarrow> safe_log l f md xs \<and> safe_log (link_enabled l xs) (fwd_enabled f xs) (modes md xs) ys"
  by (induction xs arbitrary: l f md) simp_all

lemma touching_mode: "touches S e \<Longrightarrow> p \<notin> set S \<Longrightarrow> mode_event md e p = md p"
  using mode_reg_owner by (cases e) (fastforce simp: touches_def split: option.splits)+

lemma touching_log:
  assumes "list_all (touches S) evs" and "\<forall>p\<in>set S. \<not> (bit l p \<and> bit f p)"
  shows "safe_log l f md evs \<and> link_enabled l evs = l \<and> fwd_enabled f evs = f \<and> (\<forall>p. p \<notin> set S \<longrightarrow> modes md evs p = md p)"
  using assms
proof (induction evs arbitrary: md)
  case (Cons e evs)
  then have "link_event l e = l" "fwd_event f e = f" "event_safe l f md e"
    by (auto simp: touches_def event_safe_def split: event.splits option.splits)
  then show ?case using Cons.IH [of "mode_event md e"] Cons.prems touching_mode [of S e] by simp
qed simp

lemma refreshing_log:
  assumes "list_all (refreshing cs) evs" and "\<forall>p\<in>{2, 3}. bit l p \<and> bit f p \<longrightarrow> md p = Some (pl_mode (cs ! p))"
  shows "safe_log l f md evs \<and> link_enabled l evs = l \<and> fwd_enabled f evs = f"
  using assms
proof (induction evs arbitrary: md)
  case (Cons e evs)
  have "link_event l e = l \<and> fwd_event f e = f \<and> event_safe l f md e"
  proof (cases "touches [] e")
    case True
    then show ?thesis by (auto simp: touches_def event_safe_def split: event.splits option.splits)
  next
    case False
    then obtain i v where i: "i < 2" "e = Wr (pl_mac i + 0x41c) v" "v AND 3 = pl_mode (cs ! (i + 2))"
      using Cons.prems(1) by (auto simp: refreshing_def)
    have r: "mode_reg (pl_mac i + 0x41c) = Some (i + 2)" by (rule pl_mac_reg [OF i(1)])
    have "i + 2 \<in> {2, 3}" using i(1) by auto
    then have "bit l (i + 2) \<and> bit f (i + 2) \<longrightarrow> md (i + 2) = Some (v AND 3)" using Cons.prems(2) i(3) by metis
    then show ?thesis using mode_reg_owner [OF r, of v] r by (auto simp: i(2) event_safe_def)
  qed
  moreover have "\<forall>p\<in>{2, 3}. bit l p \<and> bit f p \<longrightarrow> mode_event md e p = Some (pl_mode (cs ! p))"
  proof (intro ballI impI)
    fix p
    assume "p \<in> {2, 3}" "bit l p \<and> bit f p"
    then have "md p = Some (pl_mode (cs ! p))" using Cons.prems(2) by blast
    moreover have "mode_event md e p \<in> {md p, Some (pl_mode (cs ! p))}" using Cons.prems(1) by (intro refreshing_mode) simp
    ultimately show "mode_event md e p = Some (pl_mode (cs ! p))" by auto
  qed
  ultimately show ?case using Cons.IH [of "mode_event md e"] Cons.prems(1) by simp
qed simp

definition ownerless :: "event \<Rightarrow> bool" where
  "ownerless e \<longleftrightarrow> (case e of Wr a v \<Rightarrow> owner a v = None | _ \<Rightarrow> True)"

lemma ownerless_mode: "ownerless e \<Longrightarrow> mode_event md e = md"
  using mode_reg_owner by (cases e) (fastforce simp: ownerless_def split: option.splits)+

lemma ownerless_log: "list_all ownerless evs \<Longrightarrow> safe_log l f md evs \<and> modes md evs = md"
  by (induction evs arbitrary: l f) (auto simp: ownerless_mode, auto simp: ownerless_def event_safe_def split: event.splits)

lemma quiet_ownerless: "list_all quiet evs \<Longrightarrow> list_all ownerless evs \<and> link_enabled l evs = l"
  by (induction evs) (auto simp: quiet_def ownerless_def split: event.splits)

text \<open>The invariant: the log is safe, the shadow mask is what the fabric holds unless the failure is latched, and
  then forwarding is closed; and the mode register of an admitted PL port holds the configured speed.\<close>

definition shadows :: "u32 \<Rightarrow> u8 \<Rightarrow> bool" where
  "shadows l m \<longleftrightarrow> (\<forall>p<5. bit l p = bit m p) \<and> (\<forall>p. bit m p \<longrightarrow> p < 5)"

definition gates_ok :: "u32 \<Rightarrow> u32 \<Rightarrow> 'a links_scheme \<Rightarrow> bool" where
  "gates_ok l f h \<longleftrightarrow> safe_log l f Map.empty (hw_log h) \<and> closed f h \<and>
     (control_failed h \<or> shadows (link_enabled l (hw_log h)) (enabled (link_state h))) \<and>
     (\<forall>p\<in>{2, 3}. bit (enabled (link_state h)) p \<longrightarrow> mode_shown p h)"

text \<open>The fabric passes traffic only for admitted ports.\<close>

lemma closed_bit: "closed f h \<Longrightarrow> control_failed h \<Longrightarrow> p < 5 \<Longrightarrow> \<not> bit (fwd_enabled f (hw_log h)) p"
proof
  assume "closed f h" "control_failed h" and p: "p < 5" and b: "bit (fwd_enabled f (hw_log h)) p"
  then have "\<not> bit (fwd_enabled f (hw_log h) AND 0x1f) p" by (simp add: closed_def)
  moreover have "(0x1f :: u32) = Bit_Operations.mask 5" by (simp add: mask_eq_exp_minus_1)
  ultimately show False using p b by (simp add: bit_and_iff bit_mask_iff)
qed

lemma gates_open:
  assumes "gates_ok l f h" and "p < 5" and "bit (link_enabled l (hw_log h)) p" and "bit (fwd_enabled f (hw_log h)) p"
  shows "bit (enabled (link_state h)) p"
  using assms closed_bit unfolding gates_ok_def shadows_def by blast

lemma gates_step:
  assumes "gates_ok l f g" and "link_state h = link_state g" and "control_failed h = control_failed g"
    and "hw_log h = hw_log g @ evs" and "list_all (touches S) evs"
    and "\<forall>p\<in>set S. p < 5 \<and> \<not> bit (enabled (link_state g)) p"
    and "\<forall>p. p \<notin> set S \<longrightarrow> configured_speed h ! p = configured_speed g ! p"
  shows "gates_ok l f h"
proof -
  have "\<forall>p\<in>set S. \<not> (bit (link_enabled l (hw_log g)) p \<and> bit (fwd_enabled f (hw_log g)) p)"
    using gates_open [OF assms(1)] assms(6) by blast
  note t = touching_log [OF assms(5) this, of "modes Map.empty (hw_log g)"]
  have "mode_shown p h" if "p \<in> {2, 3}" "bit (enabled (link_state h)) p" for p
  proof -
    have "p \<notin> set S" using assms(2,6) that(2) by auto
    moreover have "mode_shown p g" using assms(1,2) that by (auto simp: gates_ok_def)
    ultimately show ?thesis using t assms(4,7) by (simp add: mode_shown_def)
  qed
  then show ?thesis using t assms(1-4) unfolding gates_ok_def closed_def by simp
qed

lemma gates_poll:
  assumes "gates_ok l f g" and "poll_step S g h" and "\<forall>p\<in>set S. p < 5 \<and> \<not> bit (enabled (link_state g)) p"
    and "\<forall>p. p \<notin> set S \<longrightarrow> configured_speed h ! p = configured_speed g ! p"
  shows "gates_ok l f h"
  using assms(2) gates_step [OF assms(1) _ _ _ _ assms(3,4)] unfolding poll_step_def by blast

lemma gates_deciding:
  assumes "gates_ok l f g" and "deciding g h"
  shows "gates_ok l f h"
proof -
  obtain evs where evs: "hw_log h = hw_log g @ evs" "list_all (refreshing (configured_speed g)) evs"
    using assms(2) by (auto simp: deciding_def)
  have "\<forall>p\<in>{2, 3}. bit (link_enabled l (hw_log g)) p \<and> bit (fwd_enabled f (hw_log g)) p \<longrightarrow>
      modes Map.empty (hw_log g) p = Some (pl_mode (configured_speed g ! p))"
    using gates_open [OF assms(1)] assms(1) by (auto simp: gates_ok_def mode_shown_def)
  note r = refreshing_log [OF evs(2) this]
  have "link_state h = link_state g" "control_failed h = control_failed g"
    using assms(2) by (simp_all add: deciding_def poll_step_def)
  then show ?thesis
    using assms(1) r deciding_shown [OF assms(2)] unfolding gates_ok_def closed_def evs(1) by auto
qed

lemma ownerless_gates:
  "ownerless (Wr (DIAG_BASE + LINK_CLR) v)" "ownerless (Wr (DIAG_BASE + FWD_CLR) v)" "ownerless (Wr (DIAG_BASE + LEARN_CLR) v)"
  by (simp_all add: ownerless_def owner_def mode_reg_def)

lemma clear_gates:
  fixes h :: "'a pstate_scheme"
  assumes reg: "reg \<in> set [LINK_CLR, FWD_CLR, LEARN_CLR]"
    and h'_def: "h' = clear_and_flush reg m h"
  shows "safe_log l f md (hw_log h) \<Longrightarrow> safe_log l f md (hw_log h')"
    and "control_failed h \<Longrightarrow> control_failed h'"
    and "\<not> control_failed h' \<Longrightarrow> link_enabled l (hw_log h') =
      (if reg = LINK_CLR then link_enabled l (hw_log h) AND NOT (ucast m AND 0x3f) else link_enabled l (hw_log h))"
    and "modes md (hw_log h') = modes md (hw_log h)"
proof -
  have "(safe_log l f md (hw_log h) \<longrightarrow> safe_log l f md (hw_log h')) \<and> (control_failed h \<longrightarrow> control_failed h') \<and>
      (\<not> control_failed h' \<longrightarrow> link_enabled l (hw_log h') =
      (if reg = LINK_CLR then link_enabled l (hw_log h) AND NOT (ucast m AND 0x3f) else link_enabled l (hw_log h))) \<and>
      modes md (hw_log h') = modes md (hw_log h)"
  proof (cases "m = 0")
    case True
    then show ?thesis by (simp add: h'_def clear_and_flush_def)
  next
    case False
    have own: "ownerless (Wr (DIAG_BASE + reg) v)" "ownerless (Wr (DIAG_BASE + FWD_CLR) v)" for v
      using reg ownerless_gates [of v] unfolding list.set by blast+
    have gate: "link_event L (Wr (DIAG_BASE + reg) v) = (if reg = LINK_CLR then L AND NOT v else L)"
      "link_event L (Wr (DIAG_BASE + FWD_CLR) v) = L" for L v
      using reg by auto
    obtain evs where log: "hw_log h' = hw_log h @ evs @ (if control_failed h' then [Wr (DIAG_BASE + FWD_CLR) 0x1f] else [])"
      and sticky: "control_failed h \<Longrightarrow> control_failed h'"
      and evs: "list_all quiet evs \<and> control_failed h' \<or>
        (\<exists>w1 w2. evs = w1 @ [Wr (DIAG_BASE + reg) (ucast m AND 0x3f)] @ w2 \<and> list_all quiet w1 \<and> list_all quiet w2 \<and>
          idle_after 100 w1 \<and> (control_failed h' \<or> idle_after 100 w2))"
      using clear_and_flush_trace [OF False, of reg h] unfolding h'_def by metis
    from evs show ?thesis
    proof
      assume q: "list_all quiet evs \<and> control_failed h'"
      then have "safe_log L F M (evs @ [Wr (DIAG_BASE + FWD_CLR) 0x1f]) \<and> modes M (evs @ [Wr (DIAG_BASE + FWD_CLR) 0x1f]) = M" for L F M
        using quiet_ownerless [of evs] own(2) by (intro ownerless_log) simp
      then show ?thesis using q log sticky by simp
    next
      assume "\<exists>w1 w2. evs = w1 @ [Wr (DIAG_BASE + reg) (ucast m AND 0x3f)] @ w2 \<and> list_all quiet w1 \<and> list_all quiet w2 \<and>
          idle_after 100 w1 \<and> (control_failed h' \<or> idle_after 100 w2)"
      then obtain w1 w2 where w: "evs = w1 @ [Wr (DIAG_BASE + reg) (ucast m AND 0x3f)] @ w2" "list_all quiet w1" "list_all quiet w2"
        by blast
      have "list_all ownerless evs" using w quiet_ownerless own(1) by simp
      then have "safe_log L F M (evs @ (if control_failed h' then [Wr (DIAG_BASE + FWD_CLR) 0x1f] else [])) \<and>
          modes M (evs @ (if control_failed h' then [Wr (DIAG_BASE + FWD_CLR) 0x1f] else [])) = M" for L F M
        using own(2) by (intro ownerless_log) simp
      moreover have "link_enabled L evs = (if reg = LINK_CLR then L AND NOT (ucast m AND 0x3f) else L)" for L
        using w quiet_ownerless gate(1) by (simp only: w(1) link_enabled_simps)
      ultimately show ?thesis using log sticky by (simp only: log link_enabled_simps safe_log_append modes_simps) auto
    qed
  qed
  then show "safe_log l f md (hw_log h) \<Longrightarrow> safe_log l f md (hw_log h')" "control_failed h \<Longrightarrow> control_failed h'"
    "\<not> control_failed h' \<Longrightarrow> link_enabled l (hw_log h') =
      (if reg = LINK_CLR then link_enabled l (hw_log h) AND NOT (ucast m AND 0x3f) else link_enabled l (hw_log h))"
    "modes md (hw_log h') = modes md (hw_log h)"
    by blast+
qed

lemma shadows_clear: "shadows L m \<Longrightarrow> shadows (L AND NOT (ucast c AND 0x3f)) (m AND NOT c)"
proof -
  have m: "(0x3f :: u32) = Bit_Operations.mask 6" by (simp add: mask_eq_exp_minus_1)
  have and_not: "bit (L AND NOT x) p \<longleftrightarrow> bit L p \<and> \<not> bit x p" if "p < 5" for p and L x :: u32
    using that by (simp add: bit_and_iff bit_not_iff)
  have "bit (0x3f :: u32) p" if "p < 5" for p
    unfolding m bit_mask_iff using that by simp
  then have "bit ((ucast c :: u32) AND 0x3f) p = bit c p" if "p < 5" for p
    using that by (simp add: bit_and_iff bit_ucast_iff)
  then show "shadows L m \<Longrightarrow> shadows (L AND NOT (ucast c AND 0x3f)) (m AND NOT c)"
    unfolding shadows_def using and_not [of _ L "ucast c AND 0x3f"] by (auto simp: bit_and_iff [of m] bit_not_iff)
qed

lemma shadows_set: "shadows L m \<Longrightarrow> (\<forall>p. bit st p \<longrightarrow> p < 5) \<Longrightarrow> shadows (L OR ucast st) (m OR st)"
  unfolding shadows_def by (auto simp: bit_or_iff bit_ucast_iff)

lemma link_update_five:
  assumes "link_update s d busy now = (a, s')"
  shows "(bit (act_set a) p \<longrightarrow> p < 5) \<and> (bit (enabled s') p \<longrightarrow> p < 5 \<and> bit d p)"
proof -
  have m: "(0x1f :: u8) = Bit_Operations.mask 5" by (simp add: mask_eq_exp_minus_1)
  have five: "bit (d AND 0x1f) p \<Longrightarrow> p < 5 \<and> bit d p" for p
    unfolding m bit_and_iff bit_mask_iff by simp
  have "bit (enabled s') p \<Longrightarrow> bit (d AND 0x1f) p"
    using link_update_subset [OF assms] by (metis bit_0_eq bit_and_iff bit_not_iff bit_imp_le_length bot_apply bot_bool_def
        linorder_not_less possible_bit_word)
  moreover have "bit (act_set a) p \<Longrightarrow> bit (enabled s') p"
    using link_update_enabled [OF assms] by (simp add: bit_or_iff)
  ultimately show ?thesis using five by blast
qed

lemma gates_link_apply:
  assumes "gates_ok l f h" and "mode_shown 2 h" "mode_shown 3 h"
  shows "gates_ok l f (link_apply d busy now h)"
proof -
  obtain a s where upd: "link_update (link_state h) d busy now = (a, s)" by fastforce
  let ?h = "h\<lparr>link_state := s\<rparr>"
  define g where "g = (if act_clear a \<noteq> 0 then pstate_link_clear (act_clear a) ?h else ?h)"
  have g: "g = clear_and_flush LINK_CLR (act_clear a) ?h"
    by (simp add: g_def pstate_link_clear_def clear_and_flush_def)
  have "closed f ?h" using assms by (simp add: gates_ok_def closed_def)
  then have closed: "closed f g" unfolding g by (rule closed_clear)
  have safe: "safe_log l f Map.empty (hw_log g)"
    unfolding g by (rule clear_gates(1) [OF _ refl]) (use assms in \<open>simp_all add: gates_ok_def\<close>)
  have shadow: "control_failed g \<or> shadows (link_enabled l (hw_log g)) (enabled (link_state h) AND NOT (act_clear a))"
  proof (cases "control_failed g")
    case False
    then have "\<not> control_failed ?h" using clear_gates(2) [of LINK_CLR g "act_clear a" ?h] g by auto
    then have "shadows (link_enabled l (hw_log h)) (enabled (link_state h))" using assms by (simp add: gates_ok_def)
    then show ?thesis
      using shadows_clear clear_gates(3) [OF _ g, of l] False by simp
  qed simp
  have md: "modes Map.empty (hw_log g) = modes Map.empty (hw_log h)" "configured_speed g = configured_speed h"
    unfolding g using clear_gates(4) [of LINK_CLR _ "act_clear a" ?h Map.empty] by (simp_all add: clear_fields)
  let ?e = "Wr (DIAG_BASE + LINK_SET) (ucast (act_set a))"
  have res: "link_apply d busy now h = (if act_set a \<noteq> 0 then emit ?e g else g)"
    by (simp add: link_apply_def upd Let_def g_def mmio_write_def)
  have state: "link_state g = s" unfolding g clear_fields by simp
  have "shadows L (enabled (link_state h) AND NOT (act_clear a)) \<Longrightarrow> shadows (L OR ucast (act_set a)) (enabled s)" for L
    using shadows_set link_update_five [OF upd] unfolding link_update_enabled [OF upd] by blast
  moreover have "enabled s = enabled (link_state h) AND NOT (act_clear a)" if "act_set a = 0"
    using link_update_enabled [OF upd] that by simp
  moreover have own: "ownerless ?e" by (simp add: ownerless_def owner_def mode_reg_def)
  moreover have "closed f (emit ?e g)" using closed by (simp add: closed_def hw_simps)
  ultimately show ?thesis
    using closed safe shadow ownerless_log [of "[?e]"] ownerless_mode [OF own] assms(2,3) md
    by (auto simp: res gates_ok_def state hw_simps mode_shown_def) (simp_all add: emit_def state)
qed

section \<open>Set-up\<close>

text \<open>What the driver knows of one port.\<close>

definition port_view :: "nat \<Rightarrow> 'a links_scheme \<Rightarrow> bool \<times> u8 \<times> u16 \<times> u16" where
  "port_view q h = (if q < 2 then ps_ready h ! q else pl_ready h ! (q - 2), ps_applied (ports h) ! q,
     configured_speed h ! q, ps_speed_mbps (ports h) ! q)"

text \<open>A part of the poll that sets up only ports of a list, none of which is admitted.\<close>

definition sets_up :: "nat list \<Rightarrow> u8 \<times> 'a links_scheme \<Rightarrow> u8 \<times> 'a links_scheme \<Rightarrow> bool" where
  "sets_up S s t \<longleftrightarrow> poll_step S (snd s) (snd t) \<and> (\<forall>p\<in>set S. p < 5 \<and> \<not> bit (enabled (link_state (snd s))) p) \<and>
     (\<forall>q. q \<notin> set S \<longrightarrow> bit (fst t) q = bit (fst s) q \<and> port_view q (snd t) = port_view q (snd s)) \<and>
     ps_admin (ports (snd t)) = ps_admin (ports (snd s)) \<and> ps_advertise (ports (snd t)) = ps_advertise (ports (snd s)) \<and>
     length (ps_speed_mbps (ports (snd t))) = length (ps_speed_mbps (ports (snd s)))"

lemma sets_up_refl: "sets_up [] s s"
  by (simp add: sets_up_def poll_refl)

lemma sets_up_trans: "sets_up S s t \<Longrightarrow> sets_up T t u \<Longrightarrow> sets_up (S @ T) s u"
proof -
  assume s: "sets_up S s t" "sets_up T t u"
  then have steps: "poll_step S (snd s) (snd t)" "poll_step T (snd t) (snd u)" by (simp_all add: sets_up_def)
  have "poll_step (S @ T) (snd s) (snd u)"
    by (rule poll_trans [OF poll_mono [OF steps(1)] poll_mono [OF steps(2)]]) simp_all
  moreover have "link_state (snd t) = link_state (snd s)" using s(1) by (simp add: sets_up_def poll_step_def)
  ultimately show ?thesis using s by (auto simp: sets_up_def)
qed

lemma quiet_view: "quietly ok g h \<Longrightarrow> port_view q h = port_view q g" for g h :: "'a links_scheme"
  unfolding quietly_def port_view_def using more_fields [of h g] by simp

lemma clearing_bit: "q \<noteq> i \<Longrightarrow> bit (u AND NOT (port_bit i)) q = bit u q" for u :: u8
  by (auto simp: bit_and_iff bit_not_iff bit_port_bit dest: bit_imp_le_length)

text \<open>Stepwise: the set-up of a listed port.\<close>

lemma up_quiet:
  assumes "quietly (touches S) h h'" and "\<forall>p\<in>set S. p < 5 \<and> \<not> bit (enabled (link_state h)) p"
  shows "sets_up S (obs, h) (obs, h')"
proof -
  have "ports h' = ports h" using assms(1) more_fields(5) by (auto simp: quietly_def)
  then show ?thesis
    using poll_quiet [OF poll_refl assms(1)] quiet_view [OF assms(1)] assms(2) by (simp add: sets_up_def)
qed

lemma up_mask: "sets_up S s (obs, h) \<Longrightarrow> i \<in> set S \<Longrightarrow> sets_up S s (obs AND NOT (port_bit i), h)"
  unfolding sets_up_def using clearing_bit by (metis fst_conv snd_conv)

lemma upI:
  assumes "sets_up S s (obs, h)" and "i \<in> set S" and "poll_step [] h h'" and "\<And>q. q \<noteq> i \<Longrightarrow> port_view q h' = port_view q h"
    and "ps_admin (ports h') = ps_admin (ports h)" and "ps_advertise (ports h') = ps_advertise (ports h)"
    and "length (ps_speed_mbps (ports h')) = length (ps_speed_mbps (ports h))"
  shows "sets_up S s (obs, h')"
  using assms poll_trans [OF _ poll_mono [OF assms(3)], of S "snd s"] unfolding sets_up_def by simp metis

lemma up_speed: "sets_up S s (obs, h) \<Longrightarrow> i \<in> set S \<Longrightarrow> sets_up S s (obs, set_speed i v h)"
  by (erule (1) upI) (auto simp: set_speed_def poll_step_def port_view_def nth_list_update)

lemma up_configured: "sets_up S s (obs, h) \<Longrightarrow> i \<in> set S \<Longrightarrow> sets_up S s (obs, set_configured i v h)"
  by (erule (1) upI) (auto simp: set_configured_def poll_step_def port_view_def nth_list_update)

lemma up_applied: "sets_up S s (obs, h) \<Longrightarrow> i \<in> set S \<Longrightarrow> sets_up S s (obs, set_applied i v h)"
  by (erule (1) upI) (auto simp: set_applied_def poll_step_def port_view_def nth_list_update)

lemma up_ps_ready: "sets_up S s (obs, h) \<Longrightarrow> i \<in> set S \<Longrightarrow> sets_up S s (obs, h\<lparr>ps_ready := (ps_ready h)[i := b]\<rparr>)"
  by (erule (1) upI) (auto simp: poll_step_def port_view_def nth_list_update)

lemma up_pl_ready: "sets_up S s (obs, h) \<Longrightarrow> i + 2 \<in> set S \<Longrightarrow> sets_up S s (obs, h\<lparr>pl_ready := (pl_ready h)[i := b]\<rparr>)"
proof (erule (1) upI)
  fix q
  assume "q \<noteq> i + 2"
  then have "q < 2 \<or> q - 2 \<noteq> i" by auto
  then show "port_view q (h\<lparr>pl_ready := (pl_ready h)[i := b]\<rparr>) = port_view q h" by (auto simp: port_view_def)
qed (simp_all add: poll_step_def)

lemma up_if: "(c \<Longrightarrow> sets_up S s (obs, x)) \<Longrightarrow> (\<not> c \<Longrightarrow> sets_up S s (obs, y)) \<Longrightarrow> sets_up S s (obs, if c then x else y)"
  by simp

lemmas up_steps = up_mask up_speed up_configured up_if up_applied up_ps_ready up_pl_ready up_quiet

lemma ps_setup_result:
  assumes "ps_setup request i (obs, h) = Some t" and "i < 2"
  shows "\<exists>S. sets_up S (obs, h) t"
proof -
  consider (skip) "t = (obs, h)"
    | (init) ok h1 where "\<not> bit (enabled (link_state h)) i" "phy_init i (ucast (ps_advertise request ! i)) h = Some (ok, h1)"
      "t = (obs AND NOT (port_bit i), set_speed i 0 (set_configured i 0
         (if ok then set_applied i (ps_advertise request ! i) (h1\<lparr>ps_ready := (ps_ready h1)[i := ok]\<rparr>)
          else h1\<lparr>ps_ready := (ps_ready h1)[i := ok]\<rparr>)))"
    | (rate) h1 v where "\<not> bit (enabled (link_state h)) i" "quietly (touches [i]) h h1" "t = (obs, set_configured i v h1)"
  proof (cases "bit (enabled (link_state h)) i")
    case True
    then show ?thesis using assms(1) skip by (simp add: ps_setup_def and_port_bit)
  next
    case off: False
    show ?thesis
    proof (cases "\<not> ps_ready h ! i \<or> ps_applied (ports h) ! i \<noteq> ps_advertise request ! i")
      case True
      then have "Some t = (case phy_init i (ucast (ps_advertise request ! i)) h of None \<Rightarrow> None | Some (ok, h) \<Rightarrow>
          Some (obs AND NOT (port_bit i), set_speed i 0 (set_configured i 0
            (if ok then set_applied i (ps_advertise request ! i) (h\<lparr>ps_ready := (ps_ready h)[i := ok]\<rparr>)
             else h\<lparr>ps_ready := (ps_ready h)[i := ok]\<rparr>))))"
        using assms(1) off unfolding ps_setup_def Let_def by (simp add: and_port_bit)
      then show ?thesis using init [OF off] by (cases "phy_init i (ucast (ps_advertise request ! i)) h") auto
    next
      case False
      let ?v = "ps_speed_mbps (ports h) ! i" and ?c = "0xff5e0050 + word_of_nat i * 4"
      have own: "touches [i] (Wr (gem_base i + 4) w)" "i \<noteq> 0 \<Longrightarrow> touches [i] (Wr ?c w)" for w
        using less_2_cases [OF assms(2)] by (auto simp: touches_Wr owner_def mode_reg_def gem_base_def)
      have q1: "quietly (touches [i]) h (if i \<noteq> 0 then mmio_write ?c w (snd (mmio_read ?c h)) else h)" for w
        by (intro quiet_steps own quietly_refl) simp_all
      have q: "quietly (touches [i]) h (mmio_write (gem_base i + 4) w' (snd (mmio_read (gem_base i + 4)
          (if i \<noteq> 0 then mmio_write ?c w (snd (mmio_read ?c h)) else h))))" for w w'
        by (intro quietly_write quietly_read q1 own) simp_all
      show ?thesis
        using assms(1) off False skip rate [OF off quietly_refl] rate [OF off q]
        by (auto simp: ps_setup_def and_port_bit Let_def case_prod_beta split: if_splits)
    qed
  qed
  then show ?thesis
  proof cases
    case skip
    then show ?thesis using sets_up_refl by blast
  next
    case init
    have "quietly_opt (touches [i]) h (phy_init i (ucast (ps_advertise request ! i)) h)"
      by (intro phy_init_quiet quietly_refl assms(2)) simp
    then have q: "quietly (touches [i]) h h1" by (simp add: init(2) quietly_opt_def)
    have "sets_up [i] (obs, h) t"
      unfolding init(3) by (intro up_steps q) (use init(1) assms(2) in simp_all)
    then show ?thesis by blast
  next
    case rate
    have "sets_up [i] (obs, h) t"
      unfolding rate(3) by (intro up_steps rate(2)) (use rate(1) assms(2) in simp_all)
    then show ?thesis by blast
  qed
qed

lemma pl_setup_result:
  assumes "pl_setup request i (obs, h) = Some t" and "i < 2"
  shows "\<exists>S. sets_up S (obs, h) t"
proof (cases "bit (enabled (link_state h)) (i + 2)")
  case True
  then have "t = (obs, h)" using assms(1) by (simp add: pl_setup_def and_port_bit del: add_2_eq_Suc')
  then show ?thesis using sets_up_refl by blast
next
  case off: False
  have up: "\<forall>p\<in>set [i + 2]. p < 5 \<and> \<not> bit (enabled (link_state h)) p" using off assms(2) by simp
  show ?thesis
  proof (cases "\<not> pl_ready h ! i \<or> ps_applied (ports h) ! (i + 2) \<noteq> ps_advertise request ! (i + 2)")
    case True
    let ?r = "pl_advertise i (ucast (ps_advertise request ! (i + 2))) h"
    have "quietly_opt (touches [i + 2]) h ?r"
      by (intro pl_advertise_quiet quietly_refl assms(2)) simp
    moreover have "Some t = (case ?r of None \<Rightarrow> None | Some (ok, h) \<Rightarrow>
        Some (obs AND NOT (port_bit (i + 2)), set_speed (i + 2) 0 (set_configured (i + 2) 0
          (if ok then set_applied (i + 2) (ps_advertise request ! (i + 2)) (h\<lparr>pl_ready := (pl_ready h)[i := ok]\<rparr>)
           else h\<lparr>pl_ready := (pl_ready h)[i := ok]\<rparr>))))"
      using assms(1) off True unfolding pl_setup_def Let_def by (simp add: and_port_bit del: add_2_eq_Suc')
    ultimately obtain ok h1 where q: "quietly (touches [i + 2]) h h1" and
      t: "t = (obs AND NOT (port_bit (i + 2)), set_speed (i + 2) 0 (set_configured (i + 2) 0
          (if ok then set_applied (i + 2) (ps_advertise request ! (i + 2)) (h1\<lparr>pl_ready := (pl_ready h1)[i := ok]\<rparr>)
           else h1\<lparr>pl_ready := (pl_ready h1)[i := ok]\<rparr>)))"
      by (cases ?r) (auto simp: quietly_opt_def)
    have "sets_up [i + 2] (obs, h) t" unfolding t by (intro up_steps q up) simp_all
    then show ?thesis by blast
  next
    case False
    have "quietly (touches [i + 2]) h (mmio_write (pl_mac i + 0x41c) v h)" for v
      by (intro quietly_write quietly_refl pl_mac_touches assms(2)) simp
    then have "sets_up [i + 2] (obs, h) (obs, set_configured (i + 2) w (mmio_write (pl_mac i + 0x41c) v h))" for v w
      by (intro up_steps up) simp_all
    then show ?thesis
      using assms(1) off False sets_up_refl [of "(obs, h)"] unfolding pl_setup_def Let_def
      by (auto simp: and_port_bit simp del: add_2_eq_Suc' split: if_splits)
  qed
qed

text \<open>The two set-up loops and the rate switch, from the state after the decision.\<close>

lemma both_ports:
  fixes f :: "nat \<Rightarrow> _"
  assumes "Option.bind (f 0 s) (f 1) = Some t"
    and "\<And>i s t. f i s = Some t \<Longrightarrow> i < 2 \<Longrightarrow> \<exists>S. sets_up S s t"
  shows "\<exists>S. sets_up S s t"
proof -
  obtain u where "f 0 s = Some u" "f 1 u = Some t" using assms(1) by (auto simp: bind_eq_Some_conv)
  then obtain S T where "sets_up S s u" "sets_up T u t" using assms(2) [of 0 s u] assms(2) [of 1 u t] by auto
  then show ?thesis using sets_up_trans by blast
qed

lemma setup_ports_result:
  assumes "setup_ports request busy now s = Some t"
  shows "\<exists>S. sets_up S s t"
proof -
  have ps: "\<exists>S. sets_up S s t" if "Option.bind (ps_setup request 0 s) (ps_setup request 1) = Some t" for s t
    by (rule both_ports [OF that]) (metis ps_setup_result surj_pair)
  have pl: "\<exists>S. sets_up S s t" if "Option.bind (pl_setup request 0 s) (pl_setup request 1) = Some t" for s t
    by (rule both_ports [OF that]) (metis pl_setup_result surj_pair)
  let ?r = "if settled busy now (snd s) then Option.bind (ps_setup request 0 s) (ps_setup request 1) else Some s"
  obtain u where u: "?r = Some u"
    "(if settled busy now (snd u) then Option.bind (pl_setup request 0 u) (pl_setup request 1) else Some u) = Some t"
    using assms unfolding setup_ports_def by (cases ?r) simp_all
  have "\<exists>S. sets_up S s u"
  proof (cases "settled busy now (snd s)")
    case True
    then show ?thesis by (intro ps) (use u(1) in simp)
  qed (use u(1) sets_up_refl in \<open>simp, blast\<close>)
  moreover have "\<exists>T. sets_up T u t"
  proof (cases "settled busy now (snd u)")
    case True
    then show ?thesis by (intro pl) (use u(2) in simp)
  qed (use u(2) sets_up_refl in \<open>simp, blast\<close>)
  ultimately show ?thesis using sets_up_trans by blast
qed

lemma sfp_switch_result: "\<exists>S. sets_up S s (sfp_switch busy now s)"
proof (cases "sfp_pending (snd s) \<and> \<not> bit (enabled (link_state (snd s))) 4 \<and> settled busy now (snd s)")
  case True
  obtain obs h where s: "s = (obs, h)" by fastforce
  have ten: "(0x10 :: u8) = port_bit 4" by (simp add: port_bit_def)
  let ?h = "mmio_write (SFP_BASE + 0x4e0) (if sfp_target h = 10000 then 1 else 0) h"
  have "sets_up [4] (obs, h) (obs, ?h)"
    by (intro up_quiet quietly_write quietly_refl) (use True s in \<open>simp_all add: touches_Wr owner_def mode_reg_def\<close>)
  then have "sets_up [4] (obs, h) (obs, ?h\<lparr>sfp_pending := False, sfp_probe_ms := now\<rparr>)"
    by (rule upI [where i = 4]) (simp_all add: poll_step_def port_view_def)
  then have "sets_up [4] (obs, h) (obs AND NOT (port_bit 4), set_speed 4 0 (?h\<lparr>sfp_pending := False, sfp_probe_ms := now\<rparr>))"
    by (intro up_mask up_speed) simp_all
  moreover have "sfp_switch busy now s =
      (obs AND NOT (port_bit 4), set_speed 4 0 (?h\<lparr>sfp_pending := False, sfp_probe_ms := now\<rparr>))"
    using True by (simp add: sfp_switch_def s Let_def and_0x10 flip: ten)
  ultimately show ?thesis using s by auto
next
  case False
  then have "sfp_switch busy now s = s" by (auto simp: sfp_switch_def and_0x10 split: prod.splits)
  then show ?thesis using sets_up_refl by metis
qed

end
