(* ===== verification/Settings.thy ===== *)
theory Settings
  imports Links_Steps Settings_Media
begin

text \<open>
  The settings owner, \<^verbatim>\<open>software/r5/src/settings.c\<close>: loading at start-up, the snapshot other tasks take, and saving. It
  ties the configuration store on the removable medium to the port configuration of the link
  manager, and closes the data plane at start-up when the spanning tree is enabled (\<open>stp_prepare\<close> of
  \<^verbatim>\<open>software/r5/src/stp_task.c\<close>). The medium and the store extend the world; FatFs stays the parameter of \<open>Settings_Media\<close>.
  Console messages are left out.
\<close>

section \<open>State and operations\<close>

record 'v settings = links +
  sd :: "'v media"
  store :: config_store

definition stp_prepare :: "bool \<Rightarrow> 'a pstate_scheme \<Rightarrow> 'a pstate_scheme" where
  "stp_prepare enable h =
     (let h = (if enable then case pstate_stp_supported h of (ok, h) \<Rightarrow> if ok then h else pstate_latch_fault h else h)
      in if enable then pstate_learn_clear 0x1f (pstate_fwd_clear 0x1f h) else h)"

definition effective_mask :: "switch_config \<Rightarrow> 'a hw_scheme \<Rightarrow> u8 \<times> 'a hw_scheme" where
  "effective_mask c h =
     (let capability = (if cfg_sfp_speed c = 1000 then 1 else if cfg_sfp_speed c = 10000 then 2 else 0) in
      if cfg_sfp_speed c = 0 then (cfg_admin c, h)
      else case board_sfp_capabilities h of (caps, h) \<Rightarrow>
        (if caps AND capability = 0 then cfg_admin c AND NOT 0x10 else cfg_admin c, h))"

text \<open>The two calls that hand the port settings to the link manager.\<close>

definition apply_ports :: "switch_config \<Rightarrow> 'a links_scheme \<Rightarrow> bool \<times> 'a links_scheme" where
  "apply_ports c h =
     (let h = board_sfp_configure (ucast (cfg_sfp_speed c)) h; (admin, h) = effective_mask c h
      in board_ports_configure admin (Some (cfg_advertise c)) h)"

definition defaults_store :: config_store where
  "defaults_store = \<lparr>st_value = config_defaults, st_sequence = 0, st_slot = -1, st_writable = False, st_saved = False\<rparr>"

text \<open>\<open>recovery\<close> is the build option \<open>CONFIG_RECOVERY\<close>.\<close>

definition settings_init :: "('v, 'f) fatfs \<Rightarrow> bool \<Rightarrow> ('v, 'a) settings_scheme \<Rightarrow> ('v, 'a) settings_scheme" where
  "settings_init fs recovery h =
     (let (present, m) = settings_media_present fs (sd h);
          (s, m) = (if present then case config_load (settings_media_io fs) m of (_, s, m) \<Rightarrow> (s, m) else (defaults_store, m));
          s = (if recovery then s\<lparr>st_value := config_defaults, st_saved := False\<rparr> else s);
          h = stp_prepare (cfg_stp_enabled (st_value s)) (h\<lparr>sd := m, store := s\<rparr>)
      in snd (apply_ports (st_value s) h))"

text \<open>The result is the configuration, whether it was saved, and, if asked for, whether it can be.\<close>

definition settings_get :: "('v, 'f) fatfs \<Rightarrow> bool \<Rightarrow> ('v, 'a) settings_scheme \<Rightarrow>
    (switch_config \<times> bool \<times> bool) \<times> ('v, 'a) settings_scheme" where
  "settings_get fs ask h =
     (let (available, m) =
          (if \<not> ask then (False, sd h)
           else case settings_media_present fs (sd h) of (present, m) \<Rightarrow>
             if \<not> present then (False, m)
             else case config_load (settings_media_io fs) m of (_, s, m) \<Rightarrow> (st_writable s, m))
      in ((st_value (store h), st_saved (store h), available), h\<lparr>sd := m\<rparr>))"

definition settings_save :: "('v, 'f) fatfs \<Rightarrow> switch_config \<Rightarrow> ('v, 'a) settings_scheme \<Rightarrow> bool \<times> ('v, 'a) settings_scheme" where
  "settings_save fs c h =
     (let (ok, h) = (if cfg_stp_enabled c then pstate_stp_supported h else (True, h)) in
      if \<not> ok then (False, h)
      else case settings_media_present fs (sd h) of (present, m) \<Rightarrow>
        if \<not> present then (False, h\<lparr>sd := m\<rparr>)
        else case config_load (settings_media_io fs) m of (_, nxt, m) \<Rightarrow>
        case config_save (settings_media_io fs) nxt c m of (ok, nxt, m) \<Rightarrow>
          if \<not> ok then (False, h\<lparr>sd := m\<rparr>)
          else apply_ports c (h\<lparr>sd := m, store := nxt\<rparr>))"

section \<open>Applying the port settings\<close>

lemma effective_mask_cases: "\<exists>h'. effective_mask c h = (cfg_admin c, h') \<or> effective_mask c h = (cfg_admin c AND NOT 0x10, h')"
  by (cases "board_sfp_capabilities h") (auto simp: effective_mask_def Let_def)

lemma effective_mask_more: "hw.more (snd (effective_mask c h)) = hw.more h"
  by (simp add: effective_mask_def Let_def case_prod_beta board_sfp_capabilities_def mmio_read_def sense_def emit_def)

lemma more_settings:
  fixes g h :: "('v, 'a) settings_scheme"
  assumes "hw.more h = hw.more g"
  shows "ports h = ports g" "sd h = sd g" "store h = store g"
  using assms by (cases g, cases h, simp)+

lemma narrow_again: "ucast (ucast w :: u32) = w" for w :: u16
  by (rule bit_eqI) (auto simp: bit_simps dest: bit_imp_le_length)

lemma valid_ports:
  assumes "config_valid c"
  shows "\<not> 31 < cfg_admin c" "\<not> 31 < cfg_admin c AND NOT 0x10"
    "cfg_advertise c ! 0 = 4 \<and> cfg_advertise c ! 1 \<noteq> 0 \<and> \<not> 7 < cfg_advertise c ! 1 \<and> cfg_advertise c ! 2 \<noteq> 0 \<and>
     \<not> 7 < cfg_advertise c ! 2 \<and> cfg_advertise c ! 3 \<noteq> 0 \<and> \<not> 7 < cfg_advertise c ! 3"
proof -
  show admin: "\<not> 31 < cfg_admin c" using assms by (auto simp: config_valid_def split: if_splits)
  have "cfg_admin c AND NOT 0x10 \<le> cfg_admin c" by (rule word_and_le2)
  then show "\<not> 31 < cfg_admin c AND NOT 0x10" using admin by (meson dual_order.strict_trans1 linorder_not_less)
  have three: "[1..<4] = [1, 2, 3 :: nat]" by code_simp
  show "cfg_advertise c ! 0 = 4 \<and> cfg_advertise c ! 1 \<noteq> 0 \<and> \<not> 7 < cfg_advertise c ! 1 \<and> cfg_advertise c ! 2 \<noteq> 0 \<and>
     \<not> 7 < cfg_advertise c ! 2 \<and> cfg_advertise c ! 3 \<noteq> 0 \<and> \<not> 7 < cfg_advertise c ! 3"
    using assms unfolding config_valid_def three by (simp split: if_splits)
qed

lemma apply_ports_valid:
  fixes h :: "('v, 'a) settings_scheme"
  assumes "config_valid c" and "length (cfg_advertise c) = 4"
  shows "\<exists>h'. apply_ports c h = (True, h') \<and> sd h' = sd h \<and> store h' = store h \<and>
    ps_advertise (ports h') = cfg_advertise c \<and> ps_sfp_requested (ports h') = cfg_sfp_speed c \<and>
    ps_admin (ports h') \<in> {cfg_admin c, cfg_admin c AND NOT 0x10}"
proof -
  let ?h = "board_sfp_configure (ucast (cfg_sfp_speed c)) h"
  obtain m g where e: "effective_mask c ?h = (m, g)" and m: "m = cfg_admin c \<or> m = cfg_admin c AND NOT 0x10"
    using effective_mask_cases [of c ?h] by blast
  have "hw.more g = hw.more ?h" using effective_mask_more [of c ?h] e by simp
  note same = more_settings [OF this]
  have "\<not> PHYSICAL_PORT_MASK < m" using m valid_ports(1,2) [OF assms(1)] by auto
  then have "apply_ports c h = (True, g\<lparr>ports := (ports g)\<lparr>ps_advertise := cfg_advertise c, ps_admin := m\<rparr>\<rparr>)"
    using valid_ports(3) [OF assms(1)] assms(2)
    by (simp add: apply_ports_def e board_ports_configure_def)
  moreover have "ps_sfp_requested (ports g) = cfg_sfp_speed c" by (simp add: same board_sfp_configure_def narrow_again)
  ultimately show ?thesis using same m by (auto simp: board_sfp_configure_def)
qed

lemma prepare_fields:
  fixes h :: "('v, 'a) settings_scheme"
  shows "sd (stp_prepare e h) = sd h" "store (stp_prepare e h) = store h"
proof -
  have sp: "sd (clear_and_flush reg m g) = sd g" "store (clear_and_flush reg m g) = store g"
    for reg m and g :: "('v, 'a) settings_scheme"
    using clear_more [of reg m g] by (cases g, cases "clear_and_flush reg m g", simp)+
  show "sd (stp_prepare e h) = sd h" "store (stp_prepare e h) = store h"
    by (simp_all add: stp_prepare_def Let_def pstate_learn_clear_def pstate_fwd_clear_def sp case_prod_beta
        pstate_stp_supported_def pstate_latch_fault_def hw_defs)
qed

section \<open>Saving\<close>

lemma writable_readable:
  assumes "config_load io m = (b, s, m')" and "st_writable s"
  shows "slots_readable io m"
proof -
  have keep: "st_writable (load_record s i r) \<Longrightarrow> st_writable s" for s i r
    by (auto simp: load_record_def Let_def split: option.splits if_splits)
  show ?thesis
    using assms by (auto simp: config_load_def load_slot_def slots_readable_def dest!: keep split: prod.splits option.splits)
qed

lemma settings_save_True:
  assumes "settings_save fs c h = (True, h')"
  obtains m b s m1 s' m2 g where "settings_media_present fs (sd h) = (True, m)" "config_load (settings_media_io fs) m = (b, s, m1)"
    "config_save (settings_media_io fs) s c m1 = (True, s', m2)" "apply_ports c (g\<lparr>sd := m2, store := s'\<rparr>) = (True, h')"
proof -
  obtain ok g where k: "(if cfg_stp_enabled c then pstate_stp_supported h else (True, h)) = (ok, g)" by fastforce
  have "sd g = sd h" using k by (auto simp: pstate_stp_supported_def hw_defs split: if_splits)
  then show thesis
    using assms that k by (auto simp: settings_save_def Let_def split: prod.splits if_splits)
qed

context fat_volume
begin

lemma saved_reloads:
  assumes "config_load (settings_media_io fs) m = (b0, s0, m0)"
    and "config_save (settings_media_io fs) s0 c m0 = (True, s1, m1)" and "cfg_wf c"
    and "card (volume m2) = card (volume m1)" and "slots_readable (settings_media_io fs) m2"
    and "config_load (settings_media_io fs) m2 = (b2, s2, m3)"
  shows "st_value s2 = c \<and> st_saved s2"
proof -
  have "st_writable s0" using assms(2) by (auto simp: config_save_def split: if_splits)
  then have "slots_readable (settings_media_io fs) m" by (rule writable_readable [OF assms(1)])
  from slots.atomic_save [OF assms(1) this assms(2,3) slot_content_eq [OF assms(4)] assms(6,5)] show ?thesis by simp
qed

end

lemma config_save_valid: "config_save io s c m = (True, s', m') \<Longrightarrow> config_valid c"
  by (auto simp: config_save_def split: if_splits)

lemma mask_copper: "(a AND NOT 0x10) AND 0xf = a AND 0xf" for a :: u8
  by (simp add: and.assoc)

text \<open>C9: Saved settings survive a restart. If saving reports success and the card afterwards holds what it held then (power
  may be lost at any later time), then start-up with that card, when both files can be read, loads exactly the saved
  configuration and hands its advertisements, its SFP rate and its copper port enables to the link manager.\<close>
theorem settings_survive_restart:
  assumes "fat_volume fs durable opened writing creating" and "settings_save fs c h = (True, h1)" and "cfg_wf c"
    and "durable (volume (sd h2)) = durable (volume (sd h1))" and "settings_media_present fs (sd h2) = (True, m)"
    and "slots_readable (settings_media_io fs) m"
  shows "st_value (store (settings_init fs False h2)) = c \<and> st_saved (store (settings_init fs False h2)) \<and>
    ps_advertise (ports (settings_init fs False h2)) = cfg_advertise c \<and>
    ps_sfp_requested (ports (settings_init fs False h2)) = cfg_sfp_speed c \<and>
    ps_admin (ports (settings_init fs False h2)) AND 0xf = cfg_admin c AND 0xf"
proof -
  obtain m' b s m1 s' m2 g where save: "config_load (settings_media_io fs) m' = (b, s, m1)"
    "config_save (settings_media_io fs) s c m1 = (True, s', m2)" "apply_ports c (g\<lparr>sd := m2, store := s'\<rparr>) = (True, h1)"
    using settings_save_True [OF assms(2)] by metis
  have valid: "config_valid c" "length (cfg_advertise c) = 4"
    using config_save_valid [OF save(2)] assms(3) by (simp_all add: cfg_wf_def)
  have "sd h1 = m2" using apply_ports_valid [OF valid, of "g\<lparr>sd := m2, store := s'\<rparr>"] save(3) by auto
  then have card: "durable (volume m) = durable (volume m2)"
    using assms(4) fat_volume.media_present_card [OF assms(1,5)] by simp
  obtain b2 s2 m3 where load: "config_load (settings_media_io fs) m = (b2, s2, m3)" by (metis prod.exhaust)
  have new: "st_value s2 = c \<and> st_saved s2"
    by (rule fat_volume.saved_reloads [OF assms(1) save(1,2) assms(3) card assms(6) load])
  let ?h = "stp_prepare (cfg_stp_enabled c) (h2\<lparr>sd := m3, store := s2\<rparr>)"
  have run: "settings_init fs False h2 = snd (apply_ports c ?h)"
    using new by (simp add: settings_init_def assms(5) load Let_def)
  have "store ?h = s2" by (simp add: prepare_fields)
  then show ?thesis
    using apply_ports_valid [OF valid, of ?h] new mask_copper [of "cfg_admin c"] unfolding run by auto
qed

section \<open>Examples\<close>

definition sample_settings :: "ram media \<Rightarrow> ram settings" where
  "sample_settings m = \<lparr>hw_input = (\<lambda>n p. 0),
     hw_count = 0, hw_log = [], stamp_last = 0, stamp_high = 0, stamp_hz = 1, control_failed = False,
     dma_ready = True, dma_failed = False, tx_lock = True, tx_done_made = True, tx_done = False, rx_index = 0, tx_index = 0,
     rx_bd = [], tx_bd = [], tx_data = [], rx_fill = (\<lambda>n i. []), irqs = (\<lambda>n. []), rx_base = 0, tx_base = 0,
     rx_data_base = 0, tx_data_base = 0,
     counters = \<lparr>c_tx_irq = 0, c_rx_irq = 0, c_error_irq = 0, c_tx_completed = 0, c_rx_consumed = 0, c_rx_dropped = 0,
       c_tx_timeouts = 0\<rparr>, last_tag_valid = False, last_tag_port = 0,
     sfp_probe_ms = 0, sfp_applied_request = 0, sfp_target = 10000, sfp_pending = False,
     ps_ready = [False, False], pl_ready = [False, False],
     ports = initial_ports, configured_speed = [0, 0, 0, 0],
     link_state = \<lparr>enabled = 0, last_clear_ms = 0\<rparr>, sd = m, store = defaults_store\<rparr>"

lemma healthy_load: "config_load (settings_media_io ram_fs) (ram_media [] []) = (False, empty_store, ram_media [] [])"
proof -
  have "settings_media_read ram_fs (ram_media [] []) slot 0 256 = (Some (replicate 256 255), ram_media [] [])" if "slot < 2" for slot
    using that by (simp add: settings_media_read_def ram_eval)
  then show ?thesis
    by (simp add: config_load_def load_slot_def settings_media_io_def blank_record) (simp add: empty_store_def)
qed

lemma healthy_save:
  "\<exists>s' fl. config_save (settings_media_io ram_fs) empty_store example_static (ram_media [] []) = (True, s', ram_media ((slot_name 0, config_encode example_static 1) # fl) []) \<and>
     map_of fl (slot_name 1) = None"
  using length_config_encode [of example_static 1]
  by (simp add: config_save_def settings_media_io_def settings_media_truncate_def settings_media_read_def read_file_def
      settings_media_write_def write_file_def media_failed_def ram_eval empty_store_def length_peek
      poke_def peek_def Let_def)

theorem settings_survive_restart_witness:
  "\<exists>m. settings_media_present ram_fs m = (True, m) \<and>
     st_value (store (settings_init ram_fs False (sample_settings m))) = example_static"
proof -
  obtain s' fl where save: "config_save (settings_media_io ram_fs) empty_store example_static (ram_media [] []) =
      (True, s', ram_media ((slot_name 0, config_encode example_static 1) # fl) [])" and fl: "map_of fl (slot_name 1) = None"
    using healthy_save by blast
  let ?m = "ram_media ((slot_name 0, config_encode example_static 1) # fl) []"
  have present: "settings_media_present ram_fs (ram_media g []) = (True, ram_media g [])" for g
    by (simp add: settings_media_present_def ram_eval)
  let ?w = "(sample_settings (ram_media [] []))\<lparr>sd := ?m, store := s'\<rparr>"
  obtain h1 where ap: "apply_ports example_static ?w = (True, h1)" "sd h1 = ?m"
    using apply_ports_valid [of example_static ?w] example_static_wf by (auto simp: cfg_wf_def)
  have "\<not> cfg_stp_enabled example_static" by (simp add: example_static_def config_defaults_def)
  then have run: "settings_save ram_fs example_static (sample_settings (ram_media [] [])) = (True, h1)"
    using ap(1) present [of "[]"] by (simp add: settings_save_def sample_settings_def healthy_load save Let_def)
  have readable: "slots_readable (settings_media_io ram_fs) ?m"
    by (rule example_reload) (simp, rule fl)
  have "st_value (store (settings_init ram_fs False (sample_settings ?m))) = example_static"
    using settings_survive_restart [OF ram.fat_volume_axioms run _ _ _ readable, of "sample_settings ?m"] present ap(2)
    by (simp add: sample_settings_def)
  then show ?thesis using present by blast
qed

end
