(* ===== verification/Stp.thy ===== *)
theory Stp
  imports Prelude
begin

text \<open>
  The spanning tree adapter, \<^verbatim>\<open>software/r5/src/stp.c\<close> and \<^verbatim>\<open>software/r5/include/stp.h\<close>, between the protocol engine
  mstp-lib and the task that owns the hardware. The engine is a parameter: a record of its entry points, each of which
  returns the new engine and the callbacks it makes, in order. The operations the adapter is given
  (\<open>struct stp_ops\<close>) act on a world of any type and may fail to return (\<open>None\<close>).
\<close>

section \<open>Status\<close>

abbreviation STP_NUM_PORTS :: nat where "STP_NUM_PORTS \<equiv> 5"
abbreviation STP_ROOT_NONE :: u8 where "STP_ROOT_NONE \<equiv> 0xff"

record stp_bridge_id =
  id_priority :: u16
  id_mac :: bytes

record stp_port_status =
  sp_state :: u8
  sp_role :: u8
  sp_link_up :: bool
  sp_path_cost :: u32
  sp_bpdu_rx :: u32
  sp_bpdu_tx :: u32
  sp_role_changes :: u32

record stp_status =
  ss_enabled :: bool
  ss_version :: u8
  ss_fault :: bool
  ss_bridge_id :: stp_bridge_id
  ss_root_id :: stp_bridge_id
  ss_root_path_cost :: u32
  ss_root_port :: u8
  ss_is_root :: bool
  ss_topology_change_count :: u32
  ss_tcn_rx :: u32
  ss_rx_dropped :: u32
  ss_tx_failed :: u32
  ss_port :: "stp_port_status list"

definition zero_port :: stp_port_status where
  "zero_port = \<lparr>sp_state = 0, sp_role = 0, sp_link_up = False, sp_path_cost = 0, sp_bpdu_rx = 0, sp_bpdu_tx = 0, sp_role_changes = 0\<rparr>"

definition zero_status :: stp_status where
  "zero_status = \<lparr>ss_enabled = False, ss_version = 0, ss_fault = False, ss_bridge_id = \<lparr>id_priority = 0, id_mac = replicate 6 0\<rparr>,
     ss_root_id = \<lparr>id_priority = 0, id_mac = replicate 6 0\<rparr>, ss_root_path_cost = 0, ss_root_port = 0, ss_is_root = False,
     ss_topology_change_count = 0, ss_tcn_rx = 0, ss_rx_dropped = 0, ss_tx_failed = 0, ss_port = replicate STP_NUM_PORTS zero_port\<rparr>"

section \<open>The engine\<close>

datatype callback =
    Learning nat bool
  | Forwarding nat bool
  | Tx nat bytes
  | Flush nat bool
  | Changed
  | Role nat

datatype stp_port_role = Role_Undefined | Role_Disabled | Role_Root | Role_Designated | Role_Alternate | Role_Backup | Role_Master

record 'e mstp =
  e_create :: "bytes \<Rightarrow> 'e option"
  e_version :: "u8 \<Rightarrow> 'e \<Rightarrow> 'e \<times> callback list"
  e_auto_edge :: "nat \<Rightarrow> bool \<Rightarrow> 'e \<Rightarrow> 'e \<times> callback list"
  e_start :: "'e \<Rightarrow> 'e \<times> callback list"
  e_stop :: "'e \<Rightarrow> 'e \<times> callback list"
  e_port_enabled :: "'e \<Rightarrow> nat \<Rightarrow> bool"
  e_enabled :: "nat \<Rightarrow> u16 \<Rightarrow> u32 \<Rightarrow> 'e \<Rightarrow> 'e \<times> callback list"
  e_disabled :: "nat \<Rightarrow> u32 \<Rightarrow> 'e \<Rightarrow> 'e \<times> callback list"
  e_tick :: "u32 \<Rightarrow> 'e \<Rightarrow> 'e \<times> callback list"
  e_bpdu :: "nat \<Rightarrow> bytes \<Rightarrow> u32 \<Rightarrow> 'e \<Rightarrow> 'e \<times> callback list"
  e_root_vector :: "'e \<Rightarrow> bytes"
  e_is_root :: "'e \<Rightarrow> bool"
  e_port_role :: "'e \<Rightarrow> nat \<Rightarrow> stp_port_role"
  e_path_cost :: "'e \<Rightarrow> nat \<Rightarrow> u32"

record 'w stp_ops =
  op_state :: "nat \<Rightarrow> bool \<Rightarrow> bool \<Rightarrow> 'w \<Rightarrow> 'w"
  op_flush :: "nat \<Rightarrow> bool \<Rightarrow> 'w \<Rightarrow> 'w"
  op_transmit :: "nat \<Rightarrow> bytes \<Rightarrow> 'w \<Rightarrow> (bool \<times> 'w) option"

section \<open>The adapter\<close>

record 'e stp_bridge =
  sb_engine :: 'e
  sb_status :: stp_status
  sb_learning :: "bool list"
  sb_forwarding :: "bool list"

abbreviation on_status :: "(stp_status \<Rightarrow> stp_status) \<Rightarrow> 'e stp_bridge \<Rightarrow> 'e stp_bridge" where
  "on_status f b \<equiv> b\<lparr>sb_status := f (sb_status b)\<rparr>"

definition on_port :: "nat \<Rightarrow> (stp_port_status \<Rightarrow> stp_port_status) \<Rightarrow> stp_status \<Rightarrow> stp_status" where
  "on_port p f s = s\<lparr>ss_port := (ss_port s)[p := f (ss_port s ! p)]\<rparr>"

definition bpdu_destination :: bytes where
  "bpdu_destination = [0x01, 0x80, 0xc2, 0, 0, 0]"

text \<open>\<open>tx_get\<close> with the payload the engine writes into the buffer: the frame, or \<open>None\<close> when it does not fit.\<close>

definition tx_get :: "bytes \<Rightarrow> bytes \<Rightarrow> bytes option" where
  "tx_get source payload =
     (let n = length payload in
      if 1514 - 17 < n then None
      else Some (bpdu_destination @ source @ [word_of_nat ((n + 3) div 256), word_of_nat (n + 3)] @ [0x42, 0x42, 3] @ payload))"

definition tx_release :: "'w stp_ops \<Rightarrow> nat \<Rightarrow> bytes \<Rightarrow> 'e stp_bridge \<times> 'w \<Rightarrow> ('e stp_bridge \<times> 'w) option" where
  "tx_release ops p frame bw =
     (case bw of (b, w) \<Rightarrow>
      map_option (\<lambda>(ok, w). (on_status (\<lambda>s. if ok then on_port p (\<lambda>q. q\<lparr>sp_bpdu_tx := sp_bpdu_tx q + 1\<rparr>) s
                                             else s\<lparr>ss_tx_failed := ss_tx_failed s + 1\<rparr>) b, w))
        (op_transmit ops p frame w))"

fun run_callback :: "'w stp_ops \<Rightarrow> callback \<Rightarrow> 'e stp_bridge \<times> 'w \<Rightarrow> ('e stp_bridge \<times> 'w) option" where
  "run_callback ops (Learning p enable) (b, w) =
     (let b = b\<lparr>sb_learning := (sb_learning b)[p := enable]\<rparr> in Some (b, op_state ops p enable (sb_forwarding b ! p) w))"
| "run_callback ops (Forwarding p enable) (b, w) =
     (let b = b\<lparr>sb_forwarding := (sb_forwarding b)[p := enable]\<rparr> in Some (b, op_state ops p (sb_learning b ! p) enable w))"
| "run_callback ops (Tx p payload) (b, w) =
     (case tx_get (id_mac (ss_bridge_id (sb_status b))) payload of
        None \<Rightarrow> Some (b, w) | Some frame \<Rightarrow> tx_release ops p frame (b, w))"
| "run_callback ops (Flush p rapid) (b, w) = Some (b, op_flush ops p rapid w)"
| "run_callback ops Changed (b, w) =
     Some (on_status (\<lambda>s. s\<lparr>ss_topology_change_count := ss_topology_change_count s + 1\<rparr>) b, w)"
| "run_callback ops (Role p) (b, w) =
     Some (on_status (on_port p (\<lambda>q. q\<lparr>sp_role_changes := sp_role_changes q + 1\<rparr>)) b, w)"

fun run_callbacks :: "'w stp_ops \<Rightarrow> callback list \<Rightarrow> 'e stp_bridge \<times> 'w \<Rightarrow> ('e stp_bridge \<times> 'w) option" where
  "run_callbacks ops [] bw = Some bw"
| "run_callbacks ops (c # cs) bw = Option.bind (run_callback ops c bw) (run_callbacks ops cs)"

text \<open>A call into the engine: its new state, then its callbacks.\<close>

definition enter :: "'w stp_ops \<Rightarrow> ('e \<Rightarrow> 'e \<times> callback list) \<Rightarrow> 'e stp_bridge \<times> 'w \<Rightarrow> ('e stp_bridge \<times> 'w) option" where
  "enter ops f bw = (case bw of (b, w) \<Rightarrow> case f (sb_engine b) of (e, cs) \<Rightarrow> run_callbacks ops cs (b\<lparr>sb_engine := e\<rparr>, w))"

text \<open>Creation: \<open>None\<close> when the engine does not return; the inner option is the pointer.\<close>

definition stp_create :: "'e mstp \<Rightarrow> bytes \<Rightarrow> u8 \<Rightarrow> 'w stp_ops \<Rightarrow> 'w \<Rightarrow> ('e stp_bridge option \<times> 'w) option" where
  "stp_create eng mac version ops w =
     (if version \<noteq> 0 \<and> version \<noteq> 2 then Some (None, w)
      else case e_create eng mac of
        None \<Rightarrow> Some (None, w)
      | Some e \<Rightarrow>
          let s = zero_status\<lparr>ss_enabled := True, ss_version := version, ss_bridge_id := \<lparr>id_priority = 32768, id_mac = mac\<rparr>\<rparr>;
              b = \<lparr>sb_engine = e, sb_status = s, sb_learning = replicate STP_NUM_PORTS False,
                   sb_forwarding = replicate STP_NUM_PORTS False\<rparr>
          in map_option (\<lambda>(b, w). (Some b, w))
               (Option.bind (Option.bind (enter ops (e_version eng version) (b, w))
                  (\<lambda>bw. fold (\<lambda>p r. Option.bind r (enter ops (e_auto_edge eng p False))) [0..<STP_NUM_PORTS] (Some bw)))
                (enter ops (e_start eng))))"

definition stp_destroy :: "'e mstp \<Rightarrow> 'w stp_ops \<Rightarrow> 'e stp_bridge option \<Rightarrow> 'w \<Rightarrow> 'w option" where
  "stp_destroy eng ops b w = (case b of None \<Rightarrow> Some w | Some b \<Rightarrow> map_option snd (enter ops (e_stop eng) (b, w)))"

definition stp_port_link_change :: "'e mstp \<Rightarrow> 'w stp_ops \<Rightarrow> nat \<Rightarrow> bool \<Rightarrow> u16 \<Rightarrow> u32 \<Rightarrow> 'e stp_bridge \<times> 'w \<Rightarrow>
    ('e stp_bridge \<times> 'w) option" where
  "stp_port_link_change eng ops p up speed now bw =
     (if STP_NUM_PORTS \<le> p then Some bw
      else Option.bind (if e_port_enabled eng (sb_engine (fst bw)) p then enter ops (e_disabled eng p now) bw else Some bw)
             (\<lambda>bw. if up then enter ops (e_enabled eng p speed now) bw else Some bw))"

definition stp_tick :: "'e mstp \<Rightarrow> 'w stp_ops \<Rightarrow> u32 \<Rightarrow> 'e stp_bridge \<times> 'w \<Rightarrow> ('e stp_bridge \<times> 'w) option" where
  "stp_tick eng ops now bw = enter ops (e_tick eng now) bw"

text \<open>The checks on a received frame: the length of the BPDU and whether it is a topology change notification.\<close>

definition frame_length :: "bytes \<Rightarrow> nat" where
  "frame_length f = unat (f ! 12) * 256 + unat (f ! 13)"

definition bpdu_header_ok :: "bytes \<Rightarrow> bool" where
  "bpdu_header_ok f \<longleftrightarrow> 21 \<le> length f \<and> length f \<le> 1514 \<and> take 6 f = bpdu_destination \<and> f ! 6 AND 1 = 0 \<and>
     peek 6 6 f \<noteq> replicate 6 0 \<and> f ! 14 = 0x42 \<and> f ! 15 = 0x42 \<and> f ! 16 = 3 \<and>
     7 \<le> frame_length f \<and> frame_length f \<le> 1500 \<and> frame_length f \<le> length f - 14 \<and> f ! 17 = 0 \<and> f ! 18 = 0"

definition bpdu_type_ok :: "u8 \<Rightarrow> u8 \<Rightarrow> nat \<Rightarrow> bool" where
  "bpdu_type_ok version kind n =
     (if kind = 0x80 then version = 0 \<and> 4 \<le> n
      else if kind = 0 then version = 0 \<and> 35 \<le> n
      else if kind = 2 then 2 \<le> version \<and> 36 \<le> n
      else False)"

definition stp_rx_bpdu :: "'e mstp \<Rightarrow> 'w stp_ops \<Rightarrow> nat \<Rightarrow> bytes \<Rightarrow> u32 \<Rightarrow> 'e stp_bridge \<times> 'w \<Rightarrow>
    (bool \<times> 'e stp_bridge \<times> 'w) option" where
  "stp_rx_bpdu eng ops p f now bw =
     (if STP_NUM_PORTS \<le> p \<or> \<not> e_port_enabled eng (sb_engine (fst bw)) p \<or> \<not> bpdu_header_ok f then Some (False, bw)
      else let bpdu = frame_length f - 3 in
      if \<not> bpdu_type_ok (f ! 19) (f ! 20) bpdu then Some (False, bw)
      else let b = on_status (\<lambda>s. on_port p (\<lambda>q. q\<lparr>sp_bpdu_rx := sp_bpdu_rx q + 1\<rparr>)
                     (if f ! 20 = 0x80 then s\<lparr>ss_tcn_rx := ss_tcn_rx s + 1\<rparr> else s)) (fst bw)
           in map_option (\<lambda>bw. (True, bw)) (enter ops (e_bpdu eng p (take bpdu (drop 17 f)) now) (b, snd bw)))"

definition status_role :: "stp_port_role \<Rightarrow> u8" where
  "status_role r = (case r of Role_Root \<Rightarrow> 1 | Role_Designated \<Rightarrow> 2 | Role_Backup \<Rightarrow> 4 | Role_Alternate \<Rightarrow> 3 | _ \<Rightarrow> 0)"

definition port_status :: "'e mstp \<Rightarrow> 'e stp_bridge \<Rightarrow> nat \<Rightarrow> stp_port_status" where
  "port_status eng b p =
     (let up = e_port_enabled eng (sb_engine b) p in
      (ss_port (sb_status b) ! p)\<lparr>sp_role := status_role (e_port_role eng (sb_engine b) p), sp_link_up := up,
        sp_state := (if \<not> up then 0 else if sb_forwarding b ! p then 4 else if sb_learning b ! p then 3 else 1),
        sp_path_cost := e_path_cost eng (sb_engine b) p\<rparr>)"

definition stp_get_status :: "'e mstp \<Rightarrow> 'e stp_bridge \<Rightarrow> stp_status" where
  "stp_get_status eng b =
     (let v = e_root_vector eng (sb_engine b);
          pid = (push_bit 8 (ucast (v ! 34)) OR ucast (v ! 35)) AND (4095 :: u32)
      in (sb_status b)\<lparr>
           ss_root_id := \<lparr>id_priority = push_bit 8 (ucast (v ! 0)) OR ucast (v ! 1), id_mac = peek 2 6 v\<rparr>,
           ss_root_path_cost := push_bit 24 (ucast (v ! 8)) OR push_bit 16 (ucast (v ! 9)) OR push_bit 8 (ucast (v ! 10)) OR ucast (v ! 11),
           ss_root_port := (if pid \<noteq> 0 then ucast (pid - 1) else STP_ROOT_NONE),
           ss_is_root := e_is_root eng (sb_engine b),
           ss_port := map (port_status eng b) [0..<STP_NUM_PORTS]\<rparr>)"

section \<open>Frames\<close>

lemma length_destination [simp]: "length bpdu_destination = 6"
  by (simp add: bpdu_destination_def)

lemma length_field:
  assumes "n \<le> 1500"
  shows "unat (word_of_nat (n div 256) :: u8) * 256 + unat (word_of_nat n :: u8) = n"
proof -
  have "unat (word_of_nat (n div 256) :: u8) = n div 256" using assms by (simp add: unat_of_nat take_bit_nat_eq_self)
  moreover have "unat (word_of_nat n :: u8) = n mod 256" by (simp add: unat_of_nat take_bit_eq_mod)
  ultimately show ?thesis by simp
qed

text \<open>C32: What the adapter sends, it accepts: the frame built for a BPDU of a well-formed type is at most 1514 bytes long and, with
  any padding a MAC adds, passes every check of the receiver, which hands its engine exactly the BPDU that was sent.\<close>
theorem bpdu_round_trip:
  assumes "length mac = 6" and "mac ! 0 AND 1 = 0" and "mac \<noteq> replicate 6 0"
    and "length payload \<le> 1497" and "payload ! 0 = 0" and "payload ! 1 = 0" and "bpdu_type_ok (payload ! 2) (payload ! 3) (length payload)"
    and "p < STP_NUM_PORTS" and "e_port_enabled eng (sb_engine b) p" and "length payload + 17 + length pad \<le> 1514"
  shows "\<exists>f b'. tx_get mac payload = Some f \<and> length f \<le> 1514 \<and> sb_engine b' = sb_engine b \<and>
    stp_rx_bpdu eng ops p (f @ pad) now (b, w) = map_option (\<lambda>bw. (True, bw)) (enter ops (e_bpdu eng p payload now) (b', w))"
proof -
  define n where "n = length payload"
  have four: "4 \<le> n" using assms(7) by (auto simp: bpdu_type_ok_def n_def split: if_splits)
  obtain m0 m1 m2 m3 m4 m5 where mac: "mac = [m0, m1, m2, m3, m4, m5]"
    using assms(1) by (auto simp: numeral_eq_Suc length_Suc_conv)
  obtain b0 b1 b2 b3 rest where pl: "payload = b0 # b1 # b2 # b3 # rest"
    using four unfolding n_def by (auto simp: numeral_eq_Suc Suc_le_length_iff)
  define f where "f = bpdu_destination @ mac @ [word_of_nat ((n + 3) div 256), word_of_nat (n + 3)] @ [0x42, 0x42, 3] @ payload"
  have tx: "tx_get mac payload = Some f" using assms(4) by (simp add: tx_get_def f_def n_def Let_def)
  have len: "length f = n + 17" by (simp add: f_def mac n_def)
  have shape: "f @ pad = 0x01 # 0x80 # 0xc2 # 0 # 0 # 0 # m0 # m1 # m2 # m3 # m4 # m5 # word_of_nat ((n + 3) div 256) #
      word_of_nat (n + 3) # 0x42 # 0x42 # 3 # b0 # b1 # b2 # b3 # (rest @ pad)"
    by (simp add: f_def mac pl bpdu_destination_def)
  have "unat (word_of_nat ((n + 3) div 256) :: u8) * 256 + unat (word_of_nat (n + 3) :: u8) = n + 3"
    by (rule length_field) (use assms(4) n_def in simp)
  then have fl: "frame_length (f @ pad) = n + 3" by (simp add: frame_length_def shape)
  have head: "bpdu_header_ok (f @ pad)"
  proof -
    have "f @ pad = bpdu_destination @ mac @ drop 12 (f @ pad)" by (simp add: f_def mac)
    then have "take 6 (f @ pad) = bpdu_destination" "peek 6 6 (f @ pad) = mac"
      using assms(1) by (simp_all add: f_def peek_def)
    moreover have "(f @ pad) ! 6 = mac ! 0" "(f @ pad) ! 14 = 0x42" "(f @ pad) ! 15 = 0x42" "(f @ pad) ! 16 = 3"
        "(f @ pad) ! 17 = payload ! 0" "(f @ pad) ! 18 = payload ! 1"
      unfolding shape by (simp_all add: mac pl)
    moreover have "21 \<le> length (f @ pad)" "length (f @ pad) \<le> 1514" "n + 3 \<le> length (f @ pad) - 14" "n + 3 \<le> 1500"
      using len four assms(4,10) by (simp_all add: n_def)
    ultimately show ?thesis unfolding bpdu_header_ok_def fl using assms(2,3,5,6) four by simp
  qed
  have "take n (drop 17 (f @ pad)) = payload" by (simp add: shape pl n_def)
  moreover have "bpdu_type_ok ((f @ pad) ! 19) ((f @ pad) ! 20) n"
    using assms(7) by (simp add: shape pl n_def)
  ultimately have "stp_rx_bpdu eng ops p (f @ pad) now (b, w) = map_option (\<lambda>bw. (True, bw)) (enter ops (e_bpdu eng p payload now)
      (on_status (\<lambda>s. on_port p (\<lambda>q. q\<lparr>sp_bpdu_rx := sp_bpdu_rx q + 1\<rparr>)
        (if (f @ pad) ! 20 = 0x80 then s\<lparr>ss_tcn_rx := ss_tcn_rx s + 1\<rparr> else s)) b, w))"
    using assms(8,9) head fl by (simp add: stp_rx_bpdu_def Let_def)
  then show ?thesis
    using tx len assms(4)
    by (intro exI [of _ f] exI [of _ "on_status (\<lambda>s. on_port p (\<lambda>q. q\<lparr>sp_bpdu_rx := sp_bpdu_rx q + 1\<rparr>)
        (if (f @ pad) ! 20 = 0x80 then s\<lparr>ss_tcn_rx := ss_tcn_rx s + 1\<rparr> else s)) b"]) (simp add: n_def)
qed

text \<open>An engine with every port up that does nothing.\<close>

definition idle_engine :: "unit mstp" where
  "idle_engine = \<lparr>e_create = (\<lambda>m. Some ()), e_version = (\<lambda>v e. (e, [])), e_auto_edge = (\<lambda>p v e. (e, [])), e_start = (\<lambda>e. (e, [])),
     e_stop = (\<lambda>e. (e, [])), e_port_enabled = (\<lambda>e p. True), e_enabled = (\<lambda>p s n e. (e, [])), e_disabled = (\<lambda>p n e. (e, [])),
     e_tick = (\<lambda>n e. (e, [])), e_bpdu = (\<lambda>p d n e. (e, [])), e_root_vector = (\<lambda>e. replicate 36 0), e_is_root = (\<lambda>e. True),
     e_port_role = (\<lambda>e p. Role_Designated), e_path_cost = (\<lambda>e p. 0)\<rparr>"

definition idle_bridge :: "unit stp_bridge" where
  "idle_bridge = \<lparr>sb_engine = (), sb_status = zero_status, sb_learning = replicate 5 False, sb_forwarding = replicate 5 False\<rparr>"

definition idle_ops :: "unit stp_ops" where
  "idle_ops = \<lparr>op_state = (\<lambda>p l f w. w), op_flush = (\<lambda>p r w. w), op_transmit = (\<lambda>p f w. Some (True, w))\<rparr>"

theorem bpdu_round_trip_witness:
  "\<exists>f b'. tx_get [2, 0, 0, 0, 0, 1] (replicate 35 0) = Some f \<and> length f \<le> 1514 \<and> sb_engine b' = sb_engine idle_bridge \<and>
    stp_rx_bpdu idle_engine idle_ops 3 (f @ replicate 8 0) 0 (idle_bridge, ()) =
      map_option (\<lambda>bw. (True, bw)) (enter idle_ops (e_bpdu idle_engine 3 (replicate 35 0) 0) (b', ()))"
proof (rule bpdu_round_trip)
  have "hd [2, 0, 0, 0, 0, 1 :: u8] \<noteq> hd (replicate 6 0)" by simp
  then show "[2, 0, 0, 0, 0, 1 :: u8] \<noteq> replicate 6 0" by metis
qed (simp_all add: idle_engine_def bpdu_type_ok_def)

end
