(* ===== verification/Stp_Task.thy ===== *)
theory Stp_Task
  imports Settings Stp
begin

text \<open>
  The task that owns the protocol engine, \<^verbatim>\<open>software/r5/src/stp_task.c\<close>: the port state, flush and transmit operations the
  adapter is given, the queue of received BPDUs and one iteration of the task loop. Its static variables
  and the locals of the loop extend the world. The shared lock and the 10 ms delay are left out; an assertion that fails
  is not returning.
\<close>

section \<open>State\<close>

record bpdu_event =
  ev_received :: u32
  ev_port :: u8
  ev_frame :: bytes

record ('v, 'e) stp_task = "'v settings" +
  rx_queue :: "bpdu_event list option"
  published :: stp_status
  rx_dropped :: u32
  running :: bool
  changing :: bool
  desired_fwd :: u8
  desired_learn :: u8
  task_engine :: "'e stp_bridge option"
  task_version :: u8
  task_links :: u8
  task_speeds :: "u16 list"
  task_tick :: u32
  task_enabled :: bool

section \<open>Operations of the adapter\<close>

definition drop_fwd :: "u8 \<Rightarrow> ('v, 'e, 'a) stp_task_scheme \<Rightarrow> ('v, 'e, 'a) stp_task_scheme" where
  "drop_fwd b h = (pstate_fwd_clear b h)\<lparr>desired_fwd := desired_fwd h AND NOT b\<rparr>"

definition drop_learn :: "u8 \<Rightarrow> ('v, 'e, 'a) stp_task_scheme \<Rightarrow> ('v, 'e, 'a) stp_task_scheme" where
  "drop_learn b h = (pstate_learn_clear b h)\<lparr>desired_learn := desired_learn h AND NOT b\<rparr>"

definition raise_learn :: "u8 \<Rightarrow> ('v, 'e, 'a) stp_task_scheme \<Rightarrow> ('v, 'e, 'a) stp_task_scheme" where
  "raise_learn b h = (pstate_learn_set b h)\<lparr>desired_learn := desired_learn h OR b\<rparr>"

definition raise_fwd :: "u8 \<Rightarrow> ('v, 'e, 'a) stp_task_scheme \<Rightarrow> ('v, 'e, 'a) stp_task_scheme" where
  "raise_fwd b h = (pstate_fwd_set b h)\<lparr>desired_fwd := desired_fwd h OR b\<rparr>"

definition port_state :: "nat \<Rightarrow> bool \<Rightarrow> bool \<Rightarrow> ('v, 'e, 'a) stp_task_scheme \<Rightarrow> ('v, 'e, 'a) stp_task_scheme" where
  "port_state p learn forward h =
     (let b = port_bit p;
          learn = (learn \<and> \<not> changing h); forward = (forward \<and> \<not> changing h);
          h = (if \<not> forward \<and> desired_fwd h AND b \<noteq> 0 then drop_fwd b h else h);
          h = (if \<not> learn \<and> desired_learn h AND b \<noteq> 0 then drop_learn b h else h);
          h = (if learn \<and> desired_learn h AND b = 0 then raise_learn b h else h)
      in if forward \<and> desired_fwd h AND b = 0 then raise_fwd b h else h)"

definition port_flush :: "nat \<Rightarrow> bool \<Rightarrow> ('v, 'e, 'a) stp_task_scheme \<Rightarrow> ('v, 'e, 'a) stp_task_scheme" where
  "port_flush p rapid h =
     (let b = port_bit p; h = pstate_fwd_clear b h
      in if desired_fwd h AND b \<noteq> 0 \<and> \<not> changing h then pstate_fwd_set b h else h)"

definition pstate_cpu_tx_raw :: "u8 \<Rightarrow> bytes \<Rightarrow> 'a dma_scheme \<Rightarrow> (bool \<times> 'a dma_scheme) option" where
  "pstate_cpu_tx_raw dest_mask frame h = fabric_dma_send_directed (Some frame) dest_mask h"

definition port_transmit :: "nat \<Rightarrow> bytes \<Rightarrow> ('v, 'e, 'a) stp_task_scheme \<Rightarrow> (bool \<times> ('v, 'e, 'a) stp_task_scheme) option" where
  "port_transmit p frame h =
     (if changing h \<or> pstate_failed h then Some (False, h) else pstate_cpu_tx_raw (port_bit p) frame h)"

definition task_ops :: "('v, 'e, 'a) stp_task_scheme stp_ops" where
  "task_ops = \<lparr>op_state = port_state, op_flush = port_flush, op_transmit = port_transmit\<rparr>"

section \<open>Reception\<close>

definition fabric_ctrl_frame_rx :: "bytes \<Rightarrow> ('v, 'e, 'a) stp_task_scheme \<Rightarrow> ('v, 'e, 'a) stp_task_scheme" where
  "fabric_ctrl_frame_rx f h =
     (if length f < 21 \<or> 1514 < length f \<or> take 6 f \<noteq> bpdu_destination then h
      else case fabric_dma_last_rx_tag h of (valid, port) \<Rightarrow>
      case rx_queue h of
        None \<Rightarrow> h
      | Some q \<Rightarrow>
          if \<not> running h then h
          else if \<not> valid \<or> 5 \<le> port then h\<lparr>rx_dropped := rx_dropped h + 1\<rparr>
          else case tick_count h of (now, h) \<Rightarrow>
            if length q < 32 then h\<lparr>rx_queue := Some (q @ [\<lparr>ev_received = now, ev_port = port, ev_frame = f\<rparr>])\<rparr>
            else h\<lparr>rx_dropped := rx_dropped h + 1\<rparr>)"

definition stp_status_get :: "('v, 'e, 'a) stp_task_scheme \<Rightarrow> stp_status" where
  "stp_status_get h = published h"

section \<open>The loop\<close>

definition stp_task_start :: "('v, 'e, 'a) stp_task_scheme \<Rightarrow> ('v, 'e, 'a) stp_task_scheme" where
  "stp_task_start h =
     (case tick_count (h\<lparr>task_engine := None, task_version := 255, task_links := 0, task_speeds := replicate STP_NUM_PORTS 0,
         rx_queue := Some []\<rparr>) of (now, h) \<Rightarrow> h\<lparr>task_tick := now, task_enabled := False\<rparr>)"

text \<open>A change of the settings: close every port, drop the engine, start over.\<close>

definition stp_shutdown :: "'e mstp \<Rightarrow> ('v, 'e, 'a) stp_task_scheme \<Rightarrow> ('v, 'e, 'a) stp_task_scheme option" where
  "stp_shutdown eng h =
     (let h = pstate_learn_clear 0x1f (pstate_fwd_clear 0x1f (h\<lparr>running := False, changing := True\<rparr>));
          h = h\<lparr>desired_fwd := 0, desired_learn := 0\<rparr>
      in map_option (\<lambda>h. h\<lparr>task_engine := None, rx_queue := Some [], task_links := 0, task_speeds := replicate STP_NUM_PORTS 0\<rparr>)
           (stp_destroy eng task_ops (task_engine h) h))"

definition stp_restart :: "'e mstp \<Rightarrow> switch_config \<Rightarrow> ('v, 'e, 'a) stp_task_scheme \<Rightarrow> ('v, 'e, 'a) stp_task_scheme option" where
  "stp_restart eng cfg h =
     (let h = h\<lparr>task_enabled := cfg_stp_enabled cfg, task_version := cfg_stp_version cfg, changing := False\<rparr>;
          h = (if task_enabled h then case pstate_stp_supported h of (ok, h) \<Rightarrow> if ok then h else pstate_latch_fault h else h);
          r = (if task_enabled h \<and> \<not> pstate_failed h
               then Option.bind (stp_create eng (cfg_mac cfg ! 0) (task_version h) task_ops h)
                      (\<lambda>(b, h). if b = None then None else Some (h\<lparr>task_engine := b\<rparr>))
               else if \<not> task_enabled h
               then Some ((pstate_fwd_set 0x1f (pstate_learn_set 0x1f h))\<lparr>desired_fwd := 0x1f, desired_learn := 0x1f\<rparr>)
               else Some h)
      in map_option (\<lambda>h. case tick_count h of (now, h) \<Rightarrow> h\<lparr>task_tick := now, running := task_enabled h\<rparr>) r)"

definition stp_follow_settings :: "'e mstp \<Rightarrow> ('v, 'e, 'a) stp_task_scheme \<Rightarrow> ('v, 'e, 'a) stp_task_scheme option" where
  "stp_follow_settings eng h =
     (let cfg = st_value (store h) in
      if \<not> task_enabled h \<and> \<not> cfg_stp_enabled cfg
      then Some (h\<lparr>task_version := cfg_stp_version cfg, desired_fwd := 0x1f, desired_learn := 0x1f\<rparr>)
      else if cfg_stp_enabled cfg \<noteq> task_enabled h \<or> cfg_stp_version cfg \<noteq> task_version h
      then Option.bind (stp_shutdown eng h) (stp_restart eng cfg)
      else Some h)"

text \<open>A part of the loop that enters the engine: it runs on the bridge and the rest of the world.\<close>

definition link_part :: "'e mstp \<Rightarrow> u8 \<Rightarrow> u16 list \<Rightarrow> nat \<Rightarrow> 'e stp_bridge \<times> ('v, 'e, 'a) stp_task_scheme \<Rightarrow>
    ('e stp_bridge \<times> ('v, 'e, 'a) stp_task_scheme) option" where
  "link_part eng nxt speeds p bw =
     (case bw of (b, h) \<Rightarrow>
      if bit (nxt XOR task_links h) p \<or> task_speeds h ! p \<noteq> speeds ! p
      then case tick_count h of (now, h) \<Rightarrow>
        map_option (\<lambda>(b, h). (b, h\<lparr>task_speeds := (task_speeds h)[p := speeds ! p]\<rparr>))
          (stp_port_link_change eng task_ops p (bit nxt p) (speeds ! p) now (b, h))
      else Some (b, h))"

fun drain_part :: "'e mstp \<Rightarrow> nat \<Rightarrow> 'e stp_bridge \<times> ('v, 'e, 'a) stp_task_scheme \<Rightarrow>
    ('e stp_bridge \<times> ('v, 'e, 'a) stp_task_scheme) option" where
  "drain_part eng 0 bw = Some bw"
| "drain_part eng (Suc n) bw =
     (case bw of (b, h) \<Rightarrow>
      case rx_queue h of
        None \<Rightarrow> Some (b, h)
      | Some [] \<Rightarrow> Some (b, h)
      | Some (e # q) \<Rightarrow>
          (case tick_count (h\<lparr>rx_queue := Some q\<rparr>) of (now, h) \<Rightarrow>
             if 1000 < now - ev_received e then drain_part eng n (b, h\<lparr>rx_dropped := rx_dropped h + 1\<rparr>)
             else case tick_count h of (now, h) \<Rightarrow>
               Option.bind (stp_rx_bpdu eng task_ops (unat (ev_port e)) (ev_frame e) now (b, h))
                 (\<lambda>(ok, b, h). drain_part eng n (b, if ok then h else h\<lparr>rx_dropped := rx_dropped h + 1\<rparr>))))"

definition tick_part :: "'e mstp \<Rightarrow> 'e stp_bridge \<times> ('v, 'e, 'a) stp_task_scheme \<Rightarrow>
    ('e stp_bridge \<times> ('v, 'e, 'a) stp_task_scheme) option" where
  "tick_part eng bw =
     (case bw of (b, h) \<Rightarrow>
      case tick_count h of (now, h) \<Rightarrow>
        if 1000 \<le> now - task_tick h then stp_tick eng task_ops now (b, h\<lparr>task_tick := task_tick h + 1000\<rparr>)
        else Some (b, h))"

definition engine_part :: "'e mstp \<Rightarrow> port_snapshot \<Rightarrow> 'e stp_bridge \<times> ('v, 'e, 'a) stp_task_scheme \<Rightarrow>
    ('e stp_bridge \<times> ('v, 'e, 'a) stp_task_scheme) option" where
  "engine_part eng ps bw =
     (let nxt = ps_forwarding ps AND 0x1f in
      Option.bind (fold (\<lambda>p r. Option.bind r (link_part eng nxt (ps_speed_mbps ps) p)) [0..<STP_NUM_PORTS] (Some bw))
        (\<lambda>(b, h). Option.bind (drain_part eng 16 (b, h\<lparr>task_links := nxt\<rparr>)) (tick_part eng)))"

definition idle_status :: "bytes \<Rightarrow> stp_status" where
  "idle_status mac =
     (let i = \<lparr>id_priority = 32768, id_mac = mac\<rparr>
      in zero_status\<lparr>ss_bridge_id := i, ss_root_id := i, ss_root_port := STP_ROOT_NONE, ss_is_root := True\<rparr>)"

definition publish :: "'e mstp \<Rightarrow> ('v, 'e, 'a) stp_task_scheme \<Rightarrow> ('v, 'e, 'a) stp_task_scheme" where
  "publish eng h =
     (let s = (case task_engine h of Some b \<Rightarrow> stp_get_status eng b | None \<Rightarrow> idle_status (cfg_mac (st_value (store h)) ! 0));
          s = s\<lparr>ss_enabled := task_enabled h, ss_version := task_version h, ss_fault := pstate_failed h, ss_rx_dropped := rx_dropped h\<rparr>
      in h\<lparr>published := s\<rparr>)"

definition stp_iterate :: "'e mstp \<Rightarrow> ('v, 'e, 'a) stp_task_scheme \<Rightarrow> ('v, 'e, 'a) stp_task_scheme option" where
  "stp_iterate eng h =
     Option.bind (stp_follow_settings eng h) (\<lambda>h.
       map_option (publish eng)
         (case task_engine h of
            None \<Rightarrow> Some h
          | Some b \<Rightarrow> map_option (\<lambda>(b, h). h\<lparr>task_engine := Some b\<rparr>) (engine_part eng (board_ports_snapshot h) (b, h))))"

end
