(* ===== verification/Links_Safety.thy ===== *)
theory Links_Safety
  imports Links_Steps
begin

text \<open>
  What the link poll guarantees. A port that forwards is administratively enabled, observed, set up for the
  requested advertisement and running at the speed its MAC is configured for; and over any interleaving of polls with
  port-state operations, configuration calls and DMA activity the registers that set a port up are written only while the
  fabric does not pass that port's traffic.
\<close>

section \<open>The poll\<close>

text \<open>A poll that returns, phase by phase.\<close>

lemma link_poll_phases:
  assumes "link_poll h = Some h'"
  obtains observed h1 now h2 desired h3 busy t where "board_phy_mask h = Some (observed, h1)"
    and "quietly (touches []) h1 h2"
    and "link_desire (ports h) observed now h2 = (desired, h3)"
    and "setup_ports (ports h) busy now (observed, link_apply desired busy now h3) = Some t"
    and "h' = (let (obs, k) = sfp_switch busy now t in
      emit (Net_Link (enabled (link_state k) \<noteq> 0))
        (on_ports (\<lambda>p. p\<lparr>ps_physical := obs, ps_forwarding := enabled (link_state k)\<rparr>) k))"
proof -
  obtain observed h1 where m: "board_phy_mask h = Some (observed, h1)"
    using assms by (cases "board_phy_mask h") (auto simp: link_poll_def Let_def)
  define now where "now = fst (tick_count h1)"
  define busy where "busy \<longleftrightarrow> fst (mmio_read (DIAG_BASE + LINK_STATUS) (snd (tick_count h1))) AND 0x100 \<noteq> 0"
  define h2 where "h2 = snd (mmio_read (DIAG_BASE + LINK_STATUS) (snd (tick_count h1)))"
  obtain desired h3 where d: "link_desire (ports h) observed now h2 = (desired, h3)" by fastforce
  let ?r = "setup_ports (ports h) busy now (observed, link_apply desired busy now h3)"
  have run: "link_poll h = (case ?r of None \<Rightarrow> None | Some s \<Rightarrow>
      Some (let (obs, k) = sfp_switch busy now s in emit (Net_Link (enabled (link_state k) \<noteq> 0))
        (on_ports (\<lambda>p. p\<lparr>ps_physical := obs, ps_forwarding := enabled (link_state k)\<rparr>) k)))"
    unfolding link_poll_def board_ports_snapshot_def m Let_def case_prod_beta option.case fst_conv snd_conv
    unfolding now_def [symmetric] busy_def [symmetric] h2_def [symmetric] d fst_conv snd_conv
    by (simp add: emit_def cong: option.case_cong)
  have "quietly (touches []) h1 h2" unfolding h2_def by (intro quiet_steps quietly_refl) simp
  then show thesis using that [OF m _ d] run assms by (cases ?r) simp_all
qed

lemma gates_sets_up:
  assumes "gates_ok l f (snd s)" and "sets_up S s t"
  shows "gates_ok l f (snd t)"
proof (rule gates_poll [OF assms(1)])
  show "poll_step S (snd s) (snd t)" "\<forall>p\<in>set S. p < 5 \<and> \<not> bit (enabled (link_state (snd s))) p"
    using assms(2) by (simp_all add: sets_up_def)
  have "port_view p (snd t) = port_view p (snd s)" if "p \<notin> set S" for p using assms(2) that by (simp add: sets_up_def)
  then show "\<forall>p. p \<notin> set S \<longrightarrow> configured_speed (snd t) ! p = configured_speed (snd s) ! p" by (auto simp: port_view_def)
qed

lemma gates_link_poll:
  assumes "gates_ok l f h" and "link_poll h = Some h'" and "5 \<le> length (ps_speed_mbps (ports h))"
  shows "gates_ok l f h'"
proof -
  obtain observed h1 now h2 desired h3 busy t where ph: "board_phy_mask h = Some (observed, h1)"
    "quietly (touches []) h1 h2" "link_desire (ports h) observed now h2 = (desired, h3)"
    "setup_ports (ports h) busy now (observed, link_apply desired busy now h3) = Some t"
    "h' = (let (obs, k) = sfp_switch busy now t in emit (Net_Link (enabled (link_state k) \<noteq> 0))
        (on_ports (\<lambda>p. p\<lparr>ps_physical := obs, ps_forwarding := enabled (link_state k)\<rparr>) k))"
    by (rule link_poll_phases [OF assms(2)])
  have "observing h h1" using board_phy_mask_result [OF ph(1) assms(3)] by simp
  then have "observing h h2" using ph(2) by (rule observing_quiet)
  then have "poll_step [] h h2" "configured_speed h2 = configured_speed h" by (simp_all add: observing_def)
  then have "gates_ok l f h2" using gates_poll [OF assms(1), of "[]" h2] by simp
  moreover have d: "deciding h2 h3" "mode_shown 2 h3" "mode_shown 3 h3" using link_desire_result [OF ph(3)] by simp_all
  ultimately have "gates_ok l f h3" using gates_deciding by blast
  then have g: "gates_ok l f (snd (observed, link_apply desired busy now h3))" using d by (simp add: gates_link_apply)
  obtain S where "sets_up S (observed, link_apply desired busy now h3) t" using setup_ports_result [OF ph(4)] by blast
  from gates_sets_up [OF g this] have "gates_ok l f (snd t)" .
  moreover obtain T where "sets_up T t (sfp_switch busy now t)" using sfp_switch_result by blast
  ultimately have "gates_ok l f (snd (sfp_switch busy now t))" by (rule gates_sets_up)
  then show ?thesis
    unfolding ph(5) Let_def case_prod_beta
    by (rule gates_step [where S = "[]" and evs = "[Net_Link b]" for b]) (simp_all add: emit_def)
qed

text \<open>C5: After a poll, a port that forwards is administratively enabled, is published as physically up, and the DMA
  driver was healthy; a copper port that forwards is ready, has the requested advertisement applied, and runs at a
  speed other than 0 for which its MAC is configured.\<close>
theorem forwarding_ports_configured:
  assumes "link_poll h = Some h'" and "5 \<le> length (ps_speed_mbps (ports h))" and "bit (ps_forwarding (ports h')) p"
  shows "p < 5 \<and> bit (ps_admin (ports h)) p \<and> bit (ps_physical (ports h')) p \<and> fabric_dma_healthy h \<and>
    (p < 4 \<longrightarrow> (\<exists>speed. speed \<noteq> 0 \<and> port_view p h' = (True, ps_advertise (ports h) ! p, speed, speed)))"
proof -
  obtain observed h1 now h2 desired h3 busy t where ph: "board_phy_mask h = Some (observed, h1)"
    "quietly (touches []) h1 h2" "link_desire (ports h) observed now h2 = (desired, h3)"
    "setup_ports (ports h) busy now (observed, link_apply desired busy now h3) = Some t"
    "h' = (let (obs, k) = sfp_switch busy now t in emit (Net_Link (enabled (link_state k) \<noteq> 0))
        (on_ports (\<lambda>p. p\<lparr>ps_physical := obs, ps_forwarding := enabled (link_state k)\<rparr>) k))"
    by (rule link_poll_phases [OF assms(1)])
  let ?s = "(observed, link_apply desired busy now h3)" and ?u = "sfp_switch busy now t"
  obtain S where up: "sets_up S ?s ?u"
    using setup_ports_result [OF ph(4)] sfp_switch_result [of t busy now] sets_up_trans by meson
  obtain a ls where upd: "link_update (link_state h3) desired busy now = (a, ls)" by fastforce
  have applied: "link_state (link_apply desired busy now h3) = ls" "\<And>q. port_view q (link_apply desired busy now h3) = port_view q h3"
    by (simp_all add: link_apply_def upd Let_def pstate_link_clear_def clear_fields port_view_def mmio_write_def emit_def)
  have state: "link_state (snd ?u) = ls" using up applied(1) by (simp add: sets_up_def poll_step_def)
  have fwd: "ps_forwarding (ports h') = enabled ls" "ps_physical (ports h') = fst ?u" "port_view p h' = port_view p (snd ?u)"
    by (simp_all add: ph(5) Let_def case_prod_beta emit_def port_view_def state)
  have on: "bit (enabled ls) p" using assms(3) fwd(1) by simp
  then have d: "p < 5" "bit desired p" using link_update_five [OF upd] by blast+
  have "p \<notin> set S" using up on applied(1) by (auto simp: sets_up_def)
  then have keep: "bit (fst ?u) p = bit observed p" "port_view p (snd ?u) = port_view p h3"
    using up applied(2) by (simp_all add: sets_up_def)
  note m = board_phy_mask_result [OF ph(1) assms(2)] and q = ph(2) [unfolded quietly_def, THEN conjunct1, THEN more_fields(5)]
  have healthy: "fabric_dma_healthy h2 = fabric_dma_healthy h"
    using m poll_quiet [OF _ ph(2), of h] by (simp add: observing_def poll_step_def fabric_dma_healthy_def)
  have same: "deciding h2 h3" and dec: "bit observed p" "bit (ps_admin (ports h)) p" "fabric_dma_healthy h"
    and fresh: "p < 2 \<longrightarrow> \<not> ps_stale (ports h) p h2" "2 \<le> p \<and> p < 4 \<longrightarrow> \<not> pl_stale (ports h) (p - 2) h2"
    using link_desire_result [OF ph(3)] d(2) healthy by auto
  have idx: "\<not> p < 2 \<Longrightarrow> Suc (Suc (p - 2)) = p" by arith
  have "port_view p h3 = port_view p h2" using same by (simp add: deciding_def port_view_def)
  moreover have "ps_speed_mbps (ports h2) ! p \<noteq> 0" if "p < 4" using m dec(1) q that by auto
  moreover have "port_view p h2 = (True, ps_advertise (ports h) ! p, ps_speed_mbps (ports h2) ! p, ps_speed_mbps (ports h2) ! p)"
    if "p < 4"
    using fresh that idx by (cases "p < 2") (auto simp: port_view_def ps_stale_def pl_stale_def)
  ultimately show ?thesis using d(1) dec keep fwd by auto
qed

section \<open>Runs\<close>

text \<open>The calls that share the port registers: the poll, the configuration calls of the settings, the DMA interrupt and
  the port-state operations of the spanning tree task.\<close>

datatype links_op = Poll | Configure u8 "bytes option" | Sfp_Rate u32 | Interrupt bool | Port_State pstate_op

fun links_do :: "links_op \<Rightarrow> 'a links_scheme \<Rightarrow> 'a links_scheme option" where
  "links_do Poll h = link_poll h"
| "links_do (Configure m adv) h = Some (snd (board_ports_configure m adv h))"
| "links_do (Sfp_Rate v) h = Some (board_sfp_configure v h)"
| "links_do (Interrupt receive) h = Some (fabric_dma_interrupt receive h)"
| "links_do (Port_State x) h = Some (pstate_do x h)"

fun links_run :: "links_op list \<Rightarrow> 'a links_scheme \<Rightarrow> 'a links_scheme option" where
  "links_run [] h = Some h"
| "links_run (x # xs) h = Option.bind (links_do x h) (links_run xs)"

text \<open>Only the poll clears links.\<close>

fun outside_call :: "links_op \<Rightarrow> bool" where
  "outside_call (Port_State (Link_Clear m)) = False"
| "outside_call x = True"

definition apart :: "'a links_scheme \<Rightarrow> 'a links_scheme \<Rightarrow> bool" where
  "apart g h \<longleftrightarrow> link_state h = link_state g \<and> control_failed h = control_failed g \<and> ports h = ports g \<and>
     configured_speed h = configured_speed g \<and>
     (\<exists>evs. hw_log h = hw_log g @ evs \<and> list_all (touches []) evs)"

lemma apartI:
  assumes "apart g h" and "link_state h' = link_state h" and "control_failed h' = control_failed h" and "ports h' = ports h"
    and "configured_speed h' = configured_speed h" and "hw_log h' = hw_log h @ evs" and "list_all (touches []) evs"
  shows "apart g h'"
  using assms unfolding apart_def by (metis append_assoc list_all_append)

lemma apart_refl: "apart g g"
  by (simp add: apart_def)

lemma apart_if: "(c \<Longrightarrow> apart g x) \<Longrightarrow> (\<not> c \<Longrightarrow> apart g y) \<Longrightarrow> apart g (if c then x else y)"
  by simp

lemma apart_read: "apart g h \<Longrightarrow> apart g (snd (mmio_read a h))"
  by (erule apartI) (auto simp: hw_defs)

lemma apart_write: "apart g h \<Longrightarrow> touches [] (Wr a v) \<Longrightarrow> apart g (mmio_write a v h)"
  by (erule apartI) (auto simp: hw_defs)

lemma apart_event: "apart g h \<Longrightarrow> apart g (emit Dma_Event h)"
  by (erule apartI) (auto simp: hw_defs touches_def)

lemma apart_fields:
  "apart g h \<Longrightarrow> apart g (on_counters f h)" "apart g h \<Longrightarrow> apart g (h\<lparr>tx_done := b\<rparr>)"
  "apart g h \<Longrightarrow> apart g (h\<lparr>dma_failed := b\<rparr>)"
  by (simp_all add: apart_def)

lemma apart_interrupt: "apart h (fabric_dma_interrupt receive h)"
  unfolding fabric_dma_interrupt_def fail_closed_def Let_def case_prod_beta
  by (intro apart_if apart_read apart_write apart_event apart_fields apart_refl) (simp_all add: touches_Wr owner_def mode_reg_def)

lemma gates_apart: "gates_ok l f g \<Longrightarrow> apart g h \<Longrightarrow> gates_ok l f h"
  unfolding apart_def using gates_step [where S = "[]"] by fastforce

lemma gates_clear:
  assumes "gates_ok l f h" and "reg \<in> set [FWD_CLR, LEARN_CLR]"
  shows "gates_ok l f (clear_and_flush reg m h)"
proof -
  have r: "reg \<in> set [LINK_CLR, FWD_CLR, LEARN_CLR]" "reg \<noteq> LINK_CLR" using assms(2) by auto
  note c = clear_gates [OF r(1) refl, where h = h and m = m]
  have "shadows (link_enabled l (hw_log (clear_and_flush reg m h))) (enabled (link_state h))"
    if "\<not> control_failed (clear_and_flush reg m h)"
    using c(2) c(3) [OF that, of l] that r(2) assms(1) unfolding gates_ok_def by metis
  moreover have "mode_shown p (clear_and_flush reg m h) = mode_shown p h" for p
    using c(4) by (simp add: mode_shown_def clear_fields)
  ultimately show ?thesis
    using assms(1) closed_clear [of f h reg m] c(1) [of l f Map.empty] by (auto simp: gates_ok_def clear_fields)
qed

lemma gates_pstate:
  assumes "gates_ok l f h" and "outside_call (Port_State x)"
  shows "gates_ok l f (pstate_do x h)"
proof -
  have gated: "gates_ok l f (mmio_write a v h)"
    if "\<not> control_failed h" and "owner a v = None" and "a \<noteq> DIAG_BASE + LINK_SET" and "a \<noteq> DIAG_BASE + LINK_CLR" for a v
  proof -
    have "mode_event md (Wr a v) = md" for md by (rule ownerless_mode) (simp add: ownerless_def that(2))
    then have "mode_shown p (mmio_write a v h) = mode_shown p h" for p by (simp add: mode_shown_def hw_simps) (simp add: hw_defs)
    then show ?thesis using assms(1) that by (simp add: gates_ok_def closed_def event_safe_def hw_simps) (simp add: hw_defs)
  qed
  have set: "gates_ok l f (mmio_write (DIAG_BASE + FWD_SET) v h)" "gates_ok l f (mmio_write (DIAG_BASE + LEARN_SET) v h)"
    if "\<not> control_failed h" for v
    by (rule gated [OF that]; simp add: owner_def mode_reg_def)+
  show ?thesis
  proof (cases x)
    case (Latch_Fault)
    have "closed f h" using assms(1) by (simp add: gates_ok_def)
    from closed_do [OF this, of x] show ?thesis
      using assms(1) Latch_Fault
      by (simp add: gates_ok_def pstate_latch_fault_def hw_defs event_safe_def owner_def mode_reg_def mode_shown_def)
  qed (use assms set in \<open>auto simp: pstate_fwd_set_def pstate_learn_set_def pstate_fwd_clear_def pstate_learn_clear_def
      pstate_get_def pstate_stp_supported_def case_prod_beta intro: gates_clear gates_apart apart_read apart_refl\<close>)
qed

lemma poll_lengths:
  assumes "link_poll h = Some h'" and "5 \<le> length (ps_speed_mbps (ports h))"
  shows "length (ps_speed_mbps (ports h')) = length (ps_speed_mbps (ports h))"
proof -
  obtain observed h1 now h2 desired h3 busy t where ph: "board_phy_mask h = Some (observed, h1)"
    "quietly (touches []) h1 h2" "link_desire (ports h) observed now h2 = (desired, h3)"
    "setup_ports (ports h) busy now (observed, link_apply desired busy now h3) = Some t"
    "h' = (let (obs, k) = sfp_switch busy now t in emit (Net_Link (enabled (link_state k) \<noteq> 0))
        (on_ports (\<lambda>p. p\<lparr>ps_physical := obs, ps_forwarding := enabled (link_state k)\<rparr>) k))"
    by (rule link_poll_phases [OF assms(1)])
  obtain S where up: "sets_up S (observed, link_apply desired busy now h3) (sfp_switch busy now t)"
    using setup_ports_result [OF ph(4)] sfp_switch_result [of t busy now] sets_up_trans by meson
  have "ports (link_apply desired busy now h3) = ports h3"
    by (simp add: link_apply_def Let_def case_prod_beta pstate_link_clear_def clear_fields mmio_write_def emit_def)
  moreover have "ports h3 = ports h1"
    using link_desire_result [OF ph(3)] ph(2) [unfolded quietly_def, THEN conjunct1, THEN more_fields(5)] by (simp add: deciding_def)
  moreover have "length (ps_speed_mbps (ports h1)) = length (ps_speed_mbps (ports h))"
    using board_phy_mask_result [OF ph(1) assms(2)] by (auto simp: observing_def)
  ultimately show ?thesis using up by (simp add: ph(5) Let_def case_prod_beta emit_def sets_up_def)
qed

lemma configure_ports:
  "\<exists>p. snd (board_ports_configure m adv h) = h\<lparr>ports := p\<rparr> \<and> ps_speed_mbps p = ps_speed_mbps (ports h)"
  unfolding board_ports_configure_def
  by (cases adv) (auto intro: exI [of _ "ports h"])

lemma gates_ports [simp]: "gates_ok l f (h\<lparr>ports := p\<rparr>) = gates_ok l f h"
  by (simp add: gates_ok_def closed_def mode_shown_def)

lemma links_do_inv:
  assumes "gates_ok l f h" and "links_do x h = Some h'" and "outside_call x" and "5 \<le> length (ps_speed_mbps (ports h))"
  shows "gates_ok l f h' \<and> 5 \<le> length (ps_speed_mbps (ports h'))"
proof (cases x)
  case Poll
  then have "link_poll h = Some h'" using assms(2) by simp
  then show ?thesis using gates_link_poll [OF assms(1)] poll_lengths assms(4) by metis
next
  case (Interrupt r)
  then have "apart h h'" using assms(2) apart_interrupt by auto
  then show ?thesis using gates_apart [OF assms(1)] assms(4) by (simp add: apart_def)
next
  case (Port_State y)
  have "ports (pstate_do y h) = ports h"
    by (cases y) (simp_all add: pstate_link_clear_def pstate_fwd_set_def pstate_learn_set_def pstate_fwd_clear_def pstate_learn_clear_def
      pstate_get_def pstate_stp_supported_def pstate_latch_fault_def case_prod_beta clear_fields hw_defs)
  then show ?thesis using assms gates_pstate Port_State by auto
next
  case (Configure m adv)
  then show ?thesis using configure_ports [of m adv h] assms by auto
qed (use assms in \<open>auto simp: board_sfp_configure_def\<close>)


section \<open>Examples\<close>

text \<open>One PL port comes up; the management bus of the PS ports times out.\<close>

definition sample_links :: links where
  "sample_links = \<lparr>hw_input = (\<lambda>n p. case p of Tick_Count \<Rightarrow> 1000
       | Counter \<Rightarrow> word_of_nat n
       | Reg a \<Rightarrow> (if a = 0x80010010 then 0x7a8 else if a = DIAG_BASE then 0x10 else 0) | _ \<Rightarrow> 0),
     hw_count = 0, hw_log = [], stamp_last = 0, stamp_high = 0, stamp_hz = 1, control_failed = False,
     dma_ready = True, dma_failed = False, tx_lock = True, tx_done_made = True, tx_done = False, rx_index = 0, tx_index = 0,
     rx_bd = [], tx_bd = [], tx_data = [], rx_fill = (\<lambda>n i. []), irqs = (\<lambda>n. []), rx_base = 0, tx_base = 0,
     rx_data_base = 0, tx_data_base = 0,
     counters = \<lparr>c_tx_irq = 0, c_rx_irq = 0, c_error_irq = 0, c_tx_completed = 0, c_rx_consumed = 0, c_rx_dropped = 0,
       c_tx_timeouts = 0\<rparr>, last_tag_valid = False, last_tag_port = 0,
     sfp_probe_ms = 0, sfp_applied_request = 0, sfp_target = 10000, sfp_pending = False,
     ps_ready = [False, False], pl_ready = [True, True],
     ports = initial_ports\<lparr>ps_applied := [4, 7, 7, 7]\<rparr>, configured_speed = [0, 0, 1000, 0],
     link_state = \<lparr>enabled = 0, last_clear_ms = 0\<rparr>\<rparr>"

lemma mdio_idle_timeout:
  "fst (mmio_read (GEM1 + 8) h) AND 4 = 0 \<Longrightarrow> limit < fst (board_timestamp (snd (mmio_read (GEM1 + 8) h))) - start \<Longrightarrow>
    mdio_idle start limit h = Some (False, snd (board_timestamp (snd (mmio_read (GEM1 + 8) h))))"
  by (simp add: mdio_idle.simps [of start limit h] case_prod_beta)

lemmas poll_eval = board_phy_mask_def ps_observe_def sample_links_def hw_defs initial_ports_def
  board_timestamp_def stamp_sample_def stamp_extend_def board_timestamp_hz_def set_speed_def
  pl_observe_def pl_speed_def port_bit_def sfp_observe_def board_sfp_capabilities_def board_sfp_host_rate_def
  link_poll_def board_ports_snapshot_def link_desire_def sfp_request_def quiesce_ps_def quiesce_pl_def ps_stale_def pl_stale_def
  gem_base_def pl_mac_def pl_mode_def mac_receive_def link_macs_def fabric_dma_healthy_def link_apply_def link_update_def
  setup_ports_def settled_def ps_setup_def pl_setup_def set_configured_def sfp_switch_def phy_init_def phy_identify_def
  and_then_def mdio_def mdio_idle_timeout ps_phy_addr_def

lemma sample_poll: "\<exists>h'. link_poll sample_links = Some h' \<and> ps_forwarding (ports h') = 4"
  by (simp add: poll_eval)

theorem forwarding_ports_configured_witness:
  "\<exists>h'. link_poll sample_links = Some h' \<and> fst (snd (port_view 2 h')) = 7"
proof -
  obtain h' where h': "link_poll sample_links = Some h'" "ps_forwarding (ports h') = 4" using sample_poll by blast
  have "5 \<le> length (ps_speed_mbps (ports sample_links))" by (simp add: sample_links_def initial_ports_def)
  from forwarding_ports_configured [OF h'(1) this, of 2] h'(2)
  have "\<exists>speed. port_view 2 h' = (True, ps_advertise (ports sample_links) ! 2, speed, speed)" by auto
  then show ?thesis using h'(1) by (auto simp: sample_links_def initial_ports_def)
qed


end
