(* ===== verification/Stp_Safety.thy ===== *)
theory Stp_Safety
  imports Stp_Task Links_Safety
begin

text \<open>
  The spanning tree task drives the fabric as its engine decides: after every iteration, whatever the link manager, the
  receive path and the interrupt handler do in between, the forwarding enables of the five ports are the engine's forwarding
  flags, all set when the protocol is off and all clear once port control has failed.
\<close>

section \<open>What sending leaves alone\<close>

definition aloof :: "event \<Rightarrow> bool" where
  "aloof e \<longleftrightarrow> (case e of Wr a v \<Rightarrow> a \<noteq> DIAG_BASE + FWD_SET \<and> a \<noteq> DIAG_BASE + FWD_CLR | _ \<Rightarrow> True)"

lemma aloof_simps [simp]:
  "aloof (Wr a v) \<longleftrightarrow> a \<noteq> DIAG_BASE + FWD_SET \<and> a \<noteq> DIAG_BASE + FWD_CLR" "aloof (Rd a v)" "aloof Dma_Event" "aloof (Bd_Clear a)"
  "aloof (Net_Link b)"
  by (simp_all add: aloof_def)

lemma aloof_fwd: "list_all aloof evs \<Longrightarrow> fwd_enabled f evs = f"
  by (induction evs arbitrary: f) (auto simp: aloof_def split: event.splits)

definition far :: "'a dma_scheme \<Rightarrow> 'a dma_scheme \<Rightarrow> bool" where
  "far g h \<longleftrightarrow> dma.more h = dma.more g \<and> control_failed h = control_failed g \<and> (\<exists>evs. hw_log h = hw_log g @ evs \<and> list_all aloof evs)"

lemma farI:
  assumes "far g h" and "dma.more h' = dma.more h" and "control_failed h' = control_failed h"
    and "hw_log h' = hw_log h @ evs" and "list_all aloof evs"
  shows "far g h'"
  using assms unfolding far_def by (metis append_assoc list_all_append)

lemma far_refl: "far g g"
  by (simp add: far_def)

lemma far_trans: "far g h \<Longrightarrow> far h k \<Longrightarrow> far g k"
  unfolding far_def by (metis append_assoc list_all_append)

lemma far_if: "(c \<Longrightarrow> far g x) \<Longrightarrow> (\<not> c \<Longrightarrow> far g y) \<Longrightarrow> far g (if c then x else y)"
  by simp

lemma far_emit: "far g h \<Longrightarrow> aloof e \<Longrightarrow> far g (emit e h)"
  by (erule farI [where evs = "[e]"]) (auto simp: hw_defs)

lemma far_sense: "far g h \<Longrightarrow> far g (snd (sense p h))"
  by (erule farI [where evs = "[]"]) (auto simp: hw_defs)

lemma far_tick: "far g h \<Longrightarrow> far g (snd (tick_count h))"
  unfolding tick_count_def by (rule far_sense)

lemma far_write: "far g h \<Longrightarrow> aloof (Wr a v) \<Longrightarrow> far g (mmio_write a v h)"
  unfolding mmio_write_def by (rule far_emit)

lemma far_read: "far g h \<Longrightarrow> far g (snd (mmio_read a h))"
  unfolding mmio_read_def case_prod_beta snd_conv by (intro far_emit far_sense) simp_all

lemma far_fields:
  "far g h \<Longrightarrow> far g (on_counters c h)" "far g h \<Longrightarrow> far g (h\<lparr>tx_done := b\<rparr>)" "far g h \<Longrightarrow> far g (h\<lparr>dma_failed := b\<rparr>)"
  "far g h \<Longrightarrow> far g (h\<lparr>tx_index := i\<rparr>)" "far g h \<Longrightarrow> far g (h\<lparr>tx_data := d\<rparr>)" "far g h \<Longrightarrow> far g (h\<lparr>tx_bd := t\<rparr>)"
  by (simp_all add: far_def)

lemmas far_steps = far_if far_emit far_sense far_tick far_write far_read far_fields

lemma far_fail_closed: "far g h \<Longrightarrow> far g (fail_closed h)"
  unfolding fail_closed_def Let_def case_prod_beta by (intro far_steps) simp_all

lemma far_interrupt: "far g h \<Longrightarrow> far g (fabric_dma_interrupt receive h)"
  unfolding fabric_dma_interrupt_def Let_def case_prod_beta by (intro far_steps far_fail_closed) simp_all

lemma far_served: "far g h \<Longrightarrow> far g (served h)"
proof -
  have "far g h \<Longrightarrow> far g (fold fabric_dma_interrupt is h)" for "is"
    by (induction "is" arbitrary: h) (simp_all add: far_interrupt)
  then show "far g h \<Longrightarrow> far g (served h)" by (simp add: served_def)
qed

definition far_sum :: "'a dma_scheme \<Rightarrow> (bool \<times> 'a dma_scheme) + 'a dma_scheme \<Rightarrow> bool" where
  "far_sum g r \<longleftrightarrow> (case r of Inl (b, h) \<Rightarrow> far g h | Inr h \<Rightarrow> far g h)"

lemma far_wait_turn: "far g h \<Longrightarrow> far_sum g (wait_turn start h)"
proof -
  have branch: "far_sum g (if c then x else y)" if "far_sum g x" "far_sum g y" for c and x y :: "(bool \<times> 'a dma_scheme) + 'a dma_scheme"
    using that by simp
  have leaf: "far_sum g (Inl (b, k)) = far g k" "far_sum g (Inr k) = far g k" for b and k :: "'a dma_scheme"
    by (simp_all add: far_sum_def)
  show "far g h \<Longrightarrow> far_sum g (wait_turn start h)"
    unfolding wait_turn_def Let_def case_prod_beta
    by (intro branch; unfold leaf; intro far_steps far_served)
qed

lemma far_wait_done: "wait_done start h = Some r \<Longrightarrow> far h (snd r)"
proof (rule wait_done.raw_induct [where P = "\<lambda>start h r. far h (snd r)"])
  fix f :: "u32 \<Rightarrow> 'a dma_scheme \<Rightarrow> (bool \<times> 'a dma_scheme) option" and start h r
  assume IH: "\<And>start h r. f start h = Some r \<Longrightarrow> far h (snd r)"
    and step: "(case wait_turn start h of Inl r \<Rightarrow> Some r | Inr h \<Rightarrow> f start h) = Some r"
  show "far h (snd r)"
    using far_wait_turn [OF far_refl, of h start] step
    by (auto simp: far_sum_def split: sum.splits dest!: IH intro: far_trans)
qed

lemma far_send: "send_frame frame directed m h = Some r \<Longrightarrow> far h (snd r)"
proof (cases frame)
  case None
  then show "send_frame frame directed m h = Some r \<Longrightarrow> far h (snd r)" by (auto simp: send_frame_def far_refl)
next
  case (Some p)
  assume run: "send_frame frame directed m h = Some r"
  let ?g = "snd (tick_count (handed directed m p (served h)))"
  have g: "far h ?g" unfolding handed_def Let_def by (intro far_steps far_served far_refl) simp_all
  have "far h (snd x)" if "wait_done start ?g = Some x" for start x by (rule far_trans [OF g far_wait_done [OF that]])
  then have "far h (snd (ok, k))" "far h (emit Dma_Event (fail_closed k))" if "wait_done start ?g = Some (ok, k)" for start ok k
    using that by (fastforce, intro far_steps far_fail_closed) (fastforce, simp)
  then show ?thesis
    using run far_refl [of h] far_served [OF far_refl, of h]
    by (auto simp: send_frame_def Some handed_def Let_def case_prod_beta split: if_splits option.splits)
qed

section \<open>The forwarding enables\<close>

abbreviation gate :: "u32 \<Rightarrow> 'a hw_scheme \<Rightarrow> nat \<Rightarrow> bool" where
  "gate f h p \<equiv> bit (fwd_enabled f (hw_log h)) p"

lemma clear_gate:
  assumes "\<not> control_failed (clear_and_flush reg m h)" and "reg \<in> set [LINK_CLR, FWD_CLR, LEARN_CLR]" and "p < 5"
  shows "\<not> control_failed h" and "gate f (clear_and_flush reg m h) p \<longleftrightarrow> gate f h p \<and> (reg = FWD_CLR \<longrightarrow> \<not> bit m p)"
proof -
  show "\<not> control_failed h" using clear_gates(2) [OF assms(2) refl] assms(1) by blast
  show "gate f (clear_and_flush reg m h) p \<longleftrightarrow> gate f h p \<and> (reg = FWD_CLR \<longrightarrow> \<not> bit m p)"
  proof (cases "m = 0")
    case True
    then show ?thesis by (simp add: clear_and_flush_def)
  next
    case False
    obtain w1 w2 where log: "hw_log (clear_and_flush reg m h) = hw_log h @ w1 @ [Wr (DIAG_BASE + reg) (ucast m AND 0x3f)] @ w2"
      and w: "list_all quiet w1" "list_all quiet w2"
    proof (rule clear_and_flush_trace [OF False, of reg h])
      fix evs
      assume "hw_log (clear_and_flush reg m h) = hw_log h @ evs @
          (if control_failed (clear_and_flush reg m h) then [Wr (DIAG_BASE + FWD_CLR) 0x1f] else [])"
        and "list_all quiet evs \<and> control_failed (clear_and_flush reg m h) \<or>
          (\<exists>w1 w2. evs = w1 @ [Wr (DIAG_BASE + reg) (ucast m AND 0x3f)] @ w2 \<and> list_all quiet w1 \<and> list_all quiet w2 \<and>
            idle_after 100 w1 \<and> (control_failed (clear_and_flush reg m h) \<or> idle_after 100 w2))"
      then show thesis using assms(1) that by auto
    qed
    have six: "(0x3f :: u32) = Bit_Operations.mask 6" by (simp add: mask_eq_exp_minus_1)
    have "fwd_event F (Wr (DIAG_BASE + reg) v) = (if reg = FWD_CLR then F AND NOT v else F)" for F v
      using assms(2) by auto
    then have "fwd_enabled f (hw_log (clear_and_flush reg m h)) =
        (if reg = FWD_CLR then fwd_enabled f (hw_log h) AND NOT (ucast m AND 0x3f) else fwd_enabled f (hw_log h))"
      by (simp only: log fwd_enabled_simps quiet_fwd [OF w(1)] quiet_fwd [OF w(2)])
    then show ?thesis using assms(3) by (auto simp: six bit_and_iff bit_or_iff bit_not_iff bit_mask_iff bit_ucast_iff)
  qed
qed

lemma set_gate:
  assumes "\<not> control_failed h" and "p < 5"
  shows "gate f (pstate_fwd_set m h) p \<longleftrightarrow> gate f h p \<or> bit m p"
proof -
  have six: "(0x3f :: u32) = Bit_Operations.mask 6" by (simp add: mask_eq_exp_minus_1)
  show ?thesis using assms by (simp add: pstate_fwd_set_def hw_defs) (simp add: six bit_and_iff bit_or_iff bit_mask_iff bit_ucast_iff)
qed

lemma learn_set_gate: "fwd_enabled f (hw_log (pstate_learn_set m h)) = fwd_enabled f (hw_log h)"
  by (simp add: pstate_learn_set_def hw_defs)

lemma set_failed: "control_failed (pstate_fwd_set m h) = control_failed h" "control_failed (pstate_learn_set m h) = control_failed h"
  by (simp_all add: pstate_fwd_set_def pstate_learn_set_def hw_defs)

lemmas closed_ops =
  closed_do [of _ _ "Fwd_Set m" for m, unfolded pstate_do.simps] closed_do [of _ _ "Fwd_Clear m" for m, unfolded pstate_do.simps]
  closed_do [of _ _ "Learn_Set m" for m, unfolded pstate_do.simps] closed_do [of _ _ "Learn_Clear m" for m, unfolded pstate_do.simps]
  closed_do [of _ _ Latch_Fault, unfolded pstate_do.simps]

text \<open>The variables of the task that the port operations leave alone.\<close>

definition task_view :: "('v, 'e, 'a) stp_task_scheme \<Rightarrow> u8 \<times> bool \<times> 'e stp_bridge option \<times> bool \<times> config_store \<times> port_snapshot" where
  "task_view h = (desired_fwd h, changing h, task_engine h, task_enabled h, store h, ports h)"

lemma view_more:
  fixes g h :: "('v, 'e, 'a) stp_task_scheme"
  shows "dma.more h = dma.more g \<Longrightarrow> task_view h = task_view g" "pstate.more h = pstate.more g \<Longrightarrow> task_view h = task_view g"
    "hw.more h = hw.more g \<Longrightarrow> task_view h = task_view g"
  by (cases g, cases h, simp add: task_view_def)+

lemma view_pstate [simp]:
  "task_view (clear_and_flush reg m h) = task_view h" "task_view (pstate_fwd_set m h) = task_view h"
  "task_view (pstate_learn_set m h) = task_view h" "task_view (pstate_fwd_clear m h) = task_view h"
  "task_view (pstate_learn_clear m h) = task_view h" "task_view (pstate_latch_fault h) = task_view h"
  "task_view (snd (pstate_stp_supported h)) = task_view h" "task_view (snd (tick_count h)) = task_view h"
  unfolding pstate_fwd_clear_def pstate_learn_clear_def
  by (auto intro!: view_more(2) simp: clear_more)
     (simp_all add: task_view_def pstate_fwd_set_def pstate_learn_set_def pstate_latch_fault_def pstate_stp_supported_def hw_defs)

lemma view_fields:
  assumes "task_view h = task_view g"
  shows "desired_fwd h = desired_fwd g" "changing h = changing g" "task_engine h = task_engine g" "task_enabled h = task_enabled g"
    "store h = store g" "ports h = ports g"
  using assms by (simp_all add: task_view_def)

lemmas pstate_fields [simp] = view_pstate [THEN view_fields(1)] view_pstate [THEN view_fields(2)] view_pstate [THEN view_fields(3)]
  view_pstate [THEN view_fields(4)] view_pstate [THEN view_fields(5)] view_pstate [THEN view_fields(6)]

text \<open>The hardware holds what the task last asked for.\<close>

definition hold :: "u32 \<Rightarrow> ('v, 'e, 'a) stp_task_scheme \<Rightarrow> bool" where
  "hold f h \<longleftrightarrow> closed f h \<and> (\<not> control_failed h \<longrightarrow> (\<forall>p<5. gate f h p = bit (desired_fwd h) p))"

lemma hold_drop_fwd: "hold f h \<Longrightarrow> hold f (drop_fwd b h)"
  using clear_gate [of FWD_CLR b h] closed_ops(2) [of f h b]
  unfolding hold_def closed_def drop_fwd_def pstate_fwd_clear_def
  by (auto simp: bit_and_iff bit_not_iff)

lemma hold_drop_learn: "hold f h \<Longrightarrow> hold f (drop_learn b h)"
  using clear_gate [of LEARN_CLR b h] closed_ops(4) [of f h b]
  unfolding hold_def closed_def drop_learn_def
  by (simp add: pstate_fields) (auto simp: pstate_learn_clear_def)

lemma hold_raise_learn: "hold f h \<Longrightarrow> hold f (raise_learn b h)"
  using closed_ops(3) [of f h b] unfolding hold_def closed_def raise_learn_def by (simp add: learn_set_gate set_failed)

lemma hold_raise_fwd: "hold f h \<Longrightarrow> hold f (raise_fwd b h)"
  using closed_ops(1) [of f h b] unfolding hold_def closed_def raise_fwd_def by (auto simp: set_gate set_failed bit_or_iff)

section \<open>The operations of the adapter\<close>

text \<open>Variables of the task that no callback changes.\<close>

definition steady :: "('v, 'e, 'a) stp_task_scheme \<Rightarrow> ('v, 'e, 'a) stp_task_scheme \<Rightarrow> bool" where
  "steady g h \<longleftrightarrow> changing h = changing g \<and> task_enabled h = task_enabled g \<and> task_engine h = task_engine g \<and> store h = store g \<and>
     ports h = ports g"

lemma steady_refl [simp]: "steady g g"
  by (simp add: steady_def)

lemma steady_trans: "steady g h \<Longrightarrow> steady h k \<Longrightarrow> steady g k"
  by (simp add: steady_def)

lemma port_state_holds:
  assumes "hold f h"
  shows "hold f (port_state p learn forward h)" "steady h (port_state p learn forward h)"
    "bit (desired_fwd (port_state p learn forward h)) q =
      (if q = p \<and> p < 8 then forward \<and> \<not> changing h else bit (desired_fwd h) q)"
proof -
  show "hold f (port_state p learn forward h)"
    using assms by (simp add: port_state_def Let_def hold_drop_fwd hold_drop_learn hold_raise_learn hold_raise_fwd)
  show "steady h (port_state p learn forward h)"
    by (simp add: steady_def port_state_def Let_def drop_fwd_def drop_learn_def raise_learn_def raise_fwd_def)
  have "8 \<le> p \<Longrightarrow> port_bit p = 0" by (rule bit_eqI) (simp add: bit_port_bit)
  then show "bit (desired_fwd (port_state p learn forward h)) q =
      (if q = p \<and> p < 8 then forward \<and> \<not> changing h else bit (desired_fwd h) q)"
    by (auto simp: port_state_def Let_def drop_fwd_def drop_learn_def raise_learn_def raise_fwd_def and_port_bit
        bit_and_iff bit_or_iff bit_not_iff bit_port_bit dest: bit_imp_le_length)
qed

lemma port_flush_holds:
  assumes "hold f h" and "changing h \<Longrightarrow> \<not> (p < 5 \<and> bit (desired_fwd h) p)"
  shows "hold f (port_flush p rapid h)" "steady h (port_flush p rapid h)" "desired_fwd (port_flush p rapid h) = desired_fwd h"
proof -
  let ?b = "port_bit p"
  let ?g = "pstate_fwd_clear ?b h"
  have closed: "closed f ?g" "closed f (pstate_fwd_set ?b ?g)" using assms(1) by (auto simp: hold_def intro: closed_ops)
  have g: "gate f ?g q = (bit (desired_fwd h) q \<and> q \<noteq> p)" if "\<not> control_failed ?g" "q < 5" for q
    using clear_gate(1) [of FWD_CLR ?b h q] clear_gate(2) [of FWD_CLR ?b h q f] that assms(1) unfolding pstate_fwd_clear_def
    by (auto simp: hold_def bit_port_bit)
  show "hold f (port_flush p rapid h)"
    using closed g assms(2) by (auto simp: port_flush_def Let_def hold_def set_failed set_gate and_port_bit bit_port_bit)
  show "steady h (port_flush p rapid h)" "desired_fwd (port_flush p rapid h) = desired_fwd h"
    by (simp_all add: port_flush_def Let_def steady_def)
qed

lemma hold_far: "hold f g \<Longrightarrow> far g h \<Longrightarrow> hold f h" "far g h \<Longrightarrow> task_view h = task_view g"
  for g h :: "('v, 'e, 'a) stp_task_scheme"
proof -
  show v: "task_view h = task_view g" if "far g h" using that by (intro view_more(1)) (simp add: far_def)
  show "hold f h" if "hold f g" "far g h"
    using that view_fields(1) [OF v [OF that(2)]] by (auto simp: hold_def closed_def far_def aloof_fwd)
qed

lemma port_transmit_holds:
  assumes "port_transmit p frame h = Some (ok, h')" and "hold f h"
  shows "hold f h'" "task_view h' = task_view h"
proof -
  have "far h h'"
    using assms(1) far_send [of "Some frame" True "port_bit p" h "(ok, h')"]
    by (auto simp: port_transmit_def pstate_cpu_tx_raw_def fabric_dma_send_directed_def far_refl split: if_splits)
  then show "hold f h'" "task_view h' = task_view h" using hold_far assms(2) by blast+
qed

section \<open>The bridge\<close>

text \<open>The flags of the bridge are what the task asks for, unless it is closing.\<close>

definition tracks :: "u32 \<Rightarrow> 'e stp_bridge \<times> ('v, 'e, 'a) stp_task_scheme \<Rightarrow> bool" where
  "tracks f bw \<longleftrightarrow> hold f (snd bw) \<and> length (sb_forwarding (fst bw)) = 5 \<and>
     (\<forall>p<5. bit (desired_fwd (snd bw)) p = (sb_forwarding (fst bw) ! p \<and> \<not> changing (snd bw)))"

definition follows :: "u32 \<Rightarrow> ('v, 'e, 'a) stp_task_scheme \<Rightarrow> ('e stp_bridge \<times> ('v, 'e, 'a) stp_task_scheme) option \<Rightarrow> bool" where
  "follows f g r \<longleftrightarrow> (case r of None \<Rightarrow> True | Some bw \<Rightarrow> tracks f bw \<and> steady g (snd bw))"

lemma follows_Some [simp]: "follows f g (Some bw) \<longleftrightarrow> tracks f bw \<and> steady g (snd bw)" "follows f g None"
  by (simp_all add: follows_def)

lemma follows_from: "follows f g' r \<Longrightarrow> steady g g' \<Longrightarrow> follows f g r"
  by (auto simp: follows_def intro: steady_trans split: option.splits)

lemma follows_bind:
  assumes "follows f g r" and "\<And>bw. tracks f bw \<Longrightarrow> follows f (snd bw) (k bw)"
  shows "follows f g (Option.bind r k)"
proof (cases r)
  case (Some bw)
  then have "tracks f bw" "steady g (snd bw)" using assms(1) by simp_all
  from follows_from [OF assms(2) [OF this(1)] this(2)] show ?thesis by (simp add: Some)
qed simp

lemma tracks_cong:
  "tracks f (b, h) \<Longrightarrow> sb_forwarding b' = sb_forwarding b \<Longrightarrow> task_view h' = task_view h \<Longrightarrow> hold f h' \<Longrightarrow> tracks f (b', h')"
  by (simp add: tracks_def task_view_def)

lemma view_steady: "task_view h = task_view g \<Longrightarrow> steady g h"
  by (simp add: task_view_def steady_def)

lemma follows_callback:
  assumes "tracks f bw"
  shows "follows f (snd bw) (run_callback task_ops c bw)"
proof -
  obtain b h where bw: "bw = (b, h)" by (cases bw)
  have h: "hold f h" "length (sb_forwarding b) = 5" "\<And>p. p < 5 \<Longrightarrow> bit (desired_fwd h) p = (sb_forwarding b ! p \<and> \<not> changing h)"
    using assms by (simp_all add: bw tracks_def)
  note ps = port_state_holds [OF h(1)]
  have keep: "changing (port_state p l w h) = changing h" for p l w using ps(2) by (simp add: steady_def)
  show ?thesis
  proof (cases c)
    case (Learning p e)
    then show ?thesis using ps h(2,3) keep by (auto simp: bw task_ops_def tracks_def Let_def)
  next
    case (Forwarding p e)
    then show ?thesis using ps h(2,3) keep by (auto simp: bw task_ops_def tracks_def Let_def nth_list_update)
  next
    case (Tx p payload)
    have "tracks f (on_status s b, k) \<and> steady h k" if "port_transmit p fr h = Some (ok, k)" for fr ok k s
      using port_transmit_holds [OF that h(1)] tracks_cong [OF assms [unfolded bw], of "on_status s b" k] by (simp add: view_steady)
    then show ?thesis
      using assms by (auto simp: bw Tx follows_def task_ops_def tx_release_def split: option.splits prod.splits)
  next
    case (Flush p r)
    then show ?thesis
      using port_flush_holds [OF h(1), of p r] h(2,3) by (auto simp: bw task_ops_def tracks_def steady_def)
  qed (use assms in \<open>auto simp: bw tracks_def\<close>)
qed

lemma follows_callbacks: "tracks f bw \<Longrightarrow> follows f (snd bw) (run_callbacks task_ops cs bw)"
proof (induction cs arbitrary: bw)
  case (Cons c cs)
  show ?case unfolding run_callbacks.simps by (rule follows_bind [OF follows_callback [OF Cons.prems] Cons.IH])
qed simp

lemma follows_enter: "tracks f bw \<Longrightarrow> follows f (snd bw) (enter task_ops e bw)"
proof -
  assume t: "tracks f bw"
  have "tracks f ((fst bw)\<lparr>sb_engine := x\<rparr>, snd bw)" for x using t by (simp add: tracks_def)
  from follows_callbacks [OF this] show "follows f (snd bw) (enter task_ops e bw)" by (simp add: enter_def case_prod_beta)
qed

lemma follows_fold:
  assumes "\<And>x bw. tracks f bw \<Longrightarrow> follows f (snd bw) (k x bw)" and "follows f g r"
  shows "follows f g (fold (\<lambda>x r. Option.bind r (k x)) xs r)"
  using assms(2) by (induction xs arbitrary: r) (simp_all add: follows_bind assms(1))

lemma follows_if: "follows f g x \<Longrightarrow> follows f g y \<Longrightarrow> follows f g (if c then x else y)"
  by simp

lemma follows_link_change: "tracks f bw \<Longrightarrow> follows f (snd bw) (stp_port_link_change eng task_ops p up speed now bw)"
  unfolding stp_port_link_change_def by (intro follows_if follows_bind follows_enter) simp_all

lemma follows_tick: "tracks f bw \<Longrightarrow> follows f (snd bw) (stp_tick eng task_ops now bw)"
  unfolding stp_tick_def by (rule follows_enter)

lemma follows_rx:
  assumes "tracks f bw"
  shows "follows f (snd bw) (map_option snd (stp_rx_bpdu eng task_ops p fr now bw))"
proof -
  have "tracks f ((fst bw)\<lparr>sb_status := s\<rparr>, snd bw)" for s using assms by (simp add: tracks_def)
  from follows_enter [OF this] have enter: "follows f (snd bw) (enter task_ops e ((fst bw)\<lparr>sb_status := s\<rparr>, snd bw))" for e s by simp
  show ?thesis using assms enter by (simp add: stp_rx_bpdu_def Let_def option.map_comp comp_def option.map_ident)
qed

section \<open>The iteration\<close>

lemma tracks_world:
  "tracks f (b, h) \<Longrightarrow> task_view h' = task_view h \<Longrightarrow> control_failed h' = control_failed h \<Longrightarrow> hw_log h' = hw_log h \<Longrightarrow> tracks f (b, h')"
  by (simp add: tracks_def task_view_def hold_def closed_def)

lemma tick_world:
  "task_view (snd (tick_count h)) = task_view h" "control_failed (snd (tick_count h)) = control_failed h" "hw_log (snd (tick_count h)) = hw_log h"
  by (simp_all add: task_view_def hw_defs)

lemma tracks_tick: "tracks f (b, h) \<Longrightarrow> tracks f (b, snd (tick_count h))"
  by (erule tracks_world) (simp_all add: tick_world)

lemma steady_tick: "steady h (snd (tick_count h))"
  by (simp add: steady_def hw_defs)

lemma follows_map:
  assumes "follows f g r" and "\<And>b h. tracks f (b, h) \<Longrightarrow> tracks f (k (b, h)) \<and> steady h (snd (k (b, h)))"
  shows "follows f g (map_option k r)"
proof (cases r)
  case (Some bw)
  then show ?thesis using assms by (cases bw) (auto intro: steady_trans)
qed simp

lemma follows_link_part: "tracks f bw \<Longrightarrow> follows f (snd bw) (link_part eng nxt speeds p bw)"
proof -
  assume t: "tracks f bw"
  obtain b h where bw: "bw = (b, h)" by (cases bw)
  have "follows f h (stp_port_link_change eng task_ops p up sp now (b, snd (tick_count h)))" for up sp now
    using follows_from [OF follows_link_change [OF tracks_tick [OF t [unfolded bw]]], of h] by (simp add: steady_tick)
  then have "follows f h (map_option (\<lambda>(b, h). (b, h\<lparr>task_speeds := (task_speeds h)[p := speeds ! p]\<rparr>))
      (stp_port_link_change eng task_ops p up sp now (b, snd (tick_count h))))" for up sp now
    by (rule follows_map) (auto simp: steady_def elim!: tracks_world simp: task_view_def)
  then show "follows f (snd bw) (link_part eng nxt speeds p bw)"
    using t by (simp add: bw link_part_def case_prod_beta)
qed

lemma follows_drain: "tracks f bw \<Longrightarrow> follows f (snd bw) (drain_part eng n bw)"
proof (induction n arbitrary: bw)
  case (Suc n)
  obtain b h where bw: "bw = (b, h)" by (cases bw)
  show ?case
  proof (cases "rx_queue h")
    case None
    then show ?thesis using Suc.prems by (simp add: bw)
  next
    case (Some es)
    show ?thesis
    proof (cases es)
      case Nil
      then show ?thesis using Suc.prems Some by (simp add: bw)
    next
      case (Cons e q)
      let ?h1 = "snd (tick_count (h\<lparr>rx_queue := Some q\<rparr>))"
      let ?h2 = "snd (tick_count ?h1)"
      have t1: "tracks f (b, ?h1)" "steady h ?h1" "tracks f (b, ?h2)" "steady h ?h2"
        using Suc.prems [unfolded bw] by (auto elim!: tracks_world simp: task_view_def steady_def hw_defs)
      have drop: "follows f k (drain_part eng n (b', k\<lparr>rx_dropped := m\<rparr>))"
        if "tracks f (b', k)" for b' m and k :: "('b, 'a, 'c) stp_task_scheme"
      proof (rule follows_from [OF Suc.IH])
        show "tracks f (b', k\<lparr>rx_dropped := m\<rparr>)" using that by (auto elim!: tracks_world simp: task_view_def)
      qed (simp add: steady_def)
      have "follows f h (Option.bind (stp_rx_bpdu eng task_ops p fr now (b, ?h2))
          (\<lambda>(ok, b, h). drain_part eng n (b, if ok then h else h\<lparr>rx_dropped := rx_dropped h + 1\<rparr>)))" for p fr now
      proof (cases "stp_rx_bpdu eng task_ops p fr now (b, ?h2)")
        case (Some r)
        obtain ok b' k where r: "r = (ok, b', k)" by (cases r)
        have k: "tracks f (b', k)" "steady ?h2 k" using follows_rx [OF t1(3), of eng p fr now] by (simp_all add: Some r)
        show ?thesis
          using follows_from [OF _ steady_trans [OF t1(4) k(2)]] drop [OF k(1)] Suc.IH [OF k(1)] by (simp add: Some r)
      qed simp
      then show ?thesis
        using follows_from [OF drop [OF t1(1)] t1(2)] by (simp add: bw Some Cons case_prod_beta)
    qed
  qed
qed simp

lemma follows_tick_part: "tracks f bw \<Longrightarrow> follows f (snd bw) (tick_part eng bw)"
proof -
  assume t: "tracks f bw"
  obtain b h where bw: "bw = (b, h)" by (cases bw)
  let ?h = "snd (tick_count h)"
  have "tracks f (b, ?h)" "tracks f (b, ?h\<lparr>task_tick := x\<rparr>)" for x
    using t [unfolded bw] by (auto elim!: tracks_world simp: tick_world) (simp add: task_view_def hw_defs)
  moreover have "steady h (?h\<lparr>task_tick := x\<rparr>)" "steady h ?h" for x by (simp_all add: steady_def hw_defs)
  ultimately show "follows f (snd bw) (tick_part eng bw)"
    using follows_from [OF follows_tick [of f "(b, ?h\<lparr>task_tick := x\<rparr>)" for x]] by (simp add: bw tick_part_def case_prod_beta)
qed

lemma follows_engine_part: "tracks f bw \<Longrightarrow> follows f (snd bw) (engine_part eng ps bw)"
proof -
  assume t: "tracks f bw"
  have rest: "follows f (snd x) ((\<lambda>(b, h). Option.bind (drain_part eng 16 (b, h\<lparr>task_links := nxt\<rparr>)) (tick_part eng)) x)"
    if x: "tracks f x" for x nxt
  proof -
    obtain b h where bh: "x = (b, h)" by (cases x)
    have "tracks f (b, h\<lparr>task_links := nxt\<rparr>)" "steady h (h\<lparr>task_links := nxt\<rparr>)"
      using x [unfolded bh] by (auto elim!: tracks_world simp: task_view_def steady_def)
    from follows_from [OF follows_bind [OF follows_drain [OF this(1)] follows_tick_part], of h] this(2)
    show ?thesis by (simp add: bh)
  qed
  have "follows f (snd bw) (fold (\<lambda>p r. Option.bind r (link_part eng nxt sp p)) [0..<STP_NUM_PORTS] (Some bw))" for nxt sp
    by (rule follows_fold) (simp_all add: follows_link_part t)
  then show "follows f (snd bw) (engine_part eng ps bw)"
    unfolding engine_part_def Let_def by (rule follows_bind) (rule rest)
qed

section \<open>A change of the settings\<close>

lemma five_ports: "(0x1f :: u8) = Bit_Operations.mask 5"
  by (simp add: mask_eq_exp_minus_1)

lemma shutdown_holds:
  assumes "closed f h" and "\<And>b. task_engine h = Some b \<Longrightarrow> length (sb_forwarding b) = 5" and "stp_shutdown eng h = Some h'"
  shows "hold f h' \<and> (\<forall>p<5. \<not> bit (desired_fwd h') p) \<and> task_engine h' = None \<and> ports h' = ports h"
proof -
  define g where "g = (pstate_learn_clear 0x1f (pstate_fwd_clear 0x1f (h\<lparr>running := False, changing := True\<rparr>)))
      \<lparr>desired_fwd := 0, desired_learn := 0\<rparr>"
  have start: "closed f (h\<lparr>running := False, changing := True\<rparr>)" using assms(1) by (simp add: closed_def)
  have "closed f g" using closed_ops(4) [OF closed_ops(2) [OF start]] by (simp add: g_def closed_def)
  moreover have "\<not> gate f g p" if "\<not> control_failed g" "p < 5" for p
    using that clear_gate(1) [of LEARN_CLR "0x1f" "pstate_fwd_clear 0x1f (h\<lparr>running := False, changing := True\<rparr>)" p]
      clear_gate(2) [of LEARN_CLR "0x1f" "pstate_fwd_clear 0x1f (h\<lparr>running := False, changing := True\<rparr>)" p f]
      clear_gate(2) [of FWD_CLR "0x1f" "h\<lparr>running := False, changing := True\<rparr>" p f]
    by (simp add: g_def pstate_learn_clear_def pstate_fwd_clear_def five_ports bit_mask_iff)
  ultimately have hold: "hold f g" by (simp add: hold_def g_def)
  have field: "changing g" "task_engine g = task_engine h" "ports g = ports h" "desired_fwd g = 0" by (simp_all add: g_def)
  obtain k where k: "stp_destroy eng task_ops (task_engine g) g = Some k"
      "h' = k\<lparr>task_engine := None, rx_queue := Some [], task_links := 0, task_speeds := replicate STP_NUM_PORTS 0\<rparr>"
    using assms(3) by (auto simp: stp_shutdown_def Let_def g_def)
  have "hold f k \<and> (\<forall>p<5. \<not> bit (desired_fwd k) p) \<and> ports k = ports h"
  proof (cases "task_engine g")
    case None
    then show ?thesis using hold k(1) field(3,4) by (auto simp: stp_destroy_def)
  next
    case (Some b)
    have "tracks f (b, g)" using hold assms(2) field Some by (simp add: tracks_def g_def)
    from follows_enter [OF this, of "e_stop eng"] show ?thesis
      using k(1) field(1,3) by (auto simp: stp_destroy_def Some tracks_def steady_def)
  qed
  then show ?thesis by (auto simp: k(2) hold_def closed_def)
qed

lemma create_tracks:
  assumes "hold f w" and "\<not> changing w" and "\<forall>p<5. \<not> bit (desired_fwd w) p" and "stp_create eng mac v task_ops w = Some (Some b, w')"
  shows "tracks f (b, w') \<and> steady w w'"
proof -
  obtain e where e: "e_create eng mac = Some e" using assms(4) by (auto simp: stp_create_def split: if_splits option.splits)
  define b0 where "b0 = \<lparr>sb_engine = e, sb_status = zero_status\<lparr>ss_enabled := True, ss_version := v,
      ss_bridge_id := \<lparr>id_priority = 32768, id_mac = mac\<rparr>\<rparr>, sb_learning = replicate STP_NUM_PORTS False,
      sb_forwarding = replicate STP_NUM_PORTS False\<rparr>"
  let ?r = "Option.bind (Option.bind (enter task_ops (e_version eng v) (b0, w))
      (\<lambda>bw. fold (\<lambda>p r. Option.bind r (enter task_ops (e_auto_edge eng p False))) [0..<STP_NUM_PORTS] (Some bw)))
      (enter task_ops (e_start eng))"
  have "tracks f (b0, w)" using assms(1-3) by (simp add: tracks_def b0_def)
  from follows_enter [OF this] have "follows f w (enter task_ops (e_version eng v) (b0, w))" by simp
  then have "follows f w ?r"
    by (intro follows_bind follows_fold) (simp_all add: follows_enter)
  moreover have "?r = Some (b, w')"
    using assms(4) by (auto simp: stp_create_def e Let_def b0_def [symmetric] simp del: upt_rec_numeral split: if_splits)
  ultimately show ?thesis by simp
qed

text \<open>The state between two iterations.\<close>

definition at_rest :: "u32 \<Rightarrow> ('v, 'e, 'a) stp_task_scheme \<Rightarrow> bool" where
  "at_rest f h \<longleftrightarrow> hold f h \<and> \<not> changing h \<and>
     (case task_engine h of
        None \<Rightarrow> \<forall>p<5. bit (desired_fwd h) p = (\<not> task_enabled h)
      | Some b \<Rightarrow> task_enabled h \<and> tracks f (b, h))"

lemma rest_fields:
  "at_rest f (h\<lparr>task_tick := t, running := b\<rparr>) = at_rest f h" "at_rest f (snd (tick_count h)) = at_rest f h"
  "at_rest f (h\<lparr>published := s\<rparr>) = at_rest f h"
  by (simp_all add: at_rest_def tracks_def hold_def closed_def tick_world hw_defs split: option.splits)

lemma restart_settles:
  assumes "hold f h" and "\<forall>p<5. \<not> bit (desired_fwd h) p" and "task_engine h = None" and "stp_restart eng cfg h = Some h'"
  shows "at_rest f h' \<and> ports h' = ports h"
proof -
  define g where "g = h\<lparr>task_enabled := cfg_stp_enabled cfg, task_version := cfg_stp_version cfg, changing := False\<rparr>"
  define k where "k = (if task_enabled g then case pstate_stp_supported g of (ok, h) \<Rightarrow> if ok then h else pstate_latch_fault h else g)"
  have g: "hold f g" using assms(1) by (simp add: g_def hold_def closed_def)
  have sup: "hold f (snd (pstate_stp_supported g))" using g by (simp add: hold_def closed_def pstate_stp_supported_def hw_defs case_prod_beta)
  then have "hold f (pstate_latch_fault (snd (pstate_stp_supported g)))"
    using closed_ops(5) [of f "snd (pstate_stp_supported g)"] by (simp add: hold_def) (simp add: pstate_latch_fault_def hw_defs)
  then have k: "hold f k" "\<not> changing k" "task_engine k = None" "\<forall>p<5. \<not> bit (desired_fwd k) p" "task_enabled k = cfg_stp_enabled cfg" "ports k = ports h"
    using g sup assms(2,3) by (simp_all add: k_def case_prod_beta) (simp_all add: g_def)
  define r where "r = (if task_enabled k \<and> \<not> pstate_failed k
      then Option.bind (stp_create eng (cfg_mac cfg ! 0) (task_version k) task_ops k)
             (\<lambda>(b, h). if b = None then None else Some (h\<lparr>task_engine := b\<rparr>))
      else if \<not> task_enabled k
      then Some ((pstate_fwd_set 0x1f (pstate_learn_set 0x1f k))\<lparr>desired_fwd := 0x1f, desired_learn := 0x1f\<rparr>)
      else Some k)"
  have res: "stp_restart eng cfg h = map_option (\<lambda>h. case tick_count h of (now, h) \<Rightarrow> h\<lparr>task_tick := now, running := task_enabled h\<rparr>) r"
    unfolding stp_restart_def Let_def g_def [symmetric] k_def [symmetric] r_def [symmetric] by (rule refl)
  have "at_rest f x \<and> ports x = ports h" if x: "r = Some x" for x
  proof (cases "task_enabled k")
    case False
    have "hold f ((pstate_fwd_set 0x1f (pstate_learn_set 0x1f k))\<lparr>desired_fwd := 0x1f, desired_learn := 0x1f\<rparr>)"
      using closed_ops(1) [OF closed_ops(3), of f k "0x1f" "0x1f"] k(1)
      by (auto simp: hold_def closed_def set_failed set_gate learn_set_gate five_ports bit_mask_iff)
    then show ?thesis using x False k by (auto simp: r_def at_rest_def five_ports bit_mask_iff)
  next
    case True
    show ?thesis
    proof (cases "pstate_failed k")
      case True
      then show ?thesis using x \<open>task_enabled k\<close> k by (simp add: r_def at_rest_def)
    next
      case False
      obtain b w where c: "stp_create eng (cfg_mac cfg ! 0) (task_version k) task_ops k = Some (Some b, w)" "x = w\<lparr>task_engine := Some b\<rparr>"
        using x True False unfolding r_def by (auto simp: bind_eq_Some_conv split: if_splits)
      have "tracks f (b, w) \<and> steady k w" by (rule create_tracks [OF k(1,2,4) c(1)])
      then show ?thesis using True k(2,6) unfolding c(2) by (auto simp: at_rest_def tracks_def steady_def hold_def closed_def)
    qed
  qed
  then show ?thesis using assms(4) by (auto simp: res case_prod_beta rest_fields)
qed

text \<open>The first iteration finds the fabric as \<open>settings_init\<close> left it: every port open, or closed when the protocol is to run.\<close>

definition starting :: "u32 \<Rightarrow> ('v, 'e, 'a) stp_task_scheme \<Rightarrow> bool" where
  "starting f h \<longleftrightarrow> closed f h \<and> \<not> changing h \<and> task_engine h = None \<and> \<not> task_enabled h \<and>
     (\<not> cfg_stp_enabled (st_value (store h)) \<and> \<not> control_failed h \<longrightarrow> (\<forall>p<5. gate f h p))"

lemma rest_shape:
  assumes "at_rest f h"
  shows "closed f h" "\<not> changing h" "\<And>b. task_engine h = Some b \<Longrightarrow> length (sb_forwarding b) = 5"
    "\<not> task_enabled h \<Longrightarrow> task_engine h = None \<and> (\<not> control_failed h \<longrightarrow> (\<forall>p<5. gate f h p))"
  using assms by (auto simp: at_rest_def hold_def tracks_def split: option.splits)

lemma follow_settles:
  assumes "at_rest f h \<or> starting f h" and "stp_follow_settings eng h = Some h'"
  shows "at_rest f h' \<and> ports h' = ports h"
proof -
  let ?cfg = "st_value (store h)"
  have closed: "closed f h" and engine: "length (sb_forwarding b) = 5" if "task_engine h = Some b" for b
    using assms(1) that rest_shape(1,3) by (auto simp: starting_def)
  have shape: "closed f h" "\<not> changing h" using assms(1) rest_shape(1,2) by (auto simp: starting_def)
  show ?thesis
  proof (cases "\<not> task_enabled h \<and> \<not> cfg_stp_enabled ?cfg")
    case True
    have "task_engine h = None \<and> (\<not> control_failed h \<longrightarrow> (\<forall>p<5. gate f h p))"
      using assms(1) rest_shape(4) True by (auto simp: starting_def)
    then show ?thesis
      using assms(2) True shape
      by (auto simp: stp_follow_settings_def Let_def at_rest_def hold_def closed_def five_ports bit_mask_iff)
  next
    case False
    show ?thesis
    proof (cases "cfg_stp_enabled ?cfg \<noteq> task_enabled h \<or> cfg_stp_version ?cfg \<noteq> task_version h")
      case True
      then have "Option.bind (stp_shutdown eng h) (stp_restart eng ?cfg) = Some h'"
        using assms(2) False by (auto simp: stp_follow_settings_def Let_def)
      then obtain k where k: "stp_shutdown eng h = Some k" "stp_restart eng ?cfg k = Some h'" by (auto simp: bind_eq_Some_conv)
      from shutdown_holds [OF shape(1) engine k(1)] restart_settles [OF _ _ _ k(2)] show ?thesis by metis
    next
      case same: False
      then have "\<not> starting f h" using False by (auto simp: starting_def)
      then show ?thesis using assms False same by (auto simp: stp_follow_settings_def Let_def)
    qed
  qed
qed

lemma rest_publish: "at_rest f (publish eng h) = at_rest f h" "ports (publish eng h) = ports h"
  by (simp_all add: publish_def Let_def rest_fields)

lemma iterate_rests:
  assumes "at_rest f h \<or> starting f h" and "stp_iterate eng h = Some h'"
  shows "at_rest f h' \<and> ports h' = ports h"
proof -
  obtain g where g: "stp_follow_settings eng h = Some g" using assms(2) by (cases "stp_follow_settings eng h") (auto simp: stp_iterate_def)
  have rest: "at_rest f g" "ports g = ports h" using follow_settles [OF assms(1) g] by simp_all
  show ?thesis
  proof (cases "task_engine g")
    case None
    then show ?thesis using assms(2) rest by (auto simp: stp_iterate_def g rest_publish)
  next
    case (Some b)
    have t: "tracks f (b, g)" using rest by (simp add: at_rest_def Some)
    obtain c k where k: "engine_part eng (board_ports_snapshot g) (b, g) = Some (c, k)" "h' = publish eng (k\<lparr>task_engine := Some c\<rparr>)"
      using assms(2) by (auto simp: stp_iterate_def g Some)
    have "tracks f (c, k)" "steady g k" using follows_engine_part [OF t, of eng "board_ports_snapshot g"] by (simp_all add: k(1))
    then have "at_rest f (k\<lparr>task_engine := Some c\<rparr>)" "ports k = ports h"
      using rest by (auto simp: at_rest_def Some tracks_def steady_def hold_def closed_def)
    then show ?thesis by (simp add: k(2) rest_publish)
  qed
qed

section \<open>The other tasks\<close>

definition spared :: "u32 \<Rightarrow> 'a links_scheme \<Rightarrow> 'a links_scheme \<Rightarrow> bool" where
  "spared f g h \<longleftrightarrow> links.more h = links.more g \<and> (closed f g \<longrightarrow> closed f h) \<and>
     (\<not> control_failed h \<longrightarrow> \<not> control_failed g \<and> (\<forall>p<5. gate f h p = gate f g p))"

lemma spared_trans: "spared f g h \<Longrightarrow> spared f h k \<Longrightarrow> spared f g k"
  by (auto simp: spared_def)

lemma spared_log:
  assumes "links.more h = links.more g" and "control_failed h = control_failed g" and "fwd_enabled f (hw_log h) = fwd_enabled f (hw_log g)"
  shows "spared f g h"
  using assms by (simp add: spared_def closed_def)

lemma spared_poll: "poll_step S g h \<Longrightarrow> spared f g h"
proof (rule spared_log)
  assume "poll_step S g h"
  then show "links.more h = links.more g" "control_failed h = control_failed g" by (simp_all add: poll_step_def)
  from \<open>poll_step S g h\<close> obtain evs where "hw_log h = hw_log g @ evs" "list_all (touches S) evs" by (auto simp: poll_step_def)
  moreover have "list_all (touches S) evs \<Longrightarrow> fwd_enabled F evs = F" for F
    using touching_log [of S evs 0 F] by simp
  ultimately show "fwd_enabled f (hw_log h) = fwd_enabled f (hw_log g)" by simp
qed

lemma spared_link_apply: "spared f h (link_apply desired busy now h)"
proof -
  obtain a s where upd: "link_update (link_state h) desired busy now = (a, s)" by fastforce
  let ?g = "h\<lparr>link_state := s\<rparr>"
  let ?k = "if act_clear a \<noteq> 0 then pstate_link_clear (act_clear a) ?g else ?g"
  have "spared f h ?g" by (rule spared_log) simp_all
  moreover have "spared f ?g (pstate_link_clear m ?g)" for m
    using clear_gate(1) [of LINK_CLR m ?g 0] clear_gate(2) [of LINK_CLR m ?g] closed_clear [of f ?g LINK_CLR m] clear_fields(6) [of LINK_CLR m ?g]
    by (auto simp: spared_def pstate_link_clear_def)
  ultimately have "spared f h ?k" by (auto intro: spared_trans)
  moreover have "spared f ?k (mmio_write (DIAG_BASE + LINK_SET) v ?k)" for v by (rule spared_log) (simp_all add: hw_defs)
  ultimately show ?thesis by (auto simp: link_apply_def upd Let_def intro: spared_trans)
qed

lemma spared_link_poll:
  assumes "link_poll h = Some h'" and "5 \<le> length (ps_speed_mbps (ports h))"
  shows "spared f h h'"
proof -
  obtain observed h1 now h2 desired h3 busy t where ph: "board_phy_mask h = Some (observed, h1)"
    "quietly (touches []) h1 h2" "link_desire (ports h) observed now h2 = (desired, h3)"
    "setup_ports (ports h) busy now (observed, link_apply desired busy now h3) = Some t"
    "h' = (let (obs, k) = sfp_switch busy now t in emit (Net_Link (enabled (link_state k) \<noteq> 0))
        (on_ports (\<lambda>p. p\<lparr>ps_physical := obs, ps_forwarding := enabled (link_state k)\<rparr>) k))"
    by (rule link_poll_phases [OF assms(1)])
  have "poll_step [] h h1" using board_phy_mask_result [OF ph(1) assms(2)] by (simp add: observing_def)
  then have "poll_step [] h h2" using ph(2) by (rule poll_quiet)
  moreover have "poll_step [2, 3] h2 h3" using link_desire_result [OF ph(3)] by (simp add: deciding_def)
  ultimately have one: "spared f h h3" using spared_trans [OF spared_poll spared_poll] by blast
  obtain S where "sets_up S (observed, link_apply desired busy now h3) (sfp_switch busy now t)"
    using setup_ports_result [OF ph(4)] sfp_switch_result [of t busy now] sets_up_trans by meson
  then have two: "spared f (link_apply desired busy now h3) (snd (sfp_switch busy now t))"
    by (intro spared_poll [of S]) (simp add: sets_up_def)
  have three: "spared f (snd (sfp_switch busy now t)) h'"
    unfolding ph(5) Let_def case_prod_beta by (rule spared_log) (simp_all add: emit_def)
  show ?thesis by (rule spared_trans [OF one spared_trans [OF spared_link_apply spared_trans [OF two three]]])
qed

text \<open>A step of another task leaves the task at rest.\<close>

lemma rest_other:
  assumes "at_rest f g" and "desired_fwd h = desired_fwd g" and "changing h = changing g" and "task_engine h = task_engine g"
    and "task_enabled h = task_enabled g" and "closed f h"
    and "\<not> control_failed h \<Longrightarrow> \<not> control_failed g \<and> (\<forall>p<5. gate f h p = gate f g p)"
  shows "at_rest f h"
  using assms by (auto simp: at_rest_def hold_def tracks_def split: option.splits)

lemma rest_spared: "at_rest f g \<Longrightarrow> spared f g h \<Longrightarrow> at_rest f h" for g h :: "('v, 'e, 'a) stp_task_scheme"
proof -
  assume r: "at_rest f g" and sp: "spared f g h"
  have "links.more h = links.more g" using sp by (simp add: spared_def)
  then have "desired_fwd h = desired_fwd g \<and> changing h = changing g \<and> task_engine h = task_engine g \<and> task_enabled h = task_enabled g"
    by (cases g, cases h) simp
  then show "at_rest f h" using sp r by (intro rest_other [OF r]) (auto simp: spared_def at_rest_def hold_def)
qed

lemma rest_same_log:
  assumes "at_rest f g" and "desired_fwd h = desired_fwd g" and "changing h = changing g" and "task_engine h = task_engine g"
    and "task_enabled h = task_enabled g" and "control_failed h = control_failed g"
    and "fwd_enabled f (hw_log h) = fwd_enabled f (hw_log g)"
  shows "at_rest f h"
  using assms(1) by (rule rest_other) (use assms in \<open>simp_all add: closed_def at_rest_def hold_def\<close>)

lemma rest_frame: "at_rest f h \<Longrightarrow> at_rest f (fabric_ctrl_frame_rx fr h)"
  by (erule rest_same_log)
     (simp_all add: fabric_ctrl_frame_rx_def case_prod_beta tick_world(3) hw_defs split: option.split)

lemma rest_interrupt: "at_rest f h \<Longrightarrow> at_rest f (fabric_dma_interrupt receive h)" for h :: "('v, 'e, 'a) stp_task_scheme"
proof -
  assume r: "at_rest f h"
  have far: "far h (fabric_dma_interrupt receive h)" by (rule far_interrupt [OF far_refl])
  note v = view_fields [OF hold_far(2) [OF far]]
  show "at_rest f (fabric_dma_interrupt receive h)"
    by (rule rest_same_log [OF r v(1-4)]) (use far aloof_fwd in \<open>auto simp: far_def\<close>)
qed

lemma rest_reads: "at_rest f (snd (mmio_read a h)) = at_rest f h" "at_rest f (h\<lparr>sd := m\<rparr>) = at_rest f h"
  "at_rest f (h\<lparr>sd := m, store := c\<rparr>) = at_rest f h" "at_rest f (h\<lparr>ports := q\<rparr>) = at_rest f h"
  by (simp_all add: at_rest_def tracks_def hold_def closed_def hw_defs split: option.splits)

lemma rest_apply_ports: "at_rest f (snd (apply_ports c h)) = at_rest f h"
proof -
  have "at_rest f (snd (board_ports_configure m adv g)) = at_rest f g" for m adv and g :: "('a, 'b, 'c) stp_task_scheme"
    using configure_ports [of m adv g] by (auto simp: rest_reads)
  then show ?thesis
    by (simp add: apply_ports_def Let_def case_prod_beta rest_reads effective_mask_def board_sfp_configure_def board_sfp_capabilities_def)
qed

lemma rest_save: "at_rest f h \<Longrightarrow> at_rest f (snd (settings_save fs c h))"
  by (simp add: settings_save_def Let_def case_prod_beta pstate_stp_supported_def rest_reads rest_apply_ports)

section \<open>Runs\<close>

text \<open>The steps that interleave with the task: reception of a frame, the link poll, an interrupt, a save of new settings.\<close>

datatype stp_op = Iterate | Rx_Frame bytes | Link_Poll | Dma_Irq bool | Save switch_config

fun stp_do :: "'e mstp \<Rightarrow> ('v, 'f) fatfs \<Rightarrow> stp_op \<Rightarrow> ('v, 'e, 'a) stp_task_scheme \<Rightarrow> ('v, 'e, 'a) stp_task_scheme option" where
  "stp_do eng fs Iterate h = stp_iterate eng h"
| "stp_do eng fs (Rx_Frame f) h = Some (fabric_ctrl_frame_rx f h)"
| "stp_do eng fs Link_Poll h = link_poll h"
| "stp_do eng fs (Dma_Irq receive) h = Some (fabric_dma_interrupt receive h)"
| "stp_do eng fs (Save c) h = Some (snd (settings_save fs c h))"

fun stp_run :: "'e mstp \<Rightarrow> ('v, 'f) fatfs \<Rightarrow> stp_op list \<Rightarrow> ('v, 'e, 'a) stp_task_scheme \<Rightarrow> ('v, 'e, 'a) stp_task_scheme option" where
  "stp_run eng fs [] h = Some h"
| "stp_run eng fs (x # xs) h = Option.bind (stp_do eng fs x h) (stp_run eng fs xs)"

definition run_inv :: "u32 \<Rightarrow> ('v, 'e, 'a) stp_task_scheme \<Rightarrow> bool" where
  "run_inv f h \<longleftrightarrow> at_rest f h \<and> 5 \<le> length (ps_speed_mbps (ports h))"

lemma save_speeds: "ps_speed_mbps (ports (snd (settings_save fs c h))) = ps_speed_mbps (ports h)"
proof -
  have "ps_speed_mbps (ports (snd (board_ports_configure m adv g))) = ps_speed_mbps (ports g)" for m adv and g :: "('a, 'b) settings_scheme"
    using configure_ports [of m adv g] by auto
  moreover have "ports (snd (effective_mask c g)) = ports g" for g :: "('a, 'b) settings_scheme"
    by (rule more_settings(1) [OF effective_mask_more])
  ultimately have "ps_speed_mbps (ports (snd (apply_ports c g))) = ps_speed_mbps (ports g)" for g :: "('a, 'b) settings_scheme"
    by (simp add: apply_ports_def Let_def case_prod_beta board_sfp_configure_def)
  then show ?thesis by (simp add: settings_save_def Let_def case_prod_beta pstate_stp_supported_def hw_defs)
qed

lemma stp_do_inv:
  assumes "run_inv f h" and "stp_do eng fs x h = Some h'"
  shows "run_inv f h'"
proof (cases x)
  case Iterate
  then show ?thesis using assms iterate_rests [of f h eng h'] by (auto simp: run_inv_def)
next
  case (Rx_Frame fr)
  have "ports (fabric_ctrl_frame_rx fr h) = ports h"
    by (simp add: fabric_ctrl_frame_rx_def case_prod_beta split: option.split)
  then show ?thesis using assms Rx_Frame by (auto simp: run_inv_def rest_frame)
next
  case Link_Poll
  then have p: "link_poll h = Some h'" "5 \<le> length (ps_speed_mbps (ports h))" using assms by (simp_all add: run_inv_def)
  show ?thesis
    using assms(1) rest_spared [OF _ spared_link_poll [OF p]] poll_lengths [OF p] by (simp add: run_inv_def)
next
  case (Dma_Irq r)
  have "ports (fabric_dma_interrupt r h) = ports h"
    by (rule view_fields(6) [OF hold_far(2) [OF far_interrupt [OF far_refl]]])
  then show ?thesis using assms Dma_Irq by (auto simp: run_inv_def rest_interrupt)
next
  case (Save c)
  then show ?thesis using assms by (auto simp: run_inv_def rest_save save_speeds)
qed

lemma stp_run_inv: "run_inv f h \<Longrightarrow> stp_run eng fs xs h = Some h' \<Longrightarrow> run_inv f h'"
  by (induction xs arbitrary: h) (auto simp: bind_eq_Some_conv dest: stp_do_inv)

text \<open>C2: The fabric forwards as the protocol decides. From the first iteration of the task on, over any interleaving of its
  iterations with received frames, link polls, DMA interrupts and saves of new settings, each of the five ports forwards in the
  hardware exactly if the running engine has its forwarding flag set, or, with the protocol off, always; once port control has failed no port forwards.\<close>
theorem stp_gates_follow_engine:
  assumes "starting f h" and "5 \<le> length (ps_speed_mbps (ports h))" and "stp_run eng fs (Iterate # ops) h = Some h'" and "p < 5"
  shows "bit (fwd_enabled f (hw_log h')) p \<longleftrightarrow> \<not> control_failed h' \<and>
    (case task_engine h' of Some b \<Rightarrow> sb_forwarding b ! p | None \<Rightarrow> \<not> task_enabled h')"
proof -
  obtain g where g: "stp_iterate eng h = Some g" "stp_run eng fs ops g = Some h'" using assms(3) by (auto simp: bind_eq_Some_conv)
  have "run_inv f g" using iterate_rests [OF disjI2 [OF assms(1)] g(1)] assms(2) by (simp add: run_inv_def)
  from stp_run_inv [OF this g(2)] have rest: "at_rest f h'" by (simp add: run_inv_def)
  show ?thesis
  proof (cases "control_failed h'")
    case True
    then show ?thesis using rest closed_bit [of f h' p] assms(4) by (simp add: at_rest_def hold_def)
  next
    case False
    then show ?thesis using rest assms(4) by (auto simp: at_rest_def hold_def tracks_def split: option.splits)
  qed
qed

section \<open>Examples\<close>

text \<open>An engine that opens port 2 when it is started, in a fabric that supports the protocol.\<close>

definition opening_engine :: "unit mstp" where
  "opening_engine = idle_engine\<lparr>e_start := (\<lambda>e. (e, [Learning 2 True, Forwarding 2 True, Forwarding 3 True, Forwarding 3 False]))\<rparr>"

definition sample_task :: "(ram, unit) stp_task" where
  "sample_task = \<lparr>hw_input = (\<lambda>n p. case p of Reg a \<Rightarrow> if a = DIAG_BASE + STP_ABI then 0x53545002 else 0 | _ \<Rightarrow> 0),
     hw_count = 0, hw_log = [], stamp_last = 0, stamp_high = 0, stamp_hz = 1, control_failed = False,
     dma_ready = True, dma_failed = False, tx_lock = True, tx_done_made = True, tx_done = False, rx_index = 0, tx_index = 0,
     rx_bd = [], tx_bd = [], tx_data = [], rx_fill = (\<lambda>n i. []), irqs = (\<lambda>n. []), rx_base = 0, tx_base = 0,
     rx_data_base = 0, tx_data_base = 0,
     counters = \<lparr>c_tx_irq = 0, c_rx_irq = 0, c_error_irq = 0, c_tx_completed = 0, c_rx_consumed = 0, c_rx_dropped = 0,
       c_tx_timeouts = 0\<rparr>, last_tag_valid = True, last_tag_port = 2,
     sfp_probe_ms = 0, sfp_applied_request = 0, sfp_target = 10000, sfp_pending = False,
     ps_ready = [False, False], pl_ready = [False, False],
     ports = initial_ports, configured_speed = [0, 0, 0, 0],
     link_state = \<lparr>enabled = 0, last_clear_ms = 0\<rparr>, sd = ram_media [] [],
     store = defaults_store\<lparr>st_value := config_defaults\<lparr>cfg_stp_enabled := True, cfg_stp_version := 2\<rparr>\<rparr>,
     rx_queue = Some [], published = zero_status, rx_dropped = 0, running = False, changing = False, desired_fwd = 0, desired_learn = 0,
     task_engine = None, task_version = 255, task_links = 0, task_speeds = replicate 5 0, task_tick = 0, task_enabled = False\<rparr>"

lemma sample_starts: "starting 0x3f sample_task"
  by (simp add: starting_def sample_task_def closed_def)

lemma idle_flush:
  assumes "\<And>n. hw_input h n (Reg (DIAG_BASE + LINK_STATUS)) = 0" and "m \<noteq> 0" and "\<not> control_failed h"
  shows "clear_and_flush reg m h = h\<lparr>hw_count := hw_count h + 2, hw_log := hw_log h @
    [Sleep 1, Rd (DIAG_BASE + LINK_STATUS) 0, Wr (DIAG_BASE + reg) (ucast m AND 0x3f), Sleep 1, Rd (DIAG_BASE + LINK_STATUS) 0]\<rparr>"
proof -
  have "wait_flush g = (True, g\<lparr>hw_count := hw_count g + 1, hw_log := hw_log g @ [Sleep 1, Rd (DIAG_BASE + LINK_STATUS) 0]\<rparr>)"
    if "\<And>n. hw_input g n (Reg (DIAG_BASE + LINK_STATUS)) = 0" for g :: "'a pstate_scheme"
  proof -
    have "(100 :: nat) = Suc 99" by simp
    then show ?thesis unfolding wait_flush_def using that by (simp only: wait_flush_from.simps) (simp add: hw_defs)
  qed
  then show ?thesis using assms by (simp add: clear_and_flush_def Let_def hw_defs)
qed

lemma opening_fields:
  "e_create opening_engine m = Some ()" "e_version opening_engine v e = (e, [])" "e_auto_edge opening_engine p b e = (e, [])"
  "e_port_enabled opening_engine e p" "e_enabled opening_engine p s n e = (e, [])" "e_disabled opening_engine p n e = (e, [])"
  "e_tick opening_engine n e = (e, [])" "e_bpdu opening_engine p d n e = (e, [])"
  "e_start opening_engine e = (e, [Learning 2 True, Forwarding 2 True, Forwarding 3 True, Forwarding 3 False])"
  by (simp_all add: opening_engine_def idle_engine_def)

text \<open>After its start this engine makes no callbacks, so every part of the loop returns and leaves the flags.\<close>

definition calm :: "('e stp_bridge \<times> 'w \<Rightarrow> ('e stp_bridge \<times> 'w) option) \<Rightarrow> bool" where
  "calm k \<longleftrightarrow> (\<forall>bw. \<exists>bw'. k bw = Some bw' \<and> sb_forwarding (fst bw') = sb_forwarding (fst bw))"

lemma calmD: "calm k \<Longrightarrow> \<exists>b' w'. k (b, w) = Some (b', w') \<and> sb_forwarding b' = sb_forwarding b"
  unfolding calm_def by (metis fst_conv surj_pair)

lemma calm_link: "calm (link_part opening_engine nxt speeds p)"
  by (auto simp: calm_def link_part_def stp_port_link_change_def opening_fields enter_def case_prod_beta)

lemma calm_links: "calm (\<lambda>bw. fold (\<lambda>p r. Option.bind r (link_part opening_engine nxt speeds p)) ps (Some bw))"
proof (induction ps)
  case (Cons p ps)
  have "\<exists>bw2. fold (\<lambda>p r. Option.bind r (link_part opening_engine nxt speeds p)) (p # ps) (Some bw) = Some bw2 \<and>
      sb_forwarding (fst bw2) = sb_forwarding (fst bw)" for bw :: "unit stp_bridge \<times> ('a, unit, 'b) stp_task_scheme"
  proof -
    obtain bw1 where "link_part opening_engine nxt speeds p bw = Some bw1" "sb_forwarding (fst bw1) = sb_forwarding (fst bw)"
      using calm_link unfolding calm_def by blast
    with Cons [unfolded calm_def, rule_format, of bw1] show ?thesis by auto
  qed
  then show ?case unfolding calm_def by blast
qed (simp add: calm_def)

lemma calm_rx:
  "\<exists>ok b'. stp_rx_bpdu opening_engine task_ops p f now (b, h) = Some (ok, b', h) \<and> sb_forwarding b' = sb_forwarding b"
  by (auto simp: stp_rx_bpdu_def Let_def opening_fields enter_def)

lemma calm_drain: "calm (drain_part opening_engine n)"
proof (induction n)
  case (Suc n)
  have IH: "\<exists>bw'. drain_part opening_engine n (b, h) = Some bw' \<and> sb_forwarding (fst bw') = sb_forwarding b"
    for b and h :: "('a, unit, 'b) stp_task_scheme"
    using Suc [unfolded calm_def] by (metis fst_conv)
  have "\<exists>bw'. drain_part opening_engine (Suc n) (b, h) = Some bw' \<and> sb_forwarding (fst bw') = sb_forwarding b"
    for b and h :: "('a, unit, 'b) stp_task_scheme"
  proof (cases "rx_queue h")
    case (Some es)
    show ?thesis
    proof (cases es)
      case (Cons e q)
      define h1 where "h1 = snd (tick_count (h\<lparr>rx_queue := Some q\<rparr>))"
      define h2 where "h2 = snd (tick_count h1)"
      obtain ok b' where rx: "stp_rx_bpdu opening_engine task_ops (unat (ev_port e)) (ev_frame e) (fst (tick_count h1)) (b, h2) = Some (ok, b', h2)"
          "sb_forwarding b' = sb_forwarding b"
        using calm_rx by blast
      have "drain_part opening_engine (Suc n) (b, h) =
          (if 1000 < fst (tick_count (h\<lparr>rx_queue := Some q\<rparr>)) - ev_received e
           then drain_part opening_engine n (b, h1\<lparr>rx_dropped := rx_dropped h1 + 1\<rparr>)
           else drain_part opening_engine n (b', if ok then h2 else h2\<lparr>rx_dropped := rx_dropped h2 + 1\<rparr>))"
        by (simp add: Some Cons case_prod_beta rx h1_def [symmetric] h2_def [symmetric])
      then show ?thesis
        using IH [of b "h1\<lparr>rx_dropped := rx_dropped h1 + 1\<rparr>"] IH [of b' "if ok then h2 else h2\<lparr>rx_dropped := rx_dropped h2 + 1\<rparr>"] rx(2)
        by (simp del: drain_part.simps)
    qed (simp add: Some)
  qed simp
  then show ?case by (auto simp: calm_def simp del: drain_part.simps)
qed (simp add: calm_def)

lemma calm_tick: "calm (tick_part opening_engine)"
  by (auto simp: calm_def tick_part_def stp_tick_def opening_fields enter_def case_prod_beta)

lemma sample_shutdown:
  "\<exists>h. stp_shutdown opening_engine sample_task = Some h \<and> hw_input h = hw_input sample_task \<and> \<not> control_failed h"
  by (simp add: stp_shutdown_def pstate_learn_clear_def pstate_fwd_clear_def idle_flush stp_destroy_def sample_task_def)

lemma unit_engine: "(b :: unit stp_bridge)\<lparr>sb_engine := ()\<rparr> = b"
  by (cases b) simp

lemma opening_create:
  fixes w :: "('a, unit, 'b) stp_task_scheme"
  shows "\<exists>b w'. stp_create opening_engine mac 2 task_ops w = Some (Some b, w') \<and> sb_forwarding b = [False, False, True, False, False]"
proof -
  have "fold (\<lambda>p r. Option.bind r (enter task_ops (e_auto_edge opening_engine p False))) ps (Some bw) = Some bw" for ps and bw :: "unit stp_bridge \<times> ('a, unit, 'b) stp_task_scheme"
    by (induction ps) (simp_all add: enter_def opening_fields case_prod_beta unit_engine)
  moreover have "replicate 5 False = [False, False, False, False, False]" by (simp add: numeral_eq_Suc)
  ultimately show ?thesis by (simp add: stp_create_def opening_fields enter_def task_ops_def Let_def)
qed

lemma opening_restart:
  assumes "hw_input h = hw_input sample_task" and "\<not> control_failed h" and "cfg_stp_enabled cfg" and "cfg_stp_version cfg = 2"
  shows "\<exists>h' b. stp_restart opening_engine cfg h = Some h' \<and> task_engine h' = Some b \<and> sb_forwarding b = [False, False, True, False, False]"
proof -
  let ?g = "h\<lparr>task_enabled := True, task_version := 2, changing := False\<rparr>"
  have ok: "fst (pstate_stp_supported ?g)" "\<not> pstate_failed (snd (pstate_stp_supported ?g))" "task_enabled (snd (pstate_stp_supported ?g))"
      "task_version (snd (pstate_stp_supported ?g)) = 2"
    using assms(1,2) by (simp_all add: pstate_stp_supported_def hw_defs sample_task_def pstate_failed_def)
  obtain b w where c: "stp_create opening_engine (cfg_mac cfg ! 0) 2 task_ops (snd (pstate_stp_supported ?g)) = Some (Some b, w)"
      "sb_forwarding b = [False, False, True, False, False]"
    using opening_create by blast
  show ?thesis
    unfolding stp_restart_def by (simp add: assms(3,4) Let_def case_prod_beta ok c tick_count_def sense_def)
qed

lemma opening_iterate:
  "\<exists>h b. stp_iterate opening_engine sample_task = Some h \<and> task_engine h = Some b \<and> sb_forwarding b = [False, False, True, False, False]"
proof -
  let ?cfg = "st_value (store sample_task)"
  have cfg: "cfg_stp_enabled ?cfg" "cfg_stp_version ?cfg = 2" "\<not> task_enabled sample_task"
    by (simp_all add: sample_task_def defaults_store_def)
  obtain h1 where h1: "stp_shutdown opening_engine sample_task = Some h1" "hw_input h1 = hw_input sample_task" "\<not> control_failed h1"
    using sample_shutdown by blast
  obtain h2 b where h2: "stp_restart opening_engine ?cfg h1 = Some h2" "task_engine h2 = Some b"
      "sb_forwarding b = [False, False, True, False, False]"
    using opening_restart [OF h1(2,3) cfg(1,2)] by blast
  have follow: "stp_follow_settings opening_engine sample_task = Some h2"
    using cfg by (simp add: stp_follow_settings_def Let_def h1(1) h2(1))
  have "\<exists>c k. engine_part opening_engine ps (b, h2) = Some (c, k) \<and> sb_forwarding c = sb_forwarding b" for ps
  proof -
    let ?nxt = "ps_forwarding ps AND 0x1f"
    obtain b1 k1 where 1: "fold (\<lambda>p r. Option.bind r (link_part opening_engine ?nxt (ps_speed_mbps ps) p)) [0..<STP_NUM_PORTS] (Some (b, h2)) = Some (b1, k1)"
        "sb_forwarding b1 = sb_forwarding b"
      using calmD [OF calm_links] by blast
    obtain b2 k2 where 2: "drain_part opening_engine 16 (b1, k1\<lparr>task_links := ?nxt\<rparr>) = Some (b2, k2)" "sb_forwarding b2 = sb_forwarding b1"
      using calmD [OF calm_drain] by blast
    obtain b3 k3 where 3: "tick_part opening_engine (b2, k2) = Some (b3, k3)" "sb_forwarding b3 = sb_forwarding b2"
      using calmD [OF calm_tick] by blast
    have "engine_part opening_engine ps (b, h2) = Some (b3, k3)"
      unfolding engine_part_def Let_def 1(1) by (simp only: Option.bind.bind_lunit prod.case 2(1) 3(1))
    then show ?thesis using 1(2) 2(2) 3(2) by simp
  qed
  then obtain c k where "engine_part opening_engine (board_ports_snapshot h2) (b, h2) = Some (c, k)" "sb_forwarding c = sb_forwarding b" by blast
  then show ?thesis
    unfolding stp_iterate_def by (simp add: follow h2(2,3) publish_def Let_def)
qed

theorem stp_gates_follow_engine_witness:
  "\<exists>h. stp_run opening_engine ram_fs (Iterate # [Rx_Frame [1], Dma_Irq True]) sample_task = Some h \<and>
     (bit (fwd_enabled 0x3f (hw_log h)) 2 \<longleftrightarrow> \<not> control_failed h) \<and> \<not> bit (fwd_enabled 0x3f (hw_log h)) 3"
proof -
  obtain g b where g: "stp_iterate opening_engine sample_task = Some g" "task_engine g = Some b"
      "sb_forwarding b = [False, False, True, False, False]"
    using opening_iterate by blast
  let ?h = "fabric_dma_interrupt True (fabric_ctrl_frame_rx [1] g)"
  have run: "stp_run opening_engine ram_fs (Iterate # [Rx_Frame [1], Dma_Irq True]) sample_task = Some ?h" by (simp add: g(1))
  have "fabric_ctrl_frame_rx [1] g = g" by (simp add: fabric_ctrl_frame_rx_def)
  then have "task_engine ?h = Some b"
    using view_fields(3) [OF hold_far(2) [OF far_interrupt [OF far_refl [of g]]], of True] g(2) by simp
  moreover have "5 \<le> length (ps_speed_mbps (ports sample_task))" by (simp add: sample_task_def initial_ports_def)
  ultimately show ?thesis
    using stp_gates_follow_engine [OF sample_starts _ run, of 2] stp_gates_follow_engine [OF sample_starts _ run, of 3] run g(3) by auto
qed

end
