(* ===== verification/Web_Stats.thy ===== *)
theory Web_Stats
  imports Config_Web Snmp_Mib Stp
begin

text \<open>
  The JSON views of \<^verbatim>\<open>software/r5/src/web_protocol.c\<close>: the bounded writer, the statistics document and the port document. A
  document is the list of the texts of its \<open>put\<close> calls, in order, written into a buffer of the caller's size. The theorems show that
  the buffer of the server always suffices, so a reader never gets the error that a truncated document turns into.
\<close>

section \<open>The writer\<close>

record writer =
  w_size :: nat
  w_text :: bytes
  w_failed :: bool

definition put_text :: "bytes \<Rightarrow> writer \<Rightarrow> writer" where
  "put_text t w =
     (if w_failed w then w
      else if w_size w - length (w_text w) \<le> length t then w\<lparr>w_failed := True\<rparr>
      else w\<lparr>w_text := w_text w @ t\<rparr>)"

text \<open>A document: the text written, or nothing when the result of the source is 0.\<close>

definition document :: "nat \<Rightarrow> bytes list \<Rightarrow> bytes" where
  "document sz ts =
     (let w = fold put_text ts \<lparr>w_size = sz, w_text = [], w_failed = False\<rparr> in if w_failed w then [] else w_text w)"

text \<open>The separator that all but the first element of a list get.\<close>

fun separated :: "bytes list \<Rightarrow> bytes list" where
  "separated [] = []"
| "separated (t # ts) = t # map (\<lambda>t. 44 # t) ts"

abbreviation number :: "'a::len word \<Rightarrow> bytes" where
  "number w \<equiv> dec (unat w)"

definition signed_number :: "u32 \<Rightarrow> bytes" where
  "signed_number w = (if sint w < 0 then 45 # dec (nat (- sint w)) else dec (nat (sint w)))"

definition quoted :: "bytes \<Rightarrow> bytes" where
  "quoted t = ascii ''\"'' @ t @ ascii ''\"''"

section \<open>Tables and addresses\<close>

definition value_row :: "nat \<times> u64 list \<Rightarrow> bytes list" where
  "value_row ir = (case ir of (r, row) \<Rightarrow>
     [(if r = 0 then [] else ascii '','') @ ascii ''[''] @ separated (map (\<lambda>v. quoted (number v)) row) @ [ascii '']''])"

definition values_json :: "u64 list list \<Rightarrow> bytes list" where
  "values_json t = [ascii ''[''] @ concat (map value_row (enumerate 0 t)) @ [ascii '']'']"

definition mac_hex :: "bytes \<Rightarrow> bytes" where
  "mac_hex m = json_mac m"

section \<open>The statistics\<close>

definition age_ms :: "u32 \<Rightarrow> u64 \<Rightarrow> u64 \<Rightarrow> u64" where
  "age_ms hz now taken = (if hz \<noteq> 0 \<and> taken \<noteq> 0 \<and> taken \<le> now then (now - taken) * 1000 div ucast hz else 0xffffffff)"

definition bank_age :: "u32 \<Rightarrow> u64 \<Rightarrow> u64 \<Rightarrow> u32" where
  "bank_age hz now lst =
     (let elapsed = (if hz \<noteq> 0 \<and> lst \<noteq> 0 \<and> lst \<le> now then now - lst else - 1) in
      if elapsed = - 1 \<or> 0xffffffff div 1000 < elapsed div ucast hz then UINT32_MAX
      else if 0xffffffff < elapsed * 1000 div ucast hz then UINT32_MAX else ucast (elapsed * 1000 div ucast hz))"

definition stats_head :: "statistics_snapshot \<Rightarrow> u32 \<Rightarrow> u64 \<Rightarrow> bytes" where
  "stats_head s hz now =
     ascii ''{\"available\":'' @ json_bool (ss_available s) @ ascii '',\"capabilities\":'' @ number (ss_capabilities s) @
     ascii '',\"polls\":'' @ number (ss_polls s) @ ascii '',\"late_polls\":'' @ number (ss_late_polls s) @
     ascii '',\"saturated_reads\":'' @ number (ss_saturated_reads s) @ ascii '',\"read_timeouts\":'' @ number (ss_read_timeouts s) @
     ascii '',\"release_timeouts\":'' @ number (ss_mailbox_release_timeouts s) @
     ascii '',\"response_timeouts\":'' @ number (ss_snapshot_response_timeouts s) @
     ascii '',\"last_release_index\":'' @ number (ss_last_release_index s) @
     ascii '',\"last_release_target_index\":'' @ number (ss_last_release_target_index s) @
     ascii '',\"last_response_index\":'' @ number (ss_last_response_index s) @
     ascii '',\"age_ms\":'' @ number (age_ms hz now (ss_timestamp s)) @ ascii '',\"ports\":''"

definition bank_text :: "u32 \<Rightarrow> u64 \<Rightarrow> statistics_bank_snapshot \<Rightarrow> bytes" where
  "bank_text hz now h =
     ascii ''['' @ number (bk_state h) @ ascii '','' @ number (bank_age hz now (bk_last_success h)) @ ascii '','' @
     number (bk_clock_unavailable_events h) @ ascii '','' @ number (bk_active_clock_timeouts h) @ ascii '','' @
     number (bk_hardware_status h) @ ascii '']''"

definition speed_text :: "port_snapshot \<Rightarrow> bytes" where
  "speed_text p =
     ascii '',\"speed_mbps\":['' @ number (ps_speed_mbps p ! 0) @ ascii '','' @ number (ps_speed_mbps p ! 1) @ ascii '','' @
     number (ps_speed_mbps p ! 2) @ ascii '','' @ number (ps_speed_mbps p ! 3) @ ascii '','' @ number (ps_speed_mbps p ! 4) @
     ascii '','' @ number (ps_speed_mbps p ! 5) @ ascii '']''"

text \<open>The slots with a timeout, by bank and index.\<close>

definition timeout_texts :: "statistics_snapshot \<Rightarrow> bytes list" where
  "timeout_texts s =
     map (\<lambda>(b, i). ascii ''['' @ dec b @ ascii '','' @ dec i @ ascii '','' @ number (ss_release_timeout_by_index s ! b ! i) @
         ascii '','' @ number (ss_response_timeout_by_index s ! b ! i) @ ascii '']'')
       (filter (\<lambda>(b, i). ss_release_timeout_by_index s ! b ! i \<noteq> 0 \<or> ss_response_timeout_by_index s ! b ! i \<noteq> 0)
         (List.product [0..<13] [0..<16]))"

definition sensor_text :: "sensor_snapshot \<Rightarrow> u32 \<Rightarrow> u64 \<Rightarrow> bytes" where
  "sensor_text v hz now =
     ascii ''],\"sensors\":{\"valid_mask\":'' @ number (sn_valid_mask v) @ ascii '',\"errors\":'' @ number (sn_errors v) @
     ascii '',\"age_ms\":'' @ number (age_ms hz now (sn_timestamp v)) @ ascii '',\"temperature_mc\":['' @
     signed_number (sn_temperature_mc v ! 0) @ ascii '','' @ signed_number (sn_temperature_mc v ! 1) @ ascii ''],\"voltage_uv\":['' @
     number (sn_voltage_uv v ! 0 ! 0) @ ascii '','' @ number (sn_voltage_uv v ! 0 ! 1) @ ascii '','' @
     number (sn_voltage_uv v ! 0 ! 2) @ ascii '','' @ number (sn_voltage_uv v ! 1 ! 0) @ ascii '','' @
     number (sn_voltage_uv v ! 1 ! 1) @ ascii '','' @ number (sn_voltage_uv v ! 1 ! 2) @
     ascii ''],\"som_current_ua\":'' @ signed_number (sn_som_current_ua v) @ ascii '',\"som_voltage_uv\":'' @
     number (sn_som_voltage_uv v) @ ascii '',\"som_power_uw\":'' @ number (sn_som_power_uw v) @ ascii ''}''"

definition stp_port_text :: "stp_port_status \<Rightarrow> bytes" where
  "stp_port_text q =
     ascii ''{\"state\":'' @ number (sp_state q) @ ascii '',\"role\":'' @ number (sp_role q) @ ascii '',\"link_up\":'' @
     json_bool (sp_link_up q) @ ascii '',\"path_cost\":'' @ number (sp_path_cost q) @ ascii '',\"bpdu_rx\":'' @
     number (sp_bpdu_rx q) @ ascii '',\"bpdu_tx\":'' @ number (sp_bpdu_tx q) @ ascii '',\"role_changes\":'' @
     number (sp_role_changes q) @ ascii ''}''"

definition stp_texts :: "stp_status \<Rightarrow> bytes list" where
  "stp_texts t =
     [ascii '',\"stp\":{\"enabled\":'' @ json_bool (ss_enabled t) @ ascii '',\"bridge_mac\":'', mac_hex (id_mac (ss_bridge_id t)),
      ascii '',\"version\":'' @ number (ss_version t) @ ascii '',\"fault\":'' @ json_bool (ss_fault t) @
        ascii '',\"rx_dropped\":'' @ number (ss_rx_dropped t) @ ascii '',\"tx_failed\":'' @ number (ss_tx_failed t),
      ascii '',\"bridge_priority\":'' @ number (id_priority (ss_bridge_id t)) @ ascii '',\"root_mac\":'', mac_hex (id_mac (ss_root_id t)),
      ascii '',\"root_priority\":'' @ number (id_priority (ss_root_id t)) @ ascii '',\"root_path_cost\":'' @
        number (ss_root_path_cost t) @ ascii '',\"is_root\":'' @ json_bool (ss_is_root t) @ ascii '',\"root_port\":'' @
        (if ss_is_root t then ascii ''-1'' else number (ss_root_port t)) @ ascii '',\"topology_changes\":'' @
        number (ss_topology_change_count t) @ ascii '',\"tcn_rx\":'' @ number (ss_tcn_rx t) @ ascii '',\"ports\":[''] @
     separated (map stp_port_text (stp_status.ss_port t)) @ [ascii '']}}'']"

definition stats_texts :: "stats_build \<Rightarrow> statistics_snapshot \<Rightarrow> sensor_snapshot \<Rightarrow> u32 \<Rightarrow> u64 \<Rightarrow> port_snapshot \<Rightarrow> stp_status \<Rightarrow>
    bytes list" where
  "stats_texts bld s v hz now ports stp =
     [stats_head s hz now] @ values_json (statistics_snapshot.ss_port s) @ [ascii '',\"banks\":[''] @
     separated (map (bank_text hz now) (ss_bank s)) @ [ascii '']'', ascii '',\"fabric_hz\":'' @ number (ss_fabric_hz s), speed_text ports] @
     (if STATS_DDR bld then [ascii '',\"ddr\":''] @ values_json (ss_ddr s) else []) @
     (if STATS_DEBUG bld then [ascii '',\"debug\":''] @ values_json [ss_debug s] else []) @
     [ascii '',\"timeouts\":[''] @ separated (timeout_texts s) @ [sensor_text v hz now] @ stp_texts stp"

definition web_stats :: "stats_build \<Rightarrow> nat \<Rightarrow> statistics_snapshot \<Rightarrow> sensor_snapshot \<Rightarrow> u32 \<Rightarrow> u64 \<Rightarrow> port_snapshot \<Rightarrow> stp_status \<Rightarrow> bytes" where
  "web_stats bld sz s v hz now ports stp = document sz (stats_texts bld s v hz now ports stp)"

section \<open>The ports\<close>

definition ports_text :: "port_snapshot \<Rightarrow> bytes" where
  "ports_text p =
     ascii ''{\"admin\":'' @ number (ps_admin p) @ ascii '',\"physical\":'' @ number (ps_physical p) @ ascii '',\"forwarding\":'' @
     number (ps_forwarding p) @ ascii '',\"advertise\":['' @ number (ps_advertise p ! 0) @ ascii '','' @
     number (ps_advertise p ! 1) @ ascii '','' @ number (ps_advertise p ! 2) @ ascii '','' @ number (ps_advertise p ! 3) @
     ascii ''],\"applied\":['' @ number (ps_applied p ! 0) @ ascii '','' @ number (ps_applied p ! 1) @ ascii '','' @
     number (ps_applied p ! 2) @ ascii '','' @ number (ps_applied p ! 3) @ ascii '']'' @ speed_text p @ ascii ''}''"

definition web_ports :: "nat \<Rightarrow> port_snapshot \<Rightarrow> bytes" where
  "web_ports sz p = document sz [ports_text p]"

section \<open>Lengths\<close>

definition total :: "bytes list \<Rightarrow> nat" where
  "total ts = sum_list (map length ts)"

lemma total_simps [simp]: "total [] = 0" "total (t # ts) = length t + total ts" "total (ts @ us) = total ts + total us"
  by (simp_all add: total_def)

lemma put_fold:
  assumes "\<not> w_failed w" and "length (w_text w) + total ts < w_size w"
  shows "fold put_text ts w = w\<lparr>w_text := w_text w @ concat ts\<rparr>"
  using assms by (induction ts arbitrary: w) (simp_all add: put_text_def)

lemma document_fits: "total ts < sz \<Longrightarrow> document sz ts = concat ts"
  by (simp add: document_def put_fold)

lemma total_map: "(\<And>x. x \<in> set xs \<Longrightarrow> length (f x) \<le> k) \<Longrightarrow> total (map f xs) \<le> length xs * k"
  by (induction xs) (auto intro: add_mono)

lemma total_separated: "total (separated ts) \<le> total ts + length ts"
proof (cases ts)
  case (Cons t us)
  have "total (map (\<lambda>t. 44 # t) us) = total us + length us" by (induction us) simp_all
  then show ?thesis by (simp add: Cons)
qed simp

lemma number_length: "length (number a) \<le> 3" "length (number b) \<le> 5" "length (number c) \<le> 10" "length (number d) \<le> 20"
  for a :: u8 and b :: u16 and c :: u32 and d :: u64
proof -
  show "length (number a) \<le> 3" by (rule length_dec_u8)
  show "length (number b) \<le> 5" by (rule length_dec_u16)
  have "unat c < 2 ^ 32" "unat d < 2 ^ 64" using unsigned_less [of c, where ?'a = nat] unsigned_less [of d, where ?'a = nat] by simp_all
  then show "length (number c) \<le> 10" "length (number d) \<le> 20" by (intro length_dec_le; simp)+
qed

lemma signed_length: "length (signed_number w) \<le> 11"
proof -
  have "- (2 ^ 31) \<le> sint w" "sint w < 2 ^ 31" using sint_ge [of w] sint_lt [of w] by simp_all
  then have "length (dec (nat (- sint w))) \<le> 10" "length (dec (nat (sint w))) \<le> 10" by (intro length_dec_le; simp)+
  then show ?thesis by (simp add: signed_number_def)
qed

lemma bool_length: "length (json_bool b) \<le> 5"
  by (rule length_json_bool)

lemma values_length:
  assumes "rows m n t"
  shows "total (values_json t) \<le> m * (23 * n + 3) + 2"
proof -
  have row: "total (value_row (r, row)) \<le> 23 * n + 3" if "length row = n" for r row
  proof -
    have "length (quoted (number v)) \<le> 22" for v :: u64 using number_length(4) [of v] by (simp add: quoted_def)
    then have "total (map (\<lambda>v. quoted (number v)) row) \<le> length row * 22" by (intro total_map)
    then show ?thesis using total_separated [of "map (\<lambda>v. quoted (number v)) row"] that by (simp add: value_row_def)
  qed
  have "total (concat (map value_row (enumerate k t))) \<le> length t * (23 * n + 3)" if "\<forall>r\<in>set t. length r = n" for k t
    using that
  proof (induction t arbitrary: k)
    case (Cons r t)
    then show ?case using row [of r k] Cons.IH [of "Suc k"] by (simp add: add_mono)
  qed simp
  from this [of t 0] show ?thesis using assms by (simp add: values_json_def rows_def)
qed

lemma head_length: "length (stats_head s hz now) \<le> 400"
  using bool_length [of "ss_available s"] number_length(3) [of "ss_capabilities s"] number_length(3) [of "ss_polls s"]
    number_length(3) [of "ss_late_polls s"] number_length(3) [of "ss_saturated_reads s"] number_length(3) [of "ss_read_timeouts s"]
    number_length(3) [of "ss_mailbox_release_timeouts s"] number_length(3) [of "ss_snapshot_response_timeouts s"]
    number_length(3) [of "ss_last_release_index s"] number_length(3) [of "ss_last_release_target_index s"]
    number_length(3) [of "ss_last_response_index s"] number_length(4) [of "age_ms hz now (ss_timestamp s)"]
  unfolding stats_head_def length_append length_ascii by simp

lemma bank_length: "length (bank_text hz now h) \<le> 49"
  using number_length(1) [of "bk_state h"] number_length(3) [of "bank_age hz now (bk_last_success h)"]
    number_length(3) [of "bk_clock_unavailable_events h"] number_length(3) [of "bk_active_clock_timeouts h"]
    number_length(3) [of "bk_hardware_status h"]
  unfolding bank_text_def length_append length_ascii by simp

lemma speed_length: "length (speed_text p) \<le> 51"
  using number_length(2) [of "ps_speed_mbps p ! 0"] number_length(2) [of "ps_speed_mbps p ! 1"] number_length(2) [of "ps_speed_mbps p ! 2"]
    number_length(2) [of "ps_speed_mbps p ! 3"] number_length(2) [of "ps_speed_mbps p ! 4"] number_length(2) [of "ps_speed_mbps p ! 5"]
  unfolding speed_text_def length_append length_ascii by simp

lemma timeout_length: "total (separated (timeout_texts s)) \<le> 208 * 30"
proof -
  let ?xs = "filter (\<lambda>(b, i). ss_release_timeout_by_index s ! b ! i \<noteq> 0 \<or> ss_response_timeout_by_index s ! b ! i \<noteq> 0)
    (List.product [0..<13] [0..<16])"
  have few: "length ?xs \<le> 208" by (rule order_trans [OF length_filter_le]) simp
  have "total (timeout_texts s) \<le> length ?xs * 29"
    unfolding timeout_texts_def
  proof (rule total_map)
    fix x assume "x \<in> set ?xs"
    then obtain b i where x: "x = (b, i)" "b < 13" "i < 16" by auto
    have "length (dec b) \<le> 2" "length (dec i) \<le> 2" using x by (intro length_dec_le; simp)+
    then show "length (case x of (b, i) \<Rightarrow> ascii ''['' @ dec b @ ascii '','' @ dec i @ ascii '','' @ number (ss_release_timeout_by_index s ! b ! i) @
         ascii '','' @ number (ss_response_timeout_by_index s ! b ! i) @ ascii '']'') \<le> 29"
      using number_length(3) [of "ss_release_timeout_by_index s ! b ! i"] number_length(3) [of "ss_response_timeout_by_index s ! b ! i"]
      by (simp add: x(1))
  qed
  moreover have "length (timeout_texts s) = length ?xs" by (simp add: timeout_texts_def)
  ultimately show ?thesis using total_separated [of "timeout_texts s"] few by linarith
qed

lemma sensor_length: "length (sensor_text v hz now) \<le> 340"
  using number_length(3) [of "sn_valid_mask v"] number_length(3) [of "sn_errors v"] number_length(4) [of "age_ms hz now (sn_timestamp v)"]
    signed_length [of "sn_temperature_mc v ! 0"] signed_length [of "sn_temperature_mc v ! 1"] signed_length [of "sn_som_current_ua v"]
    number_length(3) [of "sn_voltage_uv v ! 0 ! 0"] number_length(3) [of "sn_voltage_uv v ! 0 ! 1"] number_length(3) [of "sn_voltage_uv v ! 0 ! 2"]
    number_length(3) [of "sn_voltage_uv v ! 1 ! 0"] number_length(3) [of "sn_voltage_uv v ! 1 ! 1"] number_length(3) [of "sn_voltage_uv v ! 1 ! 2"]
    number_length(3) [of "sn_som_voltage_uv v"] number_length(3) [of "sn_som_power_uw v"]
  unfolding sensor_text_def length_append length_ascii by simp

lemma stp_port_length: "length (stp_port_text q) \<le> 140"
  using number_length(1) [of "sp_state q"] number_length(1) [of "sp_role q"] bool_length [of "sp_link_up q"]
    number_length(3) [of "sp_path_cost q"] number_length(3) [of "sp_bpdu_rx q"] number_length(3) [of "sp_bpdu_tx q"]
    number_length(3) [of "sp_role_changes q"]
  unfolding stp_port_text_def length_append length_ascii by simp

lemma stp_length:
  assumes "length (stp_status.ss_port t) = STP_NUM_PORTS"
  shows "total (stp_texts t) \<le> 1300"
proof -
  have "total (map stp_port_text (stp_status.ss_port t)) \<le> 5 * 140" using total_map [of "stp_status.ss_port t" stp_port_text 140] stp_port_length assms by simp
  then have "total (separated (map stp_port_text (stp_status.ss_port t))) \<le> 705"
    using total_separated [of "map stp_port_text (stp_status.ss_port t)"] assms by simp
  then show ?thesis
    using bool_length [of "ss_enabled t"] number_length(1) [of "ss_version t"] bool_length [of "ss_fault t"] number_length(3) [of "ss_rx_dropped t"]
      number_length(3) [of "ss_tx_failed t"] number_length(2) [of "id_priority (ss_bridge_id t)"] number_length(2) [of "id_priority (ss_root_id t)"]
      number_length(3) [of "ss_root_path_cost t"] bool_length [of True] bool_length [of False] number_length(1) [of "ss_root_port t"]
      number_length(3) [of "ss_topology_change_count t"] number_length(3) [of "ss_tcn_rx t"]
    by (simp add: stp_texts_def mac_hex_def length_json_mac)
qed

lemma stats_total:
  assumes "statistics_wf s" and "length (stp_status.ss_port stp) = STP_NUM_PORTS"
  shows "total (stats_texts bld s v hz now ports stp) < 24576"
proof -
  have banks: "total (separated (map (bank_text hz now) (ss_bank s))) \<le> 13 * 50"
    using total_map [of "ss_bank s" "bank_text hz now" 49] total_separated [of "map (bank_text hz now) (ss_bank s)"] bank_length assms(1)
    by (simp add: statistics_wf_def)
  have tables: "total (values_json (statistics_snapshot.ss_port s)) \<le> 1200" "total (values_json (ss_ddr s)) \<le> 800" "total (values_json [ss_debug s]) \<le> 400"
    using values_length [of 6 8 "statistics_snapshot.ss_port s"] values_length [of 4 8 "ss_ddr s"] values_length [of 1 16 "[ss_debug s]"] assms(1)
    by (simp_all add: statistics_wf_def rows_def)
  show ?thesis
    using head_length [of s hz now] banks tables speed_length [of ports] timeout_length [of s] sensor_length [of v hz now] stp_length [OF assms(2)]
      number_length(3) [of "ss_fabric_hz s"]
    by (simp add: stats_texts_def)
qed

text \<open>C34: The statistics document always fits. For snapshots of the declared shape, whatever the counters, clock and build options, the
  24576 bytes of the server's response buffer hold the whole document, so the request never turns into an error; and
  the age shown for a bank is the one the SNMP agent reports.\<close>
theorem web_stats_fits:
  assumes "statistics_wf s" and "length (stp_status.ss_port stp) = STP_NUM_PORTS"
  shows "web_stats bld 24576 s v hz now ports stp = concat (stats_texts bld s v hz now ports stp) \<and>
    web_stats bld 24576 s v hz now ports stp \<noteq> [] \<and> bank_age hz now success = age now success hz"
proof -
  have doc: "web_stats bld 24576 s v hz now ports stp = concat (stats_texts bld s v hz now ports stp)"
    unfolding web_stats_def by (rule document_fits [OF stats_total [OF assms]])
  have "stats_head s hz now \<noteq> []" by (simp add: stats_head_def ascii_def)
  then have "concat (stats_texts bld s v hz now ports stp) \<noteq> []" by (simp add: stats_texts_def)
  moreover have "bank_age hz now success = age now success hz"
  proof (cases "hz \<noteq> 0 \<and> success \<noteq> 0 \<and> success \<le> now")
    case True
    have "now - success \<noteq> - 1"
    proof
      assume "now - success = - 1"
      then have "unat now - unat success = 2 ^ 64 - 1" using True unat_sub [of success now] by (simp add: unsigned_minus_1_eq_mask mask_eq_exp_minus_1)
      moreover have "unat now < 2 ^ 64" using unsigned_less [of now, where ?'a = nat] by simp
      moreover have "0 < unat success" using True by (simp add: unat_gt_0)
      ultimately show False by simp
    qed
    then show ?thesis using True by (auto simp: bank_age_def age_def Let_def not_less)
  next
    case False
    then show ?thesis by (auto simp: bank_age_def age_def Let_def)
  qed
  ultimately show ?thesis using doc by simp
qed

lemma web_ports_fits: "web_ports 24576 p = ports_text p"
proof -
  have "length (ports_text p) \<le> 300"
    using number_length(1) [of "ps_admin p"] number_length(1) [of "ps_physical p"] number_length(1) [of "ps_forwarding p"]
      number_length(1) [of "ps_advertise p ! 0"] number_length(1) [of "ps_advertise p ! 1"] number_length(1) [of "ps_advertise p ! 2"]
      number_length(1) [of "ps_advertise p ! 3"] number_length(1) [of "ps_applied p ! 0"] number_length(1) [of "ps_applied p ! 1"]
      number_length(1) [of "ps_applied p ! 2"] number_length(1) [of "ps_applied p ! 3"] speed_length [of p]
    unfolding ports_text_def length_append length_ascii by simp
  then show ?thesis using document_fits [of "[ports_text p]" 24576] by (simp add: web_ports_def)
qed

section \<open>Examples\<close>

definition sample_snapshot :: statistics_snapshot where
  "sample_snapshot = \<lparr>ss_bank = replicate 13 \<lparr>bk_last_success = 1, bk_clock_unavailable_events = 0, bk_active_clock_timeouts = 0,
       bk_hardware_status = 0, bk_state = 0\<rparr>,
     ss_port = replicate 6 (replicate 8 (- 1)), ss_ddr = replicate 4 (replicate 8 (- 1)), ss_debug = replicate 16 0, ss_fabric_hz = 156250000,
     ss_timestamp = 1, ss_polls = 0, ss_late_polls = 0, ss_saturated_reads = 0, ss_read_timeouts = 0, ss_capabilities = 0,
     ss_mailbox_release_timeouts = 0, ss_snapshot_response_timeouts = 0, ss_release_timeout_by_index = replicate 13 (replicate 16 (- 1)),
     ss_response_timeout_by_index = replicate 13 (replicate 16 (- 1)), ss_last_release_index = 0, ss_last_release_target_index = 0,
     ss_last_response_index = 0, ss_available = True\<rparr>"

theorem web_stats_fits_witness:
  "\<forall>v p. web_stats \<lparr>STATS_DDR = True, STATS_DEBUG = True\<rparr> 24576 sample_snapshot v 100 200 p zero_status \<noteq> []"
proof (intro allI)
  fix v p
  have "statistics_wf sample_snapshot" by (simp add: statistics_wf_def sample_snapshot_def)
  moreover have "length (stp_status.ss_port zero_status) = STP_NUM_PORTS" by (simp add: zero_status_def)
  ultimately show "web_stats \<lparr>STATS_DDR = True, STATS_DEBUG = True\<rparr> 24576 sample_snapshot v 100 200 p zero_status \<noteq> []"
    using web_stats_fits by blast
qed

end
