(* ===== verification/Web_Parse.thy ===== *)
theory Web_Parse
  imports Config_Web
begin

text \<open>
  The HTTP request parser, \<open>web_parse\<close> of \<^verbatim>\<open>software/r5/src/web_protocol.c\<close>: the request line, the header fields the
  server uses, the framing by \<open>Content-Length\<close>, and the three request bodies. The receive loop calls it again
  after every fragment; the theorems show that the fragmentation does not matter and what an accepted request carries.
\<close>

section \<open>The C library\<close>

text \<open>\<open>strstr\<close>: what is before the first occurrence, and what is after it.\<close>

fun cut_sub :: "bytes \<Rightarrow> bytes \<Rightarrow> (bytes \<times> bytes) option" where
  "cut_sub pat s =
     (if take (length pat) s = pat then Some ([], drop (length pat) s)
      else case s of [] \<Rightarrow> None | c # s \<Rightarrow> map_option (\<lambda>(a, r). (c # a, r)) (cut_sub pat s))"

declare cut_sub.simps [simp del]

definition is_space :: "u8 \<Rightarrow> bool" where
  "is_space b \<longleftrightarrow> b = 32 \<or> 9 \<le> b \<and> b \<le> 13"

text \<open>The \<open>scanf\<close> directive \<open>%Ns\<close>.\<close>

definition scan_word :: "nat \<Rightarrow> bytes \<Rightarrow> (bytes \<times> bytes) option" where
  "scan_word n s =
     (let s = dropWhile is_space s; w = take n (takeWhile (\<lambda>b. \<not> is_space b) s)
      in if w = [] then None else Some (w, drop (length w) s))"

definition lower :: "u8 \<Rightarrow> u8" where
  "lower b = (if 65 \<le> b \<and> b \<le> 90 then b + 32 else b)"

text \<open>\<open>strtoul\<close> in base 10 on a string that starts with a digit: the value, capped at the largest \<open>unsigned long\<close>, and the rest.\<close>

definition strtoul :: "bytes \<Rightarrow> nat \<times> bytes" where
  "strtoul s = (nat (min (int (dec_value (takeWhile is_digit s))) (2 ^ 32 - 1)), dropWhile is_digit s)"

section \<open>The request\<close>

record web_request =
  wr_method :: bytes
  wr_path :: bytes
  wr_authorization :: bytes
  wr_mask :: nat
  wr_advertise :: bytes
  wr_settings :: switch_config
  wr_credentials :: bool
  wr_stp_supplied :: bool

datatype web_result = Incomplete | Invalid | Complete web_request

definition zero_settings :: switch_config where
  "zero_settings = \<lparr>cfg_mac = replicate 5 (replicate 6 0), cfg_username = replicate 32 0, cfg_password_salt = replicate 16 0,
     cfg_password_hash = replicate 32 0, cfg_password_rounds = 0, cfg_admin = 0, cfg_advertise = replicate 4 0, cfg_sfp_speed = 0,
     cfg_dhcp = False, cfg_stp_enabled = False, cfg_stp_version = 0, cfg_ip = replicate 4 0, cfg_netmask = replicate 4 0,
     cfg_gateway = replicate 4 0\<rparr>"

definition request_line :: "bytes \<Rightarrow> web_request option" where
  "request_line s =
     (case scan_word 7 s of None \<Rightarrow> None | Some (method, s) \<Rightarrow>
      case scan_word 63 s of None \<Rightarrow> None | Some (path, s) \<Rightarrow>
      case scan_word 15 s of None \<Rightarrow> None | Some (version, s) \<Rightarrow>
        if dropWhile is_space s \<noteq> [] \<or> version \<noteq> ascii ''HTTP/1.1'' \<and> version \<noteq> ascii ''HTTP/1.0'' then None
        else Some \<lparr>wr_method = method, wr_path = path, wr_authorization = [], wr_mask = 0, wr_advertise = replicate 4 0,
          wr_settings = zero_settings, wr_credentials = False, wr_stp_supplied = False\<rparr>)"

text \<open>The locals of the header loop.\<close>

record header_state =
  hs_request :: web_request
  hs_body :: nat
  hs_seen :: bool
  hs_marker :: bool
  hs_auth_seen :: bool

definition body_limit :: "bytes \<Rightarrow> nat" where
  "body_limit path = (if path = ascii ''/api/config'' then 512 else 64)"

definition header_line :: "bytes \<Rightarrow> header_state \<Rightarrow> header_state option" where
  "header_line p h =
     (case cut_at 58 p of (_, None) \<Rightarrow> None | (name, Some value) \<Rightarrow>
      let name = map lower name; value = dropWhile (\<lambda>b. b = 32 \<or> b = 9) value in
      if name = ascii ''authorization'' then
        (if hs_auth_seen h \<or> 256 \<le> length value then None
         else Some (h\<lparr>hs_auth_seen := True, hs_request := (hs_request h)\<lparr>wr_authorization := value\<rparr>\<rparr>))
      else if name = ascii ''transfer-encoding'' then None
      else if name = ascii ''content-length'' then
        (if hs_seen h \<or> value = [] \<or> \<not> is_digit (hd value) then None
         else case strtoul value of (n, tail) \<Rightarrow>
           if tail \<noteq> [] \<or> body_limit (wr_path (hs_request h)) < n then None
           else Some (h\<lparr>hs_seen := True, hs_body := n\<rparr>))
      else if name = ascii ''x-kr260-request'' \<and> value = ascii ''1'' then Some (h\<lparr>hs_marker := True\<rparr>)
      else Some h)"

text \<open>\<open>p\<close> is what is left of the header block, up to the blank line.\<close>

lemma cut_sub_simps:
  "pat \<noteq> [] \<Longrightarrow> cut_sub pat [] = None"
  "cut_sub pat (c # s) = (if take (length pat) (c # s) = pat then Some ([], drop (length pat) (c # s))
     else map_option (\<lambda>(a, r). (c # a, r)) (cut_sub pat s))"
  by (simp_all add: cut_sub.simps [of pat "[]"] cut_sub.simps [of pat "c # s"])

lemma cut_sub_parts: "pat \<noteq> [] \<Longrightarrow> cut_sub pat s = Some (a, r) \<Longrightarrow> s = a @ pat @ r"
proof (induction s arbitrary: a)
  case (Cons c s)
  show ?case
  proof (cases "take (length pat) (c # s) = pat")
    case True
    then have "a = []" "r = drop (length pat) (c # s)" using Cons.prems(2) by (simp_all add: cut_sub_simps)
    then show ?thesis using True append_take_drop_id [of "length pat" "c # s"] by simp
  next
    case False
    then obtain a' where "cut_sub pat s = Some (a', r)" "a = c # a'" using Cons.prems(2) by (auto simp: cut_sub_simps)
    then show ?thesis using Cons.IH Cons.prems(1) by simp
  qed
qed (simp add: cut_sub_simps)

function header_loop :: "bytes \<Rightarrow> header_state \<Rightarrow> header_state option" where
  "header_loop p h =
     (if p = [] then Some h
      else case cut_sub [13, 10] p of
        None \<Rightarrow> header_line p h
      | Some (line, nxt) \<Rightarrow> (case header_line line h of None \<Rightarrow> None | Some h \<Rightarrow> header_loop nxt h))"
  by pat_completeness auto
termination
  by (relation "measure (length \<circ> fst)") (auto dest!: cut_sub_parts [rotated])

declare header_loop.simps [simp del]

section \<open>The port form\<close>

text \<open>One field of the form: the bits seen so far and the request.\<close>

definition port_field :: "bytes \<Rightarrow> nat option" where
  "port_field key =
     (if key = ascii ''mask'' then Some 0 else if key = ascii ''adv0'' then Some 1 else if key = ascii ''adv1'' then Some 2
      else if key = ascii ''adv2'' then Some 3 else if key = ascii ''adv3'' then Some 4 else None)"

definition set_field :: "nat \<Rightarrow> nat \<Rightarrow> web_request \<Rightarrow> web_request option" where
  "set_field k n r =
     (if k = 0 then (if 31 < n then None else Some (r\<lparr>wr_mask := n\<rparr>))
      else if n = 0 \<or> 7 < n then None
      else Some (r\<lparr>wr_advertise := (wr_advertise r)[k - 1 := word_of_nat n]\<rparr>))"

function ports_form :: "bytes \<Rightarrow> nat set \<times> web_request \<Rightarrow> (nat set \<times> web_request) option" where
  "ports_form p s =
     (if p = [] then Some s
      else case cut_at 61 p of (_, None) \<Rightarrow> None | (key, Some value) \<Rightarrow>
      case port_field key of None \<Rightarrow> None | Some k \<Rightarrow>
        if k \<in> fst s \<or> value = [] \<or> \<not> is_digit (hd value) then None
        else case strtoul value of (n, tail) \<Rightarrow>
          if tail \<noteq> [] \<and> hd tail \<noteq> 38 then None
          else case set_field k n (snd s) of None \<Rightarrow> None | Some r \<Rightarrow>
            if tail \<noteq> [] \<and> tl tail = [] then None else ports_form (tl tail) (insert k (fst s), r))"
  by pat_completeness auto
termination
proof (relation "measure (length \<circ> fst)")
  show "((tl y', insert k (fst s), r), p, s) \<in> measure (length \<circ> fst)"
    if "(key, x) = cut_at 61 p" "x = Some v" "(n, y') = strtoul v" for p s key x v n y' k r
  proof -
    have "cut_at 61 p = (key, Some v)" "strtoul v = (n, y')" using that by simp_all
    then show ?thesis using cut_rest_length [of 61 p key v] length_dropWhile_le [of is_digit v] by (auto simp: strtoul_def)
  qed
qed simp

declare ports_form.simps [simp del]

section \<open>Parsing\<close>

definition post_body :: "bytes \<Rightarrow> web_request \<Rightarrow> web_result" where
  "post_body body r =
     (if wr_path r = ascii ''/api/mac-table'' then (if body = ascii ''refresh=1'' then Complete r else Invalid)
      else if wr_path r = ascii ''/api/config'' then
        (case config_form body of None \<Rightarrow> Invalid | Some (c, credentials, stp) \<Rightarrow>
           Complete (r\<lparr>wr_settings := c, wr_credentials := credentials, wr_stp_supplied := stp\<rparr>))
      else case ports_form body ({}, r) of None \<Rightarrow> Invalid | Some (given, r) \<Rightarrow>
        if given \<noteq> {0} \<and> given \<noteq> {0, 1, 2} \<and> given \<noteq> {0, 1, 2, 3, 4} then Invalid
        else if given \<noteq> {0} \<and> wr_advertise r ! 0 \<noteq> 4 then Invalid
        else Complete r)"

text \<open>What follows the header block, once its header fields are known.\<close>

definition web_body :: "bytes \<Rightarrow> header_state \<Rightarrow> web_result" where
  "web_body body h =
     (let r = hs_request h in
      if length body < hs_body h then Incomplete
      else if length body \<noteq> hs_body h then Invalid
      else if wr_method r = ascii ''POST'' then
        (if \<not> hs_marker h \<or> \<not> hs_seen h \<or> hs_body h = 0 then Invalid else post_body body r)
      else if hs_body h \<noteq> 0 then Invalid else Complete r)"

definition header_block :: "bytes \<Rightarrow> header_state option" where
  "header_block head =
     (let (line, rest) = (case cut_sub [13, 10] head of None \<Rightarrow> (head, []) | Some lr \<Rightarrow> lr) in
      case request_line line of None \<Rightarrow> None | Some r \<Rightarrow>
        header_loop rest \<lparr>hs_request = r, hs_body = 0, hs_seen = False, hs_marker = False, hs_auth_seen = False\<rparr>)"

definition web_parse :: "bytes \<Rightarrow> web_result" where
  "web_parse data =
     (if 2048 \<le> length data \<or> 0 \<in> set data then Invalid
      else case cut_sub [13, 10, 13, 10] data of
        None \<Rightarrow> Incomplete
      | Some (head, body) \<Rightarrow> (case header_block head of None \<Rightarrow> Invalid | Some h \<Rightarrow> web_body body h))"

section \<open>Framing\<close>

lemma cut_sub_append:
  assumes "pat \<noteq> []" and "cut_sub pat s = Some (a, r)"
  shows "cut_sub pat (s @ x) = Some (a, r @ x)"
  using assms(2)
proof (induction s arbitrary: a)
  case (Cons c s)
  have len: "length pat \<le> length (c # s)" using cut_sub_parts [OF assms(1) Cons.prems] by (metis length_append trans_le_add1 trans_le_add2 le_refl)
  then have take: "take (length pat) ((c # s) @ x) = take (length pat) (c # s)" "drop (length pat) ((c # s) @ x) = drop (length pat) (c # s) @ x"
    by (simp_all only: take_append drop_append) simp_all
  show ?case
  proof (cases "take (length pat) (c # s) = pat")
    case True
    then show ?thesis using Cons.prems take by (simp add: cut_sub_simps)
  next
    case False
    then obtain a' where "cut_sub pat s = Some (a', r)" "a = c # a'" using Cons.prems by (auto simp: cut_sub_simps)
    then show ?thesis using Cons.IH False take(1) by (simp add: cut_sub_simps)
  qed
qed (use assms in \<open>simp add: cut_sub_simps\<close>)

lemma web_parse_Complete:
  assumes "web_parse data = Complete r"
  obtains head body h where "length data < 2048" "0 \<notin> set data" "cut_sub [13, 10, 13, 10] data = Some (head, body)"
    "header_block head = Some h" "web_body body h = Complete r" "length body = hs_body h"
  using assms
  by (auto simp: web_parse_def web_body_def Let_def split: if_splits option.splits prod.splits)

text \<open>C11: The parser does not depend on how a request arrives. Every proper prefix of an accepted request asks for more data, so the
  receive loop accepts it however it is fragmented; and a request followed by anything (pipelining, a longer body) is refused.\<close>
theorem web_parse_framing:
  assumes "web_parse data = Complete r"
  shows "(k < length data \<longrightarrow> web_parse (take k data) = Incomplete) \<and> (x \<noteq> [] \<longrightarrow> web_parse (data @ x) = Invalid)"
proof -
  obtain head body h where c: "length data < 2048" "0 \<notin> set data" "cut_sub [13, 10, 13, 10] data = Some (head, body)"
    "header_block head = Some h" "web_body body h = Complete r" "length body = hs_body h"
    by (rule web_parse_Complete [OF assms])
  have "k < length data \<longrightarrow> web_parse (take k data) = Incomplete"
  proof
    assume k: "k < length data"
    have safe: "0 \<notin> set (take k data)" using c(2) by (meson in_set_takeD)
    show "web_parse (take k data) = Incomplete"
    proof (cases "cut_sub [13, 10, 13, 10] (take k data)")
      case None
      then show ?thesis using c(1) safe by (simp add: web_parse_def)
    next
      case (Some ab)
      obtain a b where ab: "ab = (a, b)" by (cases ab)
      have "cut_sub [13, 10, 13, 10] (take k data @ drop k data) = Some (a, b @ drop k data)"
        by (rule cut_sub_append) (simp_all add: Some ab)
      then have p: "a = head" "body = b @ drop k data" using c(3) by simp_all
      then have "length b < hs_body h" using c(6) k by auto
      then show ?thesis using c(1,4) safe by (simp add: web_parse_def Some ab p(1) web_body_def Let_def)
    qed
  qed
  moreover have "x \<noteq> [] \<longrightarrow> web_parse (data @ x) = Invalid"
  proof
    assume "x \<noteq> []"
    have "cut_sub [13, 10, 13, 10] (data @ x) = Some (head, body @ x)" by (rule cut_sub_append) (simp_all add: c(3))
    then show "web_parse (data @ x) = Invalid" using \<open>x \<noteq> []\<close> c(4,6) by (simp add: web_parse_def web_body_def)
  qed
  ultimately show ?thesis by blast
qed

section \<open>What an accepted request carries\<close>

lemma scan_word_length: "scan_word n s = Some (w, r) \<Longrightarrow> length w \<le> n"
  by (auto simp: scan_word_def Let_def split: if_splits)

definition request_fits :: "web_request \<Rightarrow> bool" where
  "request_fits r \<longleftrightarrow> length (wr_method r) \<le> 7 \<and> length (wr_path r) \<le> 63 \<and> length (wr_authorization r) \<le> 255"

lemma request_line_shape:
  "request_line s = Some r \<Longrightarrow> request_fits r \<and> wr_mask r = 0 \<and> wr_advertise r = replicate 4 0"
  by (auto simp: request_line_def request_fits_def dest!: scan_word_length split: option.splits if_splits)

definition header_inv :: "header_state \<Rightarrow> bool" where
  "header_inv h \<longleftrightarrow> request_fits (hs_request h) \<and> wr_mask (hs_request h) = 0 \<and> wr_advertise (hs_request h) = replicate 4 0 \<and>
     hs_body h \<le> 512"

lemma header_line_inv: "header_line p h = Some h' \<Longrightarrow> header_inv h \<Longrightarrow> header_inv h'"
  by (auto simp: header_line_def header_inv_def request_fits_def body_limit_def Let_def split: option.splits if_splits prod.splits)

lemma header_loop_inv: "header_loop p h = Some h' \<Longrightarrow> header_inv h \<Longrightarrow> header_inv h'"
proof (induction p h rule: header_loop.induct)
  case (1 p h)
  show ?case
  proof (cases "p = []")
    case True
    then show ?thesis using 1(2,3) by (simp add: header_loop.simps [of "[]"])
  next
    case False
    show ?thesis
    proof (cases "cut_sub [13, 10] p")
      case None
      then show ?thesis using 1(2,3) False header_line_inv by (simp add: header_loop.simps [of p])
    next
      case (Some ln)
      obtain l nxt where ln: "ln = (l, nxt)" by (cases ln)
      obtain g where g: "header_line l h = Some g" "header_loop nxt g = Some h'"
        using 1(2) False Some ln by (auto simp: header_loop.simps [of p] split: option.splits)
      show ?thesis by (rule 1(1) [OF False Some ln [symmetric] g]) (rule header_line_inv [OF g(1) 1(3)])
    qed
  qed
qed

lemma header_block_inv: "header_block head = Some h \<Longrightarrow> header_inv h"
proof -
  assume "header_block head = Some h"
  then obtain r rest where r: "request_line (case cut_sub [13, 10] head of None \<Rightarrow> head | Some lr \<Rightarrow> fst lr) = Some r"
    "header_loop rest \<lparr>hs_request = r, hs_body = 0, hs_seen = False, hs_marker = False, hs_auth_seen = False\<rparr> = Some h"
    by (auto simp: header_block_def Let_def split: option.splits prod.splits)
  show "header_inv h"
    by (rule header_loop_inv [OF r(2)]) (use request_line_shape [OF r(1)] in \<open>simp add: header_inv_def\<close>)
qed

text \<open>The port form: which fields were given, and their values.\<close>

definition ports_inv :: "nat set \<times> web_request \<Rightarrow> bool" where
  "ports_inv s \<longleftrightarrow> request_fits (snd s) \<and> wr_mask (snd s) \<le> 31 \<and> length (wr_advertise (snd s)) = 4 \<and>
     (\<forall>i<4. if Suc i \<in> fst s then 1 \<le> wr_advertise (snd s) ! i \<and> wr_advertise (snd s) ! i \<le> 7 else wr_advertise (snd s) ! i = 0)"

lemma set_field_inv:
  assumes "set_field k n r = Some r'" and "ports_inv (given, r)" and "k \<le> 4"
  shows "ports_inv (insert k given, r')"
proof (cases "k = 0")
  case True
  then show ?thesis using assms(1,2) by (auto simp: set_field_def ports_inv_def request_fits_def split: if_splits)
next
  case False
  then have r': "r' = r\<lparr>wr_advertise := (wr_advertise r)[k - 1 := word_of_nat n]\<rparr>" and n: "1 \<le> n" "n \<le> 7"
    using assms(1) by (auto simp: set_field_def split: if_splits)
  have w: "1 \<le> (word_of_nat n :: u8)" "(word_of_nat n :: u8) \<le> 7"
    using n by (simp_all add: word_le_nat_alt unat_of_nat take_bit_nat_eq_self)
  show ?thesis
    using assms(2,3) False w by (auto simp: r' ports_inv_def request_fits_def nth_list_update less_Suc_eq)
qed

lemma config_form_valid: "config_form body = Some (c, credentials, stp) \<Longrightarrow> config_valid c \<and> cfg_wf c"
proof -
  assume form: "config_form body = Some (c, credentials, stp)"
  then obtain seen where loop: "form_loop body (config_defaults, {}) = Some (c, seen)" and "config_valid c"
    by (auto simp: config_form_def Let_def split: option.splits if_splits)
  moreover have "form_inv (config_defaults, {})"
    using config_defaults_wf by (simp add: form_inv_def config_defaults_def factory_mac_def)
  ultimately show ?thesis using form_loop_inv [OF loop] by (simp add: form_inv_def)
qed

lemma port_field_le: "port_field key = Some k \<Longrightarrow> k \<le> 4"
  by (auto simp: port_field_def split: if_splits)

lemma ports_form_step:
  assumes "ports_form p s = Some s'" and "p \<noteq> []"
  obtains key v k n t r where "(key, Some v) = cut_at 61 p" "port_field key = Some k" "(n, t) = strtoul v"
    "set_field k n (snd s) = Some r" "ports_form (tl t) (insert k (fst s), r) = Some s'"
    "\<not> (k \<in> fst s \<or> v = [] \<or> \<not> is_digit (hd v))" "\<not> (t \<noteq> [] \<and> hd t \<noteq> 38)" "\<not> (t \<noteq> [] \<and> tl t = [])"
  using assms by (subst (asm) ports_form.simps) (auto split: if_splits option.splits prod.splits)

lemma ports_form_inv: "ports_form p s = Some s' \<Longrightarrow> ports_inv s \<Longrightarrow> ports_inv s'"
proof (induction p s rule: ports_form.induct)
  case (1 p s)
  show ?case
  proof (cases "p = []")
    case True
    then show ?thesis using 1(2,3) by (simp add: ports_form.simps [of "[]"])
  next
    case False
    obtain key v k n t r where st: "(key, Some v) = cut_at 61 p" "port_field key = Some k" "(n, t) = strtoul v"
      "set_field k n (snd s) = Some r" "ports_form (tl t) (insert k (fst s), r) = Some s'"
      "\<not> (k \<in> fst s \<or> v = [] \<or> \<not> is_digit (hd v))" "\<not> (t \<noteq> [] \<and> hd t \<noteq> 38)" "\<not> (t \<noteq> [] \<and> tl t = [])"
      by (rule ports_form_step [OF 1(2) False])
    have "ports_inv (insert k (fst s), r)" by (rule set_field_inv [OF st(4)]) (use 1(3) port_field_le [OF st(2)] in simp_all)
    then show ?thesis using 1(1) [OF False st(1) refl st(2,6,3,7,4,8,5)] by simp
  qed
qed

text \<open>What the port form says: its fields, in any order.\<close>

definition port_keys :: "bytes list" where
  "port_keys = [ascii ''mask'', ascii ''adv0'', ascii ''adv1'', ascii ''adv2'', ascii ''adv3'']"

definition port_value :: "web_request \<Rightarrow> nat \<Rightarrow> nat" where
  "port_value r k = (if k = 0 then wr_mask r else unat (wr_advertise r ! (k - 1)))"

lemma port_field_iff: "port_field key = Some k \<longleftrightarrow> k < 5 \<and> key = port_keys ! k"
proof
  assume "port_field key = Some k"
  then show "k < 5 \<and> key = port_keys ! k" by (auto simp: port_field_def port_keys_def split: if_splits)
next
  assume k: "k < 5 \<and> key = port_keys ! k"
  then consider "k = 0" | "k = 1" | "k = 2" | "k = 3" | "k = 4" by linarith
  then show "port_field key = Some k" using k by cases (simp_all add: port_field_def port_keys_def ascii_def)
qed

lemma cut_parts: "cut_at ch s = (a, Some r) \<Longrightarrow> s = a @ ch # r"
  using takeWhile_dropWhile_id [of "\<lambda>b. b \<noteq> ch" s] by (auto simp: cut_at_def dropWhile_eq_Cons_conv split: list.splits)

lemma set_field_value:
  assumes "set_field k n r = Some r'" and "length (wr_advertise r) = 4" and "k \<le> 4"
  shows "port_value r' k = n" and "j \<noteq> k \<Longrightarrow> port_value r' j = port_value r j"
  using assms by (auto simp: set_field_def port_value_def unat_of_nat take_bit_nat_eq_self split: if_splits)

lemma form_query_Cons: "form_query ((k, v) # fs) = k @ 61 # v @ (if fs = [] then [] else 38 # form_query fs)"
  by (cases fs) simp_all

lemma ports_form_fields:
  "ports_form p s = Some s' \<Longrightarrow> ports_inv s \<Longrightarrow>
    \<exists>fs. p = form_query fs \<and> distinct (map fst fs) \<and> fst s' = fst s \<union> {k. \<exists>kv\<in>set fs. port_field (fst kv) = Some k} \<and>
      (\<forall>kv\<in>set fs. \<exists>k. port_field (fst kv) = Some k \<and> k \<notin> fst s \<and> snd kv \<noteq> [] \<and> list_all is_digit (snd kv) \<and>
         port_value (snd s') k = dec_value (snd kv)) \<and>
      (\<forall>k\<in>fst s. port_value (snd s') k = port_value (snd s) k)"
proof (induction p s rule: ports_form.induct)
  case (1 p s)
  show ?case
  proof (cases "p = []")
    case True
    then show ?thesis using 1(2) by (intro exI [of _ "[]"]) (simp add: ports_form.simps [of "[]"])
  next
    case False
    obtain key v k n t r where st: "(key, Some v) = cut_at 61 p" "port_field key = Some k" "(n, t) = strtoul v"
      "set_field k n (snd s) = Some r" "ports_form (tl t) (insert k (fst s), r) = Some s'"
      "\<not> (k \<in> fst s \<or> v = [] \<or> \<not> is_digit (hd v))" "\<not> (t \<noteq> [] \<and> hd t \<noteq> 38)" "\<not> (t \<noteq> [] \<and> tl t = [])"
      by (rule ports_form_step [OF 1(2) False])
    let ?ds = "takeWhile is_digit v"
    have k: "k \<le> 4" by (rule port_field_le [OF st(2)])
    have adv: "length (wr_advertise (snd s)) = 4" using 1(3) by (simp add: ports_inv_def)
    have p: "p = key @ 61 # v" by (rule cut_parts) (simp flip: st(1))
    have vt: "v = ?ds @ t" "?ds \<noteq> []" "list_all is_digit ?ds" "n = nat (min (int (dec_value ?ds)) (2 ^ 32 - 1))"
      using st(3,6) by (auto simp: strtoul_def list_all_iff takeWhile_eq_Nil_iff dest: set_takeWhileD)
    have "n \<le> 31" using st(4) by (auto simp: set_field_def split: if_splits)
    then have n: "n = dec_value ?ds" using vt(4) by (auto simp: min_def split: if_splits)
    have "ports_inv (insert k (fst s), r)" by (rule set_field_inv [OF st(4)]) (use 1(3) k in simp_all)
    from 1(1) [OF False st(1) refl st(2,6,3,7,4,8,5) this]
    obtain fs where fs: "tl t = form_query fs" "distinct (map fst fs)" "fst s' = insert k (fst s) \<union> {k. \<exists>kv\<in>set fs. port_field (fst kv) = Some k}"
        "\<And>kv. kv \<in> set fs \<Longrightarrow> \<exists>j. port_field (fst kv) = Some j \<and> j \<notin> insert k (fst s) \<and> snd kv \<noteq> [] \<and> list_all is_digit (snd kv) \<and>
           port_value (snd s') j = dec_value (snd kv)"
        "\<And>j. j \<in> insert k (fst s) \<Longrightarrow> port_value (snd s') j = port_value r j"
      by auto
    have t: "t = (if fs = [] then [] else 38 # form_query fs)"
      using fs(1) st(7,8) form_query_nonempty [of fs] by (cases t) auto
    have "p = form_query ((key, ?ds) # fs)" unfolding p form_query_Cons t [symmetric] using vt(1) by simp
    moreover have "key \<notin> set (map fst fs)" using fs(4) st(2) by fastforce
    moreover have "port_value (snd s') k = dec_value ?ds" using fs(5) [of k] set_field_value(1) [OF st(4) adv k] n by simp
    moreover have "port_value (snd s') j = port_value (snd s) j" if "j \<in> fst s" for j
      using fs(5) [of j] set_field_value(2) [OF st(4) adv k, of j] st(6) that by auto
    ultimately show ?thesis
      using fs(2,3,4) st(2,6) vt(2,3) by (intro exI [of _ "(key, ?ds) # fs"]) fastforce
  qed
qed

lemma ports_form_keeps: "ports_form p s = Some s' \<Longrightarrow> wr_method (snd s') = wr_method (snd s) \<and> wr_path (snd s') = wr_path (snd s)"
proof (induction p s rule: ports_form.induct)
  case (1 p s)
  show ?case
  proof (cases "p = []")
    case True
    then show ?thesis using 1(2) by (simp add: ports_form.simps [of "[]"])
  next
    case False
    obtain key v k n t r where st: "(key, Some v) = cut_at 61 p" "port_field key = Some k" "(n, t) = strtoul v"
      "set_field k n (snd s) = Some r" "ports_form (tl t) (insert k (fst s), r) = Some s'"
      "\<not> (k \<in> fst s \<or> v = [] \<or> \<not> is_digit (hd v))" "\<not> (t \<noteq> [] \<and> hd t \<noteq> 38)" "\<not> (t \<noteq> [] \<and> tl t = [])"
      by (rule ports_form_step [OF 1(2) False])
    from 1(1) [OF False st(1) refl st(2,6,3,7,4,8,5)] st(4) show ?thesis by (auto simp: set_field_def split: if_splits)
  qed
qed

lemma ports_accepted:
  assumes f: "ports_form body ({}, q) = Some (given, r)" "given = {0} \<or> given = {0, 1, 2} \<or> given = {0, 1, 2, 3, 4}"
      "given \<noteq> {0} \<longrightarrow> wr_advertise r ! 0 = 4" and inv: "ports_inv ({}, q)"
  shows "\<exists>fs. body = form_query fs \<and> distinct (map fst fs) \<and>
     set (map fst fs) \<in> {set (take 1 port_keys), set (take 3 port_keys), set port_keys} \<and>
     (\<forall>k<5. \<forall>ds. (port_keys ! k, ds) \<in> set fs \<longrightarrow> ds \<noteq> [] \<and> list_all is_digit ds \<and> port_value r k = dec_value ds \<and>
        (if k = 0 then dec_value ds \<le> 31 else 1 \<le> dec_value ds \<and> dec_value ds \<le> 7)) \<and>
     (1 < length fs \<longrightarrow> wr_advertise r ! 0 = 4) \<and>
     (\<forall>i<4. port_keys ! Suc i \<notin> set (map fst fs) \<longrightarrow> wr_advertise r ! i = 0)"
proof -
  have out: "ports_inv (given, r)" by (rule ports_form_inv [OF f(1) inv])
  then have r: "wr_mask r \<le> 31"
      "\<And>i. i < 4 \<Longrightarrow> if Suc i \<in> given then 1 \<le> wr_advertise r ! i \<and> wr_advertise r ! i \<le> 7 else wr_advertise r ! i = 0"
    unfolding ports_inv_def fst_conv snd_conv by blast+
  obtain fs where fs: "body = form_query fs" "distinct (map fst fs)" "given = {k. \<exists>kv\<in>set fs. port_field (fst kv) = Some k}"
      "\<And>kv. kv \<in> set fs \<Longrightarrow> \<exists>k. port_field (fst kv) = Some k \<and> snd kv \<noteq> [] \<and> list_all is_digit (snd kv) \<and> port_value r k = dec_value (snd kv)"
    using ports_form_fields [OF f(1) inv] by auto
  have keys: "set (map fst fs) = (\<lambda>k. port_keys ! k) ` given" 
  proof
    show "set (map fst fs) \<subseteq> (\<lambda>k. port_keys ! k) ` given"
    proof
      fix key
      assume "key \<in> set (map fst fs)"
      then obtain kv where kv: "kv \<in> set fs" "key = fst kv" by auto
      then obtain k where "port_field key = Some k" using fs(4) by blast
      then show "key \<in> (\<lambda>k. port_keys ! k) ` given" using kv unfolding fs(3) by (auto simp: port_field_iff)
    qed
    show "(\<lambda>k. port_keys ! k) ` given \<subseteq> set (map fst fs)" unfolding fs(3) by (force simp: port_field_iff)
  qed
  have inj: "port_field (port_keys ! k) = Some k" if "k < 5" for k using that by (simp add: port_field_iff)
  have "set (map fst fs) \<in> {set (take 1 port_keys), set (take 3 port_keys), set port_keys}"
  proof -
    have "(\<lambda>k. port_keys ! k) ` {0} = set (take 1 port_keys)" "(\<lambda>k. port_keys ! k) ` {0, 1, 2} = set (take 3 port_keys)"
        "(\<lambda>k. port_keys ! k) ` {0, 1, 2, 3, 4} = set port_keys"
      by (simp_all add: port_keys_def)
    then show ?thesis using f(2) unfolding keys insert_iff by (elim disjE) (simp_all only: refl simp_thms)
  qed
  moreover have "ds \<noteq> [] \<and> list_all is_digit ds \<and> port_value r k = dec_value ds \<and> (if k = 0 then dec_value ds \<le> 31 else 1 \<le> dec_value ds \<and> dec_value ds \<le> 7)"
    if k: "k < 5" "(port_keys ! k, ds) \<in> set fs" for k ds
  proof -
    have ds: "ds \<noteq> []" "list_all is_digit ds" "port_value r k = dec_value ds" using fs(4) [OF k(2)] inj [OF k(1)] by auto
    have "k \<in> given" using k inj [OF k(1)] fs(3) by force
    then have "if k = 0 then port_value r k \<le> 31 else 1 \<le> port_value r k \<and> port_value r k \<le> 7"
      using r(1) r(2) [of "k - 1"] k(1) by (auto simp: port_value_def word_le_nat_alt)
    then show ?thesis using ds(1,2) unfolding ds(3) by simp
  qed
  moreover have "wr_advertise r ! 0 = 4" if len: "1 < length fs"
  proof -
    have "given \<noteq> {0}"
    proof
      assume "given = {0}"
      then have "card (set (map fst fs)) = 1" unfolding keys by simp
      then show False using distinct_card [OF fs(2)] len by simp
    qed
    then show ?thesis using f(3) by simp
  qed
  moreover have "wr_advertise r ! i = 0" if "i < 4" "port_keys ! Suc i \<notin> set (map fst fs)" for i
    using r(2) [OF that(1)] that(2) unfolding keys by (auto split: if_splits)
  ultimately show ?thesis using fs(1,2) by blast
qed

text \<open>C33: What an accepted request carries. Its method, path and credentials fit the arrays of the C structure. A request that is not a POST
  has no body. A POST to the address table has the body \<open>refresh=1\<close>. A POST to the configuration carries the settings that the form in its body
  gives, and they are valid. Any other POST has a port form as its body: each of its fields occurs once and is a decimal number,
  namely the port mask below 32, and either no advertisements, those of the two processor ports or all four, each between 1 and 7 and
  the first one 4; the request holds these values, and 0 for an advertisement that is not given.\<close>
theorem web_parse_accepts:
  assumes "web_parse data = Complete r"
  shows "request_fits r \<and> (\<exists>head body. data = head @ [13, 10, 13, 10] @ body \<and>
    (if wr_method r \<noteq> ascii ''POST'' then body = []
     else if wr_path r = ascii ''/api/mac-table'' then body = ascii ''refresh=1''
     else if wr_path r = ascii ''/api/config''
     then config_form body = Some (wr_settings r, wr_credentials r, wr_stp_supplied r) \<and> config_valid (wr_settings r) \<and> cfg_wf (wr_settings r)
     else \<exists>fs. body = form_query fs \<and> distinct (map fst fs) \<and>
       set (map fst fs) \<in> {set (take 1 port_keys), set (take 3 port_keys), set port_keys} \<and>
       (\<forall>k<5. \<forall>ds. (port_keys ! k, ds) \<in> set fs \<longrightarrow> ds \<noteq> [] \<and> list_all is_digit ds \<and> port_value r k = dec_value ds \<and>
          (if k = 0 then dec_value ds \<le> 31 else 1 \<le> dec_value ds \<and> dec_value ds \<le> 7)) \<and>
       (1 < length fs \<longrightarrow> wr_advertise r ! 0 = 4) \<and>
       (\<forall>i<4. port_keys ! Suc i \<notin> set (map fst fs) \<longrightarrow> wr_advertise r ! i = 0)))"
proof -
  obtain head body h where c: "cut_sub [13, 10, 13, 10] data = Some (head, body)" "header_block head = Some h" "web_body body h = Complete r"
      "length body = hs_body h"
    by (rule web_parse_Complete [OF assms])
  have data: "data = head @ [13, 10, 13, 10] @ body" using cut_sub_parts [OF _ c(1)] by simp
  have inv: "header_inv h" by (rule header_block_inv [OF c(2)])
  show ?thesis
  proof (cases "wr_method (hs_request h) = ascii ''POST''")
    case False
    then have "r = hs_request h" "body = []" using c(3,4) by (auto simp: web_body_def Let_def split: if_splits)
    then show ?thesis using inv False data by (auto simp: header_inv_def)
  next
    case True
    have post: "post_body body (hs_request h) = Complete r" using c(3) True by (auto simp: web_body_def Let_def split: if_splits)
    consider (table) "wr_path (hs_request h) = ascii ''/api/mac-table''" | (config) "wr_path (hs_request h) = ascii ''/api/config''"
        "wr_path (hs_request h) \<noteq> ascii ''/api/mac-table''"
      | (ports) "wr_path (hs_request h) \<noteq> ascii ''/api/mac-table''" "wr_path (hs_request h) \<noteq> ascii ''/api/config''" by blast
    then show ?thesis
    proof cases
      case table
      then have "r = hs_request h" "body = ascii ''refresh=1''" using post by (auto simp: post_body_def split: if_splits)
      then show ?thesis using table inv data True by (auto simp: header_inv_def)
    next
      case config
      then obtain cfg cr st where f: "config_form body = Some (cfg, cr, st)"
          "r = (hs_request h)\<lparr>wr_settings := cfg, wr_credentials := cr, wr_stp_supplied := st\<rparr>"
        using post by (auto simp: post_body_def split: option.splits prod.splits)
      show ?thesis using config inv config_form_valid [OF f(1)] f(1) True data
        by (auto simp: f(2) header_inv_def request_fits_def ascii_def)
    next
      case ports
      then obtain given where f: "ports_form body ({}, hs_request h) = Some (given, r)"
          "given = {0} \<or> given = {0, 1, 2} \<or> given = {0, 1, 2, 3, 4}" "given \<noteq> {0} \<longrightarrow> wr_advertise r ! 0 = 4"
        using post by (auto simp: post_body_def split: option.splits prod.splits if_splits)
      have inv0: "ports_inv ({}, hs_request h)" using inv by (simp add: ports_inv_def header_inv_def)
      have m: "(wr_method r \<noteq> ascii ''POST'') = False" "(wr_path r = ascii ''/api/mac-table'') = False" "(wr_path r = ascii ''/api/config'') = False"
        using ports_form_keeps [OF f(1)] ports True by simp_all
      have "request_fits r" using ports_form_inv [OF f(1) inv0] by (simp add: ports_inv_def)
      then show ?thesis using ports_accepted [OF f inv0] data
        by (intro conjI exI [of _ head] exI [of _ body]) (simp_all only: m if_False)
    qed
  qed
qed

section \<open>Examples\<close>

definition sample_post :: bytes where
  "sample_post = ascii ''POST /api/ports HTTP/1.1'' @ [13, 10] @ ascii ''X-KR260-Request: 1'' @ [13, 10] @
     ascii ''Content-Length: 6'' @ [13, 10, 13, 10] @ ascii ''mask=3''"

lemma sample_post_parsed:
  "\<exists>r. web_parse sample_post = Complete r \<and> wr_method r = ascii ''POST'' \<and> wr_path r = ascii ''/api/ports'' \<and> wr_mask r = 3"
proof -
  have "case web_parse sample_post of Complete r \<Rightarrow> wr_method r = ascii ''POST'' \<and> wr_path r = ascii ''/api/ports'' \<and> wr_mask r = 3 | _ \<Rightarrow> False"
    by code_simp
  then show ?thesis by (auto split: web_result.splits)
qed

theorem web_parse_framing_witness:
  "web_parse (take 40 sample_post) = Incomplete \<and> web_parse (sample_post @ [10]) = Invalid"
proof -
  obtain r where "web_parse sample_post = Complete r" using sample_post_parsed by blast
  from web_parse_framing [OF this, of 40 "[10]"] show ?thesis by (simp add: sample_post_def)
qed

theorem web_parse_accepts_witness:
  "\<exists>r. web_parse sample_post = Complete r \<and> request_fits r \<and> wr_mask r = 3 \<and>
     (\<exists>head body fs. sample_post = head @ [13, 10, 13, 10] @ body \<and> body = form_query fs \<and> ascii ''mask'' \<in> set (map fst fs))"
proof -
  obtain r where r: "web_parse sample_post = Complete r" "wr_method r = ascii ''POST''" "wr_path r = ascii ''/api/ports''" "wr_mask r = 3"
    using sample_post_parsed by blast
  have m: "(wr_method r \<noteq> ascii ''POST'') = False" "(wr_path r = ascii ''/api/mac-table'') = False" "(wr_path r = ascii ''/api/config'') = False"
    using r(2,3) by (simp_all add: ascii_def)
  obtain head body fs where "sample_post = head @ [13, 10, 13, 10] @ body" "body = form_query fs"
      "set (map fst fs) \<in> {set (take 1 port_keys), set (take 3 port_keys), set port_keys}" "request_fits r"
    using web_parse_accepts [OF r(1)] unfolding m if_False by blast
  moreover have "ascii ''mask'' \<in> set (take 1 port_keys) \<inter> set (take 3 port_keys) \<inter> set port_keys" by (simp add: port_keys_def)
  ultimately show ?thesis using r(1,4) by blast
qed

end
