(* ===== verification/Mac_Table.thy ===== *)
theory Mac_Table
  imports Web_Parse Ip_Discovery Hardware
begin

text \<open>
  The dump of the fabric's address table and its web view, \<^verbatim>\<open>software/r5/src/mac_dump.c\<close> and \<^verbatim>\<open>software/r5/src/mac_table_web.c\<close>. A dump is
  written to memory by the hardware, so the buffer changes owner: what a read of it returns is an input of the state, any function of
  the accesses made before the read. The view publishes a copy of the buffer, page by page. The theorems show that the two owners never
  overlap, that a published copy was read after a completed dump into this very buffer and its invalidation, and that a
  page always fits the server's buffer.
\<close>

section \<open>The dump engine\<close>

record mac_dump_record =
  md_mac_low :: u32
  md_mac_high :: u16
  md_port_mask :: u8
  md_reserved :: u8
  md_age_seconds :: u16
  md_index :: u16
  md_flags :: u32

datatype mac_dump_result =
  MAC_DUMP_IDLE | MAC_DUMP_BUSY | MAC_DUMP_DONE | MAC_DUMP_ERROR | MAC_DUMP_UNAVAILABLE | MAC_DUMP_BAD_BUFFER | MAC_DUMP_STARTED

fun result_code :: "mac_dump_result \<Rightarrow> u32" where
  "result_code MAC_DUMP_IDLE = 0" | "result_code MAC_DUMP_BUSY = 1" | "result_code MAC_DUMP_DONE = 2" | "result_code MAC_DUMP_ERROR = 3"
| "result_code MAC_DUMP_UNAVAILABLE = 4" | "result_code MAC_DUMP_BAD_BUFFER = 5" | "result_code MAC_DUMP_STARTED = 6"

abbreviation MAC_DUMP_BASE :: u32 where "MAC_DUMP_BASE \<equiv> 0x80110000"
abbreviation MAC_DUMP_ENTRIES :: nat where "MAC_DUMP_ENTRIES \<equiv> 2048"
abbreviation MAC_DUMP_BYTES :: nat where "MAC_DUMP_BYTES \<equiv> 32768"
abbreviation DUMP_DEST :: u32 where "DUMP_DEST \<equiv> MAC_DUMP_BASE + 4"
abbreviation DUMP_CONTROL :: u32 where "DUMP_CONTROL \<equiv> MAC_DUMP_BASE + 8"
abbreviation DUMP_STATUS :: u32 where "DUMP_STATUS \<equiv> MAC_DUMP_BASE + 12"

text \<open>The pointer \<open>owned\<close> of the source is the address of the buffer the hardware holds.\<close>

definition mac_dump_start :: "u32 \<Rightarrow> nat \<Rightarrow> u32 option \<Rightarrow> 'a hw_scheme \<Rightarrow> mac_dump_result \<times> u32 option \<times> 'a hw_scheme" where
  "mac_dump_start address sz owned h =
     (if owned \<noteq> None then (MAC_DUMP_BUSY, owned, h)
      else if address = 0 \<or> sz < MAC_DUMP_BYTES \<or> address AND 255 \<noteq> 0 \<or> 0x7fff8000 < address then (MAC_DUMP_BAD_BUFFER, owned, h)
      else case mmio_read MAC_DUMP_BASE h of (abi, h) \<Rightarrow>
        if abi \<noteq> 0x4d445001 then (MAC_DUMP_UNAVAILABLE, owned, h)
        else case mmio_read DUMP_STATUS h of (status, h) \<Rightarrow>
          if status AND 1 \<noteq> 0 then (MAC_DUMP_BUSY, owned, h)
          else (MAC_DUMP_STARTED, Some address,
                mmio_write DUMP_CONTROL 1 (mmio_write DUMP_DEST address (emit (Clean address MAC_DUMP_BYTES) h))))"

text \<open>The two out parameters are written only when the dump has ended.\<close>

definition mac_dump_poll :: "u32 option \<Rightarrow> 'a hw_scheme \<Rightarrow> mac_dump_result \<times> (u32 \<times> u32) option \<times> u32 option \<times> 'a hw_scheme" where
  "mac_dump_poll owned h =
     (case owned of None \<Rightarrow> (MAC_DUMP_IDLE, None, owned, h)
      | Some address \<Rightarrow>
          case mmio_read DUMP_STATUS h of (status, h) \<Rightarrow>
            if status AND 1 \<noteq> 0 \<or> status AND 2 = 0 then (MAC_DUMP_BUSY, None, owned, h)
            else let h = emit (Invalidate address MAC_DUMP_BYTES) h;
                     (completed, h) = mmio_read (MAC_DUMP_BASE + 16) h; (err, h) = mmio_read (MAC_DUMP_BASE + 20) h
                 in (if status AND 4 \<noteq> 0 then MAC_DUMP_ERROR else MAC_DUMP_DONE, Some (completed, err), None, h))"

section \<open>The view\<close>

text \<open>\<open>mt_staging\<close> is the address of the array \<open>staging\<close>; \<open>mt_fill\<close> is what a read of it returns after a sequence of accesses: the
  hardware writes the array, so nothing is assumed of it.\<close>

record mac_table =
  mt_owned :: "u32 option"
  mt_staging :: u32
  mt_fill :: "event list \<Rightarrow> mac_dump_record list"
  mt_published :: "mac_dump_record list"
  mt_busy :: bool
  mt_ready :: bool
  mt_generation :: u32
  mt_error :: u32
  mt_completed :: u32
  mt_count :: u32
  mt_captured :: u64

definition append_text :: "nat \<Rightarrow> bytes \<Rightarrow> bytes option \<Rightarrow> bytes option" where
  "append_text capacity t out =
     (case out of None \<Rightarrow> None | Some out \<Rightarrow> if capacity - length out \<le> length t then None else Some (out @ t))"

definition table_page :: "bytes \<Rightarrow> bool \<Rightarrow> nat option" where
  "table_page path refresh =
     (if path = ascii ''/api/mac-table'' then Some 16
      else if take 15 path \<noteq> ascii ''/api/mac-table/'' \<or> refresh then None
      else let p = drop 15 path in
        if p = [] \<or> \<not> is_digit (hd p) then None
        else case strtoul p of (n, tail) \<Rightarrow> if tail \<noteq> [] \<or> 16 \<le> n then None else Some n)"

definition publish_dump :: "mac_dump_record list \<Rightarrow> mac_table \<Rightarrow> mac_table" where
  "publish_dump rs t =
     (let g = mt_generation t + 1 in
      t\<lparr>mt_published := rs, mt_count := word_of_nat (length (filter (\<lambda>r. md_flags r AND 1 \<noteq> 0) rs)), mt_ready := True,
        mt_generation := (if g = 0 then 1 else g)\<rparr>)"

definition table_poll :: "mac_table \<times> 'a hw_scheme \<Rightarrow> mac_table \<times> 'a hw_scheme" where
  "table_poll th =
     (case th of (t, h) \<Rightarrow>
      if \<not> mt_busy t then (t, h)
      else case mac_dump_poll (mt_owned t) h of (r, out, owned, h) \<Rightarrow>
        let t = t\<lparr>mt_owned := owned\<rparr>;
            t = (case out of None \<Rightarrow> t | Some (completed, err) \<Rightarrow> t\<lparr>mt_completed := completed, mt_error := err\<rparr>)
        in if r \<noteq> MAC_DUMP_DONE \<and> r \<noteq> MAC_DUMP_ERROR then (t, h)
           else let t = t\<lparr>mt_busy := False\<rparr> in
             if r = MAC_DUMP_DONE \<and> mt_completed t = word_of_nat MAC_DUMP_BYTES
             then case board_timestamp h of (now, h') \<Rightarrow> ((publish_dump (mt_fill t (hw_log h)) t)\<lparr>mt_captured := now\<rparr>, h')
             else (if mt_error t = 0 then t\<lparr>mt_error := 100\<rparr> else t, h))"

definition table_refresh :: "bool \<Rightarrow> mac_table \<times> 'a hw_scheme \<Rightarrow> mac_table \<times> 'a hw_scheme" where
  "table_refresh refresh th =
     (case th of (t, h) \<Rightarrow>
      if \<not> refresh \<or> mt_busy t then (t, h)
      else case mac_dump_start (mt_staging t) MAC_DUMP_BYTES (mt_owned t) h of (r, owned, h) \<Rightarrow>
        let t = t\<lparr>mt_owned := owned\<rparr> in
        if r = MAC_DUMP_STARTED then (t\<lparr>mt_busy := True, mt_error := 0, mt_completed := 0\<rparr>, h)
        else (t\<lparr>mt_error := 100 + result_code r\<rparr>, h))"

definition record_mac :: "mac_dump_record \<Rightarrow> bytes" where
  "record_mac r =
     [ucast (drop_bit 8 (md_mac_high r)), ucast (md_mac_high r AND 255), ucast (drop_bit 24 (md_mac_low r)),
      ucast (drop_bit 16 (md_mac_low r) AND 255), ucast (drop_bit 8 (md_mac_low r) AND 255), ucast (md_mac_low r AND 255)]"

text \<open>\<open>arp\<close> is the address the IP stack's cache holds for a MAC, if it is resolved.\<close>

definition network_cached_ipv4 :: "(bytes \<Rightarrow> bytes option) \<Rightarrow> bytes \<Rightarrow> bytes option" where
  "network_cached_ipv4 arp mac =
     (case arp mac of None \<Rightarrow> None | Some ip \<Rightarrow> if ip ! 0 \<noteq> 0 \<and> ip ! 0 \<noteq> 127 \<and> ip ! 0 < 224 then Some ip else None)"

definition ip_text :: "nat \<times> ip_observation \<Rightarrow> bytes" where
  "ip_text jo = (case jo of (j, seen) \<Rightarrow> (if j = 0 then [] else ascii '','') @ ascii ''[\"'' @ dotted (obs_ip seen) @ ascii ''\",'' @
     dec (unat (obs_age_ms seen)) @ ascii '']'')"

definition ip_texts :: "(bytes \<Rightarrow> bytes option) \<Rightarrow> bytes \<Rightarrow> ip_observation list \<Rightarrow> bytes list" where
  "ip_texts arp mac ips =
     (if ips = [] then (case network_cached_ipv4 arp mac of None \<Rightarrow> [] | Some ip \<Rightarrow> [ascii ''[\"'' @ dotted ip @ ascii ''\",null]''])
      else map ip_text (enumerate 0 ips))"

definition entry_head :: "bool \<Rightarrow> mac_dump_record \<Rightarrow> bytes" where
  "entry_head comma r =
     (if comma then ascii '','' else []) @ ascii ''['' @ dec (unat (md_index r)) @ ascii '','' @ json_mac (record_mac r) @ ascii '','' @
     dec (unat (md_port_mask r)) @ ascii '','' @ dec (unat (md_age_seconds r)) @ ascii '',[''"

text \<open>One record of a page: the text so far, whether an entry was written, and the world.\<close>

definition table_entry :: "nat \<Rightarrow> (bytes \<Rightarrow> bytes option) \<Rightarrow> arp_entry list \<Rightarrow> mac_dump_record \<Rightarrow>
    bytes option \<times> bool \<times> 'a hw_scheme \<Rightarrow> bytes option \<times> bool \<times> 'a hw_scheme" where
  "table_entry capacity arp es r s =
     (case s of (out, comma, h) \<Rightarrow>
      if md_flags r AND 1 = 0 then (out, comma, h)
      else let out = append_text capacity (entry_head comma r) out; mac = record_mac r;
               (stamp, h) = (if board_timestamp_hz h = 0 then (0, h) else board_timestamp h);
               ips = ip_discovery_lookup (milliseconds (board_timestamp_hz h) stamp) mac es;
               out = fold (append_text capacity) (ip_texts arp mac ips) out
           in (append_text capacity (ascii '']]'') out, True, h))"

definition table_head :: "mac_table \<Rightarrow> u64 \<Rightarrow> bytes" where
  "table_head t age =
     ascii ''{\"busy\":'' @ json_bool (mt_busy t) @ ascii '',\"ready\":'' @ json_bool (mt_ready t) @ ascii '',\"generation\":'' @
     dec (unat (mt_generation t)) @ ascii '',\"age_ms\":'' @ dec (unat age) @ ascii '',\"count\":'' @ dec (unat (mt_count t)) @
     ascii '',\"error\":'' @ dec (unat (mt_error t)) @ ascii '',\"completed_bytes\":'' @ dec (unat (mt_completed t)) @
     ascii '',\"pages\":16,\"entries\":[''"

definition table_json :: "nat \<Rightarrow> (bytes \<Rightarrow> bytes option) \<Rightarrow> arp_entry list \<Rightarrow> nat \<Rightarrow> mac_table \<times> 'a hw_scheme \<Rightarrow> bytes option \<times> 'a hw_scheme" where
  "table_json capacity arp es page th =
     (case th of (t, h) \<Rightarrow>
      let hz = board_timestamp_hz h;
          (age, h) = (if mt_ready t \<and> hz \<noteq> 0
             then case board_timestamp h of (now, h) \<Rightarrow> ((now - mt_captured t) * 1000 div ucast hz, h) else (0, h));
          out = append_text capacity (table_head t age) (if capacity = 0 then None else Some []);
          (out, comma, h) = (if mt_ready t \<and> page < 16
             then fold (table_entry capacity arp es) (take 128 (drop (page * 128) (mt_published t))) (out, False, h) else (out, False, h))
      in (append_text capacity (ascii '']}'') out, h))"

text \<open>The HTTP status and the body.\<close>

definition web_mac_table :: "nat \<Rightarrow> (bytes \<Rightarrow> bytes option) \<Rightarrow> arp_entry list \<Rightarrow> bytes \<Rightarrow> bool \<Rightarrow> mac_table \<times> 'a hw_scheme \<Rightarrow>
    (nat \<times> bytes) \<times> mac_table \<times> 'a hw_scheme" where
  "web_mac_table capacity arp es path refresh th =
     (case table_page path refresh of
        None \<Rightarrow> ((404, []), th)
      | Some page \<Rightarrow>
          case table_refresh refresh (table_poll th) of (t, h) \<Rightarrow>
          case table_json capacity arp es page (t, h) of (out, h) \<Rightarrow>
            ((case out of None \<Rightarrow> (500, []) | Some text' \<Rightarrow> (if refresh \<and> mt_busy t then 202 else 200, text')), t, h))"

section \<open>A page fits\<close>

text \<open>A step that adds at most a number of bytes.\<close>

definition grows :: "nat \<Rightarrow> nat \<Rightarrow> (bytes option \<Rightarrow> bytes option) \<Rightarrow> bool" where
  "grows capacity n f \<longleftrightarrow> (\<forall>out. length out + n < capacity \<longrightarrow> (\<exists>out'. f (Some out) = Some out' \<and> length out' \<le> length out + n))"

lemma grows_append: "length t \<le> n \<Longrightarrow> grows capacity n (append_text capacity t)"
  by (auto simp: grows_def append_text_def)

lemma grows_step: "grows capacity n f \<Longrightarrow> length out + n < capacity \<Longrightarrow> \<exists>out'. f (Some out) = Some out' \<and> length out' \<le> length out + n"
  by (simp add: grows_def)

lemma grows_fold: "(\<And>t. t \<in> set ts \<Longrightarrow> length t \<le> k) \<Longrightarrow> grows capacity (length ts * k) (fold (append_text capacity) ts)"
proof (induction ts)
  case (Cons t ts)
  show ?case unfolding grows_def
  proof (intro allI impI)
    fix out :: bytes
    assume room: "length out + length (t # ts) * k < capacity"
    obtain o1 where 1: "append_text capacity t (Some out) = Some o1" "length o1 \<le> length out + k"
      using grows_step [OF grows_append, of t k out capacity] Cons.prems [of t] room by auto
    obtain o2 where "fold (append_text capacity) ts (Some o1) = Some o2" "length o2 \<le> length o1 + length ts * k"
      using grows_step [OF Cons.IH, of o1] Cons.prems 1(2) room by auto
    then show "\<exists>out'. fold (append_text capacity) (t # ts) (Some out) = Some out' \<and> length out' \<le> length out + length (t # ts) * k"
      using 1 by auto
  qed
qed (simp add: grows_def)

lemma dec_u32: "length (dec (unat c)) \<le> 10" for c :: u32
proof -
  have "unat c < 2 ^ 32" using unsigned_less [of c, where ?'a = nat] by simp
  then show ?thesis by (intro length_dec_le) simp_all
qed

lemma dec_u64: "length (dec (unat c)) \<le> 20" for c :: u64
proof -
  have "unat c < 2 ^ 64" using unsigned_less [of c, where ?'a = nat] by simp
  then show ?thesis by (intro length_dec_le) simp_all
qed

lemma lookup_at_most: "length (ip_discovery_lookup now mac es) \<le> 4"
proof -
  have "length out \<le> 4 \<Longrightarrow> length (foldl (lookup_step now mac) out es) \<le> 4" for out
    by (induction es arbitrary: out) (simp_all add: lookup_step_def Let_def)
  then show ?thesis by (simp add: ip_discovery_lookup_def)
qed

lemma grows_ips: "length ips \<le> 4 \<Longrightarrow> grows capacity 124 (fold (append_text capacity) (ip_texts arp mac ips))"
proof -
  assume few: "length ips \<le> 4"
  have "length t \<le> 31" if mem: "t \<in> set (ip_texts arp mac ips)" for t
  proof (cases "ips = []")
    case True
    then obtain ip where t: "t = ascii ''[\"'' @ dotted ip @ ascii ''\",null]''" using mem by (auto simp: ip_texts_def split: option.splits)
    show ?thesis unfolding t using length_dotted [of ip] by simp
  next
    case False
    then obtain x where t: "t = ip_text x" using mem by (auto simp: ip_texts_def)
    show ?thesis unfolding t using length_dotted [of "obs_ip (snd x)"] dec_u32 [of "obs_age_ms (snd x)"]
      by (simp add: ip_text_def case_prod_beta)
  qed
  from grows_fold [OF this, where capacity = capacity] have g: "grows capacity (length (ip_texts arp mac ips) * 31) (fold (append_text capacity) (ip_texts arp mac ips))" .
  have "length (ip_texts arp mac ips) * 31 \<le> 124" using few by (simp add: ip_texts_def split: option.splits)
  then show ?thesis using g unfolding grows_def by (meson add_left_mono le_less_trans order_trans)
qed

lemma entry_head_length: "length (entry_head comma r) \<le> 39"
  using length_dec_u16 [of "md_index r"] length_dec_u8 [of "md_port_mask r"] length_dec_u16 [of "md_age_seconds r"]
  by (simp add: entry_head_def length_json_mac)

lemma table_entry_grows:
  assumes "length out + 165 < capacity"
  shows "\<exists>out' comma' h'. table_entry capacity arp es r (Some out, comma, h) = (Some out', comma', h') \<and> length out' \<le> length out + 165"
proof (cases "md_flags r AND 1 = 0")
  case False
  obtain o1 where 1: "append_text capacity (entry_head comma r) (Some out) = Some o1" "length o1 \<le> length out + 39"
    using grows_step [OF grows_append [OF entry_head_length], of out capacity comma r] assms by auto
  define sh where "sh = (if board_timestamp_hz h = 0 then (0, h) else board_timestamp h)"
  define ips where "ips = ip_discovery_lookup (milliseconds (board_timestamp_hz (snd sh)) (fst sh)) (record_mac r) es"
  obtain o2 where 2: "fold (append_text capacity) (ip_texts arp (record_mac r) ips) (Some o1) = Some o2" "length o2 \<le> length o1 + 124"
    using grows_step [OF grows_ips [OF lookup_at_most], of o1 capacity] assms 1(2) unfolding ips_def by fastforce
  obtain o3 where 3: "append_text capacity (ascii '']]'') (Some o2) = Some o3" "length o3 \<le> length o2 + 2"
    using grows_step [OF grows_append [of "ascii '']]''" 2], of o2 capacity] assms 1(2) 2(2) by fastforce
  have "table_entry capacity arp es r (Some out, comma, h) = (Some o3, True, snd sh)"
    unfolding table_entry_def Let_def case_prod_beta fst_conv snd_conv sh_def [symmetric] ips_def [symmetric]
    using False 1(1) 2(1) 3(1) by simp
  then show ?thesis using 1(2) 2(2) 3(2) by auto
qed (simp add: table_entry_def)

lemma table_entries_grow:
  assumes "length out + length rs * 165 < capacity"
  shows "\<exists>out' comma' h'. fold (table_entry capacity arp es) rs (Some out, comma, h) = (Some out', comma', h') \<and>
    length out' \<le> length out + length rs * 165"
  using assms
proof (induction rs arbitrary: out comma h)
  case (Cons r rs)
  obtain o1 c1 h1 where 1: "table_entry capacity arp es r (Some out, comma, h) = (Some o1, c1, h1)" "length o1 \<le> length out + 165"
    using table_entry_grows [of out capacity arp es r comma h] Cons.prems by auto
  then show ?case using Cons.IH [of o1 c1 h1] Cons.prems by auto
qed simp

lemma table_head_length: "length (table_head t age) \<le> 200"
  using length_json_bool [of "mt_busy t"] length_json_bool [of "mt_ready t"] dec_u32 [of "mt_generation t"] dec_u64 [of age]
    dec_u32 [of "mt_count t"] dec_u32 [of "mt_error t"] dec_u32 [of "mt_completed t"]
  by (simp add: table_head_def)

lemma table_json_fits: "\<exists>text' h'. table_json 24576 arp es page (t, h) = (Some text', h') \<and> length text' < 24576"
proof -
  define ah where "ah = (if mt_ready t \<and> board_timestamp_hz h \<noteq> 0
     then ((fst (board_timestamp h) - mt_captured t) * 1000 div ucast (board_timestamp_hz h), snd (board_timestamp h)) else (0, h))"
  let ?rs = "take 128 (drop (page * 128) (mt_published t))"
  obtain o1 where 1: "append_text 24576 (table_head t (fst ah)) (Some []) = Some o1" "length o1 \<le> 200"
    using grows_step [OF grows_append [OF table_head_length], of "[]" 24576] by auto
  define r where "r = (if mt_ready t \<and> page < 16 then fold (table_entry 24576 arp es) ?rs (Some o1, False, snd ah) else (Some o1, False, snd ah))"
  have "length ?rs \<le> 128" by simp
  then obtain o2 c2 h2 where 2: "fold (table_entry 24576 arp es) ?rs (Some o1, False, snd ah) = (Some o2, c2, h2)" "length o2 \<le> 200 + 128 * 165"
    using table_entries_grow [of o1 ?rs 24576 arp es False "snd ah"] 1(2) by fastforce
  then have "\<exists>o3 c3 h3. r = (Some o3, c3, h3) \<and> length o3 \<le> 200 + 128 * 165" using 1(2) by (auto simp: r_def)
  then obtain o3 c3 h3 where 3: "r = (Some o3, c3, h3)" "length o3 \<le> 200 + 128 * 165" by blast
  have "table_json 24576 arp es page (t, h) = (append_text 24576 (ascii '']}'') (Some o3), h3)"
    unfolding table_json_def Let_def case_prod_beta fst_conv snd_conv ah_def [symmetric]
    using 1(1) 3(1) unfolding r_def by (auto split: if_splits)
  then show ?thesis using 3(2) by (simp add: append_text_def)
qed

text \<open>A page of the address table always fits. Whatever the table, the caches and the clock hold, the 24576 bytes of the response
  buffer take every page of 128 entries with up to four addresses each, so the view never fails for lack of room: the
  status is 200, 202 for an accepted refresh, or 404 for a path that names no page.\<close>
theorem web_mac_table_fits:
  "\<exists>status text' t' h'. web_mac_table 24576 arp es path refresh (t, h) = ((status, text'), t', h') \<and> length text' < 24576 \<and>
     (if table_page path refresh = None then status = 404 else status = (if refresh \<and> mt_busy t' then 202 else 200) \<and> text' \<noteq> [])"
proof (cases "table_page path refresh")
  case None
  then show ?thesis by (simp add: web_mac_table_def)
next
  case (Some page)
  obtain t1 h1 where th: "table_refresh refresh (table_poll (t, h)) = (t1, h1)" by fastforce
  obtain text' h2 where j: "table_json 24576 arp es page (t1, h1) = (Some text', h2)" "length text' < 24576"
    using table_json_fits by blast
  have "text' \<noteq> []"
    using j(1) by (auto simp: table_json_def append_text_def case_prod_beta Let_def ascii_def split: option.splits if_splits)
  then show ?thesis using j by (simp add: web_mac_table_def Some th)
qed

section \<open>Ownership of the buffer\<close>

text \<open>The protocol of the dump engine, on the log of accesses, for a buffer at address \<open>b\<close>: the buffer is free, written back to
  memory, set as the destination, held by the hardware, or finished and not yet invalidated in the cache. \<open>None\<close> is a violation: a
  destination that is not the cleaned buffer, or a start without one. Only invalidating the whole buffer gives it back.\<close>

datatype dump_phase = Free | Cleaned | Armed | Held | Finished

fun dump_event :: "u32 \<Rightarrow> dump_phase option \<Rightarrow> event \<Rightarrow> dump_phase option" where
  "dump_event b None e = None"
| "dump_event b (Some q) (Wr a v) =
     (if a = DUMP_DEST then (if q = Cleaned \<and> v = b then Some Armed else None)
      else if a = DUMP_CONTROL then (if q = Armed \<and> v = 1 then Some Held else None) else Some q)"
| "dump_event b (Some q) (Rd a v) =
     (if a = DUMP_STATUS \<and> q = Held \<and> \<not> bit v 0 \<and> bit v 1 then Some Finished else Some q)"
| "dump_event b (Some q) (Clean a n) = (if q = Free \<and> a = b \<and> n = 32768 then Some Cleaned else Some q)"
| "dump_event b (Some q) (Invalidate a n) = (if q = Finished \<and> a = b \<and> n = 32768 then Some Free else Some q)"
| "dump_event b (Some q) e = Some q"

definition dump_after :: "u32 \<Rightarrow> event list \<Rightarrow> dump_phase option" where
  "dump_after b evs = foldl (dump_event b) (Some Free) evs"

lemma dump_after_append [simp]: "dump_after b [] = Some Free" "dump_after b (evs @ evs') = foldl (dump_event b) (dump_after b evs) evs'"
  by (simp_all add: dump_after_def)

lemma status_bits: "v AND 1 = 0 \<longleftrightarrow> \<not> bit v 0" "v AND 2 = 0 \<longleftrightarrow> \<not> bit v 1" "v AND 4 = 0 \<longleftrightarrow> \<not> bit v 2" for v :: u32
  using and_exp_eq_0_iff_not_bit [of v 0] and_exp_eq_0_iff_not_bit [of v 1] and_exp_eq_0_iff_not_bit [of v 2] by simp_all

text \<open>Events of other components, which touch neither the dump engine nor the cache lines of its buffer.\<close>

definition elsewhere :: "u32 \<Rightarrow> event \<Rightarrow> bool" where
  "elsewhere b e \<longleftrightarrow> (case e of Wr a v \<Rightarrow> a \<noteq> DUMP_DEST \<and> a \<noteq> DUMP_CONTROL | Rd a v \<Rightarrow> a \<noteq> DUMP_STATUS
     | Clean a n \<Rightarrow> a \<noteq> b | Invalidate a n \<Rightarrow> a \<noteq> b | _ \<Rightarrow> True)"

lemma elsewhere_keeps: "list_all (elsewhere b) evs \<Longrightarrow> foldl (dump_event b) q evs = q"
proof (induction evs arbitrary: q)
  case (Cons e evs)
  moreover have "dump_event b q e = q"
    using Cons.prems by (cases q; cases e) (auto simp: elsewhere_def)
  ultimately show ?case by simp
qed simp

text \<open>The accesses that take a complete dump back: the status of an idle engine that is done without error, the invalidation of the whole
  buffer, the byte count of a full dump, and the error code.\<close>

definition taken_back :: "u32 \<Rightarrow> event list \<Rightarrow> bool" where
  "taken_back b evs \<longleftrightarrow> (\<exists>lg v err. evs = lg @ [Rd DUMP_STATUS v, Invalidate b 32768, Rd (MAC_DUMP_BASE + 16) 32768, Rd (MAC_DUMP_BASE + 20) err] \<and>
     dump_after b lg = Some Held \<and> \<not> bit v 0 \<and> bit v 1 \<and> \<not> bit v 2)"

definition table_inv_mac :: "mac_table \<times> 'a hw_scheme \<Rightarrow> bool" where
  "table_inv_mac th \<longleftrightarrow> (case th of (t, h) \<Rightarrow>
     dump_after (mt_staging t) (hw_log h) = Some (if mt_busy t then Held else Free) \<and>
     mt_owned t = (if mt_busy t then Some (mt_staging t) else None) \<and>
     (mt_ready t \<longrightarrow> mt_generation t \<noteq> 0 \<and>
       (\<exists>evs rest. hw_log h = evs @ rest \<and> taken_back (mt_staging t) evs \<and> mt_published t = mt_fill t evs) \<and>
       mt_count t = word_of_nat (length (filter (\<lambda>r. md_flags r AND 1 \<noteq> 0) (mt_published t)))))"

lemma dump_poll_held:
  assumes "dump_after a (hw_log h) = Some Held" and "mac_dump_poll (Some a) h = (r, out, owned, h')"
  shows "r = MAC_DUMP_BUSY \<and> out = None \<and> owned = Some a \<and> dump_after a (hw_log h') = Some Held \<or>
    (r = MAC_DUMP_DONE \<or> r = MAC_DUMP_ERROR) \<and> owned = None \<and> dump_after a (hw_log h') = Some Free \<and>
      (\<exists>c e. out = Some (c, e) \<and> (r = MAC_DUMP_DONE \<and> c = 32768 \<longrightarrow> taken_back a (hw_log h')))"
  and "\<exists>evs. hw_log h' = hw_log h @ evs"
  using assms by (auto simp: mac_dump_poll_def taken_back_def Let_def case_prod_beta hw_defs status_bits split: if_splits)

lemma dump_start_free:
  assumes "dump_after a (hw_log h) = Some Free" and "mac_dump_start a n None h = (r, owned, h')"
  shows "r = MAC_DUMP_STARTED \<and> owned = Some a \<and> dump_after a (hw_log h') = Some Held \<or>
    r \<noteq> MAC_DUMP_STARTED \<and> owned = None \<and> dump_after a (hw_log h') = Some Free"
  and "\<exists>evs. hw_log h' = hw_log h @ evs"
  using assms by (auto simp: mac_dump_start_def case_prod_beta hw_defs split: if_splits)

lemma stamp_log: "hw_log (snd (board_timestamp h)) = hw_log h"
  by (simp add: hw_simps)

text \<open>A view stays ready while the log grows.\<close>

lemma table_inv_grow:
  assumes "table_inv_mac (t, h)" and "hw_log h' = hw_log h @ evs"
    and "mt_staging t' = mt_staging t" "mt_fill t' = mt_fill t" "mt_ready t' = mt_ready t" "mt_generation t' = mt_generation t"
      "mt_published t' = mt_published t" "mt_count t' = mt_count t"
    and "dump_after (mt_staging t) (hw_log h') = Some (if mt_busy t' then Held else Free)"
      "mt_owned t' = (if mt_busy t' then Some (mt_staging t) else None)"
  shows "table_inv_mac (t', h')"
proof -
  have "\<exists>evs rest. hw_log h' = evs @ rest \<and> taken_back (mt_staging t) evs \<and> mt_published t = mt_fill t evs" if ready: "mt_ready t"
  proof -
    obtain es rest where "hw_log h = es @ rest" "taken_back (mt_staging t) es" "mt_published t = mt_fill t es"
      using assms(1) ready by (auto simp: table_inv_mac_def)
    then have "hw_log h' = es @ (rest @ evs) \<and> taken_back (mt_staging t) es \<and> mt_published t = mt_fill t es" using assms(2) by simp
    then show ?thesis by blast
  qed
  then show ?thesis using assms(1,3-) by (simp add: table_inv_mac_def)
qed

lemma owner_poll:
  assumes inv: "table_inv_mac (t, h)"
  shows "table_inv_mac (table_poll (t, h))"
proof (cases "mt_busy t")
  case True
  then have a: "mt_owned t = Some (mt_staging t)" "dump_after (mt_staging t) (hw_log h) = Some Held" using inv by (simp_all add: table_inv_mac_def)
  obtain r out owned h' where p: "mac_dump_poll (Some (mt_staging t)) h = (r, out, owned, h')" by (metis prod_cases4)
  obtain evs where grow: "hw_log h' = hw_log h @ evs" using dump_poll_held(2) [OF a(2) p] ..
  show ?thesis
  proof (cases out)
    case None
    then have "r = MAC_DUMP_BUSY" "owned = Some (mt_staging t)" "dump_after (mt_staging t) (hw_log h') = Some Held"
      using dump_poll_held(1) [OF a(2) p] by auto
    then show ?thesis using True a by (simp add: table_poll_def p None table_inv_grow [OF inv grow])
  next
    case (Some ce)
    then obtain c e where q: "r = MAC_DUMP_DONE \<or> r = MAC_DUMP_ERROR" "owned = None" "dump_after (mt_staging t) (hw_log h') = Some Free"
        "out = Some (c, e)" "r = MAC_DUMP_DONE \<and> c = 32768 \<longrightarrow> taken_back (mt_staging t) (hw_log h')"
      using dump_poll_held(1) [OF a(2) p] by auto
    show ?thesis
    proof (cases "r = MAC_DUMP_DONE \<and> c = 32768")
      case True
      then show ?thesis using \<open>mt_busy t\<close> a q
        by (auto simp: table_poll_def p table_inv_mac_def publish_dump_def Let_def case_prod_beta stamp_log)
    next
      case False
      then show ?thesis using \<open>mt_busy t\<close> a q(1-4)
        by (auto simp: table_poll_def p Let_def intro!: table_inv_grow [OF inv grow])
    qed
  qed
qed (use assms in \<open>simp add: table_poll_def\<close>)

lemma owner_refresh:
  assumes inv: "table_inv_mac (t, h)"
  shows "table_inv_mac (table_refresh refresh (t, h))"
proof (cases "refresh \<and> \<not> mt_busy t")
  case True
  then have a: "mt_owned t = None" "dump_after (mt_staging t) (hw_log h) = Some Free" using inv by (auto simp: table_inv_mac_def)
  obtain r owned h' where p: "mac_dump_start (mt_staging t) MAC_DUMP_BYTES None h = (r, owned, h')" by (metis prod_cases3)
  obtain evs where grow: "hw_log h' = hw_log h @ evs" using dump_start_free(2) [OF a(2) p] ..
  show ?thesis
    using True a dump_start_free(1) [OF a(2) p]
    by (auto simp: table_refresh_def p Let_def intro!: table_inv_grow [OF inv grow])
qed (use assms in \<open>auto simp: table_refresh_def\<close>)

lemma entry_log: "hw_log (snd (snd (table_entry capacity arp es r s))) = hw_log (snd (snd s))"
  by (simp add: table_entry_def Let_def case_prod_beta stamp_log)

lemma json_log: "hw_log (snd (table_json capacity arp es page (t, h))) = hw_log h"
proof -
  have "hw_log (snd (snd (fold (table_entry capacity arp es) rs s))) = hw_log (snd (snd s))" for rs and s :: "bytes option \<times> bool \<times> 'a hw_scheme"
    by (induction rs arbitrary: s) (simp_all add: entry_log)
  then show ?thesis by (simp add: table_json_def Let_def case_prod_beta stamp_log)
qed

lemma owner_log:
  assumes "table_inv_mac (t, h)" and "hw_log h' = hw_log h @ evs" and "list_all (elsewhere (mt_staging t)) evs"
  shows "table_inv_mac (t, h')"
  using assms(1,3) by (intro table_inv_grow [OF assms(1,2)]) (auto simp: table_inv_mac_def assms(2) elsewhere_keeps)

lemma owner_request: "table_inv_mac (t, h) \<Longrightarrow> table_inv_mac (snd (web_mac_table capacity arp es path refresh (t, h)))"
proof (cases "table_page path refresh")
  case (Some page)
  assume inv: "table_inv_mac (t, h)"
  obtain t1 h1 where 1: "table_poll (t, h) = (t1, h1)" by fastforce
  obtain t2 h2 where 2: "table_refresh refresh (t1, h1) = (t2, h2)" by fastforce
  have "table_inv_mac (t1, h1)" using owner_poll [OF inv] by (simp add: 1)
  from owner_refresh [OF this, of refresh] have "table_inv_mac (t2, h2)" by (simp add: 2)
  from owner_log [OF this, of "snd (table_json capacity arp es page (t2, h2))" "[]"] show ?thesis
    by (simp add: web_mac_table_def Some 1 2 json_log case_prod_beta)
qed (simp add: web_mac_table_def)

text \<open>The requests of the web server, between accesses of other components.\<close>

datatype table_op = Request bytes bool | Others "event list"

fun table_do :: "(bytes \<Rightarrow> bytes option) \<Rightarrow> arp_entry list \<Rightarrow> table_op \<Rightarrow> mac_table \<times> 'a hw_scheme \<Rightarrow> mac_table \<times> 'a hw_scheme" where
  "table_do arp es (Request path refresh) th = snd (web_mac_table 24576 arp es path refresh th)"
| "table_do arp es (Others evs) (t, h) = (t, fold emit evs h)"

lemma table_keeps:
  "mt_staging (fst (table_poll th)) = mt_staging (fst th)" "mt_fill (fst (table_poll th)) = mt_fill (fst th)"
  "mt_staging (fst (table_refresh refresh th)) = mt_staging (fst th)" "mt_fill (fst (table_refresh refresh th)) = mt_fill (fst th)"
  "mt_staging (fst (table_do arp es x th)) = mt_staging (fst th)" "mt_fill (fst (table_do arp es x th)) = mt_fill (fst th)"
proof -
  show keep: "mt_staging (fst (table_poll th)) = mt_staging (fst th)" "mt_fill (fst (table_poll th)) = mt_fill (fst th)"
      "mt_staging (fst (table_refresh refresh th)) = mt_staging (fst th)" "mt_fill (fst (table_refresh refresh th)) = mt_fill (fst th)" for refresh th
    by (auto simp: table_poll_def table_refresh_def publish_dump_def Let_def split: prod.splits option.splits)
  show "mt_staging (fst (table_do arp es x th)) = mt_staging (fst th)" "mt_fill (fst (table_do arp es x th)) = mt_fill (fst th)"
  proof -
    have "mt_staging (fst (snd (web_mac_table c arp es path refresh th))) = mt_staging (fst th) \<and>
        mt_fill (fst (snd (web_mac_table c arp es path refresh th))) = mt_fill (fst th)" for c path refresh
      using keep(3,4) [of refresh "table_poll th"] keep(1,2) [of th] by (simp add: web_mac_table_def case_prod_beta split: option.split)
    then show "mt_staging (fst (table_do arp es x th)) = mt_staging (fst th)" "mt_fill (fst (table_do arp es x th)) = mt_fill (fst th)"
      by (cases x; cases th; simp)+
  qed
qed

text \<open>C14: The dump buffer has one owner, and what is shown was dumped. Over any sequence of requests, whatever the hardware answers and
  other components do meanwhile, the engine is started only with the staging buffer, written back to memory, as its destination, and only when
  no dump is outstanding; the software takes the buffer back only after the engine was seen idle and done and the whole buffer was invalidated
  in the cache. A ready view shows what a read of the staging buffer returned at one moment of the past, and the accesses up to that
  moment end with the status of an engine that held the buffer and now is idle and done without error, the
  invalidation of the buffer and the byte count of a full dump. Its count is the number of valid entries, and its generation is not 0.\<close>
theorem mac_dump_single_owner:
  assumes "hw_log h = []" and "mt_owned t = None" and "\<not> mt_busy t" and "\<not> mt_ready t"
    and "\<forall>evs. Others evs \<in> set ops \<longrightarrow> list_all (elsewhere (mt_staging t)) evs" and "fold (table_do arp es) ops (t, h) = (t', h')"
  shows "dump_after (mt_staging t) (hw_log h') = Some (if mt_busy t' then Held else Free) \<and>
    mt_owned t' = (if mt_busy t' then Some (mt_staging t) else None) \<and>
    (mt_ready t' \<longrightarrow> mt_generation t' \<noteq> 0 \<and>
      (\<exists>lg v err rest. hw_log h' = lg @ [Rd DUMP_STATUS v, Invalidate (mt_staging t) 32768, Rd (MAC_DUMP_BASE + 16) 32768, Rd (MAC_DUMP_BASE + 20) err] @ rest \<and>
         dump_after (mt_staging t) lg = Some Held \<and> \<not> bit v 0 \<and> bit v 1 \<and> \<not> bit v 2 \<and>
         mt_published t' = mt_fill t (lg @ [Rd DUMP_STATUS v, Invalidate (mt_staging t) 32768, Rd (MAC_DUMP_BASE + 16) 32768, Rd (MAC_DUMP_BASE + 20) err])) \<and>
      mt_count t' = word_of_nat (length (filter (\<lambda>r. md_flags r AND 1 \<noteq> 0) (mt_published t'))))"
proof -
  have emits: "hw_log (fold emit evs k) = hw_log k @ evs" for evs and k :: "'a hw_scheme"
    by (induction evs arbitrary: k) (simp_all add: emit_def)
  let ?I = "\<lambda>s. table_inv_mac s \<and> mt_staging (fst s) = mt_staging t \<and> mt_fill (fst s) = mt_fill t"
  have "?I (fold (table_do arp es) ops (t, h))"
  proof (rule fold_invariant [where Q = "\<lambda>x. x \<in> set ops"])
    show "?I (t, h)" using assms(1-4) by (simp add: table_inv_mac_def)
    fix x and s :: "mac_table \<times> 'a hw_scheme"
    assume x: "x \<in> set ops" and inv: "?I s"
    obtain t1 h1 where s: "s = (t1, h1)" by (cases s)
    have "table_inv_mac (table_do arp es x s)"
    proof (cases x)
      case (Request path refresh)
      then show ?thesis using owner_request [of t1 h1] inv by (simp add: s)
    next
      case (Others evs)
      then show ?thesis using owner_log [of t1 h1 "fold emit evs h1" evs] inv assms(5) x by (simp add: s emits)
    qed
    then show "?I (table_do arp es x s)" using inv by (simp add: table_keeps)
  qed simp
  then have inv: "table_inv_mac (t', h')" and keep: "mt_staging t' = mt_staging t" "mt_fill t' = mt_fill t" unfolding assms(6) by simp_all
  have "\<exists>lg v err rest. hw_log h' = lg @ [Rd DUMP_STATUS v, Invalidate (mt_staging t) 32768, Rd (MAC_DUMP_BASE + 16) 32768, Rd (MAC_DUMP_BASE + 20) err] @ rest \<and>
      dump_after (mt_staging t) lg = Some Held \<and> \<not> bit v 0 \<and> bit v 1 \<and> \<not> bit v 2 \<and>
      mt_published t' = mt_fill t (lg @ [Rd DUMP_STATUS v, Invalidate (mt_staging t) 32768, Rd (MAC_DUMP_BASE + 16) 32768, Rd (MAC_DUMP_BASE + 20) err])"
    if ready: "mt_ready t'"
  proof -
    obtain evs rest where 1: "hw_log h' = evs @ rest" "taken_back (mt_staging t) evs" "mt_published t' = mt_fill t evs"
      using inv ready by (auto simp: table_inv_mac_def keep)
    obtain lg v err where "evs = lg @ [Rd DUMP_STATUS v, Invalidate (mt_staging t) 32768, Rd (MAC_DUMP_BASE + 16) 32768, Rd (MAC_DUMP_BASE + 20) err]"
        "dump_after (mt_staging t) lg = Some Held" "\<not> bit v 0" "bit v 1" "\<not> bit v 2"
      using 1(2) unfolding taken_back_def by blast
    with 1 show ?thesis by (intro exI [of _ lg] exI [of _ v] exI [of _ err] exI [of _ rest]) simp
  qed
  with inv keep show ?thesis unfolding table_inv_mac_def by simp
qed

section \<open>Examples\<close>

text \<open>An engine that is idle, then done after its first status.\<close>

definition sample_world :: hw where
  "sample_world = \<lparr>hw_input = (\<lambda>n p. case p of Reg a \<Rightarrow>
       if a = MAC_DUMP_BASE then 0x4d445001 else if a = DUMP_STATUS then (if n < 2 then 0 else 2)
       else if a = MAC_DUMP_BASE + 16 then 32768 else 0 | _ \<Rightarrow> 1),
     hw_count = 0, hw_log = [], stamp_last = 0, stamp_high = 0, stamp_hz = 1\<rparr>"

definition sample_record :: mac_dump_record where
  "sample_record = \<lparr>md_mac_low = 0x44556677, md_mac_high = 0x0a11, md_port_mask = 4, md_reserved = 0, md_age_seconds = 7, md_index = 3, md_flags = 1\<rparr>"

definition sample_table :: mac_table where
  "sample_table = \<lparr>mt_owned = None, mt_staging = 0x100000, mt_fill = (\<lambda>evs. if length evs = 10 then [sample_record] else []), mt_published = [], mt_busy = False, mt_ready = False,
     mt_generation = 0, mt_error = 0, mt_completed = 0, mt_count = 0, mt_captured = 0\<rparr>"

theorem mac_dump_single_owner_witness:
  "\<exists>t' h'. fold (table_do (\<lambda>m. None) [])
     [Request (ascii ''/api/mac-table'') True, Others [Wr 0x80100000 1], Request (ascii ''/api/mac-table'') False] (sample_table, sample_world) = (t', h') \<and>
     dump_after 0x100000 (hw_log h') = Some Free \<and> mt_published t' = [sample_record] \<and> mt_count t' = 1 \<and> mt_ready t' \<and> mt_generation t' = 1"
proof -
  let ?ops = "[Request (ascii ''/api/mac-table'') True, Others [Wr 0x80100000 1], Request (ascii ''/api/mac-table'') False]"
  obtain t' h' where run: "fold (table_do (\<lambda>m. None) []) ?ops (sample_table, sample_world) = (t', h')" by fastforce
  have end': "\<not> mt_busy t' \<and> mt_ready t' \<and> mt_generation t' = 1 \<and> mt_published t' = [sample_record]"
    using run
    by (auto simp: sample_table_def sample_world_def web_mac_table_def table_page_def table_poll_def table_refresh_def mac_dump_start_def
        mac_dump_poll_def hw_defs board_timestamp_def stamp_sample_def stamp_extend_def publish_dump_def table_json_def board_timestamp_hz_def)
  have "list_all (elsewhere (mt_staging sample_table)) [Wr 0x80100000 1]" by (simp add: elsewhere_def)
  then show ?thesis
    using mac_dump_single_owner [of sample_world sample_table ?ops "\<lambda>m. None" "[]" t' h'] run end'
    by (auto simp: sample_table_def sample_world_def sample_record_def)
qed

end
