(* ===== verification/Network.thy ===== *)
theory Network
  imports Stp_Safety Ip_Discovery
begin

text \<open>
  The network interface of the management processor, \<^verbatim>\<open>software/r5/src/network.c\<close>: the readiness of the
  interface, the notifications of the service task, one turn of its loop (DHCP retry, bounded reception, the DMA
  fault) and the call-backs the IP stack uses. The IP stack is a parameter: which frames it considers, whether a buffer
  is free and whether its queue takes an event, the last two at the count of accesses of the call. Console messages are left
  out. The variables of the file and of the task extend the world of the spanning tree task, which receives the control frames.
\<close>

section \<open>State\<close>

record ip_stack =
  ip_consider :: "bytes \<Rightarrow> bool"
  ip_buffer :: "nat \<Rightarrow> nat \<Rightarrow> bool"
  ip_queue :: "nat \<Rightarrow> bool"
  ip_init :: bool
  ip_task :: bool

record ('v, 'e) net = "('v, 'e) stp_task" +
  net_use_dhcp :: bool
  net_link_up :: bool
  net_readiness :: network_link_policy
  net_dhcp :: dhcp_policy
  net_service :: bool
  net_notified :: u32
  net_drain :: bool
  net_reported :: bool
  net_random :: u32
  net_arp :: "arp_entry list"
  net_rx :: "bytes list"
  net_taken :: nat
  net_freed :: nat
  net_tx_freed :: nat
  net_downs :: nat
  ep_address :: u32
  ep_netmask :: u32
  ep_gateway :: u32
  ep_mac :: bytes
  ep_want_dhcp :: bool
  ep_up :: bool

section \<open>Call-backs of the IP stack\<close>

definition initialise :: "('v, 'e, 'a) net_scheme \<Rightarrow> bool" where
  "initialise h \<longleftrightarrow> fabric_dma_healthy h \<and> net_link_up h"

definition phy_status :: "('v, 'e, 'a) net_scheme \<Rightarrow> bool" where
  "phy_status h \<longleftrightarrow> fabric_dma_healthy h \<and> net_link_up h"

definition output_frame :: "bytes \<Rightarrow> bool \<Rightarrow> ('v, 'e, 'a) net_scheme \<Rightarrow> (bool \<times> ('v, 'e, 'a) net_scheme) option" where
  "output_frame frame release h =
     map_option (\<lambda>(ok, h). (ok, if release then h\<lparr>net_tx_freed := net_tx_freed h + 1\<rparr> else h))
       (if net_link_up h then fabric_dma_send (Some frame) h else Some (False, h))"

definition notify :: "u32 \<Rightarrow> ('v, 'e, 'a) net_scheme \<Rightarrow> ('v, 'e, 'a) net_scheme" where
  "notify bits h = (if net_service h then h\<lparr>net_notified := net_notified h OR bits\<rparr> else h)"

definition network_link_changed :: "bool \<Rightarrow> ('v, 'e, 'a) net_scheme \<Rightarrow> ('v, 'e, 'a) net_scheme" where
  "network_link_changed up h =
     (let (now, h) = tick_count h;
          (rdy, s) = network_link_ready (net_readiness h) up now (if net_use_dhcp h then 1000 else 0);
          h = h\<lparr>net_readiness := s\<rparr>
      in if net_link_up h = rdy then h else notify 1 (h\<lparr>net_link_up := rdy\<rparr>))"

definition network_dhcp_result :: "bool \<Rightarrow> ('v, 'e, 'a) net_scheme \<Rightarrow> ('v, 'e, 'a) net_scheme" where
  "network_dhcp_result l h =
     (if \<not> net_use_dhcp h then h
      else let (now, h) = tick_count h; h = h\<lparr>net_dhcp := dhcp_result (net_dhcp h) l now\<rparr>
           in if \<not> l then notify 2 h else h)"

definition random_step :: "u32 \<Rightarrow> u32 \<Rightarrow> u32" where
  "random_step entropy s =
     (let s = s XOR entropy; s = s XOR push_bit 13 s; s = s XOR drop_bit 17 s; s = s XOR push_bit 5 s
      in if s = 0 then 0x91e10da5 else s)"

definition xApplicationGetRandomNumber :: "('v, 'e, 'a) net_scheme \<Rightarrow> u32 \<times> ('v, 'e, 'a) net_scheme" where
  "xApplicationGetRandomNumber h =
     (let (t, h) = board_timestamp h; s = random_step (ucast t) (net_random h) in (s, h\<lparr>net_random := s\<rparr>))"

definition ulApplicationGetNextSequenceNumber ::
  "u32 \<Rightarrow> u16 \<Rightarrow> u32 \<Rightarrow> u16 \<Rightarrow> ('v, 'e, 'a) net_scheme \<Rightarrow> u32 \<times> ('v, 'e, 'a) net_scheme" where
  "ulApplicationGetNextSequenceNumber a b c d h = xApplicationGetRandomNumber h"

definition network_ipv4_snapshot :: "('v, 'e, 'a) net_scheme \<Rightarrow> u32 list \<times> bool \<times> bool" where
  "network_ipv4_snapshot h = ([ep_address h, ep_netmask h, ep_gateway h], ep_up h, net_use_dhcp h)"

definition network_dma_event :: "('v, 'e, 'a) net_scheme \<Rightarrow> ('v, 'e, 'a) net_scheme" where
  "network_dma_event h = notify 4 h"

section \<open>The service task\<close>

text \<open>The destination addresses 01:80:c2:00:00:0x.\<close>

definition reserved_block :: "bytes \<Rightarrow> bool" where
  "reserved_block f \<longleftrightarrow> 6 \<le> length f \<and> f ! 0 = 0x01 \<and> f ! 1 = 0x80 \<and> f ! 2 = 0xc2 \<and> f ! 3 = 0 \<and> f ! 4 = 0 \<and> f ! 5 AND 0xf0 = 0"

definition observe :: "bytes \<Rightarrow> ('v, 'e, 'a) net_scheme \<Rightarrow> ('v, 'e, 'a) net_scheme" where
  "observe f h =
     (if \<not> arp_valid f then h
      else let hz = board_timestamp_hz h; (t, h) = (if hz \<noteq> 0 then board_timestamp h else (0, h))
           in h\<lparr>net_arp := ip_discovery_observe (milliseconds hz t) f (net_arp h)\<rparr>)"

definition hand_over :: "ip_stack \<Rightarrow> bytes \<Rightarrow> ('v, 'e, 'a) net_scheme \<Rightarrow> ('v, 'e, 'a) net_scheme" where
  "hand_over ip f h =
     (if \<not> ip_consider ip f \<or> \<not> ip_buffer ip (hw_count h) (length f) then h
      else let h = h\<lparr>net_taken := net_taken h + 1\<rparr>
           in if ip_queue ip (hw_count h) then h\<lparr>net_rx := net_rx h @ [f]\<rparr> else h\<lparr>net_freed := net_freed h + 1\<rparr>)"

definition receive_one :: "ip_stack \<Rightarrow> ('v, 'e, 'a) net_scheme \<Rightarrow> ('v, 'e, 'a) net_scheme" where
  "receive_one ip h =
     (case fabric_dma_receive 1536 h of (f, h) \<Rightarrow>
        if f = [] then h
        else let h = observe f h in if reserved_block f then fabric_ctrl_frame_rx f h else hand_over ip f h)"

fun receive_some :: "ip_stack \<Rightarrow> nat \<Rightarrow> ('v, 'e, 'a) net_scheme \<Rightarrow> ('v, 'e, 'a) net_scheme" where
  "receive_some ip 0 h = h"
| "receive_some ip (Suc n) h =
     (case fabric_dma_rx_pending h of (pending, h) \<Rightarrow> if pending then receive_some ip n (receive_one ip h) else h)"

definition report_fault :: "('v, 'e, 'a) net_scheme \<Rightarrow> ('v, 'e, 'a) net_scheme" where
  "report_fault h =
     (if fabric_dma_healthy h \<or> net_reported h then h
      else network_link_changed False (mmio_write (DIAG_BASE + LINK_CLR) (0x20 OR 0x1f) (h\<lparr>net_reported := True\<rparr>)))"

text \<open>The notified bits are taken; a link event restarts the interface; DHCP is retried when due.\<close>

definition take_events :: "('v, 'e, 'a) net_scheme \<Rightarrow> ('v, 'e, 'a) net_scheme" where
  "take_events h =
     (let events = net_notified h;
          h = h\<lparr>net_notified := 0, net_drain := net_drain h \<or> events AND 4 \<noteq> 0\<rparr>;
          h = (if events AND 1 \<noteq> 0 then h\<lparr>net_dhcp := dhcp_link_event (net_dhcp h), net_downs := net_downs h + 1\<rparr> else h)
      in if \<not> net_use_dhcp h then h
         else let (now, h) = tick_count h; (retry, s) = dhcp_retry (net_dhcp h) (net_link_up h) now; h = h\<lparr>net_dhcp := s\<rparr>
              in if retry then h\<lparr>net_downs := net_downs h + 1\<rparr> else h)"

definition drain_again :: "('v, 'e, 'a) net_scheme \<Rightarrow> ('v, 'e, 'a) net_scheme" where
  "drain_again h =
     (let (pending, h) = (if net_drain h then fabric_dma_rx_pending h else (False, h)); h = h\<lparr>net_drain := pending\<rparr>
      in if pending then vTaskDelay 1 h else h)"

definition network_service :: "ip_stack \<Rightarrow> ('v, 'e, 'a) net_scheme \<Rightarrow> ('v, 'e, 'a) net_scheme" where
  "network_service ip h =
     (let h = take_events h; h = (if net_drain h then receive_some ip 16 h else h) in drain_again (report_fault h))"

text \<open>Start: \<open>None\<close> when an assertion fails.\<close>

definition network_start :: "('v, 'f) fatfs \<Rightarrow> ip_stack \<Rightarrow> ('v, 'e, 'a) net_scheme \<Rightarrow> ('v, 'e, 'a) net_scheme option" where
  "network_start fs ip h =
     (case settings_get fs False h of ((cfg, _, _), h) \<Rightarrow>
        let d = cfg_dhcp cfg; quad = (\<lambda>a. if d then 0 else get32 a);
            h = h\<lparr>net_use_dhcp := d, ep_address := quad (cfg_ip cfg), ep_netmask := quad (cfg_netmask cfg),
                  ep_gateway := quad (cfg_gateway cfg), ep_mac := cfg_mac cfg ! 0, ep_want_dhcp := d\<rparr>
        in case fabric_dma_init h of
             None \<Rightarrow> None
           | Some (ok, h) \<Rightarrow>
               if \<not> ok \<or> \<not> ip_init ip \<or> \<not> ip_task ip then None
               else Some (h\<lparr>net_service := True, net_drain := True, net_reported := False\<rparr>))"

section \<open>The tasks together\<close>

text \<open>The poll of the link manager ends in the call that informs the network; the DMA driver calls
  \<open>network_dma_event\<close> where its operations log the event.\<close>

definition link_round :: "('v, 'e, 'a) net_scheme \<Rightarrow> ('v, 'e, 'a) net_scheme option" where
  "link_round h = map_option (\<lambda>h. network_link_changed (enabled (link_state h) \<noteq> 0) h) (link_poll h)"

definition told :: "('v, 'e, 'a) net_scheme \<Rightarrow> ('v, 'e, 'a) net_scheme \<Rightarrow> ('v, 'e, 'a) net_scheme" where
  "told g h = (if Dma_Event \<in> set (drop (length (hw_log g)) (hw_log h)) then network_dma_event h else h)"

datatype net_op = Service | Link_Round | Dma_Irq bool | Output bytes bool | Dhcp_Answer bool | Next_Random | Stp_Turn

fun net_do :: "'e mstp \<Rightarrow> ip_stack \<Rightarrow> net_op \<Rightarrow> ('v, 'e, 'a) net_scheme \<Rightarrow> ('v, 'e, 'a) net_scheme option" where
  "net_do eng ip Service h = Some (network_service ip h)"
| "net_do eng ip Link_Round h = link_round h"
| "net_do eng ip (Dma_Irq receive) h = Some (told h (fabric_dma_interrupt receive h))"
| "net_do eng ip (Output frame release) h = map_option (\<lambda>(ok, k). told h k) (output_frame frame release h)"
| "net_do eng ip (Dhcp_Answer l) h = Some (network_dhcp_result l h)"
| "net_do eng ip Next_Random h = Some (snd (xApplicationGetRandomNumber h))"
| "net_do eng ip Stp_Turn h = map_option (told h) (stp_iterate eng h)"

fun net_run :: "'e mstp \<Rightarrow> ip_stack \<Rightarrow> net_op list \<Rightarrow> ('v, 'e, 'a) net_scheme \<Rightarrow> ('v, 'e, 'a) net_scheme option" where
  "net_run eng ip [] h = Some h"
| "net_run eng ip (x # xs) h = Option.bind (net_do eng ip x h) (net_run eng ip xs)"

end
