(* ===== verification/Network_Safety.thy ===== *)
theory Network_Safety
  imports Network
begin

text \<open>
  What the network service guarantees whatever the other tasks do in between: control frames and management
  traffic are kept apart, a DMA fault is final, and a turn of the service does a bounded amount of work. The interface to the spanning
  tree task is the locale \<open>task_invariant\<close>: what a property of the world has to respect for an iteration of
  the task to keep it.
\<close>

section \<open>Invariants of the spanning tree task\<close>

text \<open>What a property of the world has to respect for an iteration of the task to keep it: the port-state calls, the
  transmission, and the variables the task owns, of which the queue only ever shrinks.\<close>

locale task_invariant =
  fixes ok :: "('v, 'e, 'a) stp_task_scheme \<Rightarrow> bool"
  assumes ok_clear: "reg \<in> set [FWD_CLR, LEARN_CLR] \<Longrightarrow> ok h \<Longrightarrow> ok (clear_and_flush reg m h)"
    and ok_set: "ok h \<Longrightarrow> ok (pstate_fwd_set m h)" "ok h \<Longrightarrow> ok (pstate_learn_set m h)"
    and ok_fault: "ok h \<Longrightarrow> ok (pstate_latch_fault h)"
    and ok_abi: "ok h \<Longrightarrow> ok (snd (pstate_stp_supported h))"
    and ok_tick: "ok h \<Longrightarrow> ok (snd (tick_count h))"
    and ok_send: "ok h \<Longrightarrow> send_frame frame directed m h = Some (sent, h') \<Longrightarrow> ok h'"
    and ok_desired: "ok h \<Longrightarrow> ok (h\<lparr>desired_fwd := u\<rparr>)" "ok h \<Longrightarrow> ok (h\<lparr>desired_learn := u\<rparr>)"
    and ok_flags: "ok h \<Longrightarrow> ok (h\<lparr>running := b\<rparr>)" "ok h \<Longrightarrow> ok (h\<lparr>changing := b\<rparr>)" "ok h \<Longrightarrow> ok (h\<lparr>task_enabled := b\<rparr>)"
    and ok_locals: "ok h \<Longrightarrow> ok (h\<lparr>task_links := u\<rparr>)" "ok h \<Longrightarrow> ok (h\<lparr>task_version := u\<rparr>)" "ok h \<Longrightarrow> ok (h\<lparr>task_speeds := ss\<rparr>)"
      "ok h \<Longrightarrow> ok (h\<lparr>task_tick := t\<rparr>)" "ok h \<Longrightarrow> ok (h\<lparr>rx_dropped := t\<rparr>)" "ok h \<Longrightarrow> ok (h\<lparr>published := s\<rparr>)"
      "ok h \<Longrightarrow> ok (h\<lparr>task_engine := e\<rparr>)"
    and ok_queue: "ok h \<Longrightarrow> ok (h\<lparr>rx_queue := Some []\<rparr>)" "ok h \<Longrightarrow> rx_queue h = Some (e' # q) \<Longrightarrow> ok (h\<lparr>rx_queue := Some q\<rparr>)"
begin

lemmas ok_steps = ok_set ok_fault ok_abi ok_tick ok_desired ok_flags ok_locals ok_queue

lemma ok_clears: "ok h \<Longrightarrow> ok (pstate_fwd_clear m h)" "ok h \<Longrightarrow> ok (pstate_learn_clear m h)"
  unfolding pstate_fwd_clear_def pstate_learn_clear_def by (simp_all add: ok_clear)

lemma ok_port_state: "ok h \<Longrightarrow> ok (port_state p learn forward h)"
  by (simp add: port_state_def Let_def drop_fwd_def drop_learn_def raise_learn_def raise_fwd_def ok_steps ok_clears)

lemma ok_port_flush: "ok h \<Longrightarrow> ok (port_flush p rapid h)"
  by (simp add: port_flush_def Let_def ok_steps ok_clears)

lemma ok_transmit: "ok h \<Longrightarrow> port_transmit p frame h = Some (sent, h') \<Longrightarrow> ok h'"
  by (auto simp: port_transmit_def pstate_cpu_tx_raw_def fabric_dma_send_directed_def split: if_splits dest: ok_send)

definition keeps :: "('b stp_bridge \<times> ('v, 'e, 'a) stp_task_scheme) option \<Rightarrow> bool" where
  "keeps r \<longleftrightarrow> (case r of None \<Rightarrow> True | Some (b, h) \<Rightarrow> ok h)"

lemma keeps_simps [simp]: "keeps None" "keeps (Some (b, h)) = ok h"
  by (simp_all add: keeps_def)

lemma keeps_bind: "keeps r \<Longrightarrow> (\<And>b h. ok h \<Longrightarrow> keeps (k (b, h))) \<Longrightarrow> keeps (Option.bind r k)"
  by (cases r) auto

lemma keeps_map: "keeps r \<Longrightarrow> (\<And>h. ok h \<Longrightarrow> ok (k h)) \<Longrightarrow> keeps (map_option (\<lambda>(b, h). (b, k h)) r)"
  by (cases r) auto

lemma keeps_callback: "ok h \<Longrightarrow> keeps (run_callback task_ops c (b, h))"
proof (cases c)
  case (Tx p payload)
  assume "ok h"
  then show ?thesis
    using ok_transmit by (auto simp: Tx keeps_def task_ops_def tx_release_def split: option.splits prod.splits)
qed (auto simp: task_ops_def Let_def ok_port_state ok_port_flush)

lemma keeps_callbacks: "ok h \<Longrightarrow> keeps (run_callbacks task_ops cs (b, h))"
proof (induction cs arbitrary: b h)
  case (Cons c cs)
  show ?case unfolding run_callbacks.simps
    by (rule keeps_bind [OF keeps_callback [OF Cons.prems]]) (rule Cons.IH)
qed simp

lemma keeps_enter: "ok h \<Longrightarrow> keeps (enter task_ops f (b, h))"
  by (simp add: enter_def case_prod_beta keeps_callbacks)

lemma keeps_fold: "keeps r \<Longrightarrow> (\<And>x b h. ok h \<Longrightarrow> keeps (k x (b, h))) \<Longrightarrow> keeps (fold (\<lambda>x r. Option.bind r (k x)) xs r)"
  by (induction xs arbitrary: r) (simp_all add: keeps_bind)

lemma keeps_link_part: "ok h \<Longrightarrow> keeps (link_part eng nxt speeds p (b, h))"
proof -
  assume h: "ok h"
  have "keeps (stp_port_link_change eng task_ops p up speed now (b, snd (tick_count h)))" for up speed now
    unfolding stp_port_link_change_def
    by (auto intro!: keeps_bind simp: h ok_tick keeps_enter)
  then have "keeps (map_option (\<lambda>(b, h). (b, h\<lparr>task_speeds := (task_speeds h)[p := speeds ! p]\<rparr>))
      (stp_port_link_change eng task_ops p up speed now (b, snd (tick_count h))))" for up speed now
    by (rule keeps_map) (rule ok_locals)
  then show ?thesis using h by (simp add: link_part_def case_prod_beta)
qed

lemma keeps_rx:
  assumes "ok h" and "stp_rx_bpdu eng task_ops p f now (b, h) = Some (r, b', h')"
  shows "ok h'"
proof -
  have "keeps (enter task_ops e (c, h))" for e c using assms(1) by (rule keeps_enter)
  then have "enter task_ops e (c, h) = Some (b', h') \<Longrightarrow> ok h'" for e c by (metis keeps_simps(2))
  then show ?thesis
    using assms by (auto simp: stp_rx_bpdu_def Let_def split: if_splits)
qed

lemma keeps_drain: "ok h \<Longrightarrow> keeps (drain_part eng n (b, h))"
proof (induction n arbitrary: b h)
  case (Suc n)
  show ?case
  proof (cases "rx_queue h")
    case (Some es)
    show ?thesis
    proof (cases es)
      case (Cons e q)
      let ?h1 = "snd (tick_count (h\<lparr>rx_queue := Some q\<rparr>))"
      let ?h2 = "snd (tick_count ?h1)"
      have h: "ok ?h1" "ok ?h2" using ok_queue(2) Suc.prems Some Cons by (simp_all add: ok_tick)
      have "keeps (Option.bind (stp_rx_bpdu eng task_ops p f now (b, ?h2))
          (\<lambda>(r, b, h). drain_part eng n (b, if r then h else h\<lparr>rx_dropped := rx_dropped h + 1\<rparr>)))" for p f now
      proof (cases "stp_rx_bpdu eng task_ops p f now (b, ?h2)")
        case (Some x)
        obtain r b' k where x: "x = (r, b', k)" by (cases x)
        have "ok k" using keeps_rx [OF h(2)] Some x by simp
        then show ?thesis by (simp add: Some x Suc.IH ok_locals)
      qed simp
      then show ?thesis using Suc.IH h(1) Some Cons by (simp add: case_prod_beta ok_locals)
    qed (use Suc.prems Some in simp)
  qed (use Suc.prems in simp)
qed simp

lemma keeps_tick_part: "ok h \<Longrightarrow> keeps (tick_part eng (b, h))"
  by (simp add: tick_part_def case_prod_beta stp_tick_def keeps_enter ok_tick ok_locals)

lemma keeps_engine_part: "ok h \<Longrightarrow> keeps (engine_part eng ps (b, h))"
proof -
  assume h: "ok h"
  have "keeps (fold (\<lambda>p r. Option.bind r (link_part eng nxt sp p)) [0..<STP_NUM_PORTS] (Some (b, h)))" for nxt sp
    by (rule keeps_fold) (simp_all add: h keeps_link_part)
  then show ?thesis
    unfolding engine_part_def Let_def
    by (rule keeps_bind) (auto intro!: keeps_bind simp: keeps_drain keeps_tick_part ok_locals)
qed

lemma ok_shutdown: "ok h \<Longrightarrow> stp_shutdown eng h = Some h' \<Longrightarrow> ok h'"
proof -
  assume h: "ok h" and run: "stp_shutdown eng h = Some h'"
  define g where "g = (pstate_learn_clear 0x1f (pstate_fwd_clear 0x1f (h\<lparr>running := False, changing := True\<rparr>)))
      \<lparr>desired_fwd := 0, desired_learn := 0\<rparr>"
  have g: "ok g" using h by (simp add: g_def ok_steps ok_clears)
  obtain k where k: "stp_destroy eng task_ops (task_engine g) g = Some k"
      "h' = k\<lparr>task_engine := None, rx_queue := Some [], task_links := 0, task_speeds := replicate STP_NUM_PORTS 0\<rparr>"
    using run by (auto simp: stp_shutdown_def Let_def g_def)
  have "ok k"
  proof (cases "task_engine g")
    case (Some b)
    have "keeps (enter task_ops (e_stop eng) (b, g))" using g by (rule keeps_enter)
    then show ?thesis using k(1) Some by (auto simp: stp_destroy_def)
  qed (use g k(1) in \<open>simp add: stp_destroy_def\<close>)
  then show "ok h'" by (simp add: k(2) ok_steps)
qed

lemma ok_create: "ok w \<Longrightarrow> stp_create eng mac v task_ops w = Some (b, w') \<Longrightarrow> ok w'"
proof -
  assume w: "ok w" and run: "stp_create eng mac v task_ops w = Some (b, w')"
  have enters: "keeps (Option.bind (Option.bind (enter task_ops (e_version eng v) (c, w))
      (\<lambda>bw. fold (\<lambda>p r. Option.bind r (enter task_ops (e_auto_edge eng p False))) [0..<STP_NUM_PORTS] (Some bw)))
      (enter task_ops (e_start eng)))" for c
    by (intro keeps_bind keeps_fold) (simp_all add: w keeps_enter)
  show "ok w'"
  proof (cases "e_create eng mac")
    case None
    then show ?thesis using run w by (auto simp: stp_create_def split: if_splits)
  next
    case (Some e)
    have "ok w'" if "map_option (\<lambda>(b, w). (Some b, w)) r = Some (b, w')" "keeps r" for r :: "('b stp_bridge \<times> _) option"
      using that by auto
    then show ?thesis
      using run w enters unfolding stp_create_def Some option.case Let_def
      by (cases "v \<noteq> 0 \<and> v \<noteq> 2") (simp_all only: simp_thms if_True if_False option.inject prod.inject)
  qed
qed

lemma ok_restart: "ok h \<Longrightarrow> stp_restart eng cfg h = Some h' \<Longrightarrow> ok h'"
proof -
  assume h: "ok h" and run: "stp_restart eng cfg h = Some h'"
  define g where "g = h\<lparr>task_enabled := cfg_stp_enabled cfg, task_version := cfg_stp_version cfg, changing := False\<rparr>"
  define k where "k = (if task_enabled g then case pstate_stp_supported g of (r, h) \<Rightarrow> if r then h else pstate_latch_fault h else g)"
  have k: "ok k" using h by (simp add: k_def g_def case_prod_beta ok_steps)
  define r where "r = (if task_enabled k \<and> \<not> pstate_failed k
      then Option.bind (stp_create eng (cfg_mac cfg ! 0) (task_version k) task_ops k)
             (\<lambda>(b, h). if b = None then None else Some (h\<lparr>task_engine := b\<rparr>))
      else if \<not> task_enabled k
      then Some ((pstate_fwd_set 0x1f (pstate_learn_set 0x1f k))\<lparr>desired_fwd := 0x1f, desired_learn := 0x1f\<rparr>)
      else Some k)"
  have res: "stp_restart eng cfg h = map_option (\<lambda>h. case tick_count h of (now, h) \<Rightarrow> h\<lparr>task_tick := now, running := task_enabled h\<rparr>) r"
    unfolding stp_restart_def Let_def g_def [symmetric] k_def [symmetric] r_def [symmetric] by (rule refl)
  have "ok x" if "r = Some x" for x
    using that k ok_create [OF k] unfolding r_def
    by (auto simp: bind_eq_Some_conv intro!: ok_set ok_locals ok_desired split: if_splits)
  then show "ok h'" using run by (auto simp: res case_prod_beta ok_steps)
qed

lemma ok_iterate:
  assumes "ok h" and "stp_iterate eng h = Some h'"
  shows "ok h'"
proof -
  obtain g where g: "stp_follow_settings eng h = Some g" using assms(2) by (cases "stp_follow_settings eng h") (auto simp: stp_iterate_def)
  have "ok (h\<lparr>task_version := v, desired_fwd := u, desired_learn := u\<rparr>)" for v u using assms(1) by (simp add: ok_steps)
  then have "ok g"
    using g assms(1)
    by (auto simp: stp_follow_settings_def Let_def bind_eq_Some_conv split: if_splits
        dest!: ok_shutdown [OF assms(1)] intro: ok_restart)
  have publish: "ok (publish eng k)" if "ok k" for k using that by (simp add: publish_def Let_def ok_steps)
  show "ok h'"
  proof (cases "task_engine g")
    case (Some b)
    obtain c k where k: "engine_part eng (board_ports_snapshot g) (b, g) = Some (c, k)" "h' = publish eng (k\<lparr>task_engine := Some c\<rparr>)"
      using assms(2) by (auto simp: stp_iterate_def g Some)
    have "ok k" using keeps_engine_part [OF \<open>ok g\<close>, of eng "board_ports_snapshot g" b] by (simp add: k(1))
    then show ?thesis unfolding k(2) by (intro publish ok_locals)
  qed (use assms(2) publish \<open>ok g\<close> in \<open>auto simp: stp_iterate_def g\<close>)
qed

end

section \<open>What reaches the IP stack and the spanning tree\<close>

definition frame_ok :: "ip_stack \<Rightarrow> bytes \<Rightarrow> bool" where
  "frame_ok ip f \<longleftrightarrow> f \<noteq> [] \<and> length f \<le> 1514 \<and> \<not> reserved_block f \<and> ip_consider ip f"

definition bpdu_ok :: "bpdu_event \<Rightarrow> bool" where
  "bpdu_ok e \<longleftrightarrow> ev_port e < 5 \<and> 21 \<le> length (ev_frame e) \<and> length (ev_frame e) \<le> 1514 \<and> take 6 (ev_frame e) = bpdu_destination"

definition queue_ok :: "bpdu_event list option \<Rightarrow> bool" where
  "queue_ok q \<longleftrightarrow> (case q of None \<Rightarrow> True | Some es \<Rightarrow> length es \<le> 32 \<and> list_all bpdu_ok es)"

definition kept_apart :: "ip_stack \<Rightarrow> ('v, 'e, 'a) net_scheme \<Rightarrow> bool" where
  "kept_apart ip h \<longleftrightarrow> list_all (frame_ok ip) (net_rx h) \<and> queue_ok (rx_queue h) \<and>
     net_taken h = length (net_rx h) + net_freed h \<and> 5 \<le> length (ps_speed_mbps (ports h))"

lemma kept_more:
  fixes g h :: "('v, 'e, 'a) net_scheme"
  shows "hw.more h = hw.more g \<Longrightarrow> kept_apart ip h = kept_apart ip g" "pstate.more h = pstate.more g \<Longrightarrow> kept_apart ip h = kept_apart ip g"
    "dma.more h = dma.more g \<Longrightarrow> kept_apart ip h = kept_apart ip g"
    "links.more h = links.more g \<Longrightarrow> 5 \<le> length (ps_speed_mbps (ports h)) \<Longrightarrow> kept_apart ip g \<Longrightarrow> kept_apart ip h"
  by (cases g, cases h, simp add: kept_apart_def)+

lemma hw_more [simp]:
  "hw.more (snd (tick_count h)) = hw.more h" "hw.more (mmio_write a v h) = hw.more h" "hw.more (vTaskDelay n h) = hw.more h"
  "hw.more (snd (board_timestamp h)) = hw.more h" "hw.more (snd (sense p h)) = hw.more h" "hw.more (emit e h) = hw.more h"
  by (simp_all add: hw_defs board_timestamp_def stamp_sample_def stamp_extend_def Let_def)

lemmas kept_hw [simp] = hw_more [THEN kept_more(1)]

lemma kept_fields [simp]:
  "kept_apart ip (h\<lparr>net_readiness := r\<rparr>) = kept_apart ip h" "kept_apart ip (h\<lparr>net_link_up := b\<rparr>) = kept_apart ip h"
  "kept_apart ip (h\<lparr>net_notified := n\<rparr>) = kept_apart ip h" "kept_apart ip (h\<lparr>net_dhcp := d\<rparr>) = kept_apart ip h"
  "kept_apart ip (h\<lparr>net_drain := b\<rparr>) = kept_apart ip h" "kept_apart ip (h\<lparr>net_reported := b\<rparr>) = kept_apart ip h"
  "kept_apart ip (h\<lparr>net_downs := i\<rparr>) = kept_apart ip h" "kept_apart ip (h\<lparr>net_arp := es\<rparr>) = kept_apart ip h"
  "kept_apart ip (h\<lparr>net_random := n\<rparr>) = kept_apart ip h" "kept_apart ip (h\<lparr>net_tx_freed := i\<rparr>) = kept_apart ip h"
  by (simp_all add: kept_apart_def)

lemma kept_notify [simp]: "kept_apart ip (notify b h) = kept_apart ip h"
  by (simp add: notify_def)

lemma kept_link [simp]: "kept_apart ip (network_link_changed up h) = kept_apart ip h"
  by (simp add: network_link_changed_def case_prod_beta Let_def)

lemma kept_calls [simp]:
  "kept_apart ip (network_dhcp_result l h) = kept_apart ip h" "kept_apart ip (told g h) = kept_apart ip h"
  "kept_apart ip (observe f h) = kept_apart ip h" "kept_apart ip (take_events h) = kept_apart ip h"
  "kept_apart ip (report_fault h) = kept_apart ip h" "kept_apart ip (snd (xApplicationGetRandomNumber h)) = kept_apart ip h"
  by (simp_all add: network_dhcp_result_def told_def network_dma_event_def observe_def take_events_def report_fault_def
      xApplicationGetRandomNumber_def case_prod_beta Let_def)

lemma receive_more: "dma.more (snd (fabric_dma_receive n h)) = dma.more h" "length (fst (fabric_dma_receive n h)) \<le> 1514"
  by (auto simp: fabric_dma_receive_def case_prod_beta Let_def hw_defs)

lemma pending_more: "hw.more (snd (fabric_dma_rx_pending h)) = hw.more h"
  by (simp add: fabric_dma_rx_pending_def case_prod_beta)

lemma ctrl_frame_queue:
  assumes "kept_apart ip h" shows "kept_apart ip (fabric_ctrl_frame_rx f h)"
  using assms
  by (auto simp: fabric_ctrl_frame_rx_def fabric_dma_last_rx_tag_def kept_apart_def queue_ok_def bpdu_ok_def hw_defs
      split: option.splits prod.splits)

lemma kept_receive_one: "kept_apart ip h \<Longrightarrow> kept_apart ip (receive_one ip h)"
proof -
  assume h: "kept_apart ip h"
  obtain f k where r: "fabric_dma_receive 1536 h = (f, k)" by fastforce
  have k: "kept_apart ip k" "length f \<le> 1514" using h kept_more(3) [of k h ip] receive_more [of 1536 h] by (simp_all add: r)
  have "kept_apart ip (hand_over ip f k')" if "kept_apart ip k'" "f \<noteq> []" "\<not> reserved_block f" for k' :: "('a, 'b, 'c) net_scheme"
    using that k(2) by (simp add: hand_over_def Let_def kept_apart_def frame_ok_def)
  then show ?thesis using k by (simp add: receive_one_def r Let_def ctrl_frame_queue)
qed

lemma kept_receive: "kept_apart ip h \<Longrightarrow> kept_apart ip (receive_some ip n h)"
proof (induction n arbitrary: h)
  case (Suc n)
  have "kept_apart ip (snd (fabric_dma_rx_pending h))" using Suc.prems kept_more(1) [OF pending_more, of ip h] by simp
  then show ?case by (simp add: case_prod_beta Suc.IH kept_receive_one)
qed simp

lemma kept_service: "kept_apart ip h \<Longrightarrow> kept_apart ip (network_service ip h)"
proof -
  assume h: "kept_apart ip h"
  have "kept_apart ip (drain_again k) = kept_apart ip k" for k :: "('a, 'b, 'c) net_scheme"
    using kept_more(1) [OF pending_more, of ip k] by (simp add: drain_again_def case_prod_beta Let_def)
  then show ?thesis using h by (simp add: network_service_def Let_def kept_receive)
qed

interpretation queue_inv: task_invariant "kept_apart ip" for ip
proof unfold_locales
  fix h h' :: "('a, 'b, 'c) net_scheme" and reg m
  show "kept_apart ip h \<Longrightarrow> kept_apart ip (clear_and_flush reg m h)" using kept_more(2) [OF clear_more] by blast
  show "kept_apart ip h \<Longrightarrow> kept_apart ip (pstate_fwd_set m h)" "kept_apart ip h \<Longrightarrow> kept_apart ip (pstate_learn_set m h)"
    "kept_apart ip h \<Longrightarrow> kept_apart ip (pstate_latch_fault h)" "kept_apart ip h \<Longrightarrow> kept_apart ip (snd (pstate_stp_supported h))"
    by (simp_all add: pstate_fwd_set_def pstate_learn_set_def pstate_latch_fault_def pstate_stp_supported_def hw_defs kept_apart_def)
  show "kept_apart ip h'" if "kept_apart ip h" "send_frame frame directed m' h = Some (sent, h')" for frame directed m' sent
    using far_send [OF that(2)] that(1) kept_more(3) by (auto simp: far_def)
qed (simp_all add: kept_apart_def queue_ok_def hw_defs)

lemma kept_do:
  assumes "kept_apart ip h" and "net_do eng ip x h = Some h'"
  shows "kept_apart ip h'"
proof (cases x)
  case Link_Round
  obtain k where k: "link_poll h = Some k" "h' = network_link_changed (enabled (link_state k) \<noteq> 0) k"
    using assms(2) by (auto simp: Link_Round link_round_def)
  have "5 \<le> length (ps_speed_mbps (ports h))" using assms(1) by (simp add: kept_apart_def)
  then have "links.more k = links.more h" "5 \<le> length (ps_speed_mbps (ports k))"
    using spared_link_poll [OF k(1), of 0] poll_lengths [OF k(1)] by (simp_all add: spared_def)
  then show ?thesis using kept_more(4) [of k h] assms(1) by (simp add: k(2))
next
  case (Dma_Irq r)
  have "dma.more (fabric_dma_interrupt r h) = dma.more h" using far_interrupt [OF far_refl, of h r] by (simp add: far_def)
  from kept_more(3) [OF this] show ?thesis using assms by (auto simp: Dma_Irq)
next
  case (Output f r)
  obtain ok k where run: "(if net_link_up h then fabric_dma_send (Some f) h else Some (False, h)) = Some (ok, k)"
    and h': "h' = told h (if r then k\<lparr>net_tx_freed := net_tx_freed k + 1\<rparr> else k)"
    using assms(2) by (auto simp: Output output_frame_def simp del: if_split)
  have "kept_apart ip k"
    using run assms(1) queue_inv.ok_send [OF assms(1)] unfolding fabric_dma_send_def by (cases "net_link_up h") auto
  then show ?thesis by (simp add: h')
next
  case Stp_Turn
  then obtain k where k: "stp_iterate eng h = Some k" "h' = told h k" using assms(2) by auto
  from queue_inv.ok_iterate [OF assms(1) k(1)] show ?thesis by (simp add: k(2))
qed (use assms in \<open>auto simp: kept_service\<close>)

text \<open>C4: Control traffic and management traffic are kept apart, over any interleaving of the service task, the link
  manager, DMA interrupts, transmission and the spanning tree task: a frame given to the IP stack is a nonempty frame of at most 1514 bytes that
  the stack considers and that is not addressed to the reserved block 01:80:c2:00:00:0x; the spanning tree task is given
  only frames of a legal length for the bridge group address from a physical port, at most 32 of them wait; and every buffer taken is
  either queued or released.\<close>
theorem control_traffic_separated:
  assumes "net_run eng ip ops h = Some h'" and "net_rx h = []" and "rx_queue h = None \<or> rx_queue h = Some []" and "net_taken h = 0" and "net_freed h = 0"
    and "5 \<le> length (ps_speed_mbps (ports h))"
  shows "list_all (frame_ok ip) (net_rx h') \<and> queue_ok (rx_queue h') \<and> net_taken h' = length (net_rx h') + net_freed h'"
proof -
  have "kept_apart ip h" using assms(2-6) by (auto simp: kept_apart_def queue_ok_def)
  with assms(1) have "kept_apart ip h'"
  proof (induction ops arbitrary: h)
    case (Cons x ops)
    then obtain k where k: "net_do eng ip x h = Some k" "net_run eng ip ops k = Some h'" by (auto simp: bind_eq_Some_conv)
    from Cons.IH [OF k(2) kept_do [OF Cons.prems(2) k(1)]] show ?case .
  qed simp
  then show ?thesis by (simp add: kept_apart_def)
qed

section \<open>A DMA fault is final\<close>

text \<open>Events that neither admit a link nor hand a descriptor to the DMA.\<close>

definition no_admit :: "event \<Rightarrow> bool" where
  "no_admit e \<longleftrightarrow> (case e of
     Wr a v \<Rightarrow> a \<noteq> DIAG_BASE + LINK_SET \<and> a \<noteq> DMA_BASE + 0x10 \<and> a \<noteq> DMA_BASE + RX_CH + 0x10 | _ \<Rightarrow> True)"

definition shut :: "u32 \<Rightarrow> 'a hw_scheme \<Rightarrow> bool" where
  "shut l h \<longleftrightarrow> (\<forall>p<6. \<not> bit (link_enabled l (hw_log h)) p)"

lemma no_admit_shut: "list_all no_admit evs \<Longrightarrow> \<not> bit l p \<Longrightarrow> \<not> bit (link_enabled l evs) p"
proof (induction evs arbitrary: l)
  case (Cons e evs)
  then have "\<not> bit (link_event l e) p" by (cases e) (auto simp: no_admit_def bit_and_iff)
  then show ?case using Cons by simp
qed simp

lemma no_admit_touches: "list_all (touches S) evs \<Longrightarrow> list_all no_admit evs"
  by (induction evs) (auto simp: touches_def no_admit_def split: event.splits)

lemma no_admit_quiet: "list_all quiet evs \<Longrightarrow> list_all no_admit evs"
  by (induction evs) (auto simp: quiet_def no_admit_def split: event.splits)

definition quits :: "'a links_scheme \<Rightarrow> 'a links_scheme \<Rightarrow> bool" where
  "quits g h \<longleftrightarrow> links.more h = links.more g \<and> (dma_failed g \<longrightarrow> dma_failed h) \<and>
     length (ps_speed_mbps (ports h)) = length (ps_speed_mbps (ports g)) \<and> (\<exists>evs. hw_log h = hw_log g @ evs \<and> list_all no_admit evs)"

lemma quits_trans: "quits g h \<Longrightarrow> quits h k \<Longrightarrow> quits g k"
  unfolding quits_def by (metis append_assoc list_all_append)

lemma quitsI:
  assumes "links.more h = links.more g" and "dma_failed h = dma_failed g" and "ports h = ports g"
    and "hw_log h = hw_log g @ evs" and "list_all no_admit evs"
  shows "quits g h"
  using assms by (auto simp: quits_def)

lemma quits_refl: "quits g g"
  by (rule quitsI [where evs = "[]"]) simp_all

lemma quits_poll: "poll_step S g h \<Longrightarrow> length (ps_speed_mbps (ports h)) = length (ps_speed_mbps (ports g)) \<Longrightarrow> quits g h"
  by (auto simp: quits_def poll_step_def dest: no_admit_touches)

lemma clear_log:
  assumes "reg \<noteq> LINK_SET" and "reg \<in> set [LINK_CLR, FWD_CLR, LEARN_CLR]"
  shows "\<exists>evs. hw_log (clear_and_flush reg m h) = hw_log h @ evs \<and> list_all no_admit evs"
proof (cases "m = 0")
  case True
  then show ?thesis by (simp add: clear_and_flush_def)
next
  case False
  have w: "no_admit (Wr (DIAG_BASE + reg) v)" "no_admit (Wr (DIAG_BASE + FWD_CLR) v)" for v using assms by (auto simp: no_admit_def)
  show ?thesis
    by (rule clear_and_flush_trace [OF False, of reg h]) (auto simp: w [simplified] intro: no_admit_quiet)
qed

lemma quits_clear: "reg \<in> set [LINK_CLR, FWD_CLR, LEARN_CLR] \<Longrightarrow> quits h (clear_and_flush reg m h)"
proof -
  assume reg: "reg \<in> set [LINK_CLR, FWD_CLR, LEARN_CLR]"
  then obtain evs where evs: "hw_log (clear_and_flush reg m h) = hw_log h @ evs" "list_all no_admit evs"
    using clear_log [of reg m h] by auto
  have "pstate.more g = pstate.more k \<Longrightarrow> dma_failed g = dma_failed k" for g k :: "'a links_scheme" by (cases g, cases k) simp
  from this [OF clear_more] show ?thesis by (intro quitsI [OF _ _ _ evs]) (simp_all add: clear_fields)
qed

lemma link_apply_closes:
  assumes "\<And>p. \<not> bit desired p"
  shows "quits h (link_apply desired busy now h) \<and> enabled (link_state (link_apply desired busy now h)) = 0"
proof -
  obtain a s where u: "link_update (link_state h) desired busy now = (a, s)" by fastforce
  have none: "act_set a = 0" "enabled s = 0"
    using link_update_five [OF u] assms link_update_enabled [OF u] by (auto intro!: bit_eqI simp: bit_or_iff)
  have "quits h (h\<lparr>link_state := s\<rparr>)" by (rule quitsI [where evs = "[]"]) simp_all
  then have "quits h (pstate_link_clear m (h\<lparr>link_state := s\<rparr>))" for m
    using quits_trans quits_clear [of LINK_CLR "h\<lparr>link_state := s\<rparr>" m] by (simp add: pstate_link_clear_def)
  then show ?thesis
    using none \<open>quits h (h\<lparr>link_state := s\<rparr>)\<close> by (simp add: link_apply_def u Let_def pstate_link_clear_def clear_fields)
qed

lemma failed_poll:
  assumes "link_poll h = Some h'" and "5 \<le> length (ps_speed_mbps (ports h))" and "dma_failed h"
  shows "quits h h' \<and> enabled (link_state h') = 0"
proof -
  obtain observed h1 now h2 desired h3 busy t where ph: "board_phy_mask h = Some (observed, h1)"
    "quietly (touches []) h1 h2" "link_desire (ports h) observed now h2 = (desired, h3)"
    "setup_ports (ports h) busy now (observed, link_apply desired busy now h3) = Some t"
    "h' = (let (obs, k) = sfp_switch busy now t in emit (Net_Link (enabled (link_state k) \<noteq> 0))
        (on_ports (\<lambda>p. p\<lparr>ps_physical := obs, ps_forwarding := enabled (link_state k)\<rparr>) k))"
    by (rule link_poll_phases [OF assms(1)])
  have ob: "poll_step [] h h1" "length (ps_speed_mbps (ports h1)) = length (ps_speed_mbps (ports h))"
    using board_phy_mask_result [OF ph(1) assms(2)] by (auto simp: observing_def)
  have h2: "poll_step [] h h2" "ports h2 = ports h1"
    using poll_quiet [OF ob(1) ph(2)] ph(2) [unfolded quietly_def, THEN conjunct1, THEN more_fields(5)] by simp_all
  have h3: "poll_step [2, 3] h2 h3" "ports h3 = ports h2" using link_desire_result [OF ph(3)] by (simp_all add: deciding_def)
  have q3: "quits h h3" using quits_trans [OF quits_poll [OF h2(1)] quits_poll [OF h3(1)]] by (simp add: h3 h2 ob)
  have "\<not> fabric_dma_healthy h2" using h2(1) assms(3) by (simp add: poll_step_def fabric_dma_healthy_def)
  then have none: "\<not> bit desired p" for p using link_desire_result [OF ph(3)] by blast
  have ap: "quits h3 (link_apply desired busy now h3)" "enabled (link_state (link_apply desired busy now h3)) = 0"
    using link_apply_closes [OF none] by blast+
  obtain S where up: "sets_up S (observed, link_apply desired busy now h3) (sfp_switch busy now t)"
    using setup_ports_result [OF ph(4)] sfp_switch_result [of t busy now] sets_up_trans by meson
  then have "quits (link_apply desired busy now h3) (snd (sfp_switch busy now t))"
    "enabled (link_state (snd (sfp_switch busy now t))) = 0"
    using ap(2) by (auto intro!: quits_poll simp: sets_up_def) (simp add: poll_step_def)
  moreover have "quits k (emit (Net_Link b) (on_ports (\<lambda>p. p\<lparr>ps_physical := o', ps_forwarding := w\<rparr>) k))" for k :: "'a links_scheme" and b o' w
    by (simp add: quits_def emit_def no_admit_def)
  note fin = this [of "snd (sfp_switch busy now t)"]
  ultimately show ?thesis
    using quits_trans [OF quits_trans [OF quits_trans [OF q3 ap(1)]] fin]
    by (simp add: ph(5) Let_def case_prod_beta emit_def)
qed

text \<open>The state after the fault has been reported.\<close>

definition halted :: "u32 \<Rightarrow> bytes list \<Rightarrow> event list \<Rightarrow> ('v, 'e, 'a) net_scheme \<Rightarrow> bool" where
  "halted l rx lg h \<longleftrightarrow> dma_failed h \<and> net_reported h \<and> \<not> net_link_up h \<and> shut l h \<and> net_rx h = rx \<and> 5 \<le> length (ps_speed_mbps (ports h)) \<and>
     (\<exists>evs. hw_log h = lg @ evs \<and> list_all no_admit evs)"

lemma halted_quits:
  fixes g h :: "('v, 'e, 'a) net_scheme"
  assumes "halted l rx lg g" and "quits g h"
  shows "halted l rx lg h"
proof -
  obtain evs where log: "hw_log h = hw_log g @ evs" "list_all no_admit evs" using assms(2) by (auto simp: quits_def)
  have "links.more h = links.more g" using assms(2) by (simp add: quits_def)
  then have "net_reported h = net_reported g \<and> net_link_up h = net_link_up g \<and> net_rx h = net_rx g" by (cases g, cases h) simp
  moreover have "shut l h" using assms(1) no_admit_shut [OF log(2)] by (simp add: halted_def shut_def log(1))
  moreover have "\<exists>evs. hw_log h = lg @ evs \<and> list_all no_admit evs" using assms(1) log by (auto simp: halted_def)
  ultimately show ?thesis using assms by (simp add: halted_def quits_def)
qed

lemma halted_fields [simp]:
  "halted l rx lg (h\<lparr>net_readiness := r\<rparr>) = halted l rx lg h" "halted l rx lg (h\<lparr>net_notified := n\<rparr>) = halted l rx lg h"
  "halted l rx lg (h\<lparr>net_dhcp := d\<rparr>) = halted l rx lg h" "halted l rx lg (h\<lparr>net_drain := b\<rparr>) = halted l rx lg h"
  "halted l rx lg (h\<lparr>net_downs := i\<rparr>) = halted l rx lg h" "halted l rx lg (h\<lparr>net_random := n\<rparr>) = halted l rx lg h"
  "halted l rx lg (h\<lparr>net_tx_freed := i\<rparr>) = halted l rx lg h" "halted l rx lg (notify w h) = halted l rx lg h"
  "halted l rx lg (snd (tick_count h)) = halted l rx lg h" "halted l rx lg (snd (board_timestamp h)) = halted l rx lg h"
  "halted l rx lg (told g h) = halted l rx lg h"
  by (simp_all add: halted_def shut_def notify_def told_def network_dma_event_def hw_defs board_timestamp_def stamp_sample_def
      stamp_extend_def Let_def)

lemma down_stays: "halted l rx lg h \<Longrightarrow> halted l rx lg (network_link_changed False h)"
proof -
  assume h: "halted l rx lg h"
  then have "\<not> net_link_up (snd (tick_count h))" by (simp add: halted_def hw_defs)
  then show ?thesis using h by (simp add: network_link_changed_def case_prod_beta Let_def network_link_ready_def)
qed

lemma failed_send: "dma_failed h \<Longrightarrow> send_frame frame directed m h = Some r \<Longrightarrow> r = (False, h)"
  by (auto simp: send_frame_def fabric_dma_healthy_def split: option.splits if_splits)

lemma failed_pending: "dma_failed h \<Longrightarrow> fabric_dma_rx_pending h = (False, h)"
  by (simp add: fabric_dma_rx_pending_def fabric_dma_healthy_def)

lemma failed_receive: "dma_failed h \<Longrightarrow> receive_some ip n h = h"
  by (cases n) (simp_all add: failed_pending)

interpretation halt_inv: task_invariant "halted l rx lg" for l rx lg
proof unfold_locales
  fix h h' :: "('a, 'b, 'c) net_scheme" and reg m
  show "halted l rx lg (clear_and_flush reg m h)" if "reg \<in> set [FWD_CLR, LEARN_CLR]" "halted l rx lg h"
    using halted_quits [OF that(2) quits_clear [of reg h m]] that(1) by auto
  show "halted l rx lg h \<Longrightarrow> halted l rx lg (pstate_fwd_set m h)" "halted l rx lg h \<Longrightarrow> halted l rx lg (pstate_learn_set m h)"
    "halted l rx lg h \<Longrightarrow> halted l rx lg (pstate_latch_fault h)" "halted l rx lg h \<Longrightarrow> halted l rx lg (snd (pstate_stp_supported h))"
  proof -
    assume h: "halted l rx lg h"
    have "quits h (pstate_fwd_set m h)" "quits h (pstate_learn_set m h)" "quits h (pstate_latch_fault h)" "quits h (snd (pstate_stp_supported h))"
      by (simp_all add: pstate_fwd_set_def pstate_learn_set_def pstate_latch_fault_def pstate_stp_supported_def hw_defs quits_def no_admit_def)
    then show "halted l rx lg (pstate_fwd_set m h)" "halted l rx lg (pstate_learn_set m h)" "halted l rx lg (pstate_latch_fault h)"
      "halted l rx lg (snd (pstate_stp_supported h))"
      by (blast intro: halted_quits [OF h])+
  qed
  show "halted l rx lg h'" if "halted l rx lg h" "send_frame frame directed m' h = Some (sent, h')" for frame directed m' sent
    using failed_send [OF _ that(2)] that(1) by (simp add: halted_def)
qed (simp_all add: halted_def shut_def hw_defs)

lemma halted_service: "halted l rx lg h \<Longrightarrow> halted l rx lg (network_service ip h)"
proof -
  assume h: "halted l rx lg h"
  have t: "halted l rx lg (take_events h)" using h by (simp add: take_events_def case_prod_beta Let_def)
  then have f: "dma_failed (take_events h)" "net_reported (take_events h)" by (simp_all add: halted_def)
  show ?thesis
    using t f by (simp add: network_service_def Let_def failed_receive report_fault_def drain_again_def failed_pending)
qed

lemma halted_do:
  assumes "halted l rx lg h" and "net_do eng ip x h = Some h'"
  shows "halted l rx lg h'"
proof (cases x)
  case Link_Round
  obtain k where k: "link_poll h = Some k" "h' = network_link_changed (enabled (link_state k) \<noteq> 0) k"
    using assms(2) by (auto simp: Link_Round link_round_def)
  have "quits h k" "enabled (link_state k) = 0" using failed_poll [OF k(1)] assms(1) by (simp_all add: halted_def)
  then show ?thesis using down_stays [OF halted_quits [OF assms(1)]] by (simp add: k(2))
next
  case (Dma_Irq r)
  obtain evs where "hw_log (fabric_dma_interrupt r h) = hw_log h @ evs" "list_all (touches []) evs"
    using apart_interrupt [of h r] by (auto simp: apart_def)
  moreover have "dma.more (fabric_dma_interrupt r h) = dma.more h" using far_interrupt [OF far_refl, of h r] by (simp add: far_def)
  then have "links.more (fabric_dma_interrupt r h) = links.more h \<and> ports (fabric_dma_interrupt r h) = ports h"
    by (cases h, cases "fabric_dma_interrupt r h") simp
  moreover have "dma_failed (fabric_dma_interrupt r h)" "dma_failed h"
    using assms(1) same_failed [OF same_interrupt [OF same_refl]] by (auto simp: halted_def)
  ultimately have "quits h (fabric_dma_interrupt r h)" by (intro quitsI) (auto dest: no_admit_touches)
  then show ?thesis using halted_quits [OF assms(1)] assms(2) by (auto simp: Dma_Irq)
next
  case (Output f r)
  have "\<not> net_link_up h" using assms(1) by (simp add: halted_def)
  then show ?thesis using assms by (auto simp: Output output_frame_def)
next
  case Stp_Turn
  then obtain k where k: "stp_iterate eng h = Some k" "h' = told h k" using assms(2) by auto
  from halt_inv.ok_iterate [OF assms(1) k(1)] show ?thesis by (simp add: k(2))
qed (use assms in \<open>auto simp: halted_service network_dhcp_result_def xApplicationGetRandomNumber_def case_prod_beta Let_def\<close>)

lemma halted_run: "halted l rx lg h \<Longrightarrow> net_run eng ip ops h = Some h' \<Longrightarrow> halted l rx lg h'"
proof (induction ops arbitrary: h)
  case (Cons x ops)
  then obtain k where k: "net_do eng ip x h = Some k" "net_run eng ip ops k = Some h'" by (auto simp: bind_eq_Some_conv)
  from Cons.IH [OF halted_do [OF Cons.prems(1) k(1)] k(2)] show ?case .
qed simp

text \<open>C6: A DMA fault is final. Once the service task has met a failed DMA driver that it has not reported, then whatever
  the tasks do afterwards, in any order, no link of the fabric is ever admitted again, the interface never comes up, no
  descriptor is handed to the DMA in either direction, so nothing is transmitted, the spanning tree's frames included, a
  frame the IP stack gives out is refused without an access, and no further frame reaches the IP stack.\<close>
theorem dma_fault_final:
  assumes "dma_failed h" and "\<not> net_reported h" and "5 \<le> length (ps_speed_mbps (ports h))"
    and "net_run eng ip ops (network_service ip h) = Some h'"
  shows "(\<forall>p<6. \<not> bit (link_enabled l (hw_log h')) p) \<and> \<not> initialise h' \<and> \<not> phy_status h' \<and>
    (\<exists>evs. hw_log h' = hw_log h @ evs \<and> (\<forall>v. Wr (DIAG_BASE + LINK_SET) v \<notin> set evs \<and> Wr (DMA_BASE + 0x10) v \<notin> set evs \<and>
      Wr (DMA_BASE + RX_CH + 0x10) v \<notin> set evs)) \<and>
    (\<exists>k. output_frame frame release h' = Some (False, k) \<and> hw_log k = hw_log h') \<and> net_rx h' = net_rx h"
proof -
  have t: "dma_failed (take_events h)" "\<not> net_reported (take_events h)" "net_rx (take_events h) = net_rx h"
      "ports (take_events h) = ports h" "hw_log (take_events h) = hw_log h"
    using assms(1,2) by (simp_all add: take_events_def case_prod_beta Let_def hw_defs)
  define k where "k = (mmio_write (DIAG_BASE + LINK_CLR) 0x3f ((take_events h)\<lparr>net_reported := True\<rparr>))\<lparr>net_link_up := False\<rparr>"
  have six: "(0x3f :: u32) = Bit_Operations.mask 6" by (simp add: mask_eq_exp_minus_1)
  have "link_enabled l (hw_log k) = link_enabled l (hw_log (take_events h)) AND NOT 0x3f" by (simp add: k_def hw_defs)
  then have "shut l k" by (simp only: shut_def six bit_and_iff bit_not_iff bit_mask_iff) simp
  then have "halted l (net_rx h) (hw_log h) k" using t assms(3) by (simp add: halted_def) (simp add: k_def hw_defs no_admit_def)
  moreover have "halted l (net_rx h) (hw_log h) (network_link_changed False g) = halted l (net_rx h) (hw_log h) (g\<lparr>net_link_up := False\<rparr>)" for g :: "('a, 'b, 'c) net_scheme"
    by (auto simp: network_link_changed_def case_prod_beta Let_def network_link_ready_def halted_def shut_def hw_defs notify_def)
  ultimately have r: "halted l (net_rx h) (hw_log h) (report_fault (take_events h))"
    using t by (simp add: report_fault_def fabric_dma_healthy_def k_def hw_defs)
  then have "dma_failed (report_fault (take_events h))" by (simp add: halted_def)
  then have "halted l (net_rx h) (hw_log h) (network_service ip h)"
    using r t by (simp add: network_service_def Let_def failed_receive drain_again_def failed_pending)
  from halted_run [OF this assms(4)] have halt: "halted l (net_rx h) (hw_log h) h'" .
  then obtain evs where evs: "hw_log h' = hw_log h @ evs" "list_all no_admit evs" by (auto simp: halted_def)
  have "\<forall>v. Wr (DIAG_BASE + LINK_SET) v \<notin> set evs \<and> Wr (DMA_BASE + 0x10) v \<notin> set evs \<and> Wr (DMA_BASE + RX_CH + 0x10) v \<notin> set evs"
    using evs(2) by (auto simp: list_all_iff no_admit_def)
  then show ?thesis
    using halt evs(1) by (auto simp: halted_def shut_def initialise_def phy_status_def output_frame_def)
qed

section \<open>Bounded work\<close>

text \<open>The descriptors a log returns to the hardware.\<close>

definition returned :: "event list \<Rightarrow> nat" where
  "returned evs = length (filter (\<lambda>e. case e of Bd_Clear a \<Rightarrow> True | _ \<Rightarrow> False) evs)"

definition awake :: "event \<Rightarrow> bool" where
  "awake e \<longleftrightarrow> (case e of Sleep n \<Rightarrow> False | _ \<Rightarrow> True)"

text \<open>A step that returns at most so many descriptors, does not sleep and leaves alone whether the task is draining.\<close>

definition returns :: "nat \<Rightarrow> ('v, 'e, 'a) net_scheme \<Rightarrow> ('v, 'e, 'a) net_scheme \<Rightarrow> bool" where
  "returns n g h \<longleftrightarrow> (\<exists>evs. hw_log h = hw_log g @ evs \<and> returned evs \<le> n \<and> list_all awake evs) \<and>
     net_drain h = net_drain g \<and> hw_input h = hw_input g"

lemma returned_append: "returned (xs @ ys) = returned xs + returned ys"
  by (simp add: returned_def)

lemma returns_trans: "returns m g h \<Longrightarrow> returns n h k \<Longrightarrow> returns (m + n) g k"
proof -
  assume r: "returns m g h" "returns n h k"
  then obtain xs ys where "hw_log h = hw_log g @ xs" "returned xs \<le> m" "list_all awake xs"
    "hw_log k = hw_log h @ ys" "returned ys \<le> n" "list_all awake ys" unfolding returns_def by blast
  then have "hw_log k = hw_log g @ (xs @ ys) \<and> returned (xs @ ys) \<le> m + n \<and> list_all awake (xs @ ys)"
    by (simp add: returned_append)
  then show ?thesis using r unfolding returns_def by metis
qed

lemma returnsI:
  "hw_log h = hw_log g @ evs \<Longrightarrow> returned evs \<le> n \<Longrightarrow> list_all awake evs \<Longrightarrow> net_drain h = net_drain g \<Longrightarrow> hw_input h = hw_input g \<Longrightarrow>
    returns n g h"
  by (auto simp: returns_def)

lemma returns_log: "hw_log h = hw_log g \<Longrightarrow> net_drain h = net_drain g \<Longrightarrow> hw_input h = hw_input g \<Longrightarrow> returns n g h"
  by (rule returnsI [of _ _ "[]"]) (simp_all add: returned_def)

lemma returns_mono: "returns m g h \<Longrightarrow> m \<le> n \<Longrightarrow> returns n g h"
  by (fastforce simp: returns_def)

lemma returns_link: "returns 0 h (network_link_changed up h)"
  by (rule returns_log) (simp_all add: network_link_changed_def notify_def case_prod_beta Let_def hw_defs)

lemma returns_receive_one: "returns 1 h (receive_one ip h)"
proof -
  obtain f k where r: "fabric_dma_receive 1536 h = (f, k)" by fastforce
  have k: "returns 1 h k"
    using arg_cong [OF r, of snd]
    by (auto simp: fabric_dma_receive_def case_prod_beta Let_def hw_defs returns_def returned_def awake_def split: if_splits)
  have "returns 0 g (fabric_ctrl_frame_rx f g)" "returns 0 g (observe f g)" "returns 0 g (hand_over ip f g)"
    for g :: "('a, 'b, 'c) net_scheme"
    by (rule returns_log; simp add: fabric_ctrl_frame_rx_def fabric_dma_last_rx_tag_def observe_def hand_over_def Let_def case_prod_beta
        hw_defs hw_simps board_timestamp_def stamp_sample_def stamp_extend_def split: option.splits)+
  note rest = returns_trans [OF k returns_trans [OF this(2) this(1)]] returns_trans [OF k returns_trans [OF this(2) this(3)]]
  show ?thesis using k rest by (simp add: receive_one_def r Let_def)
qed

lemma returns_receive_some: "returns n h (receive_some ip n h)"
proof (induction n arbitrary: h)
  case 0
  show ?case by (simp add: returns_log)
next
  case (Suc n)
  let ?k = "snd (fabric_dma_rx_pending h)"
  have k: "returns 0 h ?k" by (rule returns_log) (simp_all add: fabric_dma_rx_pending_def case_prod_beta hw_defs)
  have "returns (Suc n) h (receive_some ip n (receive_one ip ?k))"
    using returns_trans [OF k returns_trans [OF returns_receive_one Suc.IH]] by simp
  moreover have "returns (Suc n) h ?k" by (rule returns_mono [OF k]) simp
  ultimately show ?case by (simp add: case_prod_beta)
qed

lemma returns_fault: "returns 0 h (report_fault h)"
proof -
  let ?k = "mmio_write (DIAG_BASE + LINK_CLR) (0x20 OR 0x1f) (h\<lparr>net_reported := True\<rparr>)"
  have "returns 0 h ?k"
    by (rule returnsI [of _ _ "[Wr (DIAG_BASE + LINK_CLR) (0x20 OR 0x1f)]"]) (simp_all add: hw_defs returned_def awake_def)
  from returns_trans [OF this returns_link] have "returns 0 h (network_link_changed False ?k)" by simp
  then show ?thesis by (simp add: report_fault_def returns_log)
qed


section \<open>Examples\<close>

text \<open>The ring holds a BPDU from port 2 and then a broadcast datagram.\<close>

definition sample_bpdu :: bytes where
  "sample_bpdu = [0x01, 0x80, 0xc2, 0, 0, 0, 2, 0, 0, 0, 0, 1, 0, 38, 0x42, 0x42, 3] @ replicate 43 0"

definition sample_datagram :: bytes where
  "sample_datagram = [0xff, 0xff, 0xff, 0xff, 0xff, 0xff, 2, 0, 0, 0, 0, 7, 8, 0] @ replicate 46 1"

definition sample_ip :: ip_stack where
  "sample_ip = \<lparr>ip_consider = (\<lambda>f. f ! 0 = 0xff), ip_buffer = (\<lambda>n k. True), ip_queue = (\<lambda>n. True), ip_init = True, ip_task = True\<rparr>"

definition sample_input :: "nat \<Rightarrow> port \<Rightarrow> u32" where
  "sample_input n p = (case p of Rx_Status i \<Rightarrow> if i < 2 then 0x8c00003c else 0 | Reg a \<Rightarrow> 0x80000002 | _ \<Rightarrow> 0)"

definition sample_fill :: "nat \<Rightarrow> nat \<Rightarrow> bytes" where
  "sample_fill n i = (if i = 0 then sample_bpdu else sample_datagram) @ replicate 1476 0"

definition sample_net :: "(ram, unit) net" where
  "sample_net = stp_task.extend
     (sample_task\<lparr>hw_input := sample_input, rx_fill := sample_fill, rx_queue := Some [], running := True\<rparr>)
     (net.fields False False readiness_init dhcp_init True 4 False False 1
        (replicate 128 \<lparr>ent_mac = replicate 6 0, ent_ip = replicate 4 0, ent_seen = 0, ent_valid = False\<rparr>)
        [] 0 0 0 0 0 0 0 [] False False)"

lemma sample_frames:
  "length sample_bpdu = 60" "length sample_datagram = 60" "\<not> arp_valid sample_bpdu" "\<not> arp_valid sample_datagram"
  "reserved_block sample_bpdu" "take 6 sample_bpdu = bpdu_destination" "\<not> reserved_block sample_datagram" "sample_datagram ! 0 = 0xff"
  "sample_bpdu \<noteq> []" "sample_datagram \<noteq> []"
  by (simp_all add: sample_bpdu_def sample_datagram_def arp_valid_def reserved_block_def bpdu_destination_def)

lemma receive_numeral:
  "receive_some ip (numeral n) h =
     (case fabric_dma_rx_pending h of (pending, h) \<Rightarrow> if pending then receive_some ip (pred_numeral n) (receive_one ip h) else h)"
  by (simp add: numeral_eq_Suc)

definition at_frame :: "nat \<Rightarrow> ('v, 'e, 'a) net_scheme \<Rightarrow> bool" where
  "at_frame i h \<longleftrightarrow> fabric_dma_healthy h \<and> rx_index h = i \<and> hw_input h = sample_input \<and> rx_fill h = sample_fill"

lemma fill_take: "take 60 (sample_fill n 0) = sample_bpdu" "take 60 (sample_fill n (Suc 0)) = sample_datagram"
  by (simp_all add: sample_fill_def sample_frames)

lemma sample_pending: "at_frame i h \<Longrightarrow> fst (fabric_dma_rx_pending h) = (i < 2) \<and> at_frame i (snd (fabric_dma_rx_pending h)) \<and>
    net_rx (snd (fabric_dma_rx_pending h)) = net_rx h"
  by (simp add: at_frame_def fabric_dma_rx_pending_def fabric_dma_healthy_def hw_defs sample_input_def)

lemma sample_one: "at_frame 0 h \<Longrightarrow> at_frame 1 (receive_one sample_ip h) \<and> net_rx (receive_one sample_ip h) = net_rx h"
  by (auto simp: Let_def at_frame_def receive_one_def fabric_dma_receive_def fabric_dma_healthy_def hw_defs sample_input_def fill_take
      sample_frames observe_def fabric_ctrl_frame_rx_def fabric_dma_last_rx_tag_def split: option.splits)

lemma sample_two: "at_frame 1 h \<Longrightarrow> at_frame 2 (receive_one sample_ip h) \<and> net_rx (receive_one sample_ip h) = net_rx h @ [sample_datagram]"
  by (auto simp: Let_def at_frame_def receive_one_def fabric_dma_receive_def fabric_dma_healthy_def hw_defs sample_input_def fill_take
      sample_frames observe_def hand_over_def sample_ip_def)

lemma drain_rx: "net_rx (drain_again h) = net_rx h"
  by (simp add: drain_again_def Let_def case_prod_beta hw_defs fabric_dma_rx_pending_def)

lemma sample_service: "net_rx (network_service sample_ip sample_net) = [sample_datagram]"
proof -
  have start: "at_frame 0 (take_events sample_net)" "net_drain (take_events sample_net)" "net_rx (take_events sample_net) = []"
    by (simp_all add: at_frame_def take_events_def sample_net_def stp_task.defs net.defs sample_task_def fabric_dma_healthy_def)
  define k where "k = receive_some sample_ip 16 (take_events sample_net)"
  note p0 = sample_pending [OF start(1)]
  note o1 = sample_one [OF p0 [THEN conjunct2, THEN conjunct1]]
  note p1 = sample_pending [OF o1 [THEN conjunct1]]
  note o2 = sample_two [OF p1 [THEN conjunct2, THEN conjunct1]]
  note p2 = sample_pending [OF o2 [THEN conjunct1]]
  have k: "at_frame 2 k" "net_rx k = [sample_datagram]"
    using p0 o1 p1 o2 p2 start(3) by (simp_all add: k_def receive_numeral case_prod_beta)
  then have "net_rx (report_fault k) = [sample_datagram]" by (simp add: report_fault_def at_frame_def)
  then show ?thesis using start(2) by (simp add: network_service_def k_def drain_rx)
qed

theorem control_traffic_separated_witness:
  "\<exists>h. net_run opening_engine sample_ip [Service, Dhcp_Answer True] sample_net = Some h \<and> frame_ok sample_ip sample_datagram"
proof -
  let ?h = "network_dhcp_result True (network_service sample_ip sample_net)"
  have run: "net_run opening_engine sample_ip [Service, Dhcp_Answer True] sample_net = Some ?h" by simp
  have "net_rx ?h = net_rx (network_service sample_ip sample_net)" by (simp add: network_dhcp_result_def Let_def case_prod_beta hw_defs)
  moreover have "list_all (frame_ok sample_ip) (net_rx ?h)"
    using control_traffic_separated [OF run] by (simp add: sample_net_def stp_task.defs net.defs sample_task_def initial_ports_def)
  ultimately show ?thesis using run sample_service by simp
qed

theorem dma_fault_final_witness:
  "\<exists>h'. net_run opening_engine sample_ip [Service, Dma_Irq True, Dhcp_Answer False, Next_Random]
      (network_service sample_ip (sample_net\<lparr>dma_failed := True\<rparr>)) = Some h' \<and> \<not> bit (link_enabled 0x3f (hw_log h')) 2 \<and> \<not> phy_status h'"
proof -
  let ?h = "sample_net\<lparr>dma_failed := True\<rparr>"
  obtain h' where run: "net_run opening_engine sample_ip [Service, Dma_Irq True, Dhcp_Answer False, Next_Random]
      (network_service sample_ip ?h) = Some h'"
    by simp
  have "dma_failed ?h" "\<not> net_reported ?h" "5 \<le> length (ps_speed_mbps (ports ?h))"
    by (simp_all add: sample_net_def stp_task.defs net.defs sample_task_def initial_ports_def)
  from dma_fault_final [OF this run] show ?thesis using run by auto
qed

end
