(* ===== verification/Web_Task.thy ===== *)
theory Web_Task
  imports Network Web_Parse Web_Stats Mac_Table Auth "HOL-Library.Sublist"
begin

text \<open>
  The management server, \<^verbatim>\<open>software/r5/src/web_task.c\<close>: receiving a request, the two locks, authentication,
  the routes, the response and the queue of accepted connections. A connection is an environment: what each receive
  returns, how much each send takes, whether a lock is obtained in time. The page of \<^verbatim>\<open>web_page.h\<close>, a generated file, and the
  formatting of an address by the IP stack are parameters. The snapshots the collectors publish and the address table extend the world.
\<close>

section \<open>State\<close>

record http_env =
  he_recv :: "nat \<Rightarrow> bytes"
  he_send :: "nat \<Rightarrow> nat"
  he_settings_lock :: bool
  he_table_lock :: bool
  he_closed :: "nat \<Rightarrow> bool"

record ('v, 'e) web = "('v, 'e) net" +
  web_totals :: statistics_snapshot
  web_sensors :: sensor_snapshot
  web_table :: mac_table
  web_clients :: "(http_env \<times> u32) list"
  web_accepted :: nat
  web_closed :: nat

record ('v, 'f) web_build =
  wb_fs :: "('v, 'f) fatfs"
  wb_page :: bytes
  wb_ntoa :: "u32 \<Rightarrow> bytes"
  wb_arp :: "bytes \<Rightarrow> bytes option"
  wb_stats :: stats_build

text \<open>The variables \<open>status\<close>, \<open>type\<close>, \<open>body\<close>, \<open>size\<close> and \<open>unauthorized\<close> of the server. \<open>rp_body\<close> is the string that \<open>body\<close> points to, with its
  terminating zero; \<open>rp_size\<close> is what the server believes its length to be.\<close>

record reply =
  rp_status :: bytes
  rp_type :: bytes
  rp_body :: bytes
  rp_size :: nat
  rp_unauthorized :: bool

abbreviation RESPONSE :: nat where "RESPONSE \<equiv> 24576"
abbreviation HTTP_QUEUE_DEPTH :: nat where "HTTP_QUEUE_DEPTH \<equiv> 8"

definition strlen :: "bytes \<Rightarrow> nat" where
  "strlen s = length (takeWhile (\<lambda>b. b \<noteq> 0) s)"

definition plain :: "string \<Rightarrow> string \<Rightarrow> reply" where
  "plain status body = \<lparr>rp_status = ascii status, rp_type = ascii ''text/plain; charset=utf-8'', rp_body = ascii body @ [10, 0],
     rp_size = strlen (ascii body @ [10, 0]), rp_unauthorized = False\<rparr>"

text \<open>A reply from the response buffer, which holds a string.\<close>

definition json :: "string \<Rightarrow> bytes \<Rightarrow> nat \<Rightarrow> reply" where
  "json status text' sz =
     \<lparr>rp_status = ascii status, rp_type = ascii ''application/json'', rp_body = text' @ [0], rp_size = sz, rp_unauthorized = False\<rparr>"

abbreviation internal :: "nat \<Rightarrow> string" where
  "internal sz \<equiv> (if sz \<noteq> 0 then ''200 OK'' else ''500 Internal Server Error'')"

section \<open>Transfer\<close>

text \<open>The bytes sent, the number of the next call, and whether everything was sent.\<close>

function send_all :: "http_env \<Rightarrow> u32 \<Rightarrow> nat \<Rightarrow> bytes \<Rightarrow> 'a hw_scheme \<Rightarrow> bytes \<times> nat \<times> bool \<times> 'a hw_scheme" where
  "send_all env start k data h =
     (if data = [] then ([], k, True, h)
      else case tick_count h of (now, h) \<Rightarrow>
        if 5000 \<le> now - start then ([], k, False, h)
        else let n = min (he_send env k) (length data) in
          if n = 0 then ([], Suc k, False, h)
          else case send_all env start (Suc k) (drop n data) h of (out, k, ok, h) \<Rightarrow> (take n data @ out, k, ok, h))"
  by pat_completeness auto
termination by (relation "measure (\<lambda>(env, start, k, data, h). length data)") auto

declare send_all.simps [simp del]

function receive_request :: "http_env \<Rightarrow> u32 \<Rightarrow> nat \<Rightarrow> bytes \<Rightarrow> web_result \<Rightarrow> 'a hw_scheme \<Rightarrow> web_result \<times> 'a hw_scheme" where
  "receive_request env start k data parsed h =
     (if parsed \<noteq> Incomplete \<or> 2047 \<le> length data then (parsed, h)
      else case tick_count h of (now, h) \<Rightarrow>
        if 2000 \<le> now - start then (parsed, h)
        else let chunk = take (2047 - length data) (he_recv env k) in
          if chunk = [] then (parsed, h)
          else receive_request env start (Suc k) (data @ chunk) (web_parse (data @ chunk)) h)"
  by pat_completeness auto
termination
  by (relation "measure (\<lambda>(env, start, k, data, parsed, h). 2047 - length data)")
     (auto simp: min_def simp flip: length_greater_0_conv)

declare receive_request.simps [simp del]

text \<open>The connection is drained until the peer closes it or two seconds pass.\<close>

partial_function (option) linger :: "http_env \<Rightarrow> u32 \<Rightarrow> nat \<Rightarrow> 'a hw_scheme \<Rightarrow> 'a hw_scheme option" where
  "linger env closing k h =
     (case tick_count h of (now, h) \<Rightarrow>
        if 2000 \<le> now - closing then Some h
        else if he_closed env k then Some h else linger env closing (Suc k) h)"

section \<open>The routes\<close>

definition is_get :: "web_request \<Rightarrow> bool" where
  "is_get r \<longleftrightarrow> wr_method r = ascii ''GET''"

definition is_post :: "web_request \<Rightarrow> bool" where
  "is_post r \<longleftrightarrow> wr_method r = ascii ''POST''"

definition mac_refresh :: "web_request \<Rightarrow> bool" where
  "mac_refresh r \<longleftrightarrow> is_post r \<and> wr_path r = ascii ''/api/mac-table''"

definition route_network :: "('v, 'f) web_build \<Rightarrow> ('v, 'e, 'a) web_scheme \<Rightarrow> reply" where
  "route_network bld h =
     (case network_ipv4_snapshot h of (addresses, up, dhcp_mode) \<Rightarrow>
        let texts = map (wb_ntoa bld) addresses;
            body = ascii ''{\"up\":'' @ json_bool up @ ascii '',\"dhcp\":'' @ json_bool dhcp_mode @ ascii '',\"ip\":\"'' @ texts ! 0 @
              ascii ''\",\"netmask\":\"'' @ texts ! 1 @ ascii ''\",\"gateway\":\"'' @ texts ! 2 @ ascii ''\"}'';
            sz = (if length body < RESPONSE then length body else 0)
        in json (internal sz) (take (RESPONSE - 1) body) sz)"

definition route_table :: "('v, 'f) web_build \<Rightarrow> http_env \<Rightarrow> web_request \<Rightarrow> ('v, 'e, 'a) web_scheme \<Rightarrow> reply \<times> ('v, 'e, 'a) web_scheme" where
  "route_table bld env r h =
     (if \<not> he_table_lock env then (plain ''503 Service Unavailable'' ''MAC table busy; retry later'', h)
      else case web_mac_table RESPONSE (wb_arp bld) (net_arp h) (wr_path r) (mac_refresh r) (web_table h, h) of
        ((code, body), t, h) \<Rightarrow>
          (json (if code = 200 then ''200 OK'' else if code = 202 then ''202 Accepted'' else if code = 404 then ''404 Not Found''
             else ''500 Internal Server Error'') body (length body), h\<lparr>web_table := t\<rparr>))"

definition merge_settings :: "web_request \<Rightarrow> switch_config \<Rightarrow> switch_config" where
  "merge_settings r cfg =
     (let s = wr_settings r;
          s = (if \<not> wr_stp_supplied r then s\<lparr>cfg_stp_enabled := cfg_stp_enabled cfg, cfg_stp_version := cfg_stp_version cfg\<rparr> else s)
      in if \<not> wr_credentials r
         then s\<lparr>cfg_username := cfg_username cfg, cfg_password_salt := cfg_password_salt cfg, cfg_password_hash := cfg_password_hash cfg\<rparr>
         else s)"

definition route_config :: "('v, 'f) web_build \<Rightarrow> web_request \<Rightarrow> ('v, 'e, 'a) web_scheme \<Rightarrow> reply \<times> ('v, 'e, 'a) web_scheme" where
  "route_config bld r h =
     (case settings_get (wb_fs bld) True h of ((cfg, saved, writable), h) \<Rightarrow>
      case (if is_post r
            then case settings_save (wb_fs bld) (merge_settings r cfg) h of (ok, h) \<Rightarrow> (ok, settings_get (wb_fs bld) True h)
            else (True, (cfg, saved, writable), h)) of
        (ok, (cfg, saved, writable), h) \<Rightarrow>
          if ok
          then case board_sfp_capabilities h of (caps, h) \<Rightarrow>
            let body = (case config_json RESPONSE cfg saved writable (unat caps) of None \<Rightarrow> [] | Some text' \<Rightarrow> text')
            in (json (internal (length body)) body (length body), h)
          else (plain ''503 Service Unavailable''
            ''Settings were not saved; microSD storage unavailable, write failed, or STP hardware upgrade required'', h))"

definition merge_ports :: "web_request \<Rightarrow> switch_config \<Rightarrow> switch_config" where
  "merge_ports r cfg =
     (let cfg = cfg\<lparr>cfg_admin := word_of_nat (wr_mask r)\<rparr>
      in if wr_advertise r ! 0 \<noteq> 0
         then cfg\<lparr>cfg_advertise := poke 0 (take (if wr_advertise r ! 2 \<noteq> 0 then 4 else 2) (wr_advertise r)) (cfg_advertise cfg)\<rparr>
         else cfg)"

definition route_ports :: "('v, 'f) web_build \<Rightarrow> web_request \<Rightarrow> ('v, 'e, 'a) web_scheme \<Rightarrow> reply \<times> ('v, 'e, 'a) web_scheme" where
  "route_ports bld r h =
     (case (if is_post r
            then case settings_get (wb_fs bld) False h of ((cfg, _, _), h) \<Rightarrow> settings_save (wb_fs bld) (merge_ports r cfg) h
            else (True, h)) of (ok, h) \<Rightarrow>
        (if ok then let body = web_ports RESPONSE (board_ports_snapshot h) in json ''200 OK'' body (length body)
         else (plain ''503 Service Unavailable'' ''Port settings were not saved'')\<lparr>rp_type := ascii ''text/plain''\<rparr>, h))"

definition route_statistics :: "('v, 'f) web_build \<Rightarrow> ('v, 'e, 'a) web_scheme \<Rightarrow> reply \<times> ('v, 'e, 'a) web_scheme" where
  "route_statistics bld h =
     (case board_timestamp h of (now, h) \<Rightarrow>
        let body = web_stats (wb_stats bld) RESPONSE (web_totals h) (web_sensors h) (board_timestamp_hz h) now
              (board_ports_snapshot h) (stp_status_get h)
        in (json (internal (length body)) body (length body), h))"

definition route :: "('v, 'f) web_build \<Rightarrow> http_env \<Rightarrow> web_request \<Rightarrow> ('v, 'e, 'a) web_scheme \<Rightarrow> reply \<times> ('v, 'e, 'a) web_scheme" where
  "route bld env r h =
     (let path = wr_path r in
      if is_get r \<and> path \<in> set (map ascii [''/'', ''/statistics'', ''/configuration'', ''/mac-table''])
      then (\<lparr>rp_status = ascii ''200 OK'', rp_type = ascii ''text/html; charset=utf-8'', rp_body = wb_page bld @ [0],
        rp_size = length (wb_page bld @ [0]) - 1, rp_unauthorized = False\<rparr>, h)
      else if is_get r \<and> path = ascii ''/api/network'' then (route_network bld h, h)
      else if (is_get r \<or> mac_refresh r) \<and> (path = ascii ''/api/mac-table'' \<or> take 15 path = ascii ''/api/mac-table/'')
      then route_table bld env r h
      else if (is_get r \<or> is_post r) \<and> path = ascii ''/api/config'' then route_config bld r h
      else if (is_get r \<or> is_post r) \<and> path = ascii ''/api/ports'' then route_ports bld r h
      else if is_get r \<and> path = ascii ''/api/statistics'' then route_statistics bld h
      else (plain ''404 Not Found'' ''Not found'', h))"

section \<open>A connection\<close>

definition respond :: "('v, 'f) web_build \<Rightarrow> http_env \<Rightarrow> web_result \<Rightarrow> ('v, 'e, 'a) web_scheme \<Rightarrow> reply \<times> ('v, 'e, 'a) web_scheme" where
  "respond bld env parsed h =
     (case parsed of
        Complete r \<Rightarrow>
          let change = (is_post r \<and> \<not> mac_refresh r) in
          if (change \<or> is_get r \<and> wr_path r = ascii ''/api/config'') \<and> \<not> he_settings_lock env
          then (plain ''503 Service Unavailable'' ''Configuration busy; retry later'', h)
          else (case (if change then settings_get (wb_fs bld) False h else ((st_value (store h), False, False), h)) of ((cfg, _, _), h) \<Rightarrow>
            if change \<and> \<not> auth_verify cfg (wr_authorization r)
            then ((plain ''401 Unauthorized'' ''Administrator credentials required'')\<lparr>rp_unauthorized := True\<rparr>, vTaskDelay 1000 h)
            else route bld env r h)
      | _ \<Rightarrow> (plain ''400 Bad Request'' ''Bad request'', h))"

definition header_text :: "reply \<Rightarrow> bytes" where
  "header_text p =
     ascii ''HTTP/1.1 '' @ rp_status p @ [13, 10] @ ascii ''Content-Type: '' @ rp_type p @ [13, 10] @ ascii ''Content-Length: '' @
     dec (rp_size p) @ [13, 10] @ ascii ''Connection: close'' @ [13, 10] @ ascii ''Cache-Control: no-store'' @ [13, 10] @
     ascii ''X-Content-Type-Options: nosniff'' @ [13, 10] @ ascii ''X-Frame-Options: DENY'' @ [13, 10] @
     (if rp_unauthorized p then ascii ''WWW-Authenticate: Basic realm=\"KR260 configuration\"'' @ [13, 10] else []) @ [13, 10]"

definition transmit :: "http_env \<Rightarrow> reply \<Rightarrow> 'a hw_scheme \<Rightarrow> bytes \<times> 'a hw_scheme" where
  "transmit env p h =
     (case tick_count h of (start, h) \<Rightarrow>
        if 512 \<le> length (header_text p) then ([], h)
        else case send_all env start 0 (header_text p) h of (out, k, ok, h) \<Rightarrow>
          if \<not> ok then (out, h)
          else case send_all env start k (take (rp_size p) (rp_body p)) h of (out', _, _, h) \<Rightarrow> (out @ out', h))"

text \<open>The result is what was sent.\<close>

definition serve :: "('v, 'f) web_build \<Rightarrow> http_env \<Rightarrow> ('v, 'e, 'a) web_scheme \<Rightarrow> (bytes \<times> ('v, 'e, 'a) web_scheme) option" where
  "serve bld env h =
     (case tick_count h of (start, h) \<Rightarrow>
      case receive_request env start 0 [] Incomplete h of (parsed, h) \<Rightarrow>
      case respond bld env parsed h of (p, h) \<Rightarrow>
      case transmit env p h of (out, h) \<Rightarrow>
      case tick_count h of (closing, h) \<Rightarrow> map_option (\<lambda>h. (out, h)) (linger env closing 0 h))"

section \<open>The pool\<close>

text \<open>A turn of a worker and one of the accepting task, with the connection it accepts, if any.\<close>

definition worker :: "('v, 'f) web_build \<Rightarrow> ('v, 'e, 'a) web_scheme \<Rightarrow> ('v, 'e, 'a) web_scheme option" where
  "worker bld h =
     (case web_clients h of
        [] \<Rightarrow> Some h
      | (env, accepted) # rest \<Rightarrow>
          case tick_count (h\<lparr>web_clients := rest\<rparr>) of (now, h) \<Rightarrow>
            map_option (\<lambda>h. h\<lparr>web_closed := web_closed h + 1\<rparr>)
              (if now - accepted < 2000 then map_option snd (serve bld env h) else Some h))"

definition web_task :: "http_env option \<Rightarrow> ('v, 'e, 'a) web_scheme \<Rightarrow> ('v, 'e, 'a) web_scheme" where
  "web_task client h =
     vTaskDelay 1
       (case client of
          None \<Rightarrow> h
        | Some env \<Rightarrow>
            case tick_count h of (now, h) \<Rightarrow>
              let h = h\<lparr>web_accepted := web_accepted h + 1\<rparr>
              in if length (web_clients h) < HTTP_QUEUE_DEPTH then h\<lparr>web_clients := web_clients h @ [(env, now)]\<rparr>
                 else h\<lparr>web_closed := web_closed h + 1\<rparr>)"

end
