(* ===== verification/Web_Safety.thy ===== *)
theory Web_Safety
  imports Web_Task
begin

text \<open>
  What the management server guarantees: the settings and the port requests change only through an authenticated POST, every
  response is framed, and no accepted connection is lost.
\<close>

section \<open>What a connection leaves alone\<close>

lemma more_send: "hw.more (snd (snd (snd (send_all env start k data h)))) = hw.more h"
proof (induction env start k data h rule: send_all.induct)
  case (1 env start k data h)
  obtain now g where t: "tick_count h = (now, g)" by fastforce
  have g: "hw.more g = hw.more h" using arg_cong [OF t, of snd] by (auto simp: hw_defs)
  show ?case
    using 1(1) [OF _ t [symmetric]] g by (subst send_all.simps) (simp add: t Let_def case_prod_beta)
qed

lemma more_transmit: "hw.more (snd (transmit env p h)) = hw.more h"
  by (simp add: transmit_def case_prod_beta more_send) (simp add: hw_defs)

lemma more_receive: "hw.more (snd (receive_request env start k data parsed h)) = hw.more h"
proof (induction env start k data parsed h rule: receive_request.induct)
  case (1 env start k data parsed h)
  obtain now g where t: "tick_count h = (now, g)" by fastforce
  have g: "hw.more g = hw.more h" using arg_cong [OF t, of snd] by (auto simp: hw_defs)
  show ?case
    using 1 [OF _ t [symmetric] _ refl] g by (subst receive_request.simps) (simp add: t Let_def)
qed

lemma more_linger: "linger env closing k h = Some h' \<Longrightarrow> hw.more h' = hw.more h"
proof (rule linger.raw_induct [where P = "\<lambda>env closing k h h'. hw.more h' = hw.more h"])
  fix f :: "http_env \<Rightarrow> u32 \<Rightarrow> nat \<Rightarrow> 'a hw_scheme \<Rightarrow> 'a hw_scheme option" and env closing k h h'
  assume IH: "\<And>env closing k h h'. f env closing k h = Some h' \<Longrightarrow> hw.more h' = hw.more h"
    and step: "(case tick_count h of (now, h) \<Rightarrow>
        if 2000 \<le> now - closing then Some h else if he_closed env k then Some h else f env closing (Suc k) h) = Some h'"
  show "hw.more h' = hw.more h"
    using step by (auto simp: case_prod_beta hw_defs split: if_splits dest!: IH)
qed

lemma more_access [simp]:
  "hw.more (snd (mmio_read a h)) = hw.more h" "hw.more (mmio_write a v h) = hw.more h" "hw.more (snd (tick_count h)) = hw.more h"
  "hw.more (snd (board_timestamp h)) = hw.more h" "hw.more (emit e h) = hw.more h" "hw.more (vTaskDelay n h) = hw.more h"
  "hw.more (snd (board_sfp_capabilities h)) = hw.more h"
  by (simp_all add: hw_defs board_timestamp_def stamp_sample_def stamp_extend_def Let_def board_sfp_capabilities_def case_prod_beta)

lemma more_entry: "hw.more (snd (snd (table_entry capacity arp es r s))) = hw.more (snd (snd s))"
  by (simp add: table_entry_def case_prod_beta Let_def)

lemma more_entries: "hw.more (snd (snd (fold (table_entry capacity arp es) rs s))) = hw.more (snd (snd s))"
  by (induction rs arbitrary: s) (simp_all add: more_entry)

lemma more_json: "hw.more (snd (table_json capacity arp es page th)) = hw.more (snd th)"
  by (cases th) (simp add: table_json_def case_prod_beta Let_def more_entries)

lemma more_poll: "hw.more (snd (table_poll (t, h))) = hw.more h"
  by (auto simp: table_poll_def mac_dump_poll_def case_prod_beta Let_def split: option.splits mac_dump_result.splits)

lemma more_refresh: "hw.more (snd (table_refresh refresh (t, h))) = hw.more h"
  by (auto simp: table_refresh_def mac_dump_start_def case_prod_beta Let_def split: mac_dump_result.splits)

lemma more_mac_table: "hw.more (snd (snd (web_mac_table capacity arp es path refresh (t, h)))) = hw.more h"
  using more_poll [of t h] more_refresh [of refresh "fst (table_poll (t, h))" "snd (table_poll (t, h))"]
  by (simp add: web_mac_table_def case_prod_beta more_json split: option.splits)

section \<open>Changes are authenticated\<close>

definition policy_view :: "('v, 'e, 'a) web_scheme \<Rightarrow> config_store \<times> port_snapshot" where
  "policy_view h = (store h, ports h)"

lemma policy_more: "hw.more h = hw.more g \<Longrightarrow> policy_view h = policy_view g" for g h :: "('v, 'e, 'a) web_scheme"
  by (cases g, cases h, simp add: policy_view_def)

lemmas policy_access = more_access(3) [THEN policy_more] more_access(4) [THEN policy_more] more_access(6) [THEN policy_more]
  more_access(7) [THEN policy_more]

lemma policy_get: "policy_view (snd (settings_get fs ask h)) = policy_view h" "fst (fst (settings_get fs ask h)) = st_value (store h)"
  by (simp_all add: settings_get_def case_prod_beta Let_def policy_view_def)

lemma policy_route:
  fixes bld :: "('v, 'f) web_build" and h :: "('v, 'e, 'a) web_scheme"
  assumes "\<not> (is_post r \<and> \<not> mac_refresh r \<and> (wr_path r = ascii ''/api/config'' \<or> wr_path r = ascii ''/api/ports''))"
  shows "policy_view (snd (route bld env r h)) = policy_view h"
proof -
  have "policy_view (snd (route_table bld env r h)) = policy_view h"
    using policy_more [OF more_mac_table [of RESPONSE "wb_arp bld" "net_arp h" "wr_path r" "mac_refresh r" "web_table h" h]]
    by (simp add: route_table_def case_prod_beta policy_view_def)
  moreover have "policy_view (snd (route_statistics bld h)) = policy_view h"
    by (simp add: route_statistics_def case_prod_beta Let_def policy_access)
  moreover have "policy_view (snd (route_config bld r h)) = policy_view h" if "\<not> is_post r"
    using that by (simp add: route_config_def case_prod_beta Let_def policy_get policy_access)
  moreover have "policy_view (snd (route_ports bld r h)) = policy_view h" if "\<not> is_post r"
    using that by (simp add: route_ports_def)
  moreover have "mac_refresh r \<Longrightarrow> wr_path r \<noteq> ascii ''/api/config'' \<and> wr_path r \<noteq> ascii ''/api/ports''"
    by (simp add: mac_refresh_def ascii_def)
  then have "wr_path r = ascii ''/api/config'' \<or> wr_path r = ascii ''/api/ports'' \<Longrightarrow> \<not> is_post r" using assms by blast
  moreover have branch: "policy_view (snd (if c then x else y)) = policy_view h"
    if "c \<Longrightarrow> policy_view (snd x) = policy_view h" "\<not> c \<Longrightarrow> policy_view (snd y) = policy_view h"
    for c and x y :: "reply \<times> ('v, 'e, 'a) web_scheme" using that by simp
  ultimately show ?thesis
    unfolding route_def Let_def by (intro branch) (unfold snd_conv, (blast | rule refl)+)
qed

lemma policy_respond:
  assumes "policy_view (snd (respond bld env parsed h)) \<noteq> policy_view h"
  shows "\<exists>r. parsed = Complete r \<and> is_post r \<and> he_settings_lock env \<and>
    (wr_path r = ascii ''/api/config'' \<or> wr_path r = ascii ''/api/ports'') \<and> auth_verify (st_value (store h)) (wr_authorization r)"
proof (cases parsed)
  case (Complete r)
  have "policy_view (snd (route bld env r (snd (settings_get (wb_fs bld) False h)))) \<noteq> policy_view (snd (settings_get (wb_fs bld) False h))
      \<or> policy_view (snd (route bld env r h)) \<noteq> policy_view h"
    using assms by (auto simp: respond_def Complete Let_def case_prod_beta policy_get policy_access split: if_splits)
  then have "is_post r \<and> \<not> mac_refresh r \<and> (wr_path r = ascii ''/api/config'' \<or> wr_path r = ascii ''/api/ports'')"
    using policy_route by metis
  then show ?thesis
    using assms by (auto simp: respond_def Complete Let_def case_prod_beta policy_get policy_access split: if_splits)
qed (use assms in \<open>simp_all add: respond_def\<close>)

lemma received_parsed:
  assumes "data = take 2047 (concat (map (he_recv env) [0..<k]))" and "parsed = web_parse data \<or> parsed = Incomplete"
  shows "fst (receive_request env start k data parsed h) = Incomplete \<or>
    (\<exists>n. fst (receive_request env start k data parsed h) = web_parse (take 2047 (concat (map (he_recv env) [0..<n]))))"
  using assms
proof (induction env start k data parsed h rule: receive_request.induct)
  case (1 env start k data parsed h)
  obtain now g where t: "tick_count h = (now, g)" by fastforce
  let ?chunk = "take (2047 - length data) (he_recv env k)"
  show ?case
  proof (cases "parsed \<noteq> Incomplete \<or> 2047 \<le> length data \<or> 2000 \<le> now - start \<or> ?chunk = []")
    case True
    then have "fst (receive_request env start k data parsed h) = parsed" by (subst receive_request.simps) (auto simp: t Let_def)
    then show ?thesis using 1(2,3) by auto
  next
    case False
    then have "length (concat (map (he_recv env) [0..<k])) < 2047" using 1(2) by auto
    then have "data @ ?chunk = take 2047 (concat (map (he_recv env) [0..<Suc k]))" using 1(2) by simp
    moreover have "receive_request env start k data parsed h = receive_request env start (Suc k) (data @ ?chunk) (web_parse (data @ ?chunk)) g"
      using False by (subst receive_request.simps) (simp add: t Let_def)
    ultimately show ?thesis using 1(1) [OF _ t [symmetric] _ refl] False by simp
  qed
qed

lemma received_request:
  assumes "fst (receive_request env start 0 [] Incomplete h) = Complete r"
  shows "\<exists>n. web_parse (take 2047 (concat (map (he_recv env) [0..<n]))) = Complete r"
  using received_parsed [of "[]" env 0 Incomplete start h] assms by auto

text \<open>C3: A connection leaves the settings in force and the port requests handed to the link manager alone, unless
  the bytes received are a complete POST to \<open>/api/config\<close> or \<open>/api/ports\<close> whose credentials verify
  against the configuration in force before it, and the settings lock is held.\<close>
theorem changes_are_authenticated:
  assumes "serve bld env h = Some (out, h')"
    and "\<And>n r. web_parse (take 2047 (concat (map (he_recv env) [0..<n]))) = Complete r \<Longrightarrow> is_post r \<Longrightarrow> he_settings_lock env \<Longrightarrow>
      wr_path r = ascii ''/api/config'' \<or> wr_path r = ascii ''/api/ports'' \<Longrightarrow> \<not> auth_verify (st_value (store h)) (wr_authorization r)"
  shows "store h' = store h \<and> ports h' = ports h"
proof (rule ccontr)
  assume changed: "\<not> (store h' = store h \<and> ports h' = ports h)"
  obtain start h1 where t: "tick_count h = (start, h1)" by fastforce
  obtain parsed h2 where rc: "receive_request env start 0 [] Incomplete h1 = (parsed, h2)" by fastforce
  obtain p h3 where rs: "respond bld env parsed h2 = (p, h3)" by fastforce
  obtain o1 h4 where tr: "transmit env p h3 = (o1, h4)" by fastforce
  have fin: "linger env (fst (tick_count h4)) 0 (snd (tick_count h4)) = Some h'"
    using assms(1) by (auto simp: serve_def t rc rs tr case_prod_beta)
  have "policy_view h1 = policy_view h" using arg_cong [OF t, of snd] policy_more [OF more_access(3), of h] by simp
  moreover have "policy_view h2 = policy_view h1" using policy_more [OF more_receive] rc by (metis snd_conv)
  moreover have "policy_view h4 = policy_view h3" using policy_more [OF more_transmit] tr by (metis snd_conv)
  moreover have "policy_view h' = policy_view (snd (tick_count h4))" using policy_more [OF more_linger [OF fin]] .
  moreover have "policy_view (snd (tick_count h4)) = policy_view h4" using policy_more [OF more_access(3)] .
  moreover have "policy_view h' \<noteq> policy_view h" using changed by (auto simp: policy_view_def)
  ultimately have "policy_view (snd (respond bld env parsed h2)) \<noteq> policy_view h2" and st: "store h2 = store h"
    by (auto simp: rs policy_view_def)
  from policy_respond [OF this(1)] obtain r where r: "parsed = Complete r" "is_post r" "he_settings_lock env"
    "wr_path r = ascii ''/api/config'' \<or> wr_path r = ascii ''/api/ports''" "auth_verify (st_value (store h)) (wr_authorization r)"
    by (auto simp: st)
  moreover from this(1) obtain n where "web_parse (take 2047 (concat (map (he_recv env) [0..<n]))) = Complete r"
    using received_request [of env start h1 r] by (auto simp: rc)
  ultimately show False using assms(2) by blast
qed

section \<open>Connections are closed\<close>

definition pool_view :: "('v, 'e, 'a) web_scheme \<Rightarrow> (http_env \<times> u32) list \<times> nat \<times> nat" where
  "pool_view h = (web_clients h, web_accepted h, web_closed h)"

lemma pool_more:
  fixes g h :: "('v, 'e, 'a) web_scheme"
  shows "hw.more h = hw.more g \<Longrightarrow> pool_view h = pool_view g" "settings.more h = settings.more g \<Longrightarrow> pool_view h = pool_view g"
  by (cases g, cases h, simp add: pool_view_def)+

lemmas pool_access = more_access(3) [THEN pool_more(1)] more_access(4) [THEN pool_more(1)] more_access(6) [THEN pool_more(1)]
  more_access(7) [THEN pool_more(1)]

lemma settings_more_hw: "hw.more h = hw.more g \<Longrightarrow> settings.more h = settings.more g" for g h :: "('v, 'a) settings_scheme"
  by (cases g, cases h) simp

lemma get_more: "settings.more (snd (settings_get fs ask h)) = settings.more h"
  by (simp add: settings_get_def case_prod_beta Let_def)

lemma apply_more: "settings.more (snd (apply_ports c h)) = settings.more h" for h :: "('v, 'a) settings_scheme"
proof -
  let ?g = "board_sfp_configure (ucast (cfg_sfp_speed c)) h"
  have "settings.more (snd (effective_mask c ?g)) = settings.more ?g" by (rule settings_more_hw [OF effective_mask_more])
  moreover have "settings.more ?g = settings.more h" by (simp add: board_sfp_configure_def)
  moreover have "settings.more (snd (board_ports_configure m adv k)) = settings.more k" for m adv and k :: "('v, 'a) settings_scheme"
    by (simp add: board_ports_configure_def)
  ultimately show ?thesis by (simp add: apply_ports_def Let_def case_prod_beta)
qed

lemma save_more: "settings.more (snd (settings_save fs c h)) = settings.more h" for h :: "('v, 'a) settings_scheme"
proof -
  have "settings.more (snd (pstate_stp_supported h)) = settings.more h"
    by (rule settings_more_hw) (simp add: pstate_stp_supported_def case_prod_beta)
  then show ?thesis by (simp add: settings_save_def Let_def case_prod_beta apply_more)
qed

lemma pool_respond:
  fixes bld :: "('v, 'f) web_build" and h :: "('v, 'e, 'a) web_scheme"
  shows "pool_view (snd (respond bld env parsed h)) = pool_view h"
proof -
  note get = get_more [THEN pool_more(2)] and save = save_more [THEN pool_more(2)]
  have config: "pool_view (snd (route_config bld r g)) = pool_view g" for r and g :: "('v, 'e, 'a) web_scheme"
    by (simp add: route_config_def case_prod_beta Let_def pool_access get save)
  have ports: "pool_view (snd (route_ports bld r g)) = pool_view g" for r and g :: "('v, 'e, 'a) web_scheme"
    by (simp add: route_ports_def case_prod_beta get save)
  have statistics: "pool_view (snd (route_statistics bld g)) = pool_view g" for g :: "('v, 'e, 'a) web_scheme"
    by (simp add: route_statistics_def case_prod_beta Let_def pool_access)
  have table: "pool_view (snd (route_table bld env r g)) = pool_view g" for r and g :: "('v, 'e, 'a) web_scheme"
    using pool_more(1) [OF more_mac_table [of RESPONSE "wb_arp bld" "net_arp g" "wr_path r" "mac_refresh r" "web_table g" g]]
    by (simp add: route_table_def case_prod_beta pool_view_def)
  have "pool_view (snd (route bld env r g)) = pool_view g" for r and g :: "('v, 'e, 'a) web_scheme"
    by (simp add: route_def Let_def config ports statistics table)
  then show ?thesis by (cases parsed) (simp_all add: respond_def Let_def case_prod_beta pool_access get)
qed

lemma pool_serve:
  assumes "serve bld env h = Some (out, h')"
  shows "pool_view h' = pool_view h"
proof -
  obtain start h1 where t: "tick_count h = (start, h1)" by fastforce
  obtain parsed h2 where rc: "receive_request env start 0 [] Incomplete h1 = (parsed, h2)" by fastforce
  obtain p h3 where rs: "respond bld env parsed h2 = (p, h3)" by fastforce
  obtain o1 h4 where tr: "transmit env p h3 = (o1, h4)" by fastforce
  have fin: "linger env (fst (tick_count h4)) 0 (snd (tick_count h4)) = Some h'"
    using assms(1) by (auto simp: serve_def t rc rs tr case_prod_beta)
  have "pool_view h1 = pool_view h" using arg_cong [OF t, of snd] pool_access(1) [of h] by simp
  moreover have "pool_view h2 = pool_view h1" using pool_more(1) [OF more_receive] rc by (metis snd_conv)
  moreover have "pool_view h3 = pool_view h2" using pool_respond [of bld env parsed h2] by (simp add: rs)
  moreover have "pool_view h4 = pool_view h3" using pool_more(1) [OF more_transmit] tr by (metis snd_conv)
  moreover have "pool_view h' = pool_view (snd (tick_count h4))" using pool_more(1) [OF more_linger [OF fin]] .
  ultimately show ?thesis using pool_access(1) [of h4] by simp
qed

datatype pool_op = Accept "http_env option" | Work

fun pool_do :: "('v, 'f) web_build \<Rightarrow> pool_op \<Rightarrow> ('v, 'e, 'a) web_scheme \<Rightarrow> ('v, 'e, 'a) web_scheme option" where
  "pool_do bld (Accept client) h = Some (web_task client h)"
| "pool_do bld Work h = worker bld h"

fun pool_run :: "('v, 'f) web_build \<Rightarrow> pool_op list \<Rightarrow> ('v, 'e, 'a) web_scheme \<Rightarrow> ('v, 'e, 'a) web_scheme option" where
  "pool_run bld [] h = Some h"
| "pool_run bld (x # xs) h = Option.bind (pool_do bld x h) (pool_run bld xs)"

definition pool_ok :: "('v, 'e, 'a) web_scheme \<Rightarrow> bool" where
  "pool_ok h \<longleftrightarrow> length (web_clients h) \<le> HTTP_QUEUE_DEPTH \<and> web_accepted h = web_closed h + length (web_clients h)"

lemma pool_step:
  assumes "pool_ok h" and "pool_do bld x h = Some h'"
  shows "pool_ok h'"
proof (cases x)
  case (Accept client)
  then show ?thesis using assms by (auto simp: web_task_def pool_ok_def Let_def hw_defs split: option.splits)
next
  case Work
  show ?thesis
  proof (cases "web_clients h")
    case Nil
    then show ?thesis using assms Work by (simp add: worker_def)
  next
    case (Cons c rest)
    let ?g = "snd (tick_count (h\<lparr>web_clients := rest\<rparr>))"
    have g: "pool_view ?g = (rest, web_accepted h, web_closed h)" by (simp add: pool_view_def hw_defs)
    let ?r = "if fst (tick_count (h\<lparr>web_clients := rest\<rparr>)) - snd c < 2000 then map_option snd (serve bld (fst c) ?g) else Some ?g"
    obtain k where k: "h' = k\<lparr>web_closed := web_closed k + 1\<rparr>" "?r = Some k"
      using assms(2) by (auto simp: Work worker_def Cons case_prod_beta simp del: if_split)
    moreover have "pool_view k = pool_view ?g" using k(2) pool_serve [of bld "fst c" ?g _ k] by (auto split: if_splits)
    ultimately show ?thesis using assms(1) g Cons by (simp add: pool_ok_def pool_view_def)
  qed
qed

text \<open>C15: No connection is lost or kept: at most eight wait for a worker, and after any sequence of turns of the accepting task
  and of the workers the connections accepted are those closed and those that wait.\<close>
theorem connections_accounted:
  assumes "pool_run bld ops h = Some h'" and "web_clients h = []" and "web_accepted h = web_closed h"
  shows "length (web_clients h') \<le> HTTP_QUEUE_DEPTH \<and> web_accepted h' = web_closed h' + length (web_clients h')"
proof -
  have "pool_ok h" using assms(2,3) by (simp add: pool_ok_def)
  with assms(1) have "pool_ok h'"
  proof (induction ops arbitrary: h)
    case (Cons x ops)
    then obtain k where k: "pool_do bld x h = Some k" "pool_run bld ops k = Some h'" by (auto simp: bind_eq_Some_conv)
    from Cons.IH [OF k(2) pool_step [OF Cons.prems(2) k(1)]] show ?case .
  qed simp
  then show ?thesis by (simp add: pool_ok_def)
qed

section \<open>Responses are framed\<close>

lemma send_prefix: "prefix (fst (send_all env start k data h)) data \<and>
    (fst (snd (snd (send_all env start k data h))) \<longrightarrow> fst (send_all env start k data h) = data)"
proof (induction env start k data h rule: send_all.induct)
  case (1 env start k data h)
  obtain now g where t: "tick_count h = (now, g)" by fastforce
  let ?n = "min (he_send env k) (length data)"
  show ?case
  proof (cases "data = [] \<or> 5000 \<le> now - start \<or> ?n = 0")
    case True
    then show ?thesis by (subst (1 2 3) send_all.simps) (auto simp: t Let_def min_def split: if_splits)
  next
    case False
    then have step: "send_all env start k data h = (case send_all env start (Suc k) (drop ?n data) g of
        (out, k, ok, h) \<Rightarrow> (take ?n data @ out, k, ok, h))" by (subst send_all.simps) (auto simp: t Let_def min_def split: if_splits)
    have "prefix (fst (send_all env start (Suc k) (drop ?n data) g)) (drop ?n data) \<and>
        (fst (snd (snd (send_all env start (Suc k) (drop ?n data) g))) \<longrightarrow> fst (send_all env start (Suc k) (drop ?n data) g) = drop ?n data)"
      using 1(1) [OF _ t [symmetric] _ refl] False by simp
    then show ?thesis
      using append_take_drop_id [of ?n data] same_prefix_prefix [of "take ?n data" "fst (send_all env start (Suc k) (drop ?n data) g)" "drop ?n data"]
      by (simp only: step case_prod_beta fst_conv snd_conv simp_thms) auto
  qed
qed

lemma transmit_prefix:
  assumes "length (header_text p) < 512"
  shows "prefix (fst (transmit env p h)) (header_text p @ take (rp_size p) (rp_body p))"
proof -
  let ?body = "take (rp_size p) (rp_body p)"
  obtain start g where t: "tick_count h = (start, g)" by fastforce
  obtain out k ok h1 where s1: "send_all env start 0 (header_text p) g = (out, k, ok, h1)" by (cases "send_all env start 0 (header_text p) g")
  obtain out' k' ok' h2 where s2: "send_all env start k ?body h1 = (out', k', ok', h2)" by (cases "send_all env start k ?body h1")
  have "prefix out (header_text p)" "ok \<Longrightarrow> out = header_text p" "prefix out' ?body"
    using send_prefix [of env start 0 "header_text p" g] send_prefix [of env start k ?body h1] by (simp_all add: s1 s2)
  then show ?thesis using assms by (auto simp: transmit_def t s1 s2)
qed

text \<open>A reply whose size is the length of the text it points to, without the terminating zero, or an internal error without a body.\<close>

definition has_content :: "reply \<Rightarrow> bytes \<Rightarrow> bool" where
  "has_content p content \<longleftrightarrow> rp_size p = length content \<and>
     (rp_body p = content @ [0] \<or> content = [] \<and> rp_status p = ascii ''500 Internal Server Error'')"

definition reply_fits :: "reply \<Rightarrow> bool" where
  "reply_fits p \<longleftrightarrow> length (rp_status p) \<le> 30 \<and> length (rp_type p) \<le> 30 \<and> rp_size p < 10 ^ 10 \<and> (\<exists>content. has_content p content)"

lemma fits_header: "reply_fits p \<Longrightarrow> length (header_text p) < 512"
proof -
  assume p: "reply_fits p"
  then have "length (dec (rp_size p)) \<le> 10" by (intro length_dec_le) (simp_all add: reply_fits_def)
  then show "length (header_text p) < 512" using p by (simp add: header_text_def reply_fits_def)
qed

lemma fits_json: "length status \<le> 30 \<Longrightarrow> length body < RESPONSE \<Longrightarrow> reply_fits (json status body (length body))"
  by (auto simp: reply_fits_def json_def has_content_def)

lemma internal_length: "length (internal sz) \<le> 30"
  by simp

lemma fits_formatted:
  "reply_fits (json (internal (if length body < RESPONSE then length body else 0)) (take (RESPONSE - 1) body) (if length body < RESPONSE then length body else 0))"
proof (cases "length body < RESPONSE")
  case True
  then have "take (RESPONSE - 1) body = body" by simp
  then show ?thesis using fits_json [OF internal_length True, of "length body"] True by simp
next
  case False
  then show ?thesis by (simp add: reply_fits_def has_content_def json_def)
qed

lemma strlen_literal: "0 \<notin> set (ascii body) \<Longrightarrow> strlen (ascii body @ [10, 0]) = length (ascii body @ [10])"
proof -
  assume "0 \<notin> set (ascii body)"
  then have "takeWhile (\<lambda>b. b \<noteq> 0) (ascii body @ [10, 0]) = ascii body @ [10]" by (subst takeWhile_append2) auto
  then show ?thesis by (simp add: strlen_def)
qed

lemma fits_plain: "length status \<le> 30 \<Longrightarrow> length body < 200 \<Longrightarrow> 0 \<notin> set (ascii body) \<Longrightarrow> reply_fits (plain status body)"
  unfolding reply_fits_def has_content_def plain_def by (auto simp: strlen_literal intro!: exI [of _ "ascii body @ [10]"])

definition within :: "writer \<Rightarrow> bool" where
  "within w \<longleftrightarrow> length (w_text w) < w_size w \<or> w_failed w"

lemma put_within: "within w \<Longrightarrow> within (put_text t w)" "w_size (put_text t w) = w_size w"
  by (auto simp: within_def put_text_def)

lemma fold_within: "within w \<Longrightarrow> within (fold put_text ts w) \<and> w_size (fold put_text ts w) = w_size w"
  by (induction ts arbitrary: w) (simp_all add: put_within)

lemma document_short: "0 < sz \<Longrightarrow> length (document sz ts) < sz"
  using fold_within [of "\<lparr>w_size = sz, w_text = [], w_failed = False\<rparr>" ts] by (auto simp: document_def Let_def within_def)

lemma table_body: "length (snd (fst (web_mac_table RESPONSE arp es path refresh (t, h)))) < RESPONSE"
proof (cases "table_page path refresh")
  case (Some page)
  obtain t1 h1 where r: "table_refresh refresh (table_poll (t, h)) = (t1, h1)" by fastforce
  obtain text' h2 where "table_json RESPONSE arp es page (t1, h1) = (Some text', h2)" "length text' < RESPONSE"
    using table_json_fits [of arp es page t1 h1] by blast
  then show ?thesis by (simp add: web_mac_table_def Some r)
qed (simp add: web_mac_table_def)

lemma fits_respond:
  fixes bld :: "('v, 'f) web_build" and h :: "('v, 'e, 'a) web_scheme"
  assumes "length (wb_page bld) < 10 ^ 10"
  shows "reply_fits (fst (respond bld env parsed h))"
proof -
  have branch: "reply_fits (fst (if c then x else y))" if "reply_fits (fst x)" "reply_fits (fst y)"
    for c and x y :: "reply \<times> ('v, 'e, 'a) web_scheme" using that by simp
  have network: "reply_fits (route_network bld g)" for g :: "('v, 'e, 'a) web_scheme"
    unfolding route_network_def Let_def case_prod_beta by (rule fits_formatted)
  have table: "reply_fits (fst (route_table bld env r g))" for r and g :: "('v, 'e, 'a) web_scheme"
    unfolding route_table_def case_prod_beta
    by (cases "he_table_lock env") (simp_all add: fits_json table_body fits_plain ascii_def)
  have config: "reply_fits (fst (route_config bld r g))" for r and g :: "('v, 'e, 'a) web_scheme"
  proof -
    have "length (case config_json RESPONSE c a b n of None \<Rightarrow> [] | Some t \<Rightarrow> t) < RESPONSE" for c a b n
      by (simp add: config_json_def Let_def split: option.splits)
    then have doc: "reply_fits (json (internal (length (case config_json RESPONSE c a b n of None \<Rightarrow> [] | Some t \<Rightarrow> t)))
        (case config_json RESPONSE c a b n of None \<Rightarrow> [] | Some t \<Rightarrow> t) (length (case config_json RESPONSE c a b n of None \<Rightarrow> [] | Some t \<Rightarrow> t)))"
      for c a b n by (rule fits_json [OF internal_length])
    show ?thesis
      unfolding route_config_def case_prod_beta Let_def
      by (rule branch; unfold fst_conv; (rule doc | (rule fits_plain; simp add: ascii_def)))
  qed
  have ports: "reply_fits (fst (route_ports bld r g))" for r and g :: "('v, 'e, 'a) web_scheme"
    using document_short [of RESPONSE] fits_plain [of "''503 Service Unavailable''" "''Port settings were not saved''"]
    by (auto simp: route_ports_def case_prod_beta web_ports_def Let_def intro!: fits_json) (simp add: reply_fits_def has_content_def ascii_def)
  have statistics: "reply_fits (fst (route_statistics bld g))" for g :: "('v, 'e, 'a) web_scheme"
    unfolding route_statistics_def Let_def case_prod_beta fst_conv web_stats_def
    by (rule fits_json [OF internal_length document_short]) simp
  have page: "reply_fits \<lparr>rp_status = ascii ''200 OK'', rp_type = ascii ''text/html; charset=utf-8'', rp_body = wb_page bld @ [0],
      rp_size = length (wb_page bld @ [0]) - 1, rp_unauthorized = False\<rparr>"
    using assms by (auto simp: reply_fits_def has_content_def)
  have route: "reply_fits (fst (route bld env r g))" for r and g :: "('v, 'e, 'a) web_scheme"
    unfolding route_def Let_def by (intro branch table config ports statistics; unfold fst_conv; (rule page | rule network | (rule fits_plain; simp add: ascii_def)))
  have bad: "reply_fits (plain ''400 Bad Request'' ''Bad request'')" "reply_fits (plain ''503 Service Unavailable'' ''Configuration busy; retry later'')"
    "reply_fits (plain ''401 Unauthorized'' ''Administrator credentials required'')"
    by (rule fits_plain; simp add: ascii_def)+
  moreover have "reply_fits (p\<lparr>rp_unauthorized := u\<rparr>) = reply_fits p" for p u by (simp add: reply_fits_def has_content_def)
  ultimately show ?thesis
    by (cases parsed) (simp_all add: respond_def Let_def case_prod_beta route)
qed

text \<open>C36: Every connection that is served sends a prefix of one well-framed response. The response is computed from the bytes received. Its
  header, of less than the 512 bytes of its buffer, announces as Content-Length the number of bytes of the content, which follows the
  blank line: the whole text that the chosen reply points to, up to its terminating zero, or nothing with the status 500. The header asks for
  credentials exactly when the reply is unauthorized. The page may have up to ten decimal digits of bytes.\<close>
theorem responses_framed:
  fixes h :: "('v, 'e, 'a) web_scheme"
  assumes "serve bld env h = Some (out, h')" and "length (wb_page bld) < 10 ^ 10"
  shows "\<exists>parsed (g :: ('v, 'e, 'a) web_scheme) p header content.
    (parsed = Incomplete \<or> (\<exists>n. parsed = web_parse (take 2047 (concat (map (he_recv env) [0..<n]))))) \<and> hw.more g = hw.more h \<and>
    p = fst (respond bld env parsed g) \<and>
    (rp_body p = content @ [0] \<or> content = [] \<and> rp_status p = ascii ''500 Internal Server Error'') \<and>
    header = ascii ''HTTP/1.1 '' @ rp_status p @ [13, 10] @ ascii ''Content-Type: '' @ rp_type p @ [13, 10] @
      ascii ''Content-Length: '' @ dec (length content) @ [13, 10] @ ascii ''Connection: close'' @ [13, 10] @
      ascii ''Cache-Control: no-store'' @ [13, 10] @ ascii ''X-Content-Type-Options: nosniff'' @ [13, 10] @ ascii ''X-Frame-Options: DENY'' @ [13, 10] @
      (if rp_unauthorized p then ascii ''WWW-Authenticate: Basic realm=\"KR260 configuration\"'' @ [13, 10] else []) @ [13, 10] \<and>
    length header < 512 \<and> prefix out (header @ content)"
proof -
  obtain start h1 where t: "tick_count h = (start, h1)" by fastforce
  obtain parsed h2 where rc: "receive_request env start 0 [] Incomplete h1 = (parsed, h2)" by fastforce
  obtain p h3 where rs: "respond bld env parsed h2 = (p, h3)" by fastforce
  have p: "p = fst (respond bld env parsed h2)" by (simp add: rs)
  have fits: "reply_fits p" unfolding p by (rule fits_respond [OF assms(2)])
  then have len: "length (header_text p) < 512" by (rule fits_header)
  obtain content where c: "has_content p content" using fits by (auto simp: reply_fits_def)
  have "out = fst (transmit env p h3)" using assms(1) by (auto simp: serve_def t rc rs case_prod_beta)
  then have "prefix out (header_text p @ take (rp_size p) (rp_body p))" using transmit_prefix [OF len] by simp
  moreover have "take (rp_size p) (rp_body p) = content" using c by (auto simp: has_content_def)
  ultimately have out: "prefix out (header_text p @ content)" by simp
  have received: "parsed = Incomplete \<or> (\<exists>n. parsed = web_parse (take 2047 (concat (map (he_recv env) [0..<n]))))"
    using received_parsed [of "[]" env 0 Incomplete start h1] by (simp add: rc)
  have "hw.more h2 = hw.more h" using more_receive [of env start 0 "[]" Incomplete h1] more_access(3) [of h] by (simp add: rc t)
  then show ?thesis using received p c len out
    by (intro exI [of _ parsed] exI [of _ h2] exI [of _ p] exI [of _ "header_text p"] exI [of _ content])
       (auto simp: has_content_def header_text_def)
qed

section \<open>Examples\<close>

definition sample_web :: "(ram, unit) web" where
  "sample_web = net.extend
     (stp_task.extend sample_task (net.fields False True readiness_init dhcp_init True 0 False False 1 [] [] 0 0 0 0 0 0 0 [] False False))
     (web.fields sample_snapshot \<lparr>sn_temperature_mc = [0, 0], sn_voltage_uv = replicate 2 (replicate 3 0), sn_som_current_ua = 0,
        sn_som_voltage_uv = 0, sn_som_power_uw = 0, sn_timestamp = 0, sn_valid_mask = 0, sn_errors = 0\<rparr> sample_table [] 0 0)"

definition sample_build :: "(ram, ram_handle) web_build" where
  "sample_build = \<lparr>wb_fs = ram_fs, wb_page = ascii ''<html>'', wb_ntoa = (\<lambda>a. dotted (put32 a)), wb_arp = (\<lambda>m. None),
     wb_stats = \<lparr>STATS_DDR = False, STATS_DEBUG = False\<rparr>\<rparr>"

text \<open>A POST without credentials.\<close>

definition sample_env :: http_env where
  "sample_env = \<lparr>he_recv = (\<lambda>k. if k = 0 then sample_post else []), he_send = (\<lambda>k. 10), he_settings_lock = True, he_table_lock = True,
     he_closed = (\<lambda>k. True)\<rparr>"

lemma linger_closed: "he_closed env k \<Longrightarrow> linger env closing k h = Some (snd (tick_count h))"
  by (subst linger.simps) (simp add: case_prod_beta)

lemma sample_serves: "\<exists>out h'. serve bld sample_env h = Some (out, h')"
proof -
  have "he_closed sample_env k" for k by (simp add: sample_env_def)
  then show ?thesis by (simp add: serve_def case_prod_beta linger_closed)
qed

lemma sample_received: "take 2047 (concat (map (he_recv sample_env) [0..<n])) = (if n = 0 then [] else sample_post)"
proof -
  have "concat (map (he_recv sample_env) [0..<Suc n]) = sample_post" for n by (induction n) (simp_all add: sample_env_def)
  then have "n \<noteq> 0 \<Longrightarrow> concat (map (he_recv sample_env) [0..<n]) = sample_post" by (cases n) simp_all
  then show ?thesis by (simp add: sample_post_def)
qed

lemma sample_no_credentials: "web_parse [] = Incomplete" "web_parse sample_post = Complete r \<Longrightarrow> wr_authorization r = []"
proof -
  show "web_parse [] = Incomplete" by code_simp
  have "case web_parse sample_post of Complete r \<Rightarrow> wr_authorization r = [] | _ \<Rightarrow> False" by code_simp
  then show "web_parse sample_post = Complete r \<Longrightarrow> wr_authorization r = []" by simp
qed

theorem changes_are_authenticated_witness:
  "\<exists>out h'. serve sample_build sample_env sample_web = Some (out, h') \<and> store h' = store sample_web \<and> ports h' = ports sample_web"
proof -
  obtain out h' where run: "serve sample_build sample_env sample_web = Some (out, h')" using sample_serves by blast
  have "\<not> auth_verify cfg []" for cfg by (simp add: auth_verify_def ascii_def)
  then have "\<not> auth_verify (st_value (store sample_web)) (wr_authorization r)"
    if "web_parse (take 2047 (concat (map (he_recv sample_env) [0..<n]))) = Complete r" for n r
    using that sample_no_credentials by (auto simp: sample_received split: if_splits)
  from changes_are_authenticated [OF run] this show ?thesis using run by blast
qed

theorem connections_accounted_witness:
  "\<exists>h. pool_run sample_build [Accept (Some sample_env), Accept None, Work] sample_web = Some h \<and> web_accepted h = web_closed h + length (web_clients h)"
proof -
  let ?h = "web_task None (web_task (Some sample_env) sample_web)"
  have start: "web_clients sample_web = []" "web_accepted sample_web = web_closed sample_web"
    by (simp_all add: sample_web_def web.defs net.defs stp_task.defs)
  then have "\<exists>t. web_clients ?h = [(sample_env, t)]" by (simp add: web_task_def Let_def hw_defs)
  then obtain t where t: "web_clients ?h = [(sample_env, t)]" by blast
  have "\<exists>h. worker sample_build ?h = Some h"
    using sample_serves [of sample_build "snd (tick_count (?h\<lparr>web_clients := []\<rparr>))"] by (auto simp: worker_def t case_prod_beta)
  then obtain h where "pool_run sample_build [Accept (Some sample_env), Accept None, Work] sample_web = Some h" by auto
  from connections_accounted [OF this start] this show ?thesis by blast
qed

theorem responses_framed_witness:
  "\<exists>out h' (p :: reply) content header. serve sample_build sample_env sample_web = Some (out, h') \<and>
     header = ascii ''HTTP/1.1 '' @ rp_status p @ [13, 10] @ ascii ''Content-Type: '' @ rp_type p @ [13, 10] @
       ascii ''Content-Length: '' @ dec (length content) @ [13, 10] @ ascii ''Connection: close'' @ [13, 10] @
       ascii ''Cache-Control: no-store'' @ [13, 10] @ ascii ''X-Content-Type-Options: nosniff'' @ [13, 10] @ ascii ''X-Frame-Options: DENY'' @ [13, 10] @
       (if rp_unauthorized p then ascii ''WWW-Authenticate: Basic realm=\"KR260 configuration\"'' @ [13, 10] else []) @ [13, 10] \<and>
     length header < 512 \<and> prefix out (header @ content)"
proof -
  obtain out h' where run: "serve sample_build sample_env sample_web = Some (out, h')" using sample_serves by blast
  have "length (wb_page sample_build) < 10 ^ 10" by (simp add: sample_build_def)
  from responses_framed [OF run this] run show ?thesis by (elim exE conjE) (intro exI conjI, assumption+)
qed

end
