(* ===== verification/Snmp_Task.thy ===== *)
theory Snmp_Task
  imports Web_Task Snmp_Mib Snmp_Replies
begin

text \<open>
  The SNMP task, \<^verbatim>\<open>software/r5/src/snmp_task.c\<close>: the start, and one turn of its loop, from the datagram received
  (empty when the receive fails) to the datagram sent, if any. A failed assertion is \<open>None\<close>. The community is a build option.
\<close>

record snmp_socket =
  so_valid :: bool
  so_options :: "bool list"
  so_bound :: bool

definition snmp_start :: "snmp_socket \<Rightarrow> 'a hw_scheme \<Rightarrow> (u64 \<times> 'a hw_scheme) option" where
  "snmp_start s h =
     (case board_timestamp h of (started, h) \<Rightarrow>
        if so_valid s \<and> list_all id (so_options s) \<and> so_bound s then Some (started, h) else None)"

definition uptime_cs :: "u64 \<Rightarrow> u32 \<Rightarrow> u32" where
  "uptime_cs elapsed hz = ucast ((elapsed div ucast hz) * 100 + (elapsed mod ucast hz) * 100 div ucast hz)"

definition snmp_turn :: "stats_build \<Rightarrow> bytes \<Rightarrow> u64 \<Rightarrow> bytes \<Rightarrow> ('v, 'e, 'a) web_scheme \<Rightarrow> (bytes option \<times> ('v, 'e, 'a) web_scheme) option" where
  "snmp_turn b community started request h =
     map_option (\<lambda>(r, h). (r, vTaskDelay 1 h))
       (if request = [] \<or> SNMP_PACKET_MAX < length request then Some (None, h)
        else case board_timestamp h of (now, h) \<Rightarrow>
          let hz = board_timestamp_hz h; uptime = uptime_cs (now - started) hz; p = board_ports_snapshot h
          in case mmio_read (DIAG_BASE + LINK_STATUS) h of (links, h) \<Rightarrow>
            map_option (\<lambda>mib. (snmp_respond request SNMP_PACKET_MAX community mib, h))
              (snmp_mib_build b (web_totals h) (web_sensors h) now hz uptime links p))"

section \<open>The uptime\<close>

text \<open>The uptime the agent reports is the exact number of elapsed hundredths of a second, modulo $2^{32}$ as
  TimeTicks prescribes: splitting the quotient keeps the 64-bit arithmetic from overflowing.\<close>
theorem uptime_exact:
  assumes "hz \<noteq> 0"
  shows "unat (uptime_cs elapsed hz) = (unat elapsed * 100 div unat hz) mod 2 ^ 32"
proof -
  let ?e = "unat elapsed" and ?h = "unat hz"
  have hz: "0 < ?h" "?h < 2 ^ 32" "unat (ucast hz :: u64) = ?h"
    using assms unsigned_less [of hz] unat_hz by (auto simp: unat_gt_0)
  let ?q = "?e div ?h" and ?r = "?e mod ?h"
  have "?r < ?h" using hz(1) by simp
  then have small: "?r * 100 < 2 ^ 64" using hz(2) by simp
  have "?e * 100 = ?h * (?q * 100) + ?r * 100" using mult_div_mod_eq [of ?h ?e] by (metis add_mult_distrib mult.assoc)
  then have split: "?e * 100 div ?h = ?q * 100 + ?r * 100 div ?h" using hz(1) by simp
  have "unat ((elapsed div ucast hz) * 100 + (elapsed mod ucast hz) * 100 div ucast hz) = (?q * 100 + ?r * 100 div ?h) mod 2 ^ 64"
    using small by (simp add: unat_word_ariths unat_div unat_mod hz(3) mod_simps)
  then have "unat (uptime_cs elapsed hz) = ((?q * 100 + ?r * 100 div ?h) mod 2 ^ 64) mod 2 ^ 32"
    by (simp add: uptime_cs_def unsigned_ucast_eq take_bit_nat_def)
  then show ?thesis by (simp add: split mod_mod_cancel)
qed

section \<open>Service\<close>

text \<open>C37: The agent is total: every turn returns, without a failed assertion in the construction of the object tree. The tree built from the
  statistics, the sensors, the link state and the uptime of this moment has at most 430 objects, in the lexicographic order of their
  identifiers, and the datagram sent is the engine's reply from this tree. The agent answers exactly the datagrams that are SNMPv2c request
  messages of its community, with at most 1400 bytes that are a response message with the identifier of the request.\<close>
theorem snmp_service_total:
  "\<exists>reply h' now links mib. snmp_turn b community started request h = Some (reply, h') \<and>
     now = fst (board_timestamp h) \<and> links = fst (mmio_read (DIAG_BASE + LINK_STATUS) (snd (board_timestamp h))) \<and>
     snmp_mib_build b (web_totals h) (web_sensors h) now (stamp_hz h) (uptime_cs (now - started) (stamp_hz h)) links (board_ports_snapshot h) = Some mib \<and>
     length mib \<le> 430 \<and> sorted_wrt (\<lambda>x y. oid_less (obj_oid x) (obj_oid y)) mib \<and>
     ((\<exists>out. reply = Some out) \<longleftrightarrow> request \<noteq> [] \<and> length request \<le> 1400 \<and> community \<noteq> [] \<and> length community \<le> 64 \<and>
       (\<exists>operation rid num1 num2 oids. request_message community operation rid num1 num2 oids request)) \<and>
     (case reply of None \<Rightarrow> True
      | Some out \<Rightarrow> snmp_respond request SNMP_PACKET_MAX community mib = Some out \<and> length out \<le> 1400 \<and>
          (\<exists>operation rid num1 num2 oids error index list. request_message community operation rid num1 num2 oids request \<and>
             message community 0xa2 rid error index list out \<and> error \<in> {0, 1, 17}))"
proof -
  obtain now g where t: "board_timestamp h = (now, g)" by fastforce
  obtain links k where l: "mmio_read (DIAG_BASE + LINK_STATUS) g = (links, k)" by fastforce
  have g: "g = snd (board_timestamp h)" "k = snd (mmio_read (DIAG_BASE + LINK_STATUS) g)" by (simp_all add: t l [simplified])
  have same: "web_totals k = web_totals h" "web_sensors k = web_sensors h" "board_timestamp_hz g = stamp_hz h" "board_ports_snapshot g = board_ports_snapshot h"
    by (simp_all add: g board_timestamp_def stamp_sample_def stamp_extend_def hw_defs board_timestamp_hz_def board_ports_snapshot_def Let_def case_prod_beta)
  obtain mib where mib: "snmp_mib_build b (web_totals h) (web_sensors h) now (stamp_hz h)
      (uptime_cs (now - started) (stamp_hz h)) links (board_ports_snapshot h) = Some mib"
    and sorted: "length mib \<le> 430" "mib_sorted mib"
    using snmp_mib_build_ordered by blast
  let ?reply = "if request = [] \<or> SNMP_PACKET_MAX < length request then None else snmp_respond request SNMP_PACKET_MAX community mib"
  have run: "\<exists>h'. snmp_turn b community started request h = Some (?reply, h')"
    by (simp add: snmp_turn_def t l [simplified] mib same Let_def)
  have env: "length out \<le> 1400 \<and> (\<exists>operation rid num1 num2 oids error index list. request_message community operation rid num1 num2 oids request \<and>
      message community 0xa2 rid error index list out \<and> error \<in> {0, 1, 17})" if "snmp_respond request SNMP_PACKET_MAX community mib = Some out" for out
    using snmp_respond_envelope [OF that] by fastforce
  have answers: "(\<exists>out. ?reply = Some out) \<longleftrightarrow> request \<noteq> [] \<and> length request \<le> 1400 \<and> community \<noteq> [] \<and> length community \<le> 64 \<and>
      (\<exists>operation rid num1 num2 oids. request_message community operation rid num1 num2 oids request)"
    using snmp_respond_iff [of request SNMP_PACKET_MAX community mib] by (auto simp: well_formed_def)
  have links: "links = fst (mmio_read (DIAG_BASE + LINK_STATUS) (snd (board_timestamp h)))" by (simp add: t l [simplified])
  obtain h' where run': "snmp_turn b community started request h = Some (?reply, h')" using run by blast
  show ?thesis
  proof (intro exI conjI)
    show "snmp_turn b community started request h = Some (?reply, h')" by (rule run')
    show "now = fst (board_timestamp h)" by (simp add: t)
    show "case ?reply of None \<Rightarrow> True | Some out \<Rightarrow> snmp_respond request SNMP_PACKET_MAX community mib = Some out \<and> length out \<le> 1400 \<and>
        (\<exists>operation rid num1 num2 oids error index list. request_message community operation rid num1 num2 oids request \<and>
           message community 0xa2 rid error index list out \<and> error \<in> {0, 1, 17})"
      using env by (simp split: option.split)
  qed (use links mib sorted [unfolded mib_sorted_iff] answers in simp_all)
qed

end
