(* ===== verification/Iic.thy ===== *)
theory Iic
  imports Hardware
begin

text \<open>
  The polled transactions on the PS I2C controller that \<^verbatim>\<open>software/r5/src/sensors.c\<close> and
  \<^verbatim>\<open>software/r5/src/usb_storage.c\<close> share in their form: the set-up of a transfer, the wait for its completion and
  the bytes read back. The register offsets and masks are those of the vendor's header, a parameter. The two
  deadlines differ: they are a test on the timestamp.
\<close>

section \<open>Transactions\<close>

abbreviation IIC :: u32 where "IIC \<equiv> 0xff030000"

record xiicps =
  x_cr :: u32
  x_sr :: u32
  x_isr :: u32
  x_size :: u32
  x_data :: u32
  x_addr :: u32
  x_divisors :: u32
  x_master :: u32
  x_clear :: u32
  x_receive :: u32
  x_all :: u32
  x_errors :: u32
  x_complete :: u32
  x_busy :: u32
  x_valid :: u32

definition iic_begin :: "xiicps \<Rightarrow> u32 \<Rightarrow> u32 \<Rightarrow> bytes \<Rightarrow> nat \<Rightarrow> bool \<Rightarrow> 'a hw_scheme \<Rightarrow> 'a hw_scheme" where
  "iic_begin x control address bytes count receive h =
     (let h = mmio_write (IIC + x_cr x) (control OR x_clear x OR (if receive then x_receive x else 0)) h;
          h = mmio_write (IIC + x_isr x) (x_all x) h;
          h = (if receive then mmio_write (IIC + x_size x) (word_of_nat count) h
               else fold (\<lambda>b h. mmio_write (IIC + x_data x) (ucast b) h) (take count bytes) h)
      in mmio_write (IIC + x_addr x) address h)"

text \<open>One turn of the wait: the result, or \<open>Inr\<close> to go round again.\<close>

definition iic_turn :: "xiicps \<Rightarrow> (u64 \<Rightarrow> bool) \<Rightarrow> u32 \<Rightarrow> 'a hw_scheme \<Rightarrow> (bool \<times> 'a hw_scheme) + 'a hw_scheme" where
  "iic_turn x late control h =
     (case mmio_read (IIC + x_isr x) h of (status, h) \<Rightarrow>
        let (over, h) = (if status AND x_errors x \<noteq> 0 then (True, h) else case board_timestamp h of (now, h) \<Rightarrow> (late now, h)) in
        if over then Inl (False, mmio_write (IIC + x_cr x) (control OR x_clear x) h)
        else if status AND x_complete x = 0 then Inr h
        else case mmio_read (IIC + x_sr x) h of (s, h) \<Rightarrow> if s AND x_busy x = 0 then Inl (True, h) else Inr h)"

partial_function (option) iic_wait :: "xiicps \<Rightarrow> (u64 \<Rightarrow> bool) \<Rightarrow> u32 \<Rightarrow> 'a hw_scheme \<Rightarrow> (bool \<times> 'a hw_scheme) option" where
  "iic_wait x late control h = (case iic_turn x late control h of Inl r \<Rightarrow> Some r | Inr h \<Rightarrow> iic_wait x late control h)"

text \<open>The bytes received; \<open>None\<close> when one is missing.\<close>

fun iic_bytes :: "xiicps \<Rightarrow> nat \<Rightarrow> 'a hw_scheme \<Rightarrow> bytes option \<times> 'a hw_scheme" where
  "iic_bytes x 0 h = (Some [], h)"
| "iic_bytes x (Suc n) h =
     (case mmio_read (IIC + x_sr x) h of (s, h) \<Rightarrow>
        if s AND x_valid x = 0 then (None, h)
        else case mmio_read (IIC + x_data x) h of (v, h) \<Rightarrow>
          case iic_bytes x n h of (bs, h) \<Rightarrow> (map_option (Cons (ucast v)) bs, h))"

text \<open>After the set-up: the wait, then the bytes if it is a read. A write that succeeds returns no bytes.\<close>

definition iic_finish :: "xiicps \<Rightarrow> (u64 \<Rightarrow> bool) \<Rightarrow> u32 \<Rightarrow> nat \<Rightarrow> bool \<Rightarrow> 'a hw_scheme \<Rightarrow> (bytes option \<times> 'a hw_scheme) option" where
  "iic_finish x late control count receive h =
     (case iic_wait x late control h of
        None \<Rightarrow> None
      | Some (ok, h) \<Rightarrow> Some (if \<not> ok then (None, h) else if receive then iic_bytes x count h else (Some [], h)))"

section \<open>The wait ends\<close>

definition stamp_of :: "'a hw_scheme \<Rightarrow> nat \<Rightarrow> u64" where
  "stamp_of h n = stamp_high h OR ucast (hw_input h n Counter)"

text \<open>A stretch in which the free-running counter does not wrap.\<close>

definition counting :: "'a hw_scheme \<Rightarrow> bool" where
  "counting h \<longleftrightarrow> (\<forall>n\<ge>hw_count h. stamp_last h \<le> hw_input h n Counter) \<and>
     (\<forall>m n. hw_count h \<le> m \<longrightarrow> m \<le> n \<longrightarrow> hw_input h m Counter \<le> hw_input h n Counter)"

lemma counting_sample:
  assumes "counting h"
  shows "fst (board_timestamp h) = stamp_of h (hw_count h) \<and> counting (snd (board_timestamp h)) \<and>
    hw_count (snd (board_timestamp h)) = Suc (hw_count h) \<and> stamp_of (snd (board_timestamp h)) = stamp_of h"
  using assms
  by (auto simp: counting_def board_timestamp_def stamp_sample_def stamp_extend_def sense_def stamp_of_def Let_def not_less)

lemma counting_read:
  assumes "counting h"
  shows "counting (snd (mmio_read a h)) \<and> hw_count (snd (mmio_read a h)) = Suc (hw_count h) \<and> stamp_of (snd (mmio_read a h)) = stamp_of h"
  using assms by (auto simp: counting_def mmio_read_def sense_def emit_def stamp_of_def)

lemma iic_turn_progress:
  assumes "counting h" and "iic_turn x late control h = Inr h'"
  shows "counting h' \<and> hw_count h < hw_count h' \<and> stamp_of h' = stamp_of h \<and> \<not> late (stamp_of h (Suc (hw_count h)))"
proof -
  obtain status h1 where r: "mmio_read (IIC + x_isr x) h = (status, h1)" by fastforce
  have h1: "counting h1" "hw_count h1 = Suc (hw_count h)" "stamp_of h1 = stamp_of h"
    using counting_read [OF assms(1), of "IIC + x_isr x"] by (simp_all add: r)
  obtain now h2 where t: "board_timestamp h1 = (now, h2)" by fastforce
  have h2: "now = stamp_of h1 (Suc (hw_count h))" "counting h2" "hw_count h2 = Suc (Suc (hw_count h))" "stamp_of h2 = stamp_of h"
    using counting_sample [OF h1(1)] h1 by (simp_all add: t)
  have "status AND x_errors x = 0" "\<not> late now" and h': "h' = h2 \<or> h' = snd (mmio_read (IIC + x_sr x) h2)"
    using assms(2) by (auto simp: iic_turn_def r t case_prod_beta Let_def split: if_splits)
  moreover have "counting (snd (mmio_read (IIC + x_sr x) h2)) \<and> hw_count h < hw_count (snd (mmio_read (IIC + x_sr x) h2)) \<and>
      stamp_of (snd (mmio_read (IIC + x_sr x) h2)) = stamp_of h"
    using counting_read [OF h2(2), of "IIC + x_sr x"] h2 by simp
  ultimately show ?thesis using h1 h2 by auto
qed

lemma iic_wait_returns:
  assumes "counting h" and "\<And>n. N \<le> n \<Longrightarrow> late (stamp_of h n)"
  shows "\<exists>r. iic_wait x late control h = Some r"
  using assms
proof (induction "N - hw_count h" arbitrary: h rule: less_induct)
  case less
  show ?case
  proof (cases "iic_turn x late control h")
    case (Inl r)
    then show ?thesis by (subst iic_wait.simps) simp
  next
    case (Inr h')
    note p = iic_turn_progress [OF less.prems(1) Inr]
    have "\<not> N \<le> Suc (hw_count h)" using p less.prems(2) by blast
    then have "N - hw_count h' < N - hw_count h" using p [THEN conjunct2, THEN conjunct1] by linarith
    moreover have "\<And>n. N \<le> n \<Longrightarrow> late (stamp_of h' n)" using p less.prems(2) by simp
    ultimately have "\<exists>r. iic_wait x late control h' = Some r" using less.hyps p by blast
    then show ?thesis by (subst iic_wait.simps) (simp add: Inr)
  qed
qed

end
