(* ===== verification/Sensors.thy ===== *)
theory Sensors
  imports Iic Snapshots
begin

text \<open>
  The sensor task, \<^verbatim>\<open>software/r5/src/sensors.c\<close>: the INA260 behind the I2C bus, the two on-chip monitors and one
  turn of the loop that publishes a sample. The vendor's monitor driver is a parameter: what its calls return at a count of accesses, and
  the conversion of a temperature, which it computes in floating point. Console messages are left out.
\<close>

section \<open>State and the power sensor\<close>

record sensors = hw +
  latest :: sensor_snapshot
  iic_ready :: bool
  monitor_mask :: u32

definition sensors_get :: "'a sensors_scheme \<Rightarrow> sensor_snapshot" where
  "sensors_get h = latest h"

definition expired :: "u32 \<Rightarrow> u64 \<Rightarrow> u64 \<Rightarrow> bool" where
  "expired hz start now \<longleftrightarrow> ucast (hz div 500) < now - start"

text \<open>The outer option is not returning; the inner one a failed transfer, with the bytes of a read otherwise.\<close>

definition iic_transfer :: "xiicps \<Rightarrow> bytes \<Rightarrow> nat \<Rightarrow> bool \<Rightarrow> 'a sensors_scheme \<Rightarrow> (bytes option \<times> 'a sensors_scheme) option" where
  "iic_transfer x bytes count receive h =
     (if \<not> iic_ready h then Some (None, h)
      else case mmio_read (IIC + x_sr x) h of (s, h) \<Rightarrow>
        if s AND x_busy x \<noteq> 0 then Some (None, h)
        else case mmio_read (IIC + x_cr x) h of (c, h) \<Rightarrow>
          let control = (c AND x_divisors x) OR x_master x; h = iic_begin x control 0x40 bytes count receive h
          in case board_timestamp h of (start, h) \<Rightarrow> iic_finish x (expired (stamp_hz h) start) control count receive h)"

definition ina_read :: "xiicps \<Rightarrow> u8 \<Rightarrow> 'a sensors_scheme \<Rightarrow> (u16 option \<times> 'a sensors_scheme) option" where
  "ina_read x reg h =
     (case iic_transfer x [reg] 1 False h of
        None \<Rightarrow> None
      | Some (None, h) \<Rightarrow> Some (None, h)
      | Some (Some _, h) \<Rightarrow>
          (case iic_transfer x [] 2 True h of
             None \<Rightarrow> None
           | Some (d, h) \<Rightarrow> Some (map_option (\<lambda>d. push_bit 8 (ucast (d ! 0)) OR ucast (d ! 1)) d, h)))"

text \<open>A reading that must succeed and pass a test before the next step.\<close>

definition ina_then :: "xiicps \<Rightarrow> u8 \<Rightarrow> (u16 \<Rightarrow> bool) \<Rightarrow> (u16 \<Rightarrow> 'a sensors_scheme \<Rightarrow> ('b option \<times> 'a sensors_scheme) option) \<Rightarrow>
    'a sensors_scheme \<Rightarrow> ('b option \<times> 'a sensors_scheme) option" where
  "ina_then x reg good k h =
     (case ina_read x reg h of
        None \<Rightarrow> None
      | Some (None, h) \<Rightarrow> Some (None, h)
      | Some (Some v, h) \<Rightarrow> if good v then k v h else Some (None, h))"

definition ina_configure :: "xiicps \<Rightarrow> u16 \<Rightarrow> 'a sensors_scheme \<Rightarrow> (unit option \<times> 'a sensors_scheme) option" where
  "ina_configure x config h =
     (let desired = (config AND 0x7000) OR 0x0527 in
      if config = desired then Some (Some (), h)
      else map_option (\<lambda>(_, h). (None, h)) (iic_transfer x [0, ucast (drop_bit 8 desired), ucast desired] 3 False h))"

definition ina_start :: "xiicps \<Rightarrow> 'a sensors_scheme \<Rightarrow> (unit option \<times> 'a sensors_scheme) option" where
  "ina_start x =
     ina_then x 0xfe (\<lambda>v. v = 0x5449) (\<lambda>_. ina_then x 0xff (\<lambda>v. v AND 0xfff0 = 0x2270) (\<lambda>_.
       ina_then x 0 (\<lambda>_. True) (ina_configure x)))"

text \<open>The readings of one sample: current, voltage and power.\<close>

definition ina_sample :: "xiicps \<Rightarrow> 'a sensors_scheme \<Rightarrow> ((u16 \<times> u16 \<times> u16) option \<times> 'a sensors_scheme) option" where
  "ina_sample x h =
     (case ina_start x h of
        None \<Rightarrow> None
      | Some (None, h) \<Rightarrow> Some (None, h)
      | Some (Some _, h) \<Rightarrow>
          ina_then x 6 (\<lambda>flags. flags AND 0x0c = 8) (\<lambda>_. ina_then x 1 (\<lambda>_. True) (\<lambda>current. ina_then x 2 (\<lambda>_. True) (\<lambda>voltage.
            ina_then x 3 (\<lambda>_. True) (\<lambda>watts h. Some (Some (current, voltage, watts), h))))) h)"

section \<open>The monitors\<close>

record sysmon =
  sm_found :: bool
  sm_pl_status :: u32
  sm_ps_status :: u32
  sm_started :: u32
  sm_trigger :: u32
  sm_divisor :: "nat \<Rightarrow> nat \<Rightarrow> bool"
  sm_enable :: "nat \<Rightarrow> nat \<Rightarrow> bool"
  sm_continuous :: "nat \<Rightarrow> nat \<Rightarrow> bool"
  sm_adc :: "nat \<Rightarrow> nat \<Rightarrow> nat \<Rightarrow> u16"
  sm_temperature :: "u16 \<Rightarrow> u32"

definition monitor_block :: "sysmon \<Rightarrow> bool \<Rightarrow> nat \<Rightarrow> 'a sensors_scheme \<Rightarrow> 'a sensors_scheme" where
  "monitor_block m pl b h =
     (if b \<noteq> 0 \<and> \<not> pl \<or> bit (monitor_mask h) b then h
      else case mmio_read (0xffa50000 + sm_ps_status m) h of (ps, h) \<Rightarrow>
        if b = 0 \<and> ps AND sm_started m = 0 then mmio_write (0xffa50000 + sm_ps_status m) (ps OR sm_trigger m) h
        else if \<not> sm_divisor m (hw_count h) b \<or> \<not> sm_enable m (hw_count h) b \<or> \<not> sm_continuous m (hw_count h) b then h
        else h\<lparr>monitor_mask := monitor_mask h OR push_bit b 1\<rparr>)"

definition monitor_init :: "sysmon \<Rightarrow> 'a sensors_scheme \<Rightarrow> 'a sensors_scheme" where
  "monitor_init m h =
     (if \<not> sm_found m then h
      else case mmio_read (0xffa50000 + sm_pl_status m) h of (pl, h) \<Rightarrow> fold (monitor_block m (pl AND 1 \<noteq> 0)) [0, 1] h)"

definition adc_microvolts :: "u16 \<Rightarrow> u32" where
  "adc_microvolts raw = ucast ((ucast raw * 3000000 :: u64) div 65536)"

definition raw_valid :: "u16 \<Rightarrow> bool" where
  "raw_valid raw \<longleftrightarrow> raw \<noteq> 0 \<and> raw \<noteq> 0xffff"

definition monitor_read :: "sysmon \<Rightarrow> u32 \<Rightarrow> nat \<Rightarrow> nat \<Rightarrow> sensor_snapshot \<Rightarrow> sensor_snapshot" where
  "monitor_read m active count b s =
     (if \<not> bit active b then s
      else let t = sm_adc m count 0 b; vs = map (\<lambda>j. sm_adc m count (Suc j) b) [0..<3];
               s = s\<lparr>sn_temperature_mc := (sn_temperature_mc s)[b := sm_temperature m t],
                     sn_voltage_uv := (sn_voltage_uv s)[b := map adc_microvolts vs]\<rparr>
           in if raw_valid t \<and> list_all raw_valid vs then s\<lparr>sn_valid_mask := sn_valid_mask s OR push_bit b 1\<rparr>
              else s\<lparr>sn_errors := sn_errors s + 1\<rparr>)"

section \<open>The loop\<close>

definition power_sample :: "(u16 \<times> u16 \<times> u16) option \<Rightarrow> sensor_snapshot \<Rightarrow> sensor_snapshot" where
  "power_sample r s =
     (case r of
        None \<Rightarrow> s\<lparr>sn_errors := sn_errors s + 1\<rparr>
      | Some (current, voltage, watts) \<Rightarrow>
          s\<lparr>sn_som_current_ua := scast current * 1250, sn_som_voltage_uv := ucast voltage * 1250,
            sn_som_power_uw := ucast watts * 10000, sn_valid_mask := sn_valid_mask s OR 4\<rparr>)"

definition sensors_poll :: "xiicps \<Rightarrow> sysmon \<Rightarrow> 'a sensors_scheme \<Rightarrow> 'a sensors_scheme option" where
  "sensors_poll x m h =
     (let s = (latest h)\<lparr>sn_valid_mask := 0\<rparr>;
          h = (if monitor_mask h \<noteq> 3 then monitor_init m h else h);
          s = fold (monitor_read m (monitor_mask h) (hw_count h)) [0, 1] s
      in case ina_sample x h of
           None \<Rightarrow> None
         | Some (r, h) \<Rightarrow>
             (case board_timestamp h of (now, h) \<Rightarrow> Some (h\<lparr>latest := (power_sample r s)\<lparr>sn_timestamp := now\<rparr>\<rparr>)))"

text \<open>The start: the I2C driver is set up or the bus is never used.\<close>

definition sensors_start :: "sysmon \<Rightarrow> bool \<Rightarrow> bool \<Rightarrow> 'a sensors_scheme \<Rightarrow> 'a sensors_scheme" where
  "sensors_start m configured clocked h =
     (let h = monitor_init m h in if configured then h\<lparr>iic_ready := clocked\<rparr> else h)"

section \<open>Scaling\<close>

lemma adc_exact: "unat (adc_microvolts raw) = unat raw * 3000000 div 65536 \<and> unat (adc_microvolts raw) < 3000000"
proof -
  have r: "unat raw < 65536" using unsigned_less [of raw, where ?'a = nat] by simp
  have u: "unat (ucast raw :: u64) = unat raw" using r by (simp add: unsigned_ucast_eq take_bit_nat_eq_self)
  have "unat ((ucast raw * 3000000 :: u64) div 65536) = unat raw * 3000000 div 65536"
    using r by (simp add: unat_div unat_word_ariths u)
  moreover have "unat raw * 3000000 div 65536 < 3000000" using r by (simp add: div_less_iff_less_mult)
  ultimately show ?thesis by (simp add: adc_microvolts_def unsigned_ucast_eq take_bit_nat_eq_self)
qed

lemma power_exact:
  fixes current voltage watts :: u16
  shows "sint (scast current * 1250 :: u32) = sint current * 1250" "unat (ucast voltage * 1250 :: u32) = unat voltage * 1250"
    "unat (ucast watts * 10000 :: u32) = unat watts * 10000"
proof -
  have v: "unat v < 65536" "unat (ucast v :: u32) = unat v" for v :: u16
    using unsigned_less [of v, where ?'a = nat] by (simp_all add: unsigned_ucast_eq take_bit_nat_eq_self)
  show "unat (ucast voltage * 1250 :: u32) = unat voltage * 1250" "unat (ucast watts * 10000 :: u32) = unat watts * 10000"
    using v(1) [of voltage] v(1) [of watts] by (simp_all add: unat_word_ariths v(2))
  have c: "- 32768 \<le> sint current" "sint current < 32768"
    using sint_greater_eq [of current] sint_less [of current] by simp_all
  have "sint (scast current :: u32) = sint current" by (simp add: sint_up_scast is_up)
  then show "sint (scast current * 1250 :: u32) = sint current * 1250"
    using c by (simp add: sint_word_ariths signed_take_bit_int_eq_self)
qed

section \<open>A published sample\<close>

text \<open>What the valid bits of the two monitors promise.\<close>

definition monitors_ok :: "sensor_snapshot \<Rightarrow> bool" where
  "monitors_ok s \<longleftrightarrow> sensor_wf s \<and> (\<forall>b<2. bit (sn_valid_mask s) b \<longrightarrow>
     (\<exists>raws. length raws = 3 \<and> list_all raw_valid raws \<and> map unat (sn_voltage_uv s ! b) = map (\<lambda>r. unat r * 3000000 div 65536) raws))"

lemma push_one_bit: "bit (push_bit b 1 :: u32) c \<longleftrightarrow> c = b \<and> b < 32"
  by (auto simp: bit_exp_iff)

lemma exp_one_bit: "bit (2 ^ b :: u32) c \<longleftrightarrow> c = b \<and> b < 32"
  by (auto simp: bit_exp_iff)

lemma bit_four: "bit (4 :: u32) c \<longleftrightarrow> c = 2"
proof -
  have "(4 :: u32) = push_bit 2 1" by (simp add: push_bit_eq_mult)
  then show ?thesis by (simp only: push_one_bit) auto
qed

lemma monitor_read_ok:
  assumes "monitors_ok s" and "b < 2" and "\<not> bit (sn_valid_mask s) b"
  shows "monitors_ok (monitor_read m active count b s) \<and>
    (\<forall>c. c \<noteq> b \<longrightarrow> bit (sn_valid_mask (monitor_read m active count b s)) c = bit (sn_valid_mask s) c)"
proof (cases "bit active b")
  case True
  let ?t = "sm_adc m count 0 b" and ?vs = "map (\<lambda>j. sm_adc m count (Suc j) b) [0..<3]"
  let ?s = "s\<lparr>sn_temperature_mc := (sn_temperature_mc s)[b := sm_temperature m ?t], sn_voltage_uv := (sn_voltage_uv s)[b := map adc_microvolts ?vs]\<rparr>"
  let ?good = "raw_valid ?t \<and> list_all raw_valid ?vs"
  have res: "monitor_read m active count b s =
      (if ?good then ?s\<lparr>sn_valid_mask := sn_valid_mask s OR push_bit b 1\<rparr> else ?s\<lparr>sn_errors := sn_errors s + 1\<rparr>)"
    using True by (simp add: monitor_read_def Let_def del: upt_Suc)
  have wf: "sensor_wf ?s"
    using assms(1) set_update_subset_insert [of "sn_voltage_uv s" b "map adc_microvolts ?vs"]
    by (auto simp: monitors_ok_def sensor_wf_def rows_def)
  have rows: "length (sn_voltage_uv s) = 2" using assms(1) by (auto simp: monitors_ok_def sensor_wf_def rows_def)
  have three: "length ?vs = 3" "map unat (map adc_microvolts ?vs) = map (\<lambda>r. unat r * 3000000 div 65536) ?vs" by (simp_all add: adc_exact)
  have row: "\<exists>raws. length raws = 3 \<and> list_all raw_valid raws \<and>
      map unat ((sn_voltage_uv s)[b := map adc_microvolts ?vs] ! c) = map (\<lambda>r. unat r * 3000000 div 65536) raws"
    if "c < 2" "c \<noteq> b \<longrightarrow> bit (sn_valid_mask s) c" "c = b \<longrightarrow> ?good" for c
  proof (cases "c = b")
    case True
    then have "(sn_voltage_uv s)[b := map adc_microvolts ?vs] ! c = map adc_microvolts ?vs" using rows assms(2) by simp
    then show ?thesis using three that(3) True by (intro exI [of _ ?vs]) (simp del: upt_Suc)
  next
    case False
    then show ?thesis using assms(1) that by (simp add: monitors_ok_def)
  qed
  show ?thesis
  proof (cases ?good)
    case True
    then show ?thesis using wf row by (auto simp: res monitors_ok_def sensor_wf_def bit_or_iff exp_one_bit simp del: upt_Suc)
  next
    case False
    then show ?thesis using wf row assms(3) by (auto simp: res monitors_ok_def sensor_wf_def simp del: upt_Suc)
  qed
qed (use assms in \<open>simp add: monitor_read_def\<close>)


section \<open>Bounded transactions\<close>

lemma counting_write: "counting (mmio_write a v h) = counting h" "hw_count (mmio_write a v h) = hw_count h" "stamp_of (mmio_write a v h) = stamp_of h"
  by (simp_all add: counting_def mmio_write_def emit_def stamp_of_def fun_eq_iff)

lemma counting_writes:
  "counting (fold (\<lambda>b. mmio_write a (f b)) bs h) = counting h" "hw_count (fold (\<lambda>b. mmio_write a (f b)) bs h) = hw_count h"
  "stamp_of (fold (\<lambda>b. mmio_write a (f b)) bs h) = stamp_of h"
  by (induction bs arbitrary: h) (simp_all add: counting_write)

text \<open>A transfer returns even if the sensor or the bus fails: it is enough that the free-running counter goes on and
  passes two milliseconds after the start of the wait.\<close>
theorem iic_transfer_returns:
  assumes "counting h" and "\<And>n. N \<le> n \<Longrightarrow> expired (stamp_hz h) (stamp_of h (hw_count h + 2)) (stamp_of h n)"
  shows "\<exists>r. iic_transfer x bytes count receive h = Some r"
proof -
  obtain s h1 where r1: "mmio_read (IIC + x_sr x) h = (s, h1)" by fastforce
  obtain c h2 where r2: "mmio_read (IIC + x_cr x) h1 = (c, h2)" by fastforce
  define h3 where "h3 = iic_begin x ((c AND x_divisors x) OR x_master x) 0x40 bytes count receive h2"
  have h1: "counting h1" "hw_count h1 = Suc (hw_count h)" "stamp_of h1 = stamp_of h"
    using counting_read [OF assms(1), of "IIC + x_sr x"] by (simp_all add: r1)
  have h2: "counting h2" "hw_count h2 = hw_count h + 2" "stamp_of h2 = stamp_of h"
    using counting_read [OF h1(1), of "IIC + x_cr x"] h1 by (simp_all add: r2)
  have h3: "counting h3" "hw_count h3 = hw_count h + 2" "stamp_of h3 = stamp_of h"
    using h2 by (simp_all add: h3_def iic_begin_def Let_def counting_write counting_writes)
  obtain start h4 where t: "board_timestamp h3 = (start, h4)" by fastforce
  have h4: "start = stamp_of h (hw_count h + 2)" "counting h4" "stamp_of h4 = stamp_of h"
    using counting_sample [OF h3(1)] h3 by (simp_all add: t)
  have hz: "stamp_hz h4 = stamp_hz h"
  proof -
    have f: "stamp_hz (fold (\<lambda>b. mmio_write a (f b)) bs g) = stamp_hz g" for a f bs and g :: "'a sensors_scheme"
      by (induction bs arbitrary: g) (simp_all add: hw_simps)
    have "stamp_hz h4 = stamp_hz h3" using arg_cong [OF t, of snd] hw_simps by (metis board_timestamp_simps(3) snd_conv)
    also have "\<dots> = stamp_hz h2" by (simp add: h3_def iic_begin_def Let_def hw_simps f)
    also have "\<dots> = stamp_hz h" using arg_cong [OF r1, of snd] arg_cong [OF r2, of snd] by (auto simp: hw_defs)
    finally show ?thesis .
  qed
  have "\<exists>r. iic_wait x (expired (stamp_hz h4) start) ((c AND x_divisors x) OR x_master x) h4 = Some r"
    using iic_wait_returns [OF h4(2), of N "expired (stamp_hz h4) start"] assms(2) h4 hz by simp
  then show ?thesis
    by (auto simp: iic_transfer_def r1 [simplified] r2 [simplified] h3_def [symmetric] t Let_def iic_finish_def)
qed

section \<open>Examples\<close>

text \<open>The I2C bus is not set up; the PS monitor runs and reads about one volt.\<close>

definition sample_sensors :: sensors where
  "sample_sensors = \<lparr>hw_input = (\<lambda>n p. 0), hw_count = 0, hw_log = [], stamp_last = 0, stamp_high = 0, stamp_hz = 781250,
     latest = \<lparr>sn_temperature_mc = [0, 0], sn_voltage_uv = [[0, 0, 0], [0, 0, 0]], sn_som_current_ua = 0, sn_som_voltage_uv = 0,
       sn_som_power_uw = 0, sn_timestamp = 0, sn_valid_mask = 0, sn_errors = 0\<rparr>, iic_ready = False, monitor_mask = 1\<rparr>"

definition sample_sysmon :: sysmon where
  "sample_sysmon = \<lparr>sm_found = False, sm_pl_status = 0, sm_ps_status = 4, sm_started = 1, sm_trigger = 2, sm_divisor = (\<lambda>n b. True),
     sm_enable = (\<lambda>n b. True), sm_continuous = (\<lambda>n b. True), sm_adc = (\<lambda>n c b. 21845), sm_temperature = (\<lambda>r. 25000)\<rparr>"


end
