(* ===== verification/Usb_Storage.thy ===== *)
theory Usb_Storage
  imports Iic
begin

text \<open>
  The removable card behind USB: \<^verbatim>\<open>software/r5/src/usb_storage.c\<close> (the carrier and the controller are brought
  up once, the on-board reader is selected, block requests are checked), \<^verbatim>\<open>usb_diskio.c\<close> (the block interface of
  the file system) and the clock and delays of \<^verbatim>\<open>usb_runtime.c\<close>. The USB stack is a parameter: its state, what a poll
  does with the callbacks it makes, whether a device is ready, and its transfers. So are the calls of the vendor's I2C driver. Console
  messages are left out.
\<close>

section \<open>State\<close>

record usb_dev =
  ud_address :: nat
  ud_vendor :: u16
  ud_product :: u16
  ud_blocksize :: u32
  ud_numblocks :: u32

datatype usb_callback = Disk_Create usb_dev | Disk_Remove usb_dev

record 'm usb_stack =
  st_poll :: "'m \<Rightarrow> 'm \<times> usb_callback list"
  st_ready :: "'m \<Rightarrow> usb_dev \<Rightarrow> bool"
  st_transfer :: "'m \<Rightarrow> usb_dev \<Rightarrow> u32 \<Rightarrow> nat \<Rightarrow> bool \<Rightarrow> bytes \<Rightarrow> bool \<times> bytes \<times> 'm"
  st_sync :: "'m \<Rightarrow> usb_dev \<Rightarrow> bool \<times> 'm"
  st_xhci :: "'m \<Rightarrow> bool \<times> 'm"
  st_iic_set_up :: bool

record request =
  rq_lba :: u32
  rq_count :: nat
  rq_write :: bool

record 'm usb = hw +
  us_attempted :: bool
  us_host :: bool
  us_card :: "usb_dev option"
  us_bus :: 'm
  us_requests :: "request list"

abbreviation USB0 :: u32 where "USB0 \<equiv> 0xfe200000"

section \<open>Clock and delays\<close>

definition usb_microseconds :: "u32 \<Rightarrow> u64 \<Rightarrow> u64" where
  "usb_microseconds hz t = t * 1000000 div ucast hz"

definition usb_gettimeofday :: "'a hw_scheme \<Rightarrow> (u64 \<times> u64) \<times> 'a hw_scheme" where
  "usb_gettimeofday h =
     (case board_timestamp h of (t, h) \<Rightarrow>
        let us = usb_microseconds (stamp_hz h) t in ((us div 1000000, us mod 1000000), h))"

partial_function (option) spin :: "u64 \<Rightarrow> 'a hw_scheme \<Rightarrow> 'a hw_scheme option" where
  "spin until h = (case board_timestamp h of (now, h) \<Rightarrow> if now < until then spin until h else Some h)"

definition usb_udelay :: "u32 \<Rightarrow> 'a hw_scheme \<Rightarrow> 'a hw_scheme option" where
  "usb_udelay us h =
     (case board_timestamp h of (t, h) \<Rightarrow> spin (t + (ucast us * ucast (stamp_hz h) + 999999) div 1000000) h)"

text \<open>Once the scheduler runs, the task sleeps one tick more than asked for.\<close>

fun usb_mdelay :: "bool \<Rightarrow> nat \<Rightarrow> 'a hw_scheme \<Rightarrow> 'a hw_scheme option" where
  "usb_mdelay scheduled ms h =
     (if scheduled then Some (vTaskDelay (ms + 1) h)
      else case ms of 0 \<Rightarrow> Some h | Suc ms \<Rightarrow> Option.bind (usb_udelay 1000 h) (usb_mdelay scheduled ms))"

declare usb_mdelay.simps [simp del]

section \<open>Bringing the reader up\<close>

definition i2c_xfer :: "xiicps \<Rightarrow> u32 \<Rightarrow> bytes \<Rightarrow> nat \<Rightarrow> bool \<Rightarrow> 'a hw_scheme \<Rightarrow> (bytes option \<times> 'a hw_scheme) option" where
  "i2c_xfer x addr bytes n receive h =
     (case mmio_read (IIC + x_cr x) h of (c, h) \<Rightarrow>
      let cr = (c AND x_divisors x) OR x_master x in
      case mmio_read (IIC + x_sr x) h of (s, h) \<Rightarrow>
        if s AND x_busy x \<noteq> 0 then Some (None, h)
        else let h = iic_begin x cr addr bytes n receive h in
          case board_timestamp h of (t, h) \<Rightarrow>
            let deadline = t + ucast (stamp_hz h div 100) in iic_finish x (\<lambda>now. deadline < now) cr n receive h)"

text \<open>A step of the set-up: \<open>None\<close> is not returning, \<open>Some (None, _)\<close> the early return.\<close>

definition then_if :: "('b option \<times> 'w) option \<Rightarrow> ('b \<Rightarrow> 'w \<Rightarrow> ('c option \<times> 'w) option) \<Rightarrow> ('c option \<times> 'w) option" where
  "then_if r k = (case r of None \<Rightarrow> None | Some (None, w) \<Rightarrow> Some (None, w) | Some (Some b, w) \<Rightarrow> k b w)"

definition delayed :: "bool \<Rightarrow> nat \<Rightarrow> 'a hw_scheme \<Rightarrow> (unit option \<times> 'a hw_scheme) option" where
  "delayed scheduled ms h = map_option (Pair (Some ())) (usb_mdelay scheduled ms h)"

text \<open>The result of the three hub commands and of closing the multiplexer, which is done in any case.\<close>

definition hub_attach :: "xiicps \<Rightarrow> 'a hw_scheme \<Rightarrow> (bool option \<times> 'a hw_scheme) option" where
  "hub_attach x h =
     (case then_if (i2c_xfer x 0x2d [0, 0, 5, 0, 1, 0x41, 0x1d, 8] 8 False h) (\<lambda>_ h.
            then_if (i2c_xfer x 0x2d [0x99, 0x37, 0] 3 False h) (\<lambda>_ h. i2c_xfer x 0x2d [0xaa, 0x56, 0] 3 False h)) of
        None \<Rightarrow> None
      | Some (ok, h) \<Rightarrow>
          map_option (\<lambda>(closed, h). (Some (ok \<noteq> None \<and> closed \<noteq> None), h)) (i2c_xfer x 0x74 [0] 1 False h))"

definition carrier_init :: "'m usb_stack \<Rightarrow> xiicps \<Rightarrow> bool \<Rightarrow> 'a hw_scheme \<Rightarrow> (bool option \<times> 'a hw_scheme) option" where
  "carrier_init st x scheduled h =
     (if \<not> st_iic_set_up st then Some (None, h)
      else then_if (i2c_xfer x 0x11 [0xdb] 1 False h) (\<lambda>_ h.
        then_if (i2c_xfer x 0x11 [] 1 True h) (\<lambda>r h.
        then_if (i2c_xfer x 0x11 [0xdb, r ! 0 AND NOT 0x0d] 2 False h) (\<lambda>_ h.
        then_if (delayed scheduled 2 h) (\<lambda>_ h.
        then_if (i2c_xfer x 0x11 [0xdb, r ! 0 OR 0x0d] 2 False h) (\<lambda>_ h.
        then_if (delayed scheduled 10 h) (\<lambda>_ h.
        then_if (i2c_xfer x 0x74 [1] 1 False h) (\<lambda>_ h.
        then_if (hub_attach x h) (\<lambda>ok h.
        then_if (delayed scheduled 20 h) (\<lambda>_ h. Some (if ok then Some True else None, h)))))))))))"

abbreviation modify :: "u32 \<Rightarrow> (u32 \<Rightarrow> u32) \<Rightarrow> 'a hw_scheme \<Rightarrow> 'a hw_scheme" where
  "modify a f h \<equiv> (case mmio_read a h of (v, h) \<Rightarrow> mmio_write a (f v) h)"

definition host_mode :: "u32 \<Rightarrow> u32 \<Rightarrow> u32" where
  "host_mode gid ctl =
     (let ctl = ctl AND NOT 0x3839; ctl = ctl OR 0x1000 in if gid AND 0xffff < 0x190a then ctl OR 0x10000 else ctl)"

definition controller_init :: "'m usb_stack \<Rightarrow> bool \<Rightarrow> ('m, 'a) usb_scheme \<Rightarrow> (bool option \<times> ('m, 'a) usb_scheme) option" where
  "controller_init st scheduled h =
     (let h = modify 0xff5e023c (\<lambda>v. v AND NOT 0x540) h; (gid, h) = mmio_read (USB0 + 0xc120) h in
      if gid AND 0xffff0000 \<noteq> 0x55330000 then Some (None, h)
      else let (ctl, h) = mmio_read (USB0 + 0xc110) h;
               h = mmio_write (USB0 + 0xc110) (ctl OR 0x800) h;
               h = modify (USB0 + 0xc200) (\<lambda>v. v OR 0x80000000) h;
               h = modify (USB0 + 0xc2c0) (\<lambda>v. v OR 0x80000000) h in
        then_if (delayed scheduled 100 h) (\<lambda>_ h.
          let h = modify (USB0 + 0xc200) (\<lambda>v. v AND NOT 0x80000040) h;
              h = modify (USB0 + 0xc2c0) (\<lambda>v. v AND NOT 0x80020000) h in
          then_if (delayed scheduled 100 h) (\<lambda>_ h.
            let h = mmio_write (USB0 + 0xc110) (host_mode gid ctl) h in
            case st_xhci st (us_bus h) of (ok, m) \<Rightarrow> Some (if ok then Some True else None, h\<lparr>us_bus := m, us_host := ok\<rparr>))))"

section \<open>The card\<close>

text \<open>Only the on-board reader is selected, and the first one.\<close>

definition usbdisk_create :: "usb_dev \<Rightarrow> ('m, 'a) usb_scheme \<Rightarrow> ('m, 'a) usb_scheme" where
  "usbdisk_create d h =
     (if ud_vendor d = 0x0424 \<and> ud_product d = 0x2240 \<and> ud_blocksize d = 512 \<and> ud_numblocks d \<le> 0x7fffffff \<and> us_card h = None
      then h\<lparr>us_card := Some d\<rparr> else h)"

definition usbdisk_remove :: "usb_dev \<Rightarrow> ('m, 'a) usb_scheme \<Rightarrow> ('m, 'a) usb_scheme" where
  "usbdisk_remove d h = (if us_card h = Some d then h\<lparr>us_card := None\<rparr> else h)"

fun call_back :: "usb_callback \<Rightarrow> ('m, 'a) usb_scheme \<Rightarrow> ('m, 'a) usb_scheme" where
  "call_back (Disk_Create d) h = usbdisk_create d h"
| "call_back (Disk_Remove d) h = usbdisk_remove d h"

definition usb_poll :: "'m usb_stack \<Rightarrow> ('m, 'a) usb_scheme \<Rightarrow> ('m, 'a) usb_scheme" where
  "usb_poll st h = (case st_poll st (us_bus h) of (m, cs) \<Rightarrow> fold call_back cs (h\<lparr>us_bus := m\<rparr>))"

definition usb_storage_ready :: "'m usb_stack \<Rightarrow> ('m, 'a) usb_scheme \<Rightarrow> bool" where
  "usb_storage_ready st h = (case us_card h of None \<Rightarrow> False | Some d \<Rightarrow> st_ready st (us_bus h) d)"

fun probe_passes :: "'m usb_stack \<Rightarrow> bool \<Rightarrow> nat \<Rightarrow> ('m, 'a) usb_scheme \<Rightarrow> ('m, 'a) usb_scheme option" where
  "probe_passes st scheduled 0 h = Some h"
| "probe_passes st scheduled (Suc n) h =
     (if us_card h \<noteq> None then Some h
      else Option.bind (usb_mdelay scheduled 100 (usb_poll st h)) (probe_passes st scheduled n))"

definition usb_storage_probe :: "'m usb_stack \<Rightarrow> xiicps \<Rightarrow> bool \<Rightarrow> ('m, 'a) usb_scheme \<Rightarrow> (bool \<times> ('m, 'a) usb_scheme) option" where
  "usb_storage_probe st x scheduled h =
     (if us_attempted h then let h = (if us_host h then usb_poll st h else h) in Some (usb_storage_ready st h, h)
      else case then_if (carrier_init st x scheduled (h\<lparr>us_attempted := True\<rparr>)) (\<lambda>_. controller_init st scheduled) of
        None \<Rightarrow> None
      | Some (None, h) \<Rightarrow> Some (False, h)
      | Some (Some _, h) \<Rightarrow> map_option (\<lambda>h. (usb_storage_ready st h, h)) (probe_passes st scheduled 8 h))"

definition usb_storage_sectors :: "'m usb_stack \<Rightarrow> ('m, 'a) usb_scheme \<Rightarrow> u32" where
  "usb_storage_sectors st h = (if usb_storage_ready st h then ud_numblocks (the (us_card h)) else 0)"

text \<open>The data read, or nothing for a write.\<close>

definition usb_storage_blocks :: "'m usb_stack \<Rightarrow> u32 \<Rightarrow> nat \<Rightarrow> bytes \<Rightarrow> bool \<Rightarrow> ('m, 'a) usb_scheme \<Rightarrow> bytes option \<times> ('m, 'a) usb_scheme" where
  "usb_storage_blocks st lba count data out h =
     (let sectors = usb_storage_sectors st h in
      if count = 0 \<or> 128 < count \<or> sectors \<le> lba \<or> unat (sectors - lba) < count then (None, h)
      else case st_transfer st (us_bus h) (the (us_card h)) lba count out data of (ok, bytes, m) \<Rightarrow>
        (if ok then Some bytes else None,
         h\<lparr>us_bus := m, us_requests := us_requests h @ [\<lparr>rq_lba = lba, rq_count = count, rq_write = out\<rparr>]\<rparr>))"

definition usb_storage_sync :: "'m usb_stack \<Rightarrow> ('m, 'a) usb_scheme \<Rightarrow> bool \<times> ('m, 'a) usb_scheme" where
  "usb_storage_sync st h =
     (if \<not> usb_storage_ready st h then (False, h)
      else case st_sync st (us_bus h) (the (us_card h)) of (ok, m) \<Rightarrow> (ok, h\<lparr>us_bus := m\<rparr>))"

section \<open>The block interface\<close>

datatype dresult = RES_OK | RES_ERROR | RES_NOTRDY | RES_PARERR

datatype ioctl = CTRL_SYNC | GET_SECTOR_COUNT | GET_SECTOR_SIZE | GET_BLOCK_SIZE | Other_Command

definition disk_status :: "'m usb_stack \<Rightarrow> nat \<Rightarrow> ('m, 'a) usb_scheme \<Rightarrow> bool" where
  "disk_status st drive h \<longleftrightarrow> drive = 0 \<and> usb_storage_ready st h"

definition disk_initialize :: "'m usb_stack \<Rightarrow> nat \<Rightarrow> ('m, 'a) usb_scheme \<Rightarrow> bool" where
  "disk_initialize st drive h = disk_status st drive h"

text \<open>The common loop of \<open>disk_read\<close> and \<open>disk_write\<close>: the bytes read so far, if it succeeds.\<close>

function disk_loop :: "'m usb_stack \<Rightarrow> bool \<Rightarrow> u32 \<Rightarrow> nat \<Rightarrow> bytes \<Rightarrow> ('m, 'a) usb_scheme \<Rightarrow> bytes option \<times> ('m, 'a) usb_scheme" where
  "disk_loop st out sector count data h =
     (if count = 0 then (Some [], h)
      else let n = (if 128 < count then 128 else count) in
        case usb_storage_blocks st sector n (take (n * 512) data) out h of
          (None, h) \<Rightarrow> (None, h)
        | (Some bytes, h) \<Rightarrow>
            (case disk_loop st out (sector + word_of_nat n) (count - n) (drop (n * 512) data) h of
               (rest, h) \<Rightarrow> (map_option (\<lambda>r. bytes @ r) rest, h)))"
  by pat_completeness auto
termination by (relation "measure (\<lambda>(st, out, sector, count, data, h). count)") (auto split: if_splits)

declare disk_loop.simps [simp del]

definition disk_read :: "'m usb_stack \<Rightarrow> nat \<Rightarrow> u32 \<Rightarrow> nat \<Rightarrow> ('m, 'a) usb_scheme \<Rightarrow> dresult \<times> bytes \<times> ('m, 'a) usb_scheme" where
  "disk_read st drive sector count h =
     (if drive \<noteq> 0 \<or> count = 0 then (RES_PARERR, [], h)
      else case disk_loop st False sector count [] h of
        (None, h) \<Rightarrow> (RES_ERROR, [], h) | (Some bytes, h) \<Rightarrow> (RES_OK, bytes, h))"

definition disk_write :: "'m usb_stack \<Rightarrow> nat \<Rightarrow> bytes \<Rightarrow> u32 \<Rightarrow> nat \<Rightarrow> ('m, 'a) usb_scheme \<Rightarrow> dresult \<times> ('m, 'a) usb_scheme" where
  "disk_write st drive data sector count h =
     (if drive \<noteq> 0 \<or> count = 0 then (RES_PARERR, h)
      else case disk_loop st True sector count data h of
        (None, h) \<Rightarrow> (RES_ERROR, h) | (Some _, h) \<Rightarrow> (RES_OK, h))"

definition disk_ioctl :: "'m usb_stack \<Rightarrow> nat \<Rightarrow> ioctl \<Rightarrow> ('m, 'a) usb_scheme \<Rightarrow> dresult \<times> u32 \<times> ('m, 'a) usb_scheme" where
  "disk_ioctl st drive command h =
     (if drive \<noteq> 0 then (RES_PARERR, 0, h)
      else if \<not> usb_storage_ready st h then (RES_NOTRDY, 0, h)
      else case command of
        CTRL_SYNC \<Rightarrow> (case usb_storage_sync st h of (ok, h) \<Rightarrow> (if ok then RES_OK else RES_ERROR, 0, h))
      | GET_SECTOR_COUNT \<Rightarrow> (RES_OK, usb_storage_sectors st h, h)
      | GET_SECTOR_SIZE \<Rightarrow> (RES_OK, 512, h)
      | GET_BLOCK_SIZE \<Rightarrow> (RES_OK, 1, h)
      | Other_Command \<Rightarrow> (RES_PARERR, 0, h))"

section \<open>What the set-up leaves alone\<close>

definition same_more :: "'a hw_scheme \<Rightarrow> ('b \<times> 'a hw_scheme) option \<Rightarrow> bool" where
  "same_more g r \<longleftrightarrow> (case r of None \<Rightarrow> True | Some (b, h) \<Rightarrow> hw.more h = hw.more g)"

lemma access_more [simp]:
  "hw.more (snd (mmio_read a h)) = hw.more h" "hw.more (mmio_write a v h) = hw.more h" "hw.more (snd (board_timestamp h)) = hw.more h"
  "hw.more (vTaskDelay n h) = hw.more h"
  by (simp_all add: hw_defs board_timestamp_def stamp_sample_def stamp_extend_def Let_def)

lemma fold_write_more: "hw.more (fold (\<lambda>b. mmio_write k (f b)) bs h) = hw.more h"
  by (induction bs arbitrary: h) simp_all

lemma begin_more: "hw.more (iic_begin x c a bs n r h) = hw.more h"
  by (simp add: iic_begin_def Let_def fold_write_more)

lemma turn_more:
  "iic_turn x late c h = Inl (b, h') \<Longrightarrow> hw.more h' = hw.more h" "iic_turn x late c h = Inr h' \<Longrightarrow> hw.more h' = hw.more h"
  by (auto simp: iic_turn_def case_prod_beta Let_def split: if_splits)

lemma wait_more:
  assumes "iic_wait x late c h = Some r"
  shows "hw.more (snd r) = hw.more h"
proof (rule iic_wait.raw_induct [of "\<lambda>x late c h r. hw.more (snd r) = hw.more h" "(((x, late), c), h)" r, unfolded prod.case])
  fix f :: "xiicps \<Rightarrow> (u64 \<Rightarrow> bool) \<Rightarrow> u32 \<Rightarrow> 'a hw_scheme \<Rightarrow> (bool \<times> 'a hw_scheme) option" and x late c h r
  assume IH: "\<And>x late c h r. f x late c h = Some r \<Longrightarrow> hw.more (snd r) = hw.more h"
    and step: "(case iic_turn x late c h of Inl r \<Rightarrow> Some r | Inr h \<Rightarrow> f x late c h) = Some r"
  show "hw.more (snd r) = hw.more h"
  proof (cases "iic_turn x late c h")
    case (Inl w)
    then show ?thesis using step turn_more(1) [of x late c h "fst r" "snd r"] by simp
  next
    case (Inr g)
    then show ?thesis using IH [of x late c g r] step turn_more(2) [OF Inr] by simp
  qed
qed (rule assms)

lemma bytes_more: "hw.more (snd (iic_bytes x n h)) = hw.more h"
  by (induction n arbitrary: h) (simp_all add: case_prod_beta)

lemma finish_more: "same_more h (iic_finish x late c n r h)"
proof (cases "iic_wait x late c h")
  case (Some w)
  then show ?thesis
    using wait_more [OF Some] by (cases w) (simp add: iic_finish_def same_more_def case_prod_beta bytes_more)
qed (simp add: iic_finish_def same_more_def)

lemma same_more_cong: "same_more g r \<Longrightarrow> hw.more g = hw.more h \<Longrightarrow> same_more h r"
  by (auto simp: same_more_def split: option.splits)

lemma same_more_simps [simp]: "same_more g None" "same_more g (Some (b, h)) = (hw.more h = hw.more g)"
  by (simp_all add: same_more_def)

lemma xfer_more: "same_more h (i2c_xfer x a bs n r h)"
proof -
  have "same_more h (iic_finish x late c n r k)" if "hw.more k = hw.more h" for late c k using same_more_cong [OF finish_more that] .
  then show ?thesis by (simp add: i2c_xfer_def case_prod_beta Let_def begin_more)
qed

lemma then_more: "same_more g r \<Longrightarrow> (\<And>b h. hw.more h = hw.more g \<Longrightarrow> same_more g (k b h)) \<Longrightarrow> same_more g (then_if r k)"
proof -
  assume r: "same_more g r" and k: "\<And>b h. hw.more h = hw.more g \<Longrightarrow> same_more g (k b h)"
  show "same_more g (then_if r k)"
  proof (cases r)
    case (Some w)
    obtain b h where w: "w = (b, h)" by (cases w)
    show ?thesis using r k by (cases b) (simp_all add: Some w then_if_def)
  qed (simp add: then_if_def)
qed

lemma xfer_from: "hw.more h = hw.more g \<Longrightarrow> same_more g (i2c_xfer x a bs n r h)"
  by (rule same_more_cong [OF xfer_more])

lemma spin_more: "spin until h = Some h' \<Longrightarrow> hw.more h' = hw.more h"
proof (rule spin.raw_induct [where P = "\<lambda>until h h'. hw.more h' = hw.more h"])
  fix f :: "u64 \<Rightarrow> 'a hw_scheme \<Rightarrow> 'a hw_scheme option" and until h h'
  assume IH: "\<And>until h h'. f until h = Some h' \<Longrightarrow> hw.more h' = hw.more h"
    and step: "(case board_timestamp h of (now, h) \<Rightarrow> if now < until then f until h else Some h) = Some h'"
  show "hw.more h' = hw.more h" using step by (auto simp: case_prod_beta split: if_splits dest!: IH)
qed

lemma mdelay_more: "usb_mdelay scheduled ms h = Some h' \<Longrightarrow> hw.more h' = hw.more h"
proof (induction ms arbitrary: h)
  case (Suc ms)
  have u: "usb_udelay us g = Some k \<Longrightarrow> hw.more k = hw.more g" for us and g k :: "'a hw_scheme"
    by (auto simp: usb_udelay_def case_prod_beta dest: spin_more)
  show ?case
  proof (cases scheduled)
    case True
    then show ?thesis using Suc.prems by (subst (asm) usb_mdelay.simps) auto
  next
    case False
    then obtain y where y: "usb_udelay 1000 h = Some y" "usb_mdelay scheduled ms y = Some h'"
      using Suc.prems by (subst (asm) usb_mdelay.simps) (auto simp: bind_eq_Some_conv)
    then show ?thesis using Suc.IH [OF y(2)] u [OF y(1)] by simp
  qed
next
  case 0
  then show ?case by (subst (asm) usb_mdelay.simps) (auto split: if_splits)
qed

lemma delayed_from: "hw.more h = hw.more g \<Longrightarrow> same_more g (delayed scheduled ms h)"
  by (auto simp: delayed_def same_more_def dest: mdelay_more split: option.splits)

lemma attach_from: "hw.more h = hw.more g \<Longrightarrow> same_more g (hub_attach x h)"
proof -
  assume h: "hw.more h = hw.more g"
  let ?r = "then_if (i2c_xfer x 0x2d [0, 0, 5, 0, 1, 0x41, 0x1d, 8] 8 False h) (\<lambda>_ h.
      then_if (i2c_xfer x 0x2d [0x99, 0x37, 0] 3 False h) (\<lambda>_ h. i2c_xfer x 0x2d [0xaa, 0x56, 0] 3 False h))"
  have r: "same_more g ?r" by (intro then_more xfer_from h)
  show "same_more g (hub_attach x h)"
  proof (cases ?r)
    case (Some w)
    obtain ok k where w: "w = (ok, k)" by (cases w)
    have "same_more g (i2c_xfer x 0x74 [0] 1 False k)" using r Some w by (intro xfer_from) (simp add: same_more_def)
    then show ?thesis by (auto simp: hub_attach_def Some [simplified] w same_more_def split: option.splits)
  qed (simp add: hub_attach_def same_more_def)
qed

lemma carrier_more: "same_more h (carrier_init st x scheduled h)"
  unfolding carrier_init_def
  by simp (intro impI then_more xfer_from delayed_from attach_from refl, simp_all)

section \<open>Requests stay inside the card\<close>

definition card_ok :: "usb_dev \<Rightarrow> bool" where
  "card_ok d \<longleftrightarrow> ud_vendor d = 0x0424 \<and> ud_product d = 0x2240 \<and> ud_blocksize d = 512 \<and> ud_numblocks d \<le> 0x7fffffff"

definition request_ok :: "request \<Rightarrow> bool" where
  "request_ok r \<longleftrightarrow> 0 < rq_count r \<and> rq_count r \<le> 128 \<and> unat (rq_lba r) + rq_count r < 2 ^ 31"

definition usb_ok :: "('m, 'a) usb_scheme \<Rightarrow> bool" where
  "usb_ok h \<longleftrightarrow> (\<forall>d. us_card h = Some d \<longrightarrow> card_ok d) \<and> list_all request_ok (us_requests h)"

lemma usb_more: "hw.more h = hw.more g \<Longrightarrow> usb_ok h = usb_ok g" for g h :: "('m, 'a) usb_scheme"
  by (cases g, cases h) (simp add: usb_ok_def)

lemma poll_ok: "usb_ok h \<Longrightarrow> usb_ok (usb_poll st h)"
proof -
  have c: "usb_ok g \<Longrightarrow> usb_ok (call_back c g)" for c and g :: "('a, 'b) usb_scheme"
    by (cases c) (auto simp: usbdisk_create_def usbdisk_remove_def usb_ok_def card_ok_def)
  have "usb_ok g \<Longrightarrow> usb_ok (fold call_back cs g)" for cs and g :: "('a, 'b) usb_scheme"
    by (induction cs arbitrary: g) (simp_all add: c)
  moreover assume "usb_ok h"
  then have "usb_ok (h\<lparr>us_bus := m\<rparr>)" for m by (simp add: usb_ok_def)
  ultimately show ?thesis by (simp add: usb_poll_def case_prod_beta)
qed

lemma passes_ok: "usb_ok h \<Longrightarrow> probe_passes st scheduled n h = Some h' \<Longrightarrow> usb_ok h'"
proof (induction n arbitrary: h)
  case (Suc n)
  show ?case
  proof (cases "us_card h = None")
    case True
    then obtain k where k: "usb_mdelay scheduled 100 (usb_poll st h) = Some k" "probe_passes st scheduled n k = Some h'"
      using Suc.prems(2) by (auto simp: bind_eq_Some_conv)
    have "usb_ok k" using usb_more [OF mdelay_more [OF k(1)]] poll_ok [OF Suc.prems(1)] by simp
    then show ?thesis using k(2) by (rule Suc.IH)
  qed (use Suc.prems in simp)
qed simp

lemma controller_ok:
  assumes "usb_ok h" and "controller_init st scheduled h = Some (r, h')"
  shows "usb_ok h'"
proof -
  have final: "usb_ok (k\<lparr>us_bus := m, us_host := b\<rparr>) = usb_ok k" for k :: "('a, 'b) usb_scheme" and m b by (simp add: usb_ok_def)
  have w: "usb_ok (mmio_write a v k) = usb_ok k" "usb_ok (snd (mmio_read a k)) = usb_ok k" for a v and k :: "('a, 'b) usb_scheme"
    by (simp_all add: usb_more [OF access_more(1)] usb_more [OF access_more(2)])
  have d: "delayed scheduled ms k = Some (u, k') \<Longrightarrow> usb_ok k' = usb_ok k" for ms u and k k' :: "('a, 'b) usb_scheme"
    using delayed_from [OF refl, of k scheduled ms] usb_more [of k' k] by simp
  show ?thesis
    using assms unfolding controller_init_def then_if_def Let_def case_prod_beta
    by (auto split: if_splits option.splits prod.splits simp: w final dest!: d)
qed

lemma probe_ok:
  assumes "usb_ok h" and "usb_storage_probe st x scheduled h = Some (r, h')"
  shows "usb_ok h'"
proof (cases "us_attempted h")
  case True
  then show ?thesis using assms poll_ok by (auto simp: usb_storage_probe_def Let_def split: if_splits)
next
  case False
  let ?g = "h\<lparr>us_attempted := True\<rparr>"
  have g: "usb_ok ?g" using assms(1) by (simp add: usb_ok_def)
  have "usb_ok k" if "carrier_init st x scheduled ?g = Some (b, k)" for b k
    using carrier_more [of ?g st x scheduled] that g usb_more [of k ?g] by (simp add: same_more_def)
  then have "usb_ok k" if "then_if (carrier_init st x scheduled ?g) (\<lambda>_. controller_init st scheduled) = Some (b, k)" for b k
    using that controller_ok by (fastforce simp: then_if_def split: option.splits)
  then show ?thesis
    using assms(2) False passes_ok by (fastforce simp: usb_storage_probe_def simp del: probe_passes.simps split: option.splits)
qed

lemma ready_card: "usb_storage_ready st h \<Longrightarrow> \<exists>d. us_card h = Some d \<and> usb_storage_sectors st h = ud_numblocks d"
  by (auto simp: usb_storage_ready_def usb_storage_sectors_def split: option.splits)

lemma blocks_range:
  assumes "\<not> (count = 0 \<or> 128 < count \<or> usb_storage_sectors st h \<le> lba \<or> unat (usb_storage_sectors st h - lba) < count)" and "usb_ok h"
  shows "\<exists>d. us_card h = Some d \<and> unat lba + count \<le> unat (ud_numblocks d) \<and> unat (ud_numblocks d) < 2 ^ 31"
proof -
  let ?s = "usb_storage_sectors st h"
  have "usb_storage_ready st h" using assms(1) unfolding usb_storage_sectors_def by (metis word_zero_le)
  then obtain d where d: "us_card h = Some d" "?s = ud_numblocks d" using ready_card by blast
  have "unat (?s - lba) = unat ?s - unat lba" "unat lba < unat ?s" using assms(1) by (auto simp: unat_sub word_less_nat_alt word_le_nat_alt)
  moreover have "unat (ud_numblocks d) < 2 ^ 31" using assms(2) d(1) by (auto simp: usb_ok_def card_ok_def word_le_nat_alt)
  ultimately show ?thesis using d assms(1) by auto
qed

lemma blocks_ok:
  assumes "usb_ok h" and "usb_storage_blocks st lba count data out h = (r, h')"
  shows "usb_ok h'"
proof (cases "count = 0 \<or> 128 < count \<or> usb_storage_sectors st h \<le> lba \<or> unat (usb_storage_sectors st h - lba) < count")
  case True
  then show ?thesis using assms by (auto simp: usb_storage_blocks_def Let_def)
next
  case False
  then have "unat lba + count < 2 ^ 31" using blocks_range [OF False assms(1)] by auto
  then show ?thesis using assms False by (auto simp: usb_storage_blocks_def Let_def case_prod_beta usb_ok_def request_ok_def)
qed

lemma disk_loop_step:
  assumes "0 < count" and "n = min 128 count"
  shows "disk_loop st out sector count data h =
    (case usb_storage_blocks st sector n (take (n * 512) data) out h of
       (None, h) \<Rightarrow> (None, h)
     | (Some bytes, h) \<Rightarrow>
         (case disk_loop st out (sector + word_of_nat n) (count - n) (drop (n * 512) data) h of
            (rest, h) \<Rightarrow> (map_option (\<lambda>r. bytes @ r) rest, h)))"
proof -
  have "(if 128 < count then 128 else count) = n" using assms(2) by simp
  then show ?thesis using assms(1) by (subst disk_loop.simps) (simp only: Let_def if_False refl neq0_conv [symmetric] split: if_split)
qed

lemma loop_ok: "usb_ok h \<Longrightarrow> usb_ok (snd (disk_loop st out sector count data h))"
proof (induction count arbitrary: sector data h rule: less_induct)
  case (less count)
  show ?case
  proof (cases "count = 0")
    case False
    define n where "n = min 128 count"
    obtain r h1 where b: "usb_storage_blocks st sector n (take (n * 512) data) out h = (r, h1)" by fastforce
    have "usb_ok h1" using blocks_ok [OF less.prems b] .
    then have "usb_ok (snd (disk_loop st out (sector + word_of_nat n) (count - n) (drop (n * 512) data) h1))"
      using less.IH [of "count - n"] False by (simp add: n_def)
    then show ?thesis
      using \<open>usb_ok h1\<close> False by (cases r) (simp_all add: disk_loop_step [OF _ n_def] b case_prod_beta)
  qed (simp add: disk_loop.simps less.prems)
qed

text \<open>Calls of the file system and of the settings, in any order.\<close>

datatype disk_op = Probe bool | Read_Blocks nat u32 nat | Write_Blocks nat bytes u32 nat | Io_Control nat ioctl

fun disk_do :: "'m usb_stack \<Rightarrow> xiicps \<Rightarrow> disk_op \<Rightarrow> ('m, 'a) usb_scheme \<Rightarrow> ('m, 'a) usb_scheme option" where
  "disk_do st x (Probe scheduled) h = map_option snd (usb_storage_probe st x scheduled h)"
| "disk_do st x (Read_Blocks drive sector count) h = Some (snd (snd (disk_read st drive sector count h)))"
| "disk_do st x (Write_Blocks drive data sector count) h = Some (snd (disk_write st drive data sector count h))"
| "disk_do st x (Io_Control drive command) h = Some (snd (snd (disk_ioctl st drive command h)))"

fun disk_run :: "'m usb_stack \<Rightarrow> xiicps \<Rightarrow> disk_op list \<Rightarrow> ('m, 'a) usb_scheme \<Rightarrow> ('m, 'a) usb_scheme option" where
  "disk_run st x [] h = Some h"
| "disk_run st x (c # cs) h = Option.bind (disk_do st x c h) (disk_run st x cs)"

lemma disk_do_ok:
  assumes "usb_ok h" and "disk_do st x c h = Some h'"
  shows "usb_ok h'"
proof (cases c)
  case (Probe scheduled)
  then show ?thesis using assms probe_ok by (fastforce simp del: probe_passes.simps)
next
  case (Read_Blocks drive sector count)
  then show ?thesis
    using assms loop_ok [OF assms(1), of st False sector count "[]"] by (auto simp: disk_read_def split: if_splits option.splits prod.splits)
next
  case (Write_Blocks drive data sector count)
  then show ?thesis
    using assms loop_ok [OF assms(1), of st True sector count data] by (auto simp: disk_write_def split: if_splits option.splits prod.splits)
next
  case (Io_Control drive command)
  then show ?thesis
    using assms by (auto simp: disk_ioctl_def usb_storage_sync_def usb_ok_def case_prod_beta split: ioctl.splits if_splits)
qed

text \<open>C13: The card that is used is always the on-board reader with 512-byte blocks, and every request the USB stack is given, over
  any sequence of probes and block calls, has between 1 and 128 blocks and ends below $2^{31}$, so that the signed block
  numbers of the stack never overflow.\<close>
theorem usb_requests_in_range:
  assumes "disk_run st x ops h = Some h'" and "us_card h = None" and "us_requests h = []"
  shows "(\<forall>d. us_card h' = Some d \<longrightarrow> card_ok d) \<and> list_all request_ok (us_requests h')"
proof -
  have "usb_ok h" using assms(2,3) by (simp add: usb_ok_def)
  with assms(1) have "usb_ok h'"
  proof (induction ops arbitrary: h)
    case (Cons c cs)
    then obtain k where k: "disk_do st x c h = Some k" "disk_run st x cs k = Some h'" by (auto simp: bind_eq_Some_conv)
    from Cons.IH [OF k(2) disk_do_ok [OF Cons.prems(2) k(1)]] show ?case .
  qed simp
  then show ?thesis by (simp add: usb_ok_def)
qed

section \<open>A transfer covers its blocks\<close>

definition blocks_of :: "request \<Rightarrow> nat list" where
  "blocks_of r = [unat (rq_lba r)..<unat (rq_lba r) + rq_count r]"

lemma blocks_result:
  assumes "usb_storage_blocks st lba count data out h = (Some bytes, h')" and "usb_ok h"
  shows "us_requests h' = us_requests h @ [\<lparr>rq_lba = lba, rq_count = count, rq_write = out\<rparr>] \<and> us_card h' = us_card h \<and>
    unat (lba + word_of_nat count) = unat lba + count \<and> (\<exists>d. us_card h = Some d \<and> unat lba + count \<le> unat (ud_numblocks d))"
proof -
  have ok: "\<not> (count = 0 \<or> 128 < count \<or> usb_storage_sectors st h \<le> lba \<or> unat (usb_storage_sectors st h - lba) < count)"
    using assms(1) by (auto simp: usb_storage_blocks_def Let_def split: if_splits)
  obtain d where d: "us_card h = Some d" "unat lba + count \<le> unat (ud_numblocks d)" "unat (ud_numblocks d) < 2 ^ 31"
    using blocks_range [OF ok assms(2)] by blast
  have "unat (lba + word_of_nat count) = unat lba + count"
    using d(2,3) by (simp add: unat_word_ariths unat_of_nat)
  then show ?thesis using assms(1) ok d by (auto simp: usb_storage_blocks_def Let_def case_prod_beta split: if_splits)
qed

text \<open>C39: A transfer of the file system that succeeds is cut into consecutive requests in one direction that cover exactly the blocks
  asked for, in order, each of them within the card.\<close>
theorem disk_loop_covers:
  assumes "disk_loop st out sector count data h = (Some bytes, h')" and "usb_ok h" and "0 < count"
  shows "\<exists>rs. us_requests h' = us_requests h @ rs \<and> concat (map blocks_of rs) = [unat sector..<unat sector + count] \<and>
    list_all (\<lambda>r. rq_write r = out) rs \<and> (\<exists>d. us_card h = Some d \<and> unat sector + count \<le> unat (ud_numblocks d))"
  using assms
proof (induction count arbitrary: sector data h bytes rule: less_induct)
  case (less count)
  define n where "n = min 128 count"
  have n: "0 < n" "n \<le> count" using less.prems(3) by (simp_all add: n_def)
  obtain b h1 where b: "usb_storage_blocks st sector n (take (n * 512) data) out h = (Some b, h1)"
    and rest: "\<exists>bs. disk_loop st out (sector + word_of_nat n) (count - n) (drop (n * 512) data) h1 = (Some bs, h')"
    using less.prems(1) by (auto simp: disk_loop_step [OF less.prems(3) n_def] split: option.splits prod.splits)
  note r = blocks_result [OF b less.prems(2)]
  have ok: "usb_ok h1" using blocks_ok [OF less.prems(2) b] .
  let ?r = "\<lparr>rq_lba = sector, rq_count = n, rq_write = out\<rparr>"
  show ?case
  proof (cases "count - n = 0")
    case True
    then have "h' = h1" "count = n" using rest n by (auto simp: disk_loop.simps)
    then show ?thesis using r by (intro exI [of _ "[?r]"]) (auto simp: blocks_of_def)
  next
    case False
    obtain bs where bs: "disk_loop st out (sector + word_of_nat n) (count - n) (drop (n * 512) data) h1 = (Some bs, h')" using rest by blast
    obtain rs where rs: "us_requests h' = us_requests h1 @ rs"
      "concat (map blocks_of rs) = [unat sector + n..<unat sector + n + (count - n)]" "list_all (\<lambda>r. rq_write r = out) rs"
      "\<exists>d. us_card h1 = Some d \<and> unat sector + n + (count - n) \<le> unat (ud_numblocks d)"
      using less.IH [OF _ bs ok] False n r by auto
    have "[unat sector..<unat sector + n] @ [unat sector + n..<unat sector + count] = [unat sector..<unat sector + count]"
      using n(2) upt_add_eq_append [of "unat sector" "unat sector + n" "count - n"] by simp
    moreover have "blocks_of ?r = [unat sector..<unat sector + n]" by (simp add: blocks_of_def)
    ultimately show ?thesis using rs r n by (intro exI [of _ "?r # rs"]) simp
  qed
qed

section \<open>The clock wraps\<close>

text \<open>The 64-bit product of the clock given to the USB stack wraps: at the 781,250 Hz of the board's timestamp the time of day
  falls back to zero after $2^{64}$ millionths of a tick, about 273 days of operation.\<close>
theorem usb_clock_wraps:
  "usb_microseconds 781250 18446744073709 = 23611832414347 \<and> usb_microseconds 781250 18446744073710 = 0"
  by (simp add: usb_microseconds_def)

section \<open>Examples\<close>

text \<open>A stack whose first poll finds the reader; every transfer succeeds.\<close>

definition sample_dev :: usb_dev where
  "sample_dev = \<lparr>ud_address = 1, ud_vendor = 0x0424, ud_product = 0x2240, ud_blocksize = 512, ud_numblocks = 1000\<rparr>"

definition sample_stack :: "nat usb_stack" where
  "sample_stack = \<lparr>st_poll = (\<lambda>m. (Suc m, [Disk_Create sample_dev])), st_ready = (\<lambda>m d. True),
     st_transfer = (\<lambda>m d lba n out data. (True, if out then [] else replicate (n * 512) 0, m)), st_sync = (\<lambda>m d. (True, m)),
     st_xhci = (\<lambda>m. (True, m)), st_iic_set_up = True\<rparr>"

definition sample_usb :: "nat usb" where
  "sample_usb = \<lparr>hw_input = (\<lambda>n p. 0), hw_count = 0, hw_log = [], stamp_last = 0, stamp_high = 0, stamp_hz = 781250, us_attempted = True,
     us_host = True, us_card = None, us_bus = 0, us_requests = []\<rparr>"

lemma sample_polled:
  "usb_storage_probe sample_stack x True sample_usb = Some (True, sample_usb\<lparr>us_bus := 1, us_card := Some sample_dev\<rparr>)"
  by (simp add: usb_storage_probe_def sample_usb_def usb_poll_def sample_stack_def usbdisk_create_def sample_dev_def usb_storage_ready_def)

theorem usb_requests_in_range_witness:
  "\<forall>x. \<exists>h'. disk_run sample_stack x [Probe True, Read_Blocks 0 10 200] sample_usb = Some h' \<and> list_all request_ok (us_requests h')"
proof
  fix x
  obtain h' where run: "disk_run sample_stack x [Probe True, Read_Blocks 0 10 200] sample_usb = Some h'"
    by (simp add: sample_polled)
  have "us_card sample_usb = None" "us_requests sample_usb = []" by (simp_all add: sample_usb_def)
  from usb_requests_in_range [OF run this] run
  show "\<exists>h'. disk_run sample_stack x [Probe True, Read_Blocks 0 10 200] sample_usb = Some h' \<and> list_all request_ok (us_requests h')" by blast
qed

theorem disk_loop_covers_witness:
  "\<exists>h' rs. snd (disk_loop sample_stack True 10 200 [] (sample_usb\<lparr>us_card := Some sample_dev\<rparr>)) = h' \<and> us_requests h' = rs \<and>
     concat (map blocks_of rs) = [10..<210]"
proof -
  let ?h = "sample_usb\<lparr>us_card := Some sample_dev\<rparr>"
  have b: "usb_storage_blocks sample_stack l n d True h = (Some [], h\<lparr>us_bus := us_bus h, us_requests := us_requests h @ [\<lparr>rq_lba = l, rq_count = n, rq_write = True\<rparr>]\<rparr>)"
    if "us_card h = Some sample_dev" "0 < n" "n \<le> 128" "l < 1000" "n \<le> unat (1000 - l)" for l n d and h :: "nat usb"
    using that by (simp add: usb_storage_blocks_def sample_stack_def usb_storage_sectors_def usb_storage_ready_def sample_dev_def Let_def not_le)
  obtain h' where run: "disk_loop sample_stack True 10 200 [] ?h = (Some [], h')"
    by (simp add: disk_loop_step b disk_loop.simps [of _ _ _ 0])
  have "usb_ok ?h" by (simp add: usb_ok_def card_ok_def sample_dev_def sample_usb_def)
  from disk_loop_covers [OF run this] run show ?thesis by (auto simp: sample_usb_def)
qed

end
