(* ===== verification/Console.thy ===== *)
theory Console
  imports Hardware
begin

text \<open>
  The console, \<^verbatim>\<open>software/r5/src/console.c\<close>: every character goes to a ring of 4096 bytes in memory and, when
  the UART is in use, to its FIFO after bounded polling. The offsets and the mask of the UART are those of the vendor's header and a parameter, as
  is the outcome of the vendor's driver in the set-up. Masking interrupts has no effect here.
\<close>

section \<open>State and operations\<close>

abbreviation CONSOLE_BASE :: u32 where "CONSOLE_BASE \<equiv> 0xff010000"
abbreviation LOG_BYTES :: nat where "LOG_BYTES \<equiv> 4096"

record uart_regs =
  ur_status :: u32
  ur_full :: u32
  ur_fifo :: u32
  ur_modem :: u32

record console = hw +
  board_log :: bytes
  board_log_written :: u32
  board_uart_dropped :: u32
  uart_ready :: bool

text \<open>\<open>linux\<close> is the build option \<open>LINUX_CONSOLE\<close>; \<open>None\<close> a failed assertion.\<close>

definition board_console_init :: "uart_regs \<Rightarrow> bool \<Rightarrow> bool \<Rightarrow> bool \<Rightarrow> 'a console_scheme \<Rightarrow> 'a console_scheme option" where
  "board_console_init u linux configured formatted h =
     (if linux then Some (h\<lparr>uart_ready := False\<rparr>)
      else if \<not> configured \<or> \<not> formatted then None
      else Some ((mmio_write (CONSOLE_BASE + ur_modem u) 0 h)\<lparr>uart_ready := True\<rparr>))"

fun uart_put :: "uart_regs \<Rightarrow> u8 \<Rightarrow> nat \<Rightarrow> 'a console_scheme \<Rightarrow> 'a console_scheme" where
  "uart_put u c 0 h = h\<lparr>board_uart_dropped := board_uart_dropped h + 1\<rparr>"
| "uart_put u c (Suc n) h =
     (case mmio_read (CONSOLE_BASE + ur_status u) h of (s, h) \<Rightarrow>
        if s AND ur_full u \<noteq> 0 then uart_put u c n h
        else case mmio_read (CONSOLE_BASE + ur_status u) h of (s, h) \<Rightarrow>
          if s AND ur_full u = 0 then mmio_write (CONSOLE_BASE + ur_fifo u) (ucast c) h else uart_put u c n h)"

definition outbyte :: "uart_regs \<Rightarrow> u8 \<Rightarrow> 'a console_scheme \<Rightarrow> 'a console_scheme" where
  "outbyte u c h =
     (let h = h\<lparr>board_log := (board_log h)[unat (board_log_written h AND 4095) := c], board_log_written := board_log_written h + 1\<rparr>
      in if uart_ready h then uart_put u c 100000 h else h)"

section \<open>The log keeps the tail\<close>

lemma put_keeps:
  "board_log (uart_put u c n h) = board_log h \<and> board_log_written (uart_put u c n h) = board_log_written h"
  by (induction n arbitrary: h) (simp_all add: case_prod_beta hw_defs)

lemma outbyte_log:
  "board_log (outbyte u c h) = (board_log h)[unat (board_log_written h AND 4095) := c]"
  "board_log_written (outbyte u c h) = board_log_written h + 1"
  by (simp_all add: outbyte_def Let_def put_keeps)

lemma log_index: "unat (word_of_nat n AND 4095 :: u32) = n mod LOG_BYTES"
proof -
  have m: "(4095 :: u32) = Bit_Operations.mask 12" by (simp add: mask_eq_exp_minus_1)
  have "unat (word_of_nat n AND Bit_Operations.mask 12 :: u32) = unat (take_bit 12 (word_of_nat n :: u32))"
    by (simp add: take_bit_eq_mask)
  also have "\<dots> = take_bit 12 (take_bit 32 n)" by (simp add: unsigned_take_bit_eq unsigned_of_nat)
  also have "\<dots> = n mod LOG_BYTES" by (simp add: take_bit_nat_def mod_mod_cancel)
  finally show ?thesis unfolding m .
qed

text \<open>C40: However many characters are written, with or without a UART, the memory log holds the last 4096 of them, each at
  its position modulo the size of the ring, and the count is the number written modulo $2^{32}$; a full or stuck UART changes neither.\<close>
theorem console_log_tail:
  assumes "length (board_log h) = LOG_BYTES" and "board_log_written h = 0"
  shows "board_log_written (fold (outbyte u) cs h) = word_of_nat (length cs) \<and>
    (\<forall>i<length cs. length cs \<le> i + LOG_BYTES \<longrightarrow> board_log (fold (outbyte u) cs h) ! (i mod LOG_BYTES) = cs ! i)"
proof -
  have "length (board_log (fold (outbyte u) cs h)) = LOG_BYTES \<and> board_log_written (fold (outbyte u) cs h) = word_of_nat (length cs) \<and>
    (\<forall>i<length cs. length cs \<le> i + LOG_BYTES \<longrightarrow> board_log (fold (outbyte u) cs h) ! (i mod LOG_BYTES) = cs ! i)"
  proof (induction cs rule: rev_induct)
    case Nil
    then show ?case using assms by simp
  next
    case (snoc c cs)
    let ?g = "fold (outbyte u) cs h" and ?n = "length cs"
    have log: "board_log (outbyte u c ?g) = (board_log ?g)[?n mod LOG_BYTES := c]"
      using snoc.IH by (simp add: outbyte_log log_index)
    have "(board_log ?g)[?n mod LOG_BYTES := c] ! (i mod LOG_BYTES) = (cs @ [c]) ! i"
      if i: "i < Suc ?n" "Suc ?n \<le> i + LOG_BYTES" for i
    proof (cases "i = ?n")
      case True
      then show ?thesis using snoc.IH by simp
    next
      case False
      then have "i < ?n" "?n - i < LOG_BYTES" using i by simp_all
      then have "i mod LOG_BYTES \<noteq> ?n mod LOG_BYTES"
        using mod_eq_dvd_iff_nat [of i ?n LOG_BYTES] by (auto dest: dvd_imp_le)
      then show ?thesis using snoc.IH \<open>i < ?n\<close> i by (simp add: nth_append)
    qed
    then show ?case using snoc.IH log by (auto simp: outbyte_log(2))
  qed
  then show ?thesis by blast
qed

text \<open>A character is dropped only after 100000 polls, each of at most two reads, and is otherwise written once.\<close>

lemma uart_put_bounded:
  "\<exists>evs. hw_log (uart_put u c n h) = hw_log h @ evs \<and> length evs \<le> 2 * n + 1 \<and>
     length (filter (\<lambda>e. case e of Wr a v \<Rightarrow> True | _ \<Rightarrow> False) evs) \<le> 1"
proof (induction n arbitrary: h)
  case (Suc n)
  let ?a = "CONSOLE_BASE + ur_status u"
  let ?h1 = "snd (mmio_read ?a h)" and ?h2 = "snd (mmio_read ?a (snd (mmio_read ?a h)))"
  obtain e1 where e1: "hw_log (uart_put u c n ?h1) = hw_log ?h1 @ e1" "length e1 \<le> 2 * n + 1"
    "length (filter (\<lambda>e. case e of Wr a v \<Rightarrow> True | _ \<Rightarrow> False) e1) \<le> 1" using Suc.IH by blast
  obtain e2 where e2: "hw_log (uart_put u c n ?h2) = hw_log ?h2 @ e2" "length e2 \<le> 2 * n + 1"
    "length (filter (\<lambda>e. case e of Wr a v \<Rightarrow> True | _ \<Rightarrow> False) e2) \<le> 1" using Suc.IH by blast
  show ?case using e1 e2 by (auto simp: case_prod_beta hw_simps)
qed simp

text \<open>The ring in use without a UART.\<close>

definition sample_console :: console where
  "sample_console = \<lparr>hw_input = (\<lambda>n p. 0), hw_count = 0, hw_log = [], stamp_last = 0, stamp_high = 0, stamp_hz = 1,
     board_log = replicate LOG_BYTES 0, board_log_written = 0, board_uart_dropped = 0, uart_ready = False\<rparr>"

theorem console_log_tail_witness:
  "\<forall>u. board_log (fold (outbyte u) [72, 105] sample_console) ! 1 = 105"
proof
  fix u
  have "length (board_log sample_console) = LOG_BYTES" "board_log_written sample_console = 0" by (simp_all add: sample_console_def)
  from console_log_tail [OF this, of u "[72, 105]"] show "board_log (fold (outbyte u) [72, 105] sample_console) ! 1 = 105" by auto
qed

end
