(* ===== verification/Boot.thy ===== *)
theory Boot
  imports Network
begin

text \<open>
  Start-up and interrupts: the part of \<open>board_init\<close> that sets the timestamp rate and the port gates and the dispatch of
  interrupts, both of \<^verbatim>\<open>software/r5/src/board.c\<close>, and the start-up task of \<^verbatim>\<open>software/r5/src/main.c\<close>, which loads the
  settings, starts the network and creates the other tasks. The vendor's drivers, the creation of a task and the tick of the
  kernel are parameters. The theorem is about the order of these steps: no port is admitted before the link manager runs.
\<close>

section \<open>Operations\<close>

abbreviation TICK_IRQ :: u32 where "TICK_IRQ \<equiv> 68"
abbreviation DMA_TX_IRQ :: u32 where "DMA_TX_IRQ \<equiv> 127"
abbreviation DMA_RX_IRQ :: u32 where "DMA_RX_IRQ \<equiv> 128"

text \<open>\<open>clock\<close> is the input clock of the timestamp timer; \<open>None\<close> a failed assertion.\<close>

definition board_init :: "u32 \<Rightarrow> 'a hw_scheme \<Rightarrow> 'a hw_scheme option" where
  "board_init clock h =
     (let h = h\<lparr>stamp_hz := clock div 128\<rparr> in
      if stamp_hz h = 0 then None
      else let h = mmio_write (DIAG_BASE + 0x1c) 0 h;
               h = mmio_write (DIAG_BASE + LINK_CLR) 0x1f h
           in Some (mmio_write (DIAG_BASE + LINK_SET) 0x20 h))"

text \<open>\<open>tick\<close> is the tick handler of the kernel.\<close>

definition vApplicationIRQHandler :: "('a dma_scheme \<Rightarrow> 'a dma_scheme) \<Rightarrow> u32 \<Rightarrow> 'a dma_scheme \<Rightarrow> 'a dma_scheme" where
  "vApplicationIRQHandler tick iar h =
     (let n = iar AND 0x3ff in
      if n = TICK_IRQ then tick h
      else if n = DMA_TX_IRQ then fabric_dma_interrupt False h
      else if n = DMA_RX_IRQ then fabric_dma_interrupt True h
      else h)"

text \<open>The tasks created so far go along, each with the world at its creation; \<open>made\<close> says whether the kernel can create a task.\<close>

definition xTaskCreate :: "(string \<Rightarrow> bool) \<Rightarrow> string \<Rightarrow> (string \<times> 'h) list \<times> 'h \<Rightarrow> ((string \<times> 'h) list \<times> 'h) option" where
  "xTaskCreate made name s = (case s of (ts, h) \<Rightarrow> if made name then Some (ts @ [(name, h)], h) else None)"

text \<open>The creation of the task \<open>fabric-rx\<close> is the last step of \<open>network_start\<close>.\<close>

definition startup :: "('v, 'f) fatfs \<Rightarrow> bool \<Rightarrow> (string \<Rightarrow> bool) \<Rightarrow> ip_stack \<Rightarrow> ('v, 'e, 'a) net_scheme \<Rightarrow>
    ((string \<times> ('v, 'e, 'a) net_scheme) list \<times> ('v, 'e, 'a) net_scheme) option" where
  "startup fs recovery made ip h =
     do {
       let h = settings_init fs recovery h;
       s \<leftarrow> xTaskCreate made ''stats'' ([], h);
       (ts, h) \<leftarrow> xTaskCreate made ''sensors'' s;
       h \<leftarrow> network_start fs ip h;
       s \<leftarrow> xTaskCreate made ''snmp'' (ts @ [(''fabric-rx'', h)], h);
       s \<leftarrow> xTaskCreate made ''http'' s;
       s \<leftarrow> xTaskCreate made ''links'' s;
       xTaskCreate made ''stp'' s
     }"

section \<open>Steps that open no gate\<close>

definition inert :: "event \<Rightarrow> bool" where
  "inert e \<longleftrightarrow> (case e of Wr a v \<Rightarrow> a \<noteq> DIAG_BASE + LINK_SET \<and> a \<noteq> DIAG_BASE + FWD_SET | _ \<Rightarrow> True)"

lemma inert_simps [simp]: "inert (Wr a v) \<longleftrightarrow> a \<noteq> DIAG_BASE + LINK_SET \<and> a \<noteq> DIAG_BASE + FWD_SET" "inert (Rd a v)"
  by (simp_all add: inert_def)

lemma inert_shut:
  assumes "list_all inert evs"
  shows "\<not> bit l p \<Longrightarrow> \<not> bit (link_enabled l evs) p" and "\<not> bit f p \<Longrightarrow> \<not> bit (fwd_enabled f evs) p"
  using assms
  by (induction evs arbitrary: l f) (auto simp: inert_def bit_and_iff split: event.splits)

definition inertly :: "'a hw_scheme \<Rightarrow> 'a hw_scheme \<Rightarrow> bool" where
  "inertly g h \<longleftrightarrow> (\<exists>evs. hw_log h = hw_log g @ evs \<and> list_all inert evs)"

lemma inertly_trans [trans]: "inertly g h \<Longrightarrow> inertly h k \<Longrightarrow> inertly g k"
  by (force simp: inertly_def)

lemma inertly_same: "hw_log h = hw_log g \<Longrightarrow> inertly g h"
  by (simp add: inertly_def)

lemma inertly_shut:
  assumes "inertly g h"
  shows "\<not> bit (link_enabled l (hw_log g)) p \<Longrightarrow> \<not> bit (link_enabled l (hw_log h)) p"
    and "\<not> gate f g p \<Longrightarrow> \<not> gate f h p"
  using assms inert_shut by (auto simp: inertly_def)

lemma quiet_inert: "list_all quiet evs \<Longrightarrow> list_all inert evs"
  by (induction evs) (auto simp: quiet_def inert_def split: event.splits)

lemma inertly_clear:
  assumes "reg \<in> set [FWD_CLR, LEARN_CLR]" and "m \<noteq> 0"
  shows "inertly h (clear_and_flush reg m h)"
proof (rule clear_and_flush_trace [OF assms(2), of reg h])
  fix evs
  let ?tail = "if control_failed (clear_and_flush reg m h) then [Wr (DIAG_BASE + FWD_CLR) 0x1f] else []"
  assume log: "hw_log (clear_and_flush reg m h) = hw_log h @ evs @ ?tail"
    and evs: "list_all quiet evs \<and> control_failed (clear_and_flush reg m h) \<or>
      (\<exists>w1 w2. evs = w1 @ [Wr (DIAG_BASE + reg) (ucast m AND 0x3f)] @ w2 \<and> list_all quiet w1 \<and> list_all quiet w2 \<and>
        idle_after 100 w1 \<and> (control_failed (clear_and_flush reg m h) \<or> idle_after 100 w2))"
  have "inert (Wr (DIAG_BASE + reg) v)" for v using assms(1) by auto
  then have "list_all inert evs" using evs quiet_inert by auto
  then have "list_all inert (evs @ ?tail)" by simp
  then show ?thesis using log by (auto simp: inertly_def)
qed

lemma fwd_clear_shuts: "p < 5 \<Longrightarrow> \<not> gate f (pstate_fwd_clear 0x1f h) p"
proof (cases "control_failed (clear_and_flush FWD_CLR 0x1f h)")
  case True
  assume p: "p < 5"
  have five: "(0x1f :: u32) = Bit_Operations.mask 5" by (simp add: mask_eq_exp_minus_1)
  obtain evs where "hw_log (clear_and_flush FWD_CLR 0x1f h) = hw_log h @ evs @ [Wr (DIAG_BASE + FWD_CLR) 0x1f]"
    by (rule clear_and_flush_trace [of "0x1f" FWD_CLR h]) (use True in auto)
  then show ?thesis using p unfolding five by (simp add: pstate_fwd_clear_def bit_and_iff bit_not_iff bit_mask_iff)
next
  case False
  assume p: "p < 5"
  then show ?thesis using clear_gate(2) [OF False, of p f] by (simp add: pstate_fwd_clear_def five_ports bit_mask_iff)
qed

lemma inertly_prepare: "inertly h (stp_prepare e h)"
proof -
  have abi: "inertly h (snd (pstate_stp_supported h))"
    by (simp add: inertly_def pstate_stp_supported_def case_prod_beta hw_simps)
  have "inertly (snd (pstate_stp_supported h)) (pstate_latch_fault (snd (pstate_stp_supported h)))"
    by (simp add: inertly_def pstate_latch_fault_def hw_simps)
  note fault = inertly_trans [OF abi this]
  have "inertly g (pstate_learn_clear 0x1f (pstate_fwd_clear 0x1f g))" for g :: "'a pstate_scheme"
    unfolding pstate_learn_clear_def pstate_fwd_clear_def
    by (rule inertly_trans [OF inertly_clear inertly_clear]) simp_all
  then show ?thesis using abi fault
    by (auto simp: stp_prepare_def case_prod_beta inertly_same intro: inertly_trans)
qed

lemma prepare_shuts: "p < 5 \<Longrightarrow> \<not> gate f (stp_prepare True h) p"
  by (simp add: stp_prepare_def Let_def pstate_learn_clear_def inertly_shut(2) [OF inertly_clear] fwd_clear_shuts)

lemma ports_configure_same:
  "hw_log (snd (board_ports_configure m v h)) = hw_log h" "hw_log (board_sfp_configure r h) = hw_log h"
  by (simp_all add: board_ports_configure_def board_sfp_configure_def)

lemma apply_ports_step:
  "\<exists>g. snd (apply_ports c h) = snd (board_ports_configure (fst (effective_mask c g)) (Some (cfg_advertise c)) (snd (effective_mask c g))) \<and>
     g = board_sfp_configure (ucast (cfg_sfp_speed c)) h"
  by (simp add: apply_ports_def case_prod_beta Let_def)

lemma inertly_apply: "inertly h (snd (apply_ports c h))"
proof -
  let ?g = "board_sfp_configure (ucast (cfg_sfp_speed c)) h"
  have "inertly ?g (snd (effective_mask c ?g))"
    by (simp add: inertly_def effective_mask_def Let_def case_prod_beta board_sfp_capabilities_def hw_simps)
  then show ?thesis
    using apply_ports_step [of c h] by (auto simp: inertly_def ports_configure_same)
qed

lemma apply_ports_store: "store (snd (apply_ports c g)) = store g" for g :: "('v, 'a) settings_scheme"
proof -
  have keep: "store (snd (board_ports_configure m v k)) = store k" "store (board_sfp_configure r k) = store k"
    for m v r and k :: "('v, 'a) settings_scheme"
    by (simp_all add: board_ports_configure_def board_sfp_configure_def)
  show ?thesis using apply_ports_step [of c g] by (auto simp: keep more_settings(3) [OF effective_mask_more])
qed

text \<open>Settings first: what is started afterwards sees them.\<close>

lemma settings_init_boots:
  fixes h :: "('v, 'a) settings_scheme"
  shows "inertly h (settings_init fs recovery h)"
    and "cfg_stp_enabled (st_value (store (settings_init fs recovery h))) \<Longrightarrow> p < 5 \<Longrightarrow> \<not> gate f (settings_init fs recovery h) p"
proof -
  obtain s m where run: "settings_init fs recovery h =
      snd (apply_ports (st_value s) (stp_prepare (cfg_stp_enabled (st_value s)) (h\<lparr>sd := m, store := s\<rparr>)))"
    unfolding settings_init_def Let_def case_prod_beta by blast
  let ?g = "stp_prepare (cfg_stp_enabled (st_value s)) (h\<lparr>sd := m, store := s\<rparr>)"
  have "inertly h (h\<lparr>sd := m, store := s\<rparr>)" by (rule inertly_same) simp
  also have "inertly \<dots> ?g" by (rule inertly_prepare)
  also have "inertly \<dots> (snd (apply_ports (st_value s) ?g))" by (rule inertly_apply)
  finally show "inertly h (settings_init fs recovery h)" by (simp add: run)
  have st: "store (settings_init fs recovery h) = s" by (simp add: run apply_ports_store prepare_fields)
  assume "cfg_stp_enabled (st_value (store (settings_init fs recovery h)))" "p < 5"
  then have "\<not> gate f ?g p" unfolding st by (simp add: prepare_shuts)
  then show "\<not> gate f (settings_init fs recovery h) p" unfolding run by (rule inertly_shut(2) [OF inertly_apply])
qed

section \<open>Start of the network\<close>

definition boots :: "'a dma_scheme \<Rightarrow> 'a dma_scheme \<Rightarrow> bool" where
  "boots g h \<longleftrightarrow> inertly g h \<and> dma.more h = dma.more g"

lemma boots_trans: "boots g h \<Longrightarrow> boots h k \<Longrightarrow> boots g k"
  by (auto simp: boots_def intro: inertly_trans)

lemma boots_refl: "boots g g"
  by (simp add: boots_def inertly_same)

lemma boots_fields:
  "boots g h \<Longrightarrow> boots g (h\<lparr>dma_failed := b\<rparr>)" "boots g h \<Longrightarrow> boots g (h\<lparr>dma_ready := b\<rparr>)"
  "boots g h \<Longrightarrow> boots g (h\<lparr>tx_lock := b\<rparr>)" "boots g h \<Longrightarrow> boots g (h\<lparr>tx_done_made := b\<rparr>)" "boots g h \<Longrightarrow> boots g (rings h)"
  by (simp_all add: boots_def inertly_def rings_def)

lemma boots_access:
  "boots g h \<Longrightarrow> boots g (snd (sense p h))" "boots g h \<Longrightarrow> boots g (snd (mmio_read a h))" "boots g h \<Longrightarrow> boots g (snd (board_timestamp h))"
  by (auto simp: boots_def inertly_def hw_defs board_timestamp_def stamp_sample_def case_prod_beta)

lemma boots_write: "boots g h \<Longrightarrow> inert (Wr a v) \<Longrightarrow> boots g (mmio_write a v h)"
  by (auto simp: boots_def inertly_def hw_defs)

lemmas boots_steps = boots_fields boots_access boots_write

lemma boots_reset: "reset_wait start h = Some r \<Longrightarrow> boots h (snd r)"
proof (rule reset_wait.raw_induct [where P = "\<lambda>start h r. boots h (snd r)"])
  fix f :: "u64 \<Rightarrow> 'a dma_scheme \<Rightarrow> (bool \<times> 'a dma_scheme) option" and start :: u64 and h :: "'a dma_scheme" and r
  let ?k = "snd (mmio_read DMA_BASE h)" and ?k' = "snd (board_timestamp (snd (mmio_read DMA_BASE h)))"
  assume IH: "\<And>start (h :: 'a dma_scheme) r. f start h = Some r \<Longrightarrow> boots h (snd r)"
    and step: "(case mmio_read DMA_BASE h of (v, h) \<Rightarrow>
        if v AND 4 = 0 then Some (True, h)
        else case board_timestamp h of (now, h) \<Rightarrow>
          if ucast (board_timestamp_hz h) div 10 < now - start then Some (False, h\<lparr>dma_failed := True\<rparr>)
          else f start h) = Some r"
  have "boots h ?k" "boots h ?k'" by (simp_all add: boots_steps boots_refl)
  then show "boots h (snd r)"
    using step by (auto simp: case_prod_beta boots_fields dest!: IH intro: boots_trans split: if_splits)
qed

lemma boots_dma_init:
  assumes "fabric_dma_init h = Some (True, h')"
  shows "boots h h' \<and> fabric_dma_healthy h'"
proof (cases "dma_ready h \<or> dma_failed h")
  case True
  then show ?thesis using assms by (auto simp: fabric_dma_init_def boots_refl)
next
  case False
  let ?h1 = "snd (mmio_read (DIAG_BASE + CPU_TX_ABI) h)"
  define k1 where "k1 = (case if tx_lock ?h1 then (1, ?h1) else sense (Create 0) ?h1 of (l, k) \<Rightarrow> k\<lparr>tx_lock := l \<noteq> 0\<rparr>)"
  define k2 where "k2 = (case if tx_done_made k1 then (1, k1) else sense (Create 1) k1 of (d, k) \<Rightarrow> k\<lparr>tx_done_made := d \<noteq> 0\<rparr>)"
  define k3 where "k3 = snd (board_timestamp (mmio_write DMA_BASE 4 k2))"
  have k3: "boots h k3"
    by (simp add: k3_def k2_def k1_def case_prod_beta boots_steps boots_refl)
  obtain k4 where k4: "reset_wait (fst (board_timestamp (mmio_write DMA_BASE 4 k2))) k3 = Some (True, k4)"
    and h': "h' = mmio_write DMA_BASE RUN_IRQ (mmio_write (DMA_BASE + 8) (tx_address 0 (rings k4))
      (mmio_write (DMA_BASE + RX_CH + 0x10) (rx_address (RX_COUNT - 1) (rings k4)) (mmio_write (DMA_BASE + RX_CH) RUN_IRQ
      ((mmio_write (DMA_BASE + 4) IRQ_ALL (mmio_write (DMA_BASE + RX_CH + 4) IRQ_ALL
        (mmio_write (DMA_BASE + RX_CH + 8) (rx_address 0 (rings k4)) (rings k4))))\<lparr>dma_ready := True\<rparr>))))"
      "fabric_dma_healthy h'"
    using assms False
    by (auto simp: fabric_dma_init_def case_prod_beta Let_def k1_def k2_def k3_def rx_address_def tx_address_def hw_defs
        split: if_splits option.splits)
  have "boots h k4" using boots_trans [OF k3 boots_reset [OF k4]] by simp
  then have "boots h h'" unfolding h'(1) by (simp add: boots_steps)
  then show ?thesis using h'(2) by simp
qed

text \<open>The endpoint has the addresses of the settings, or none with DHCP.\<close>

definition endpoint_follows :: "switch_config \<Rightarrow> ('v, 'e, 'a) net_scheme \<Rightarrow> bool" where
  "endpoint_follows c h \<longleftrightarrow> ep_mac h = cfg_mac c ! 0 \<and> ep_want_dhcp h = cfg_dhcp c \<and> net_use_dhcp h = cfg_dhcp c \<and>
     (ep_address h, ep_netmask h, ep_gateway h) =
       (if cfg_dhcp c then (0, 0, 0) else (get32 (cfg_ip c), get32 (cfg_netmask c), get32 (cfg_gateway c)))"

lemma boots_net:
  fixes g h :: "('v, 'e, 'a) net_scheme"
  assumes "boots g h"
  shows "store h = store g" "sd h = sd g" "endpoint_follows c h = endpoint_follows c g"
  using assms by (cases g, cases h, simp add: boots_def endpoint_follows_def)+

lemma network_start_run:
  fixes h :: "('v, 'e, 'a) net_scheme"
  obtains g where "network_start fs ip h = (case fabric_dma_init g of None \<Rightarrow> None | Some (ok, k) \<Rightarrow>
      if \<not> ok \<or> \<not> ip_init ip \<or> \<not> ip_task ip then None
      else Some (k\<lparr>net_service := True, net_drain := True, net_reported := False\<rparr>))"
    and "hw_log g = hw_log h" "hw_input g = hw_input h" "dma_ready g = dma_ready h" "dma_failed g = dma_failed h"
    and "store g = store h" "sd g = sd h" "endpoint_follows (st_value (store h)) g"
proof -
  define c where "c = st_value (store h)"
  define q where "q = (\<lambda>a. if cfg_dhcp c then 0 else get32 a)"
  define g where "g = h\<lparr>net_use_dhcp := cfg_dhcp c, ep_address := q (cfg_ip c), ep_netmask := q (cfg_netmask c),
      ep_gateway := q (cfg_gateway c), ep_mac := cfg_mac c ! 0, ep_want_dhcp := cfg_dhcp c\<rparr>"
  have get: "settings_get fs False h = ((c, st_saved (store h), False), h)"
    by (simp add: settings_get_def c_def)
  show thesis
  proof (rule that [of g])
    show "network_start fs ip h = (case fabric_dma_init g of None \<Rightarrow> None | Some (ok, k) \<Rightarrow>
        if \<not> ok \<or> \<not> ip_init ip \<or> \<not> ip_task ip then None
        else Some (k\<lparr>net_service := True, net_drain := True, net_reported := False\<rparr>))"
      by (simp add: network_start_def get g_def q_def)
  qed (simp_all add: g_def endpoint_follows_def q_def c_def)
qed

lemma network_start_boots:
  fixes h :: "('v, 'e, 'a) net_scheme"
  assumes "network_start fs ip h = Some h'"
  shows "inertly h h' \<and> store h' = store h \<and> sd h' = sd h \<and> endpoint_follows (st_value (store h)) h' \<and> fabric_dma_healthy h' \<and> net_service h'"
proof (rule network_start_run [of fs ip h])
  fix g
  assume run: "network_start fs ip h = (case fabric_dma_init g of None \<Rightarrow> None | Some (ok, k) \<Rightarrow>
      if \<not> ok \<or> \<not> ip_init ip \<or> \<not> ip_task ip then None
      else Some (k\<lparr>net_service := True, net_drain := True, net_reported := False\<rparr>))"
    and g: "hw_log g = hw_log h" "store g = store h" "sd g = sd h" "endpoint_follows (st_value (store h)) g"
  obtain k where k: "fabric_dma_init g = Some (True, k)" "h' = k\<lparr>net_service := True, net_drain := True, net_reported := False\<rparr>"
    using assms by (auto simp: run split: option.splits if_splits)
  have b: "boots g k" "fabric_dma_healthy k" using boots_dma_init [OF k(1)] by simp_all
  then have "inertly h k" using g(1) by (simp add: boots_def inertly_def)
  then show ?thesis
    using boots_net [OF b(1)] g b(2) by (simp add: k(2) inertly_def endpoint_follows_def fabric_dma_healthy_def)
qed

section \<open>Start-up\<close>

lemma board_init_shuts:
  assumes "board_init clock h = Some g" and "p < 5"
  shows "\<not> bit (link_enabled l (hw_log g)) p"
proof -
  have five: "(0x1f :: u32) = Bit_Operations.mask 5" by (simp add: mask_eq_exp_minus_1)
  have "p \<in> {0, 1, 2, 3, 4}" using assms(2) by auto
  then have cpu: "\<not> bit (0x20 :: u32) p" by auto
  have "link_enabled l (hw_log g) = (link_enabled l (hw_log h) AND NOT 0x1f) OR 0x20"
    using assms(1) by (auto simp: board_init_def Let_def hw_simps split: if_splits)
  then show ?thesis
    using assms(2) cpu unfolding five by (simp add: bit_or_iff bit_and_iff bit_not_iff bit_mask_iff)
qed

text \<open>A world that has the settings of another one and comes after it, without having opened a gate in between.\<close>

definition knows :: "('v, 'e, 'a) net_scheme \<Rightarrow> ('v, 'e, 'a) net_scheme \<Rightarrow> bool" where
  "knows g h \<longleftrightarrow> store h = store g \<and> sd h = sd g \<and> inertly g h"

text \<open>C10: Start-up opens nothing and starts nothing too early. When the start-up task has created every task, no physical port is
  linked to the fabric whatever it was before, none forwards if the stored configuration enables the spanning tree, the DMA engine
  works, and the endpoint of the management interface has the MAC and IP settings of that configuration. The tasks are
  created in this order, and at the creation of each of them, the first included, the settings had been loaded: it finds the loaded
  configuration and the medium as the load has left it, and every access of the load comes before. The tasks after the
  first two are created only when the DMA works.\<close>
theorem startup_opens_nothing:
  assumes "board_init clock h = Some g" and "startup fs recovery made ip g = Some (ts, h')"
  shows "(\<forall>p<5. \<not> bit (link_enabled l (hw_log h')) p) \<and>
    (cfg_stp_enabled (st_value (store h')) \<longrightarrow> (\<forall>p<5. \<not> bit (fwd_enabled f (hw_log h')) p)) \<and>
    fabric_dma_healthy h' \<and> knows (settings_init fs recovery g) h' \<and> endpoint_follows (st_value (store h')) h' \<and>
    map fst ts = [''stats'', ''sensors'', ''fabric-rx'', ''snmp'', ''http'', ''links'', ''stp''] \<and>
    (\<forall>w\<in>snd ` set ts. knows (settings_init fs recovery g) w) \<and> (\<forall>w\<in>snd ` set (drop 2 ts). fabric_dma_healthy w)"
proof -
  let ?k = "settings_init fs recovery g"
  have ns: "network_start fs ip ?k = Some h'"
    and ts: "ts = [(''stats'', ?k), (''sensors'', ?k), (''fabric-rx'', h'), (''snmp'', h'), (''http'', h'), (''links'', h'), (''stp'', h')]"
    using assms(2) by (auto simp: startup_def xTaskCreate_def Let_def Option.bind_eq_Some_conv split: if_splits)
  note b = network_start_boots [OF ns]
  have "inertly g h'" using settings_init_boots(1) inertly_trans b by blast
  then have links: "\<not> bit (link_enabled l (hw_log h')) p" if "p < 5" for p
    using inertly_shut(1) board_init_shuts [OF assms(1) that] by blast
  have "\<not> bit (fwd_enabled f (hw_log h')) p" if "cfg_stp_enabled (st_value (store h'))" "p < 5" for p
    using settings_init_boots(2) [of fs recovery g p f] that b inertly_shut(2) [of ?k h' f p] by simp
  moreover have "knows ?k ?k" "knows ?k h'" using b by (simp_all add: knows_def inertly_same)
  ultimately show ?thesis using links b by (simp add: ts)
qed

text \<open>An interrupt that is none of the three known ones changes nothing, and the upper bits of the acknowledge
  register, the requesting processor, do not matter.\<close>

lemma irq_spurious: "iar AND 0x3ff \<notin> {TICK_IRQ, DMA_TX_IRQ, DMA_RX_IRQ} \<Longrightarrow> vApplicationIRQHandler tick iar h = h"
  by (simp add: vApplicationIRQHandler_def Let_def)

lemma irq_masked: "vApplicationIRQHandler tick (iar AND 0x3ff) = vApplicationIRQHandler tick iar"
  by (simp add: vApplicationIRQHandler_def fun_eq_iff and.assoc)

section \<open>Example\<close>

text \<open>A card that stores nothing, a fabric with the expected versions.\<close>

definition boot_input :: "nat \<Rightarrow> port \<Rightarrow> u32" where
  "boot_input n p = (case p of Reg a \<Rightarrow> if a = DIAG_BASE + CPU_TX_ABI then 0x43545801 else 0 | Create i \<Rightarrow> 1 | _ \<Rightarrow> 0)"

definition boot_net :: "(ram, unit) net" where
  "boot_net = stp_task.extend
     (sample_task\<lparr>hw_input := boot_input, rx_queue := None, dma_ready := False, tx_lock := False, tx_done_made := False\<rparr>)
     (net.fields False False readiness_init dhcp_init False 0 False False 1
        (replicate 128 \<lparr>ent_mac = replicate 6 0, ent_ip = replicate 4 0, ent_seen = 0, ent_valid = False\<rparr>)
        [] 0 0 0 0 0 0 0 [] False False)"

definition boot_ip :: ip_stack where
  "boot_ip = \<lparr>ip_consider = (\<lambda>f. True), ip_buffer = (\<lambda>n k. True), ip_queue = (\<lambda>n. True), ip_init = True, ip_task = True\<rparr>"

lemma boot_dma: "\<exists>k. fabric_dma_init h = Some (True, k)" if "hw_input h = boot_input" "\<not> dma_ready h" "\<not> dma_failed h"
  using that
  by (simp add: fabric_dma_init_def hw_defs board_timestamp_def stamp_sample_def stamp_extend_def Let_def boot_input_def
      reset_wait.simps fabric_dma_healthy_def rings_def)

lemma init_input:
  fixes h :: "('v, 'a) settings_scheme"
  assumes "\<not> cfg_stp_enabled config_defaults" and "settings_media_present fs (sd h) = (False, m)"
  shows "hw_input (settings_init fs r h) = hw_input h \<and> dma_ready (settings_init fs r h) = dma_ready h \<and>
    dma_failed (settings_init fs r h) = dma_failed h"
  using assms
  by (auto simp: settings_init_def Let_def defaults_store_def stp_prepare_def apply_ports_def effective_mask_def case_prod_beta
      board_ports_configure_def board_sfp_configure_def board_sfp_capabilities_def hw_defs)

theorem startup_opens_nothing_witness:
  "\<exists>g ts h'. board_init 12800 boot_net = Some g \<and>
     startup (ram_fs\<lparr>usb_probe := (\<lambda>v. (False, v))\<rparr>) False (\<lambda>name. True) boot_ip g = Some (ts, h') \<and>
     \<not> bit (link_enabled 0x3f (hw_log h')) 4 \<and> fst (last ts) = ''stp'' \<and> store (snd (hd ts)) = store h'"
proof -
  let ?fs = "ram_fs\<lparr>usb_probe := (\<lambda>v. (False, v))\<rparr>"
  obtain g where g: "board_init 12800 boot_net = Some g" "hw_input g = boot_input" "\<not> dma_ready g" "\<not> dma_failed g"
    by (simp add: board_init_def Let_def hw_defs boot_net_def stp_task.defs net.defs sample_task_def)
  define k where "k = settings_init ?fs False g"
  have "settings_media_present ?fs (sd g) = (False, (sd g)\<lparr>volume := volume (sd g), mounted := False, media_status := ''card unavailable''\<rparr>)"
    by (simp add: settings_media_present_def ram_fs_def)
  moreover have "\<not> cfg_stp_enabled config_defaults" by (simp add: config_defaults_def)
  ultimately have k: "hw_input k = boot_input" "\<not> dma_ready k" "\<not> dma_failed k"
    using init_input [of ?fs g] g by (simp_all add: k_def)
  obtain h' where h': "network_start ?fs boot_ip k = Some h'"
  proof (rule network_start_run [of ?fs boot_ip k])
    fix x
    assume run: "network_start ?fs boot_ip k = (case fabric_dma_init x of None \<Rightarrow> None | Some (ok, k) \<Rightarrow>
        if \<not> ok \<or> \<not> ip_init boot_ip \<or> \<not> ip_task boot_ip then None
        else Some (k\<lparr>net_service := True, net_drain := True, net_reported := False\<rparr>))"
      and x: "hw_input x = hw_input k" "dma_ready x = dma_ready k" "dma_failed x = dma_failed k"
    obtain y where "fabric_dma_init x = Some (True, y)" using boot_dma [of x] x k by auto
    then show thesis using run that by (simp add: boot_ip_def)
  qed
  have run: "startup ?fs False (\<lambda>name. True) boot_ip g =
      Some ([(''stats'', k), (''sensors'', k), (''fabric-rx'', h'), (''snmp'', h'), (''http'', h'), (''links'', h'), (''stp'', h')], h')"
    using h' by (simp add: startup_def xTaskCreate_def k_def [symmetric])
  show ?thesis
    using g(1) run startup_opens_nothing [OF g(1) run, where l = "0x3f" and f = 0] by (auto simp: knows_def k_def)
qed

end
