(* ===== verification/Spec2Isabelle.thy ===== *)
theory Spec2Isabelle
  imports Policy Settings_Media Config_Web Sha256 Auth Ip_Discovery Usb_Memory Snmp_Replies Snmp_Mib Statistics Stp_Safety Web_Stats
    Mac_Table Network_Safety Web_Safety Snmp_Task Sensors Usb_Storage Console Boot
begin

text \<open>
  Verification of the management firmware of an Ethernet switch on a KR260 board: the C code under
  \<^verbatim>\<open>software/r5/src\<close> and \<^verbatim>\<open>software/r5/include\<close>, which runs on one Cortex-R5 beside the switch fabric. The fabric forwards
  frames by itself; the firmware opens and closes its ports, runs the spanning tree, keeps the configuration on a
  removable card, and serves HTTP and SNMP. Paths below are relative to \<^verbatim>\<open>software/r5/src\<close> unless they say otherwise.

  \<^bold>\<open>The program and how its parts interact.\<close> \<^verbatim>\<open>main.c\<close> starts the board, loads the settings (\<^verbatim>\<open>settings.c\<close>, over
  \<^verbatim>\<open>config.c\<close>, \<^verbatim>\<open>settings_media.c\<close>, FatFs, \<^verbatim>\<open>usb_diskio.c\<close> and \<^verbatim>\<open>usb_storage.c\<close>) and creates the tasks. The link manager
  (\<^verbatim>\<open>links.c\<close>) observes the PHYs every 250 ms, sets up the MACs and admits or removes ports through \<^verbatim>\<open>policy.c\<close> and
  \<^verbatim>\<open>pstate.c\<close>, and tells the network interface (\<^verbatim>\<open>network.c\<close>) whether any port is up. The network service drains the DMA
  driver (\<^verbatim>\<open>fabric_dma.c\<close>): control frames go to the spanning tree task (\<^verbatim>\<open>stp_task.c\<close>, \<^verbatim>\<open>stp.c\<close>), the others to the IP stack, and
  ARP is observed for the address table (\<^verbatim>\<open>ip_discovery.c\<close>). The spanning tree task drives the same port gates. The
  HTTP server (\<^verbatim>\<open>web_task.c\<close>, \<^verbatim>\<open>web_protocol.c\<close>, \<^verbatim>\<open>config_web.c\<close>, \<^verbatim>\<open>mac_table_web.c\<close>, \<^verbatim>\<open>auth.c\<close>) and the SNMP agent
  (\<^verbatim>\<open>snmp_task.c\<close>, \<^verbatim>\<open>snmp_mib.c\<close>, \<^verbatim>\<open>snmp_protocol.c\<close>) read snapshots of the statistics (\<^verbatim>\<open>statistics.c\<close>), the sensors
  (\<^verbatim>\<open>sensors.c\<close>) and the ports, and the HTTP server changes the settings.

  \<^bold>\<open>How it is modelled.\<close> A C structure is a record, an integer a word of its width, a buffer a list of bytes, a failed
  operation an option or a Boolean beside the new state. The hardware is a world (\<open>Hardware\<close>): a stream of inputs
  indexed by the number of accesses made, and a log of the accesses. Each component extends the record of the world
  with its static variables, in the order hardware, port state, DMA, links, settings, spanning tree, network, web; so an
  operation takes a world and returns one, calls compose as in the code, and a theorem about the log is about the
  order of register accesses. The tasks run on one processor; a run is a list of operations in any order, each of
  them one iteration of a task's loop or one call. Third-party code is a parameter: the spanning tree engine (\<open>mstp\<close>), FatFs (\<open>fatfs\<close>), the USB
  stack (\<open>usb_stack\<close>), the IP stack (\<open>ip_stack\<close>), sockets (\<open>http_env\<close>, \<open>snmp_socket\<close>) and the vendor's drivers and register offsets.

  \<^bold>\<open>Theories.\<close>
  \<^item> \<open>Prelude\<close>, \<open>Text\<close>: words, byte lists, C strings and formatting, wrap-safe time, and the locale \<open>timed_refinement\<close>: a
    step function on wrapped clocks that agrees, step by step, with one on unbounded time agrees over whole runs. It is
    interpreted for the DHCP retry, the link readiness and the 64-bit timestamp.
  \<^item> \<open>Policy\<close> (\<^verbatim>\<open>policy.c\<close>, \<^verbatim>\<open>port_policy.c\<close>): the 250 ms hold-off of a removed link over any run and clock wrap, and the
    refinements just named.
  \<^item> \<open>Config\<close> (\<^verbatim>\<open>config.c\<close>): the record, its checksum and validation, the two-slot load and save. Encoding is
    inverted by decoding, and a record with any one byte changed is refused. The locale \<open>slot_media\<close> says what a save needs of a medium.
  \<^item> \<open>Settings_Media\<close> (\<^verbatim>\<open>settings_media.c\<close>): the medium over FatFs, whose documented behaviour, torn writes included, is the
    locale \<open>fat_volume\<close>; a sublocale gives \<open>slot_media\<close>, so a save is atomic whenever it is interrupted. The interpretation is a
    memory card that can fail at any operation.
  \<^item> \<open>Settings\<close> (\<^verbatim>\<open>settings.c\<close>): what was saved is what the next start loads and gives to the link manager.
  \<^item> \<open>Config_Web\<close>, \<open>Web_Parse\<close>, \<open>Web_Stats\<close>, \<open>Mac_Table\<close>: forms, HTTP requests, JSON documents and the address table. Accepted input is
    well formed, every accepted configuration is valid, a request is framed by its declared length, documents fit their
    buffers, and the dump buffer has one owner at a time.
  \<^item> \<open>Sha256\<close> (\<^verbatim>\<open>third_party/sha256\<close>), \<open>Auth\<close> (\<^verbatim>\<open>auth.c\<close>): streaming hash, PBKDF2, and exactly which credentials pass.
  \<^item> \<open>Web_Task\<close>, \<open>Web_Safety\<close> (\<^verbatim>\<open>web_task.c\<close>): one connection from the first byte to the close. Settings and ports change only on an
    authenticated request, every accepted connection is queued or closed exactly once, and the declared length is that of the body sent.
  \<^item> \<open>Snmp_Protocol\<close>, \<open>Snmp_Replies\<close>, \<open>Snmp_Mib\<close>, \<open>Snmp_Task\<close>: BER, the request handler, the object tree and the task. Answers to GET,
    walks that end, object lists that are ordered and fit, and a turn of the task that answers every well-formed request of the community.
  \<^item> \<open>Hardware\<close> (\<^verbatim>\<open>board.c\<close>), \<open>Snapshots\<close>, \<open>Pstate\<close> (\<^verbatim>\<open>pstate.c\<close>), \<open>Fabric_Dma\<close> (\<^verbatim>\<open>fabric_dma.c\<close>), \<open>Statistics\<close>
    (\<^verbatim>\<open>statistics.c\<close>): the timestamp, the port gates with their bounded flush, the descriptor rings, and the counters. A gate
    operation completes its flush or latches a fault that closes forwarding; a transmission returns within its budget and its
    outcome is described; counters stay consistent.
  \<^item> \<open>Links\<close>, \<open>Links_Steps\<close>, \<open>Links_Safety\<close> (\<^verbatim>\<open>links.c\<close>): the poll, piece by piece, and over any interleaving: a port is set up only
    while its gates are closed, and an open port has the speed its MAC was set up for.
  \<^item> \<open>Stp\<close>, \<open>Stp_Task\<close>, \<open>Stp_Safety\<close> (\<^verbatim>\<open>stp.c\<close>, \<^verbatim>\<open>stp_task.c\<close>): frames sent are frames accepted, and over any interleaving
    with the link manager, settings changes and faults, the gates of the fabric are those the engine asked for.
  \<^item> \<open>Ip_Discovery\<close> (\<^verbatim>\<open>ip_discovery.c\<close>), \<open>Usb_Memory\<close> (\<^verbatim>\<open>usb_memory.c\<close>): table and allocator invariants over runs.
  \<^item> \<open>Network\<close>, \<open>Network_Safety\<close> (\<^verbatim>\<open>network.c\<close>): control and management traffic are kept apart, a DMA fault is final, a turn is
    bounded. The locale \<open>task_invariant\<close> is what a property must respect to survive an iteration of the spanning tree task; it is
    interpreted for both invariants.
  \<^item> \<open>Iic\<close>, \<open>Sensors\<close> (\<^verbatim>\<open>sensors.c\<close>): polled I2C transactions that end while the timestamp advances, and the published sample.
  \<^item> \<open>Usb_Storage\<close> (\<^verbatim>\<open>usb_storage.c\<close>, \<^verbatim>\<open>usb_diskio.c\<close>, \<^verbatim>\<open>usb_runtime.c\<close>): no request leaves the card, transfers of any size
    cover exactly their sectors, and the wrap of the clock of the USB stack.
  \<^item> \<open>Console\<close> (\<^verbatim>\<open>console.c\<close>): the memory log is the tail of what was written. \<open>Boot\<close> (\<^verbatim>\<open>main.c\<close>, \<^verbatim>\<open>board.c\<close>): start-up opens no port.

  \<^bold>\<open>Loops, bounds and fuel.\<close> Loops over data are structural or have a measure. A loop with a count in the source (100 polls of a flush, 16 frames of
  a turn, 100000 polls of the UART, 8 passes of a probe) has the same count here. A loop that waits for hardware without a
  count (\<open>reset_wait\<close>, \<open>wait_done\<close>, \<open>mdio_idle\<close>, \<open>pl_wait_loop\<close>, \<open>iic_wait\<close>, \<open>spin\<close>, \<open>linger\<close>) is a partial function into an option: \<open>None\<close>
  is not returning, and \<open>send_frame_returns\<close> and \<open>iic_transfer_returns\<close> show that the transmission and the I2C
  transfer return when the clock advances. No fuel is used in the model.

  \<^bold>\<open>Not modelled.\<close> The set-up of the interrupt controller, the timers, the caches and the memory protection (\<^verbatim>\<open>board.c\<close>) and the
  exception vectors (\<^verbatim>\<open>vectors.S\<close>) are calls of vendor code or assembly without logic of their own. Console messages, locks and
  critical sections are left out, except the two locks of the HTTP server, whose acquisition can time out; preemption inside
  an operation is not modelled, except the interrupts served while a transmission blocks. The web page, the tests, the RTL of the fabric, the Linux loader, the build and the third-party
  libraries other than SHA-256 are outside the model.
\<close>

end
